(* ===== verification/Prelude.thy ===== *)
theory Prelude
  imports Main "HOL-Library.Word"
begin

text \<open>
  Shared vocabulary of the development: the machine word of the modelled targets, the
  outcome of code that can panic, the \<^theory_text>\<open>named_theorems\<close> collections
  that the component theories fill, and the generic facts on lists, functions and words
  that more than one component uses.

  All of swym is modelled for a 64-bit target, so Rust's \<open>usize\<close> is \<open>64 word\<close>.
\<close>

type_synonym usize = "64 word"

text \<open>
  A call that may hit an \<open>assert!\<close> or \<open>expect\<close> (\<open>Panic\<close>), an \<open>abort!\<close> (\<open>Abort\<close>), or whose
  unsafe precondition may be violated (\<open>Undefined\<close>: a panic in a debug build, undefined
  behaviour in a release build) returns \<open>Inl\<close> the kind of stop, otherwise \<open>Inr\<close> its result.
\<close>

datatype stop = Panic | Abort | Undefined

type_synonym 'a outcome = "stop + 'a"

text \<open>The error of a transaction, and how a read is checked (\<open>src/tx.rs\<close>).\<close>

datatype error = CONFLICT

datatype ordering = ReadWrite | Read | NonExhaustive

named_theorems word_facts \<open>bit-level facts about single epoch words\<close>
named_theorems log_facts \<open>abstraction facts of the transaction logs\<close>
named_theorems vec_facts \<open>abstraction facts of the vectors\<close>

section \<open>Lists\<close>

text \<open>The index of the first element that satisfies a predicate (\<open>Iterator::position\<close>).\<close>

fun position :: "('a \<Rightarrow> bool) \<Rightarrow> 'a list \<Rightarrow> nat option" where
  "position P [] = None"
| "position P (x # xs) = (if P x then Some 0 else map_option Suc (position P xs))"

lemma position_None: "position P xs = None \<longleftrightarrow> (\<forall>x\<in>set xs. \<not> P x)"
  by (induction xs) auto

lemma position_Some:
  "position P xs = Some i \<Longrightarrow> i < length xs \<and> P (xs ! i) \<and> (\<forall>j<i. \<not> P (xs ! j))"
proof (induction xs arbitrary: i)
  case Nil
  then show ?case by simp
next
  case (Cons x xs)
  show ?case
  proof (cases "P x")
    case True
    with Cons.prems show ?thesis by simp
  next
    case False
    with Cons.prems obtain k where k: "position P xs = Some k" and i: "i = Suc k"
      by auto
    from Cons.IH [OF k] False show ?thesis
      by (auto simp: i less_Suc_eq_0_disj)
  qed
qed

text \<open>Splitting a list where the position is found is \<open>takeWhile\<close> / \<open>dropWhile\<close>.\<close>

lemma take_position:
  "take (case position P xs of Some i \<Rightarrow> i | None \<Rightarrow> length xs) xs = takeWhile (\<lambda>x. \<not> P x) xs"
  by (induction xs) (auto split: option.splits)

lemma drop_position:
  "drop (case position P xs of Some i \<Rightarrow> i | None \<Rightarrow> length xs) xs = dropWhile (\<lambda>x. \<not> P x) xs"
  by (induction xs) (auto split: option.splits)

lemma list_all_update: "list_all P xs \<Longrightarrow> P x \<Longrightarrow> list_all P (xs[i := x])"
  using set_update_subset_insert [of xs i x] by (auto simp: list_all_iff)

text \<open>\<open>Vec::swap_remove\<close>: the last element takes the place of the removed one.\<close>

definition swap_remove :: "nat \<Rightarrow> 'a list \<Rightarrow> 'a list" where
  "swap_remove i xs = butlast (xs[i := last xs])"

lemma length_swap_remove [simp]: "length (swap_remove i xs) = length xs - 1"
  by (simp add: swap_remove_def)

section \<open>Words\<close>

text \<open>
  The top bit of a word splits its unsigned range in two halves.
\<close>

unbundle bit_operations_syntax

lemma bit_iff_odd_unat: "bit (w :: usize) n \<longleftrightarrow> odd (unat w div 2 ^ n)"
proof -
  have "bit (unat w) n \<longleftrightarrow> bit w n"
    by (auto simp: bit_unsigned_iff dest: bit_imp_le_length)
  then show ?thesis
    by (simp only: bit_iff_odd [of "unat w"])
qed

lemma bit_63_iff: "bit (w :: usize) 63 \<longleftrightarrow> 2 ^ 63 \<le> unat w"
proof -
  have "unat w < 2 ^ 64"
    using unsigned_less [of w, where ?'a = nat] by simp
  then have "unat w div 2 ^ 63 < 2"
    by simp
  then have "unat w div 2 ^ 63 = 0 \<or> unat w div 2 ^ 63 = 1"
    by linarith
  then have "odd (unat w div 2 ^ 63) \<longleftrightarrow> 2 ^ 63 \<le> unat w"
    by (auto simp: div_eq_0_iff)
  then show ?thesis
    by (simp only: bit_iff_odd_unat)
qed

section \<open>Reachable states\<close>

text \<open>The states a step relation reaches, and the shape of every invariance proof over one.\<close>

inductive reach :: "('s \<Rightarrow> bool) \<Rightarrow> ('s \<Rightarrow> 's \<Rightarrow> bool) \<Rightarrow> 's \<Rightarrow> bool" for init step where
  start: "init s \<Longrightarrow> reach init step s"
| extend: "reach init step s \<Longrightarrow> step s s' \<Longrightarrow> reach init step s'"

locale protocol =
  fixes init :: "'s \<Rightarrow> bool" and step :: "'s \<Rightarrow> 's \<Rightarrow> bool" and inv :: "'s \<Rightarrow> bool"
  assumes inv_init: "init s \<Longrightarrow> inv s"
    and inv_step: "inv s \<Longrightarrow> step s s' \<Longrightarrow> inv s'"
begin

lemma inv_reach: "reach init step s \<Longrightarrow> inv s"
  by (induction rule: reach.induct) (auto intro: inv_init inv_step)

end

end
