(* ===== verification/Epoch.thy ===== *)
theory Epoch
  imports Prelude
begin

text \<open>
  \<open>src/internal/epoch.rs\<close>: the words that hold times. A \<^emph>\<open>quiesce epoch\<close> is an
  unsynchronised time; an \<^emph>\<open>epoch lock\<close> is the version word of one transactional cell
  (top bit: locked; bottom bit: set when no thread is parked on the cell); a
  \<^emph>\<open>thread epoch\<close> is the time a thread is pinned at; the \<^emph>\<open>epoch clock\<close> is the
  global time.

  Every operation on an atomic word is a function of the word's current value. An
  operation that loads the word and later does a compare-exchange takes both the loaded
  value and the value the exchange meets, so that an interleaved change of the word by
  another thread is an argument of the model. Debug assertions are stated as the lemmas
  \<open>\<dots>_debug\<close>: where the precondition of the operation holds, they do.
\<close>

section \<open>Bits of an epoch word\<close>

definition INACTIVE_EPOCH :: usize where
  "INACTIVE_EPOCH = NOT 0"

definition LOCK_BIT :: usize where
  "LOCK_BIT = push_bit 63 1"

definition TICK_SIZE :: usize where
  "TICK_SIZE = push_bit 1 1"

definition UNPARK_BIT :: usize where
  "UNPARK_BIT = push_bit 0 1"

definition FIRST :: usize where
  "FIRST = TICK_SIZE + UNPARK_BIT"

definition lock_bit_set :: "usize \<Rightarrow> bool" where
  "lock_bit_set e \<longleftrightarrow> e AND LOCK_BIT \<noteq> 0"

definition as_unlocked :: "usize \<Rightarrow> usize" where
  "as_unlocked e = e AND NOT LOCK_BIT"

definition toggle_lock_bit :: "usize \<Rightarrow> usize" where
  "toggle_lock_bit e = e XOR LOCK_BIT"

definition unpark_bit_set :: "usize \<Rightarrow> bool" where
  "unpark_bit_set e \<longleftrightarrow> e AND UNPARK_BIT \<noteq> 0"

definition clear_unpark_bit :: "usize \<Rightarrow> usize" where
  "clear_unpark_bit e = e AND NOT UNPARK_BIT"

lemmas epoch_bit_defs =
  INACTIVE_EPOCH_def LOCK_BIT_def TICK_SIZE_def UNPARK_BIT_def FIRST_def lock_bit_set_def
  as_unlocked_def toggle_lock_bit_def unpark_bit_set_def clear_unpark_bit_def

lemma bit_LOCK_BIT: "bit LOCK_BIT n \<longleftrightarrow> n = 63"
  by (auto simp only: LOCK_BIT_def push_bit_of_1 bit_exp_iff possible_bit_def) simp

lemma bit_UNPARK_BIT: "bit UNPARK_BIT n \<longleftrightarrow> n = 0"
  by (auto simp only: UNPARK_BIT_def push_bit_of_1 bit_exp_iff possible_bit_def) simp

lemma lock_bit_set_iff_bit [word_facts]: "lock_bit_set e \<longleftrightarrow> bit e 63"
  by (simp add: lock_bit_set_def LOCK_BIT_def bit_iff_and_push_bit_not_eq_0)

lemma unpark_bit_set_iff_odd [word_facts]: "unpark_bit_set e \<longleftrightarrow> odd (unat e)"
proof -
  have "unpark_bit_set e \<longleftrightarrow> bit e 0"
    by (simp only: unpark_bit_set_def UNPARK_BIT_def bit_iff_and_push_bit_not_eq_0)
  then show ?thesis
    by (simp only: bit_iff_odd_unat) simp
qed

lemma lock_bit_set_iff: "lock_bit_set e \<longleftrightarrow> 2 ^ 63 \<le> unat e"
  by (simp add: lock_bit_set_iff_bit bit_63_iff)

lemma as_unlocked_take_bit [word_facts]: "as_unlocked e = take_bit 63 e"
  by (rule bit_word_eqI) (auto simp: as_unlocked_def bit_LOCK_BIT bit_simps)

lemma unat_as_unlocked: "unat (as_unlocked e) = unat e mod 2 ^ 63"
  by (simp only: as_unlocked_take_bit unsigned_take_bit_eq) (simp add: take_bit_eq_mod)

lemma as_unlocked_idem: "\<not> lock_bit_set e \<Longrightarrow> as_unlocked e = e"
  by (simp add: word_unat_eq_iff unat_as_unlocked lock_bit_set_iff)

lemma not_locked_as_unlocked [simp]: "\<not> lock_bit_set (as_unlocked e)"
  by (simp only: as_unlocked_take_bit lock_bit_set_iff_bit bit_take_bit_iff) simp

lemma lock_bit_set_toggle [simp]: "lock_bit_set (toggle_lock_bit e) \<longleftrightarrow> \<not> lock_bit_set e"
  by (simp add: toggle_lock_bit_def bit_LOCK_BIT lock_bit_set_iff_bit bit_simps)

lemma toggle_toggle [simp]: "toggle_lock_bit (toggle_lock_bit e) = e"
  by (simp add: toggle_lock_bit_def xor.assoc)

lemma as_unlocked_toggle [simp]: "as_unlocked (toggle_lock_bit e) = as_unlocked e"
  by (rule bit_word_eqI)
    (auto simp only: as_unlocked_take_bit bit_take_bit_iff bit_xor_iff toggle_lock_bit_def bit_LOCK_BIT)

lemma unpark_bit_toggle [simp]: "unpark_bit_set (toggle_lock_bit e) \<longleftrightarrow> unpark_bit_set e"
  by (simp only: unpark_bit_set_def UNPARK_BIT_def toggle_lock_bit_def
      bit_iff_and_push_bit_not_eq_0 [symmetric] bit_xor_iff bit_LOCK_BIT) simp

lemma toggle_unlocked: "lock_bit_set e \<Longrightarrow> toggle_lock_bit e = as_unlocked e"
  by (metis as_unlocked_idem as_unlocked_toggle lock_bit_set_toggle)

section \<open>The version carried by a word\<close>

text \<open>
  Ignoring the two flag bits, a word carries a version: clock times are odd, so two times
  compare as their versions do. All statements about the protocol are about versions.
\<close>

definition ver :: "usize \<Rightarrow> nat" where
  "ver w = unat (drop_bit 1 (as_unlocked w))"

lemma ver_eq: "ver w = unat w mod 2 ^ 63 div 2"
  by (simp only: ver_def unat_drop_bit_eq) (simp add: drop_bit_eq_div unat_as_unlocked)

lemma ver_unlocked: "\<not> lock_bit_set w \<Longrightarrow> ver w = unat w div 2"
  by (simp add: ver_eq lock_bit_set_iff)

lemma ver_toggle [simp]: "ver (toggle_lock_bit w) = ver w"
  by (simp only: ver_def as_unlocked_toggle)

lemma ver_as_unlocked [simp]: "ver (as_unlocked w) = ver w"
  by (simp add: ver_eq unat_as_unlocked)

lemma ver_clear_unpark [simp]: "ver (clear_unpark_bit w) = ver w"
proof -
  have "drop_bit 1 (as_unlocked (clear_unpark_bit w)) = drop_bit 1 (as_unlocked w)"
    by (rule bit_word_eqI)
      (auto simp only: as_unlocked_take_bit clear_unpark_bit_def bit_drop_bit_eq comp_def
        bit_take_bit_iff bit_and_iff bit_not_iff bit_UNPARK_BIT possible_bit_word
        dest: bit_imp_le_length)
  then show ?thesis by (simp only: ver_def)
qed

lemma ver_set_unpark [simp]: "ver (w OR UNPARK_BIT) = ver w"
proof -
  have "drop_bit 1 (as_unlocked (w OR UNPARK_BIT)) = drop_bit 1 (as_unlocked w)"
    by (rule bit_word_eqI)
      (auto simp only: as_unlocked_take_bit bit_drop_bit_eq comp_def
        bit_take_bit_iff bit_or_iff bit_UNPARK_BIT)
  then show ?thesis by (simp only: ver_def)
qed

lemma lock_bit_clear_unpark [simp]: "lock_bit_set (clear_unpark_bit w) \<longleftrightarrow> lock_bit_set w"
  by (simp only: lock_bit_set_iff_bit clear_unpark_bit_def bit_and_iff bit_not_iff bit_UNPARK_BIT
      possible_bit_word) simp

lemma lock_bit_set_unpark [simp]: "lock_bit_set (w OR UNPARK_BIT) \<longleftrightarrow> lock_bit_set w"
  by (simp only: lock_bit_set_iff_bit bit_or_iff bit_UNPARK_BIT) simp

lemma unpark_bit_clear [simp]: "\<not> unpark_bit_set (clear_unpark_bit w)"
  by (simp only: unpark_bit_set_def UNPARK_BIT_def bit_iff_and_push_bit_not_eq_0 [symmetric]
      clear_unpark_bit_def bit_and_iff bit_not_iff)
    (simp add: bit_UNPARK_BIT)

lemma unpark_bit_set [simp]: "unpark_bit_set (w OR UNPARK_BIT)"
  by (simp only: unpark_bit_set_def UNPARK_BIT_def bit_iff_and_push_bit_not_eq_0 [symmetric]
      bit_or_iff) (simp add: bit_UNPARK_BIT)

lemma unat_FIRST: "unat FIRST = 3"
  by (simp add: FIRST_def TICK_SIZE_def UNPARK_BIT_def)

lemma unat_TICK_SIZE: "unat TICK_SIZE = 2"
  by (simp add: TICK_SIZE_def)

lemma FIRST_flags: "\<not> lock_bit_set FIRST" "unpark_bit_set FIRST"
  by (simp_all add: lock_bit_set_iff unpark_bit_set_iff_odd unat_FIRST)

lemma unat_INACTIVE: "unat INACTIVE_EPOCH = 2 ^ 64 - 1"
  by (simp add: INACTIVE_EPOCH_def unsigned_minus_1_eq_mask mask_eq_exp_minus_1)

lemma INACTIVE_greatest: "e \<le> INACTIVE_EPOCH"
  by (simp add: INACTIVE_EPOCH_def)

section \<open>Quiesce epochs\<close>

text \<open>
  The \<open>NonZeroUsize\<close> of the source. \<open>PartialOrd\<close> and \<open>Ord\<close> are derived, so they compare
  the contained word.
\<close>

datatype quiesce_epoch = QuiesceEpoch (qget: usize)

instantiation quiesce_epoch :: linorder
begin

definition less_eq_quiesce_epoch :: "quiesce_epoch \<Rightarrow> quiesce_epoch \<Rightarrow> bool" where
  "less_eq_quiesce_epoch a b \<longleftrightarrow> qget a \<le> qget b"

definition less_quiesce_epoch :: "quiesce_epoch \<Rightarrow> quiesce_epoch \<Rightarrow> bool" where
  "less_quiesce_epoch a b \<longleftrightarrow> qget a < qget b"

instance
  by standard (auto simp: less_eq_quiesce_epoch_def less_quiesce_epoch_def intro: quiesce_epoch.expand)

end

lemmas quiesce_order = less_eq_quiesce_epoch_def less_quiesce_epoch_def

definition new_unchecked :: "usize \<Rightarrow> quiesce_epoch" where
  "new_unchecked epoch = QuiesceEpoch epoch"

definition quiesce_new :: "usize \<Rightarrow> quiesce_epoch option" where
  "quiesce_new epoch = (if epoch = 0 then None else Some (QuiesceEpoch epoch))"

text \<open>What the two constructors assert in a debug build.\<close>

definition quiesce_debug :: "usize \<Rightarrow> bool" where
  "quiesce_debug epoch \<longleftrightarrow>
     FIRST \<le> epoch \<and> (\<not> lock_bit_set epoch \<or> epoch = INACTIVE_EPOCH) \<and> epoch \<noteq> 0"

definition max_value :: quiesce_epoch where
  "max_value = the (quiesce_new INACTIVE_EPOCH)"

definition end_of_time :: quiesce_epoch where
  "end_of_time = the (quiesce_new (NOT LOCK_BIT))"

definition read_write_valid_raw :: "quiesce_epoch \<Rightarrow> usize \<Rightarrow> bool" where
  "read_write_valid_raw self target \<longleftrightarrow> qget self \<ge> target"

definition read_write_valid :: "quiesce_epoch \<Rightarrow> usize \<Rightarrow> bool" where
  "read_write_valid self target = read_write_valid_raw self target"

definition is_active :: "quiesce_epoch \<Rightarrow> bool" where
  "is_active self \<longleftrightarrow> qget self \<noteq> INACTIVE_EPOCH"

definition quiesce_next :: "quiesce_epoch \<Rightarrow> quiesce_epoch" where
  "quiesce_next self = new_unchecked (qget self + TICK_SIZE)"

text \<open>The \<open>unwrap\<close>s of \<open>max_value\<close> and \<open>end_of_time\<close> never fail, nor do their assertions.\<close>

lemma max_value_eq: "quiesce_new INACTIVE_EPOCH = Some max_value" "qget max_value = INACTIVE_EPOCH"
  by (simp_all add: max_value_def quiesce_new_def INACTIVE_EPOCH_def)

lemma end_of_time_eq: "quiesce_new (NOT LOCK_BIT) = Some end_of_time" "qget end_of_time = NOT LOCK_BIT"
  by (simp_all add: end_of_time_def quiesce_new_def LOCK_BIT_def)

lemma unat_end_of_time: "unat (NOT LOCK_BIT) = 2 ^ 63 - 1"
  by (simp add: LOCK_BIT_def)

lemma max_value_greatest: "q \<le> max_value"
  by (simp add: quiesce_order max_value_eq INACTIVE_greatest)

lemma end_of_time_active: "is_active end_of_time"
  by (simp add: is_active_def end_of_time_eq word_unat_eq_iff unat_end_of_time unat_INACTIVE)

text \<open>
  A time a transaction can be pinned at, or be published at: unlocked, odd (the unpark bit is
  set), and not before the start of time.
\<close>

definition time_ok :: "quiesce_epoch \<Rightarrow> bool" where
  "time_ok q \<longleftrightarrow> FIRST \<le> qget q \<and> \<not> lock_bit_set (qget q) \<and> unpark_bit_set (qget q)"

lemma time_ok_active: "time_ok q \<Longrightarrow> is_active q"
  by (auto simp: time_ok_def is_active_def lock_bit_set_iff unat_INACTIVE)

lemma time_ok_debug: "time_ok q \<Longrightarrow> quiesce_debug (qget q)"
  by (auto simp: time_ok_def quiesce_debug_def unpark_bit_set_iff_odd)

text \<open>
  The comparison at the heart of the protocol: one unsigned comparison of a pinned time with
  a lock word decides both that the lock is free and that the version is old enough.
\<close>

lemma read_write_valid_iff:
  assumes "time_ok q"
  shows "read_write_valid q w \<longleftrightarrow> \<not> lock_bit_set w \<and> ver w \<le> ver (qget q)"
proof (cases "lock_bit_set w")
  case True
  with assms have "unat (qget q) < unat w"
    by (simp add: time_ok_def lock_bit_set_iff)
  with True show ?thesis
    by (simp add: read_write_valid_def read_write_valid_raw_def word_le_nat_alt)
next
  case False
  from assms have "odd (unat (qget q))" and "\<not> lock_bit_set (qget q)"
    by (auto simp: time_ok_def unpark_bit_set_iff_odd)
  moreover have "(w \<le> qget q) = (unat w \<le> unat (qget q))"
    by (rule word_le_nat_alt)
  ultimately show ?thesis
    using False by (auto simp: read_write_valid_def read_write_valid_raw_def ver_unlocked) presburger+
qed

lemma time_ok_next:
  assumes "time_ok q" and "\<not> lock_bit_set (qget q + TICK_SIZE)"
  shows "time_ok (quiesce_next q)" and "ver (qget (quiesce_next q)) = Suc (ver (qget q))"
    and "unat (qget (quiesce_next q)) = unat (qget q) + 2"
proof -
  from assms(1) have "unat (qget q) < 2 ^ 63"
    by (simp add: time_ok_def lock_bit_set_iff)
  then show n: "unat (qget (quiesce_next q)) = unat (qget q) + 2"
    by (simp add: quiesce_next_def new_unchecked_def unat_word_ariths unat_TICK_SIZE)
  with assms show "time_ok (quiesce_next q)"
    by (auto simp: time_ok_def quiesce_next_def new_unchecked_def unpark_bit_set_iff_odd
        word_le_nat_alt)
  with assms n show "ver (qget (quiesce_next q)) = Suc (ver (qget q))"
    by (simp add: ver_unlocked time_ok_def)
qed

section \<open>Epoch locks\<close>

datatype park_status = NoParked | HasParked

fun merge :: "park_status \<Rightarrow> park_status \<Rightarrow> park_status" where
  "merge HasParked _ = HasParked"
| "merge _ HasParked = HasParked"
| "merge _ _ = NoParked"

definition park_status_of :: "usize \<Rightarrow> park_status" where
  "park_status_of actual = (if unpark_bit_set actual then NoParked else HasParked)"

type_synonym epoch_lock = usize

definition epoch_lock_first :: epoch_lock where
  "epoch_lock_first = FIRST"

definition is_locked :: "epoch_lock \<Rightarrow> bool" where
  "is_locked w = lock_bit_set w"

definition read_write_valid_lockable :: "quiesce_epoch \<Rightarrow> epoch_lock \<Rightarrow> bool" where
  "read_write_valid_lockable self target = read_write_valid self target"

text \<open>\<open>compare_exchange\<close>: the word found, and the word left behind.\<close>

definition compare_exchange :: "usize \<Rightarrow> usize \<Rightarrow> usize \<Rightarrow> bool \<times> usize" where
  "compare_exchange found expected new = (if found = expected then (True, new) else (False, found))"

text \<open>
  \<open>try_lock\<close> loads \<open>actual\<close>; if it is valid, the exchange is tried on the word \<open>found\<close> at
  that later moment. The result is the status, if the lock was taken, and the word left.
\<close>

definition try_lock ::
  "quiesce_epoch \<Rightarrow> epoch_lock \<Rightarrow> epoch_lock \<Rightarrow> park_status option \<times> epoch_lock" where
  "try_lock max_expected actual found =
     (if read_write_valid max_expected actual then
        (case compare_exchange found actual (toggle_lock_bit actual) of
           (True, w) \<Rightarrow> (Some (park_status_of actual), w)
         | (False, w) \<Rightarrow> (None, w))
      else (None, found))"

text \<open>In a hardware transaction \<open>None\<close> is \<open>htx.abort()\<close>.\<close>

definition try_lock_htm :: "quiesce_epoch \<Rightarrow> epoch_lock \<Rightarrow> (park_status \<times> epoch_lock) option" where
  "try_lock_htm max_expected actual =
     (if read_write_valid_raw max_expected actual
      then Some (park_status_of actual, toggle_lock_bit actual) else None)"

definition unlock_publish :: "quiesce_epoch \<Rightarrow> epoch_lock \<Rightarrow> epoch_lock" where
  "unlock_publish epoch w = qget epoch"

text \<open>\<open>unlock_undo\<close> is a load of \<open>prev\<close> and a store, not an exchange.\<close>

definition unlock_undo :: "epoch_lock \<Rightarrow> epoch_lock" where
  "unlock_undo prev = toggle_lock_bit prev"

definition clear_unpark_bit_htm :: "quiesce_epoch \<Rightarrow> epoch_lock \<Rightarrow> epoch_lock option" where
  "clear_unpark_bit_htm max_expected actual =
     (if read_write_valid max_expected actual
      then Some (if unpark_bit_set actual then clear_unpark_bit actual else actual) else None)"

definition try_clear_unpark_bit ::
  "quiesce_epoch \<Rightarrow> epoch_lock \<Rightarrow> epoch_lock \<Rightarrow> park_status option \<times> epoch_lock" where
  "try_clear_unpark_bit max_expected actual found =
     (if read_write_valid max_expected actual then
        if \<not> unpark_bit_set actual then (Some HasParked, found)
        else (case compare_exchange found actual (clear_unpark_bit actual) of
                (True, w) \<Rightarrow> (Some NoParked, w)
              | (False, w) \<Rightarrow> (None, w))
      else (None, found))"

definition set_unpark_bit :: "epoch_lock \<Rightarrow> epoch_lock" where
  "set_unpark_bit w = w OR UNPARK_BIT"

lemma merge_HasParked: "merge a b = HasParked \<longleftrightarrow> a = HasParked \<or> b = HasParked"
  by (cases a; cases b) auto

lemma merge_assoc: "merge (merge a b) c = merge a (merge b c)"
  by (cases a; cases b; cases c) auto

lemma valid_lockable_iff:
  "time_ok q \<Longrightarrow> read_write_valid_lockable q w \<longleftrightarrow> \<not> lock_bit_set w \<and> ver w \<le> ver (qget q)"
  by (simp add: read_write_valid_lockable_def read_write_valid_iff)

lemma try_lock_Some:
  assumes "try_lock q a w = (Some st, w')"
  shows "w = a" "read_write_valid q a" "w' = toggle_lock_bit a" "st = park_status_of a"
  using assms by (auto simp: try_lock_def compare_exchange_def split: if_splits)

lemma try_lock_None: "try_lock q a w = (None, w') \<Longrightarrow> w' = w"
  by (auto simp: try_lock_def compare_exchange_def split: if_splits)

lemma try_clear_unpark_bit_word:
  "try_clear_unpark_bit q a w = (r, w') \<Longrightarrow> time_ok q \<Longrightarrow>
     lock_bit_set w' = lock_bit_set w \<and> ver w' = ver w"
  by (auto simp: try_clear_unpark_bit_def compare_exchange_def split: if_splits)

text \<open>The debug assertion of \<open>try_lock\<close> and \<open>try_clear_unpark_bit\<close>.\<close>

lemma valid_not_locked_debug: "time_ok q \<Longrightarrow> read_write_valid q w \<Longrightarrow> \<not> lock_bit_set w"
  by (simp add: read_write_valid_iff)

section \<open>Thread epochs\<close>

type_synonym thread_epoch = usize

definition thread_epoch_inactive :: thread_epoch where
  "thread_epoch_inactive = INACTIVE_EPOCH"

definition thread_epoch_get :: "thread_epoch \<Rightarrow> quiesce_epoch" where
  "thread_epoch_get w = new_unchecked w"

definition thread_epoch_set :: "quiesce_epoch \<Rightarrow> thread_epoch \<Rightarrow> thread_epoch" where
  "thread_epoch_set value w = qget value"

definition is_quiesced :: "thread_epoch \<Rightarrow> quiesce_epoch \<Rightarrow> bool" where
  "is_quiesced w quiesce_epoch \<longleftrightarrow> thread_epoch_get w > quiesce_epoch"

definition set_collect_epoch :: "thread_epoch \<Rightarrow> thread_epoch" where
  "set_collect_epoch w = thread_epoch_set end_of_time w"

definition thread_epoch_pin :: "quiesce_epoch \<Rightarrow> thread_epoch \<Rightarrow> thread_epoch" where
  "thread_epoch_pin epoch w = thread_epoch_set epoch w"

definition thread_epoch_repin :: "quiesce_epoch \<Rightarrow> thread_epoch \<Rightarrow> thread_epoch" where
  "thread_epoch_repin epoch w = thread_epoch_set epoch w"

definition thread_epoch_unpin :: "thread_epoch \<Rightarrow> thread_epoch" where
  "thread_epoch_unpin w = thread_epoch_set (the (quiesce_new INACTIVE_EPOCH)) w"

lemma thread_epoch_unpin_inactive: "thread_epoch_unpin w = INACTIVE_EPOCH"
  by (simp add: thread_epoch_unpin_def thread_epoch_set_def flip: max_value_def)
    (simp add: max_value_eq)

section \<open>The epoch clock\<close>

type_synonym epoch_clock = usize

definition epoch_clock_new :: epoch_clock where
  "epoch_clock_new = FIRST"

text \<open>\<open>cfg!(target_pointer_width = "64")\<close> is true of the modelled targets.\<close>

definition target_pointer_width_64 :: bool where
  "target_pointer_width_64 = True"

definition clock_now :: "epoch_clock \<Rightarrow> quiesce_epoch option" where
  "clock_now epoch =
     (if target_pointer_width_64 \<or> \<not> lock_bit_set epoch then Some (new_unchecked epoch) else None)"

definition fetch_and_tick :: "epoch_clock \<Rightarrow> quiesce_epoch \<times> epoch_clock" where
  "fetch_and_tick clock = (new_unchecked clock, clock + TICK_SIZE)"

lemma clock_now_Some: "clock_now c = Some (QuiesceEpoch c)"
  by (simp add: clock_now_def target_pointer_width_64_def new_unchecked_def)

text \<open>
  A clock that has not run into the lock bit stays a valid time when ticked, and the tick
  returns the time before it; the version grows by one.
\<close>

definition clock_ok :: "epoch_clock \<Rightarrow> bool" where
  "clock_ok c \<longleftrightarrow> time_ok (QuiesceEpoch c)"

lemma clock_ok_new: "clock_ok epoch_clock_new"
  by (simp add: clock_ok_def time_ok_def epoch_clock_new_def FIRST_flags)

lemma clock_ok_tick:
  assumes "clock_ok c" and "fetch_and_tick c = (q, c')" and "\<not> lock_bit_set c'"
  shows "clock_ok c'" and "q = QuiesceEpoch c" and "quiesce_next q = QuiesceEpoch c'"
    and "ver c' = Suc (ver c)"
  using assms time_ok_next [of "QuiesceEpoch c"]
  by (auto simp: clock_ok_def fetch_and_tick_def new_unchecked_def quiesce_next_def)

definition clock_after :: "nat \<Rightarrow> epoch_clock" where
  "clock_after n = ((\<lambda>c. snd (fetch_and_tick c)) ^^ n) epoch_clock_new"

lemma clock_after_Suc: "clock_after (Suc n) = clock_after n + TICK_SIZE"
  by (simp add: clock_after_def fetch_and_tick_def)

lemma unat_clock_after: "2 * n + 3 < 2 ^ 64 \<Longrightarrow> unat (clock_after n) = 2 * n + 3"
proof (induction n)
  case 0
  show ?case by (simp add: clock_after_def epoch_clock_new_def unat_FIRST)
next
  case (Suc n)
  then have "unat (clock_after n) = 2 * n + 3" by simp
  with Suc.prems show ?case
    by (simp add: clock_after_Suc unat_word_ariths unat_TICK_SIZE)
qed

section \<open>Properties\<close>

text \<open>
  For every pinned time (unlocked, odd, not before the start of time) and every
  lock word, the single unsigned comparison of \<open>read_write_valid_lockable\<close> succeeds exactly if
  the lock is free and its version is not newer than the pinned version. Setting or clearing the
  unpark bit of the word, as parking does, never changes the outcome.
\<close>

theorem epoch_valid_iff_unlocked_and_older:
  assumes "time_ok q"
  shows "(read_write_valid_lockable q w \<longleftrightarrow> \<not> is_locked w \<and> ver w \<le> ver (qget q)) \<and>
    read_write_valid_lockable q (set_unpark_bit w) = read_write_valid_lockable q w \<and>
    read_write_valid_lockable q (clear_unpark_bit w) = read_write_valid_lockable q w"
  using assms by (simp add: valid_lockable_iff is_locked_def set_unpark_bit_def)

lemma epoch_valid_iff_unlocked_and_older_witness:
  "read_write_valid_lockable (QuiesceEpoch 5) 4 \<and> \<not> read_write_valid_lockable (QuiesceEpoch 5) 7"
proof -
  have ok: "time_ok (QuiesceEpoch 5)"
    by (simp add: time_ok_def lock_bit_set_iff unpark_bit_set_iff_odd word_le_nat_alt unat_FIRST)
  have "\<not> lock_bit_set 4" "\<not> lock_bit_set 7"
    by (simp_all add: lock_bit_set_iff)
  with epoch_valid_iff_unlocked_and_older [OF ok, of 4]
    epoch_valid_iff_unlocked_and_older [OF ok, of 7]
  show ?thesis
    by (simp add: is_locked_def ver_eq)
qed

text \<open>
  The life of a lock word. A successful \<open>try_lock\<close> finds a free word of a version
  not newer than the expected one, leaves it locked with the same version and reports parked
  threads exactly if the unpark bit was clear; then no valid time reads the cell and no second
  \<open>try_lock\<close> succeeds; \<open>unlock_undo\<close> restores the word bit for bit, and \<open>unlock_publish\<close> leaves
  a free word of the published version with the unpark bit set. A failed \<open>try_lock\<close> changes
  nothing.
\<close>

theorem epoch_lock_life_cycle:
  assumes "time_ok q" and "time_ok q'" and "try_lock q actual w = (r, w')"
  shows "(case r of
      None \<Rightarrow> w' = w
    | Some status \<Rightarrow>
        \<not> is_locked w \<and> ver w \<le> ver (qget q) \<and> is_locked w' \<and> ver w' = ver w \<and>
        (status = HasParked \<longleftrightarrow> \<not> unpark_bit_set w) \<and>
        \<not> read_write_valid_lockable q' w' \<and> fst (try_lock q' w' w') = None \<and>
        unlock_undo w' = w \<and>
        \<not> is_locked (unlock_publish q' w') \<and> ver (unlock_publish q' w') = ver (qget q') \<and>
        unpark_bit_set (unlock_publish q' w'))"
proof (cases r)
  case None
  with assms(3) show ?thesis by (auto dest: try_lock_None)
next
  case (Some status)
  with assms(3) have "try_lock q actual w = (Some status, w')" by simp
  note w = try_lock_Some [OF this]
  from w(2) assms(1) have "\<not> lock_bit_set actual" "ver actual \<le> ver (qget q)"
    by (simp_all add: read_write_valid_iff)
  with w assms(1,2) Some show ?thesis
    by (auto simp: is_locked_def park_status_of_def valid_lockable_iff try_lock_def
        read_write_valid_iff unlock_undo_def unlock_publish_def time_ok_def)
qed

lemma epoch_lock_life_cycle_witness:
  "try_lock (QuiesceEpoch 5) 4 4 = (Some HasParked, toggle_lock_bit 4) \<and>
   unlock_undo (toggle_lock_bit 4) = 4"
proof -
  have ok: "time_ok (QuiesceEpoch 5)"
    by (simp add: time_ok_def lock_bit_set_iff unpark_bit_set_iff_odd word_le_nat_alt unat_FIRST)
  have run: "try_lock (QuiesceEpoch 5) 4 4 = (Some HasParked, toggle_lock_bit 4)"
    by (simp add: try_lock_def compare_exchange_def read_write_valid_def read_write_valid_raw_def
        park_status_of_def unpark_bit_set_iff_odd)
  with epoch_lock_life_cycle [OF ok ok run] show ?thesis by simp
qed



end
