(* ===== verification/Alloc.thy ===== *)
theory Alloc
  imports Prelude
begin

text \<open>
  \<open>src/internal/alloc/fvec.rs\<close> and \<open>src/internal/alloc/dyn_vec.rs\<close>: the vector with
  unchecked operations, and the vector of dynamically typed values that lays each element
  out as a vtable word followed by the words of the value.

  \<open>Vec\<close> is a list with a capacity. A push beyond the capacity reallocates, with the
  amortised growth of the standard library. The unchecked operations are \<open>Undefined\<close> where
  the source reaches \<open>unreachable_unchecked\<close>.
\<close>

section \<open>FVec\<close>

record 'a fvec =
  fdata :: "'a list"
  fcap :: nat

definition grow :: "nat \<Rightarrow> nat \<Rightarrow> nat" where
  "grow cap required = (if required \<le> cap then cap else max (2 * cap) required)"

definition START_SIZE :: nat where
  "START_SIZE = 0"

definition fvec_with_capacity :: "nat \<Rightarrow> 'a fvec" where
  "fvec_with_capacity capacity = \<lparr>fdata = [], fcap = capacity\<rparr>"

definition fvec_new :: "'a fvec" where
  "fvec_new = fvec_with_capacity START_SIZE"

abbreviation flen :: "'a fvec \<Rightarrow> nat" where
  "flen v \<equiv> length (fdata v)"

definition next_push_allocates :: "'a fvec \<Rightarrow> bool" where
  "next_push_allocates v \<longleftrightarrow> fcap v = flen v"

definition next_n_pushes_allocates :: "'a fvec \<Rightarrow> nat \<Rightarrow> bool" where
  "next_n_pushes_allocates v n \<longleftrightarrow> fcap v < flen v + n"

definition fvec_extend :: "'a fvec \<Rightarrow> 'a list \<Rightarrow> 'a fvec" where
  "fvec_extend v xs = v\<lparr>fdata := fdata v @ xs, fcap := grow (fcap v) (flen v + length xs)\<rparr>"

definition fvec_push :: "'a fvec \<Rightarrow> 'a \<Rightarrow> 'a fvec" where
  "fvec_push v x = fvec_extend v [x]"

definition push_unchecked :: "'a fvec \<Rightarrow> 'a \<Rightarrow> 'a fvec outcome" where
  "push_unchecked v x =
     (if \<not> next_push_allocates v then Inr (v\<lparr>fdata := fdata v @ [x]\<rparr>) else Inl Undefined)"

definition extend_unchecked :: "'a fvec \<Rightarrow> 'a list \<Rightarrow> 'a fvec outcome" where
  "extend_unchecked v xs =
     (if \<not> next_n_pushes_allocates v (length xs) then Inr (v\<lparr>fdata := fdata v @ xs\<rparr>)
      else Inl Undefined)"

definition pop_unchecked :: "'a fvec \<Rightarrow> ('a fvec \<times> 'a) outcome" where
  "pop_unchecked v =
     (if fdata v \<noteq> [] then Inr (v\<lparr>fdata := butlast (fdata v)\<rparr>, last (fdata v))
      else Inl Undefined)"

definition swap_remove_unchecked :: "'a fvec \<Rightarrow> nat \<Rightarrow> ('a fvec \<times> 'a) outcome" where
  "swap_remove_unchecked v index =
     (if index < flen v
      then Inr (v\<lparr>fdata := swap_remove index (fdata v)\<rparr>, fdata v ! index)
      else Inl Undefined)"

definition back_unchecked :: "'a fvec \<Rightarrow> 'a outcome" where
  "back_unchecked v = (if fdata v \<noteq> [] then Inr (last (fdata v)) else Inl Undefined)"

definition fvec_clear :: "'a fvec \<Rightarrow> 'a fvec" where
  "fvec_clear v = v\<lparr>fdata := []\<rparr>"

definition fvec_ok :: "'a fvec \<Rightarrow> bool" where
  "fvec_ok v \<longleftrightarrow> flen v \<le> fcap v"

lemma fvec_ok_with_capacity [vec_facts]:
  "fvec_ok (fvec_with_capacity n)" "fdata (fvec_with_capacity n) = []"
  by (simp_all add: fvec_ok_def fvec_with_capacity_def)

lemma fvec_ok_extend [vec_facts]:
  "fvec_ok (fvec_extend v xs)" "fdata (fvec_extend v xs) = fdata v @ xs"
  by (simp_all add: fvec_ok_def fvec_extend_def grow_def)

lemma fvec_ok_push [vec_facts]:
  "fvec_ok (fvec_push v x)" "fdata (fvec_push v x) = fdata v @ [x]"
  by (simp_all add: fvec_push_def vec_facts)

lemma fvec_ok_clear [vec_facts]: "fvec_ok (fvec_clear v)" "fdata (fvec_clear v) = []"
  by (simp_all add: fvec_ok_def fvec_clear_def)

lemma next_push_allocates_iff: "fvec_ok v \<Longrightarrow> next_push_allocates v \<longleftrightarrow> next_n_pushes_allocates v 1"
  by (auto simp: fvec_ok_def next_push_allocates_def next_n_pushes_allocates_def)

text \<open>Guarded by the allocation test, the unchecked operations are the checked ones.\<close>

lemma push_unchecked_eq:
  "fvec_ok v \<Longrightarrow> \<not> next_push_allocates v \<Longrightarrow> push_unchecked v x = Inr (fvec_push v x)"
  by (auto simp: push_unchecked_def fvec_push_def fvec_extend_def grow_def fvec_ok_def
      next_push_allocates_def)

lemma extend_unchecked_eq:
  "\<not> next_n_pushes_allocates v (length xs) \<Longrightarrow> extend_unchecked v xs = Inr (fvec_extend v xs)"
  by (auto simp: extend_unchecked_def fvec_extend_def grow_def next_n_pushes_allocates_def)

section \<open>Dynamically typed elements\<close>

text \<open>
  A value behind a trait object: its vtable word and its words. How many words a value has
  is recorded in the vtable that the compiler generates; \<open>vts\<close> reads it.
\<close>

type_synonym dyn_elem = "usize \<times> usize list"

definition elem_ok :: "(usize \<Rightarrow> nat) \<Rightarrow> dyn_elem \<Rightarrow> bool" where
  "elem_ok vts e \<longleftrightarrow> length (snd e) = vts (fst e)"

definition as_slice :: "dyn_elem \<Rightarrow> usize list" where
  "as_slice e = fst e # snd e"

definition dyn_words :: "dyn_elem list \<Rightarrow> usize list" where
  "dyn_words es = concat (map as_slice es)"

text \<open>\<open>TraitObject::from_flat\<close> and the cast: the element that starts at a word index.\<close>

definition word_index_unchecked :: "(usize \<Rightarrow> nat) \<Rightarrow> usize list \<Rightarrow> nat \<Rightarrow> dyn_elem outcome" where
  "word_index_unchecked vts ws i =
     (if i < length ws \<and> Suc i + vts (ws ! i) \<le> length ws
      then Inr (ws ! i, take (vts (ws ! i)) (drop (Suc i) ws)) else Inl Undefined)"

text \<open>\<open>Iter::next\<close> until the words are used up.\<close>

function dyn_iter :: "(usize \<Rightarrow> nat) \<Rightarrow> usize list \<Rightarrow> dyn_elem list outcome" where
  "dyn_iter vts [] = Inr []"
| "dyn_iter vts (v # ws) =
     (if length ws < vts v then Inl Undefined
      else case dyn_iter vts (drop (vts v) ws) of
        Inl e \<Rightarrow> Inl e
      | Inr es \<Rightarrow> Inr ((v, take (vts v) ws) # es))"
  by pat_completeness auto
termination
  by (relation "measure (\<lambda>(vts, ws). length ws)") auto

definition dyn_next_push_allocates :: "usize fvec \<Rightarrow> dyn_elem \<Rightarrow> bool" where
  "dyn_next_push_allocates v e = next_n_pushes_allocates v (length (as_slice e))"

definition dyn_push :: "usize fvec \<Rightarrow> dyn_elem \<Rightarrow> usize fvec" where
  "dyn_push v e = fvec_extend v (as_slice e)"

definition dyn_push_unchecked :: "usize fvec \<Rightarrow> dyn_elem \<Rightarrow> usize fvec outcome" where
  "dyn_push_unchecked v e = extend_unchecked v (as_slice e)"

text \<open>
  \<open>drain\<close> empties the vector first and then yields the elements, which are dropped one by
  one; \<open>clear\<close> drains, \<open>clear_no_drop\<close> forgets the elements. The values dropped are part of
  the result.
\<close>

definition dyn_drain :: "(usize \<Rightarrow> nat) \<Rightarrow> usize fvec \<Rightarrow> (usize fvec \<times> dyn_elem list) outcome" where
  "dyn_drain vts v = map_sum id (Pair (fvec_clear v)) (dyn_iter vts (fdata v))"

definition dyn_clear :: "(usize \<Rightarrow> nat) \<Rightarrow> usize fvec \<Rightarrow> (usize fvec \<times> dyn_elem list) outcome" where
  "dyn_clear vts v = dyn_drain vts v"

definition dyn_clear_no_drop :: "usize fvec \<Rightarrow> usize fvec" where
  "dyn_clear_no_drop v = fvec_clear v"

text \<open>
  \<open>DynElemMut::assign_unchecked\<close> on the element at a word index: the new vtable and the new
  words replace the old ones in place, and the old value is dropped. The sizes must agree.
\<close>

definition assign_unchecked ::
  "(usize \<Rightarrow> nat) \<Rightarrow> usize list \<Rightarrow> nat \<Rightarrow> dyn_elem \<Rightarrow> (usize list \<times> dyn_elem) outcome" where
  "assign_unchecked vts ws i new =
     (case word_index_unchecked vts ws i of
        Inl e \<Rightarrow> Inl e
      | Inr old \<Rightarrow>
          if length (snd old) = length (snd new)
          then Inr (take i ws @ as_slice new @ drop (i + length (as_slice new)) ws, old)
          else Inl Undefined)"

text \<open>The word index at which the \<open>k\<close>-th element starts.\<close>

definition word_offset :: "dyn_elem list \<Rightarrow> nat \<Rightarrow> nat" where
  "word_offset es k = length (dyn_words (take k es))"

lemma dyn_words_simps [simp]:
  "dyn_words [] = []" "dyn_words (e # es) = as_slice e @ dyn_words es"
  "dyn_words (es @ es') = dyn_words es @ dyn_words es'"
  by (simp_all add: dyn_words_def)

lemma dyn_words_Nil_iff [simp]: "dyn_words es = [] \<longleftrightarrow> es = []"
  by (cases es) (simp_all add: as_slice_def)

lemma dyn_words_split:
  "k < length es \<Longrightarrow> dyn_words es = dyn_words (take k es) @ as_slice (es ! k) @ dyn_words (drop (Suc k) es)"
  by (metis append_take_drop_id Cons_nth_drop_Suc dyn_words_simps(2,3))

lemma dyn_iter_words [vec_facts]:
  "list_all (elem_ok vts) es \<Longrightarrow> dyn_iter vts (dyn_words es) = Inr es"
  by (induction es) (auto simp: as_slice_def elem_ok_def)

lemma word_index_words [vec_facts]:
  assumes "list_all (elem_ok vts) es" and "k < length es"
  shows "word_index_unchecked vts (dyn_words es) (word_offset es k) = Inr (es ! k)"
proof -
  let ?e = "es ! k"
  from assms have "elem_ok vts ?e" by (simp add: list_all_length)
  then show ?thesis
    using dyn_words_split [OF assms(2)]
    by (simp add: word_index_unchecked_def word_offset_def as_slice_def elem_ok_def nth_append)
qed

lemma word_offset_less: "k < length es \<Longrightarrow> word_offset es k < length (dyn_words es)"
  using dyn_words_split [of k es] by (simp add: word_offset_def as_slice_def)

lemma word_offset_mono: "j < k \<Longrightarrow> k \<le> length es \<Longrightarrow> word_offset es j < word_offset es k"
  using word_offset_less [of j "take k es"] by (simp add: word_offset_def min_def)

lemma word_offset_inj:
  "word_offset es j = word_offset es k \<Longrightarrow> j < length es \<Longrightarrow> k < length es \<Longrightarrow> j = k"
  by (metis less_imp_le_nat linorder_neqE_nat nat_neq_iff word_offset_mono)

lemma word_offset_append: "k \<le> length es \<Longrightarrow> word_offset (es @ es') k = word_offset es k"
  by (simp add: word_offset_def)

lemma word_offset_length: "word_offset es (length es) = length (dyn_words es)"
  by (simp add: word_offset_def)

lemma assign_words [vec_facts]:
  assumes "list_all (elem_ok vts) es" and "k < length es" and "elem_ok vts new"
    and "length (snd new) = length (snd (es ! k))"
  shows "assign_unchecked vts (dyn_words es) (word_offset es k) new =
    Inr (dyn_words (es[k := new]), es ! k)"
proof -
  have "drop (word_offset es k + length (as_slice new)) (dyn_words es) = dyn_words (drop (Suc k) es)"
    using dyn_words_split [OF assms(2)] assms(4) by (simp add: word_offset_def as_slice_def)
  moreover have "take (word_offset es k) (dyn_words es) = dyn_words (take k es)"
    using dyn_words_split [OF assms(2)] by (simp add: word_offset_def)
  ultimately show ?thesis
    using assms by (simp add: assign_unchecked_def word_index_words upd_conv_take_nth_drop)
qed

lemma word_offset_update:
  assumes "length (snd new) = length (snd (es ! k))" and "k < length es"
  shows "word_offset (es[k := new]) j = word_offset es j"
proof -
  have "map (length \<circ> as_slice) (es[k := new]) = map (length \<circ> as_slice) es"
    using assms by (simp add: map_update as_slice_def) (metis comp_apply length_Cons list_update_id map_update as_slice_def nth_map)
  then show ?thesis
    by (simp add: word_offset_def dyn_words_def length_concat flip: take_map)
qed

section \<open>The vector as the logs use it\<close>

text \<open>
  What a client of a dynamically typed vector relies on: the elements it holds (in push
  order), and that a word index handed out for an element keeps naming it, across later
  pushes and across in-place assignment to any element.
\<close>

locale typed_vec =
  fixes elems_of :: "'v \<Rightarrow> 'e list \<Rightarrow> bool"
    and size_of :: "'e \<Rightarrow> nat"
    and push :: "'v \<Rightarrow> 'e \<Rightarrow> 'v"
    and index :: "'v \<Rightarrow> nat \<Rightarrow> 'e outcome"
    and assign :: "'v \<Rightarrow> nat \<Rightarrow> 'e \<Rightarrow> ('v \<times> 'e) outcome"
    and word_len :: "'v \<Rightarrow> nat"
    and offset :: "'e list \<Rightarrow> nat \<Rightarrow> nat"
    and ok :: "'e \<Rightarrow> bool"
  assumes elems_push: "elems_of v es \<Longrightarrow> ok e \<Longrightarrow> elems_of (push v e) (es @ [e])"
    and index_offset: "elems_of v es \<Longrightarrow> k < length es \<Longrightarrow> index v (offset es k) = Inr (es ! k)"
    and assign_offset: "elems_of v es \<Longrightarrow> k < length es \<Longrightarrow> ok e \<Longrightarrow> size_of e = size_of (es ! k) \<Longrightarrow>
      \<exists>v'. assign v (offset es k) e = Inr (v', es ! k) \<and> elems_of v' (es[k := e])"
    and offset_end: "elems_of v es \<Longrightarrow> offset es (length es) = word_len v"
    and offset_append: "k \<le> length es \<Longrightarrow> offset (es @ es') k = offset es k"
    and offset_assign: "k < length es \<Longrightarrow> size_of e = size_of (es ! k) \<Longrightarrow>
      offset (es[k := e]) j = offset es j"
    and offset_inj: "offset es j = offset es k \<Longrightarrow> j < length es \<Longrightarrow> k < length es \<Longrightarrow> j = k"
begin

text \<open>The index handed out by a push names the pushed element, now and after a later push.\<close>

lemma index_pushed:
  assumes "elems_of v es" and "ok e"
  shows "index (push v e) (word_len v) = Inr e"
  using index_offset [OF elems_push [OF assms], of "length es"] offset_end [OF assms(1)]
  by (simp add: offset_append)

lemma index_push_stable:
  assumes "elems_of v es" and "ok e" and "k < length es"
  shows "index (push v e) (offset es k) = index v (offset es k)"
  using index_offset [OF elems_push [OF assms(1,2)], of k] index_offset [OF assms(1,3)] assms(3)
  by (simp add: offset_append nth_append)

text \<open>Assigning one element leaves what the index of another one names.\<close>

lemma index_assign:
  assumes "elems_of v es" and "ok e" and "k < length es" and "size_of e = size_of (es ! k)"
    and "j < length es"
  shows "\<exists>v'. assign v (offset es k) e = Inr (v', es ! k) \<and>
    index v' (offset es j) = Inr (if j = k then e else es ! j)"
proof -
  obtain v' where v': "assign v (offset es k) e = Inr (v', es ! k)" "elems_of v' (es[k := e])"
    using assign_offset [OF assms(1,3,2,4)] by blast
  from index_offset [OF v'(2), of j] assms(3,4,5) v'(1) show ?thesis
    by (auto simp: offset_assign)
qed

end

definition elems_of_words :: "(usize \<Rightarrow> nat) \<Rightarrow> usize fvec \<Rightarrow> dyn_elem list \<Rightarrow> bool" where
  "elems_of_words vts v es \<longleftrightarrow> fvec_ok v \<and> fdata v = dyn_words es \<and> list_all (elem_ok vts) es"

definition dyn_assign ::
  "(usize \<Rightarrow> nat) \<Rightarrow> usize fvec \<Rightarrow> nat \<Rightarrow> dyn_elem \<Rightarrow> (usize fvec \<times> dyn_elem) outcome" where
  "dyn_assign vts v i new = map_sum id (map_prod (\<lambda>ws. v\<lparr>fdata := ws\<rparr>) id) (assign_unchecked vts (fdata v) i new)"

lemma length_dyn_words_update:
  assumes "length (snd new) = length (snd (es ! k))" and "k < length es"
  shows "length (dyn_words (es[k := new])) = length (dyn_words es)"
  using word_offset_update [OF assms, of "length es"] by (simp add: word_offset_def)

interpretation dyn: typed_vec "elems_of_words vts" "length \<circ> snd" dyn_push
  "\<lambda>v. word_index_unchecked vts (fdata v)" "dyn_assign vts" "\<lambda>v. flen v" word_offset "elem_ok vts"
  for vts
proof (unfold_locales, goal_cases)
  case (3 v es k e)
  then show ?case
    by (auto simp: elems_of_words_def dyn_assign_def assign_words list_all_length nth_list_update
        fvec_ok_def length_dyn_words_update)
qed (auto simp: elems_of_words_def dyn_push_def vec_facts word_offset_append word_offset_length
      word_offset_update dest: word_offset_inj)

section \<open>Properties\<close>

text \<open>
  Property C22: the flat word vector is a list of typed values. If it holds the values \<open>es\<close>,
  iterating decodes exactly \<open>es\<close>; pushing appends a value, and the word length before the push
  is the index of the pushed value from then on; assigning a value of the same size at the
  index of the \<open>k\<close>-th value replaces that value alone and returns the old one; and draining
  yields the values in order and leaves the vector empty.
\<close>

theorem dyn_vec_is_typed_list:
  assumes "elems_of_words vts v es" and "elem_ok vts e" and "k < length es"
    and "length (snd e) = length (snd (es ! k))"
  shows "dyn_iter vts (fdata v) = Inr es \<and>
    dyn_iter vts (fdata (dyn_push v e)) = Inr (es @ [e]) \<and>
    word_index_unchecked vts (fdata (dyn_push v e)) (flen v) = Inr e \<and>
    word_index_unchecked vts (fdata (dyn_push v e)) (word_offset es k) = Inr (es ! k) \<and>
    (\<exists>v'. dyn_assign vts v (word_offset es k) e = Inr (v', es ! k) \<and>
       dyn_iter vts (fdata v') = Inr (es[k := e])) \<and>
    dyn_drain vts v = Inr (fvec_clear v, es)"
proof -
  obtain v' where v': "dyn_assign vts v (word_offset es k) e = Inr (v', es ! k)"
    "elems_of_words vts v' (es[k := e])"
    using dyn.assign_offset [OF assms(1,3,2)] assms(4) by auto
  have iter: "elems_of_words vts u xs \<Longrightarrow> dyn_iter vts (fdata u) = Inr xs" for u xs
    by (simp add: elems_of_words_def dyn_iter_words)
  from assms(1) v' iter [OF assms(1)] iter [OF dyn.elems_push [OF assms(1,2)]] iter [OF v'(2)]
    dyn.index_pushed [OF assms(1,2)] dyn.index_push_stable [OF assms(1,2,3)]
    dyn.index_offset [OF assms(1,3)]
  show ?thesis
    by (simp add: dyn_drain_def)
qed

lemma dyn_vec_is_typed_list_witness:
  "dyn_iter (\<lambda>_. 1) [7, 1, 7, 2] = Inr [(7, [1]), (7, [2])]"
proof -
  have "elems_of_words (\<lambda>_. 1) \<lparr>fdata = [7, 1, 7, 2], fcap = 4\<rparr> [(7, [1]), (7, [2])]"
    by (simp add: elems_of_words_def fvec_ok_def as_slice_def elem_ok_def)
  from dyn_vec_is_typed_list [OF this, of "(7, [3])" 0] show ?thesis
    by (simp add: elem_ok_def)
qed

end
