(* ===== verification/Read_Log.thy ===== *)
theory Read_Log
  imports Epoch Alloc
begin

text \<open>
  \<open>src/internal/read_log.rs\<close>: the cells a read-write transaction has read. A cell
  (\<open>&TCellErased\<close>) is named by its non-zero address; \<open>locks\<close> maps the address to the
  current word of its epoch lock. A \<open>None\<close> element is a read that has been filtered out.
\<close>

type_synonym cell = usize

record read_log =
  rl_data :: "cell option fvec"

definition READ_CAPACITY :: nat where
  "READ_CAPACITY = 0"

definition read_log_new :: read_log where
  "read_log_new = \<lparr>rl_data = fvec_with_capacity READ_CAPACITY\<rparr>"

definition rl_is_empty :: "read_log \<Rightarrow> bool" where
  "rl_is_empty rl \<longleftrightarrow> fdata (rl_data rl) = []"

definition rl_next_push_allocates :: "read_log \<Rightarrow> bool" where
  "rl_next_push_allocates rl = next_push_allocates (rl_data rl)"

definition rl_record :: "read_log \<Rightarrow> cell \<Rightarrow> read_log" where
  "rl_record rl c = rl\<lparr>rl_data := fvec_push (rl_data rl) (Some c)\<rparr>"

definition rl_record_unchecked :: "read_log \<Rightarrow> cell \<Rightarrow> read_log outcome" where
  "rl_record_unchecked rl c =
     map_sum id (\<lambda>v. rl\<lparr>rl_data := v\<rparr>) (push_unchecked (rl_data rl) (Some c))"

text \<open>Filtering a log that has been filtered already reaches unreachable code.\<close>

fun filter_elems :: "(cell \<Rightarrow> bool) \<Rightarrow> cell option list \<Rightarrow> cell option list outcome" where
  "filter_elems keep [] = Inr []"
| "filter_elems keep (None # xs) = Inl Undefined"
| "filter_elems keep (Some c # xs) =
     map_sum id (Cons (if \<not> keep c then None else Some c)) (filter_elems keep xs)"

definition filter_in_place :: "(cell \<Rightarrow> bool) \<Rightarrow> read_log \<Rightarrow> read_log outcome" where
  "filter_in_place keep rl =
     map_sum id (\<lambda>xs. rl\<lparr>rl_data := (rl_data rl)\<lparr>fdata := xs\<rparr>\<rparr>) (filter_elems keep (fdata (rl_data rl)))"

definition rl_clear :: "read_log \<Rightarrow> read_log" where
  "rl_clear rl = rl\<lparr>rl_data := fvec_clear (rl_data rl)\<rparr>"

definition rl_len :: "read_log \<Rightarrow> nat" where
  "rl_len rl = flen (rl_data rl)"

definition rl_epoch_locks :: "read_log \<Rightarrow> cell list" where
  "rl_epoch_locks rl = List.map_filter id (fdata (rl_data rl))"

fun validate_loop :: "quiesce_epoch \<Rightarrow> (cell \<Rightarrow> epoch_lock) \<Rightarrow> cell list \<Rightarrow> bool" where
  "validate_loop pin_epoch locks [] = True"
| "validate_loop pin_epoch locks (c # cs) =
     (if \<not> read_write_valid_lockable pin_epoch (locks c) then False
      else validate_loop pin_epoch locks cs)"

definition validate_reads :: "read_log \<Rightarrow> quiesce_epoch \<Rightarrow> (cell \<Rightarrow> epoch_lock) \<Rightarrow> bool" where
  "validate_reads rl pin_epoch locks = validate_loop pin_epoch locks (rl_epoch_locks rl)"

text \<open>In a hardware transaction an invalid read aborts (\<open>False\<close>); the log is walked backwards.\<close>

fun validate_htm_loop ::
  "quiesce_epoch \<Rightarrow> (cell \<Rightarrow> epoch_lock) \<Rightarrow> cell option list \<Rightarrow> bool outcome" where
  "validate_htm_loop pin_epoch locks [] = Inr True"
| "validate_htm_loop pin_epoch locks (None # xs) = Inl Undefined"
| "validate_htm_loop pin_epoch locks (Some c # xs) =
     (if \<not> read_write_valid_lockable pin_epoch (locks c) then Inr False
      else validate_htm_loop pin_epoch locks xs)"

definition validate_reads_htm ::
  "read_log \<Rightarrow> quiesce_epoch \<Rightarrow> (cell \<Rightarrow> epoch_lock) \<Rightarrow> bool outcome" where
  "validate_reads_htm rl pin_epoch locks =
     validate_htm_loop pin_epoch locks (rev (fdata (rl_data rl)))"

section \<open>Lemmas\<close>

text \<open>A log that has not been filtered since it was cleared.\<close>

definition rl_full :: "read_log \<Rightarrow> cell list \<Rightarrow> bool" where
  "rl_full rl cs \<longleftrightarrow> fvec_ok (rl_data rl) \<and> fdata (rl_data rl) = map Some cs"

lemma rl_epoch_locks_full [log_facts]: "rl_full rl cs \<Longrightarrow> rl_epoch_locks rl = cs"
  by (simp add: rl_full_def rl_epoch_locks_def map_filter_def comp_def)

lemma rl_full_new [log_facts]: "rl_full read_log_new []"
  by (simp add: rl_full_def read_log_new_def vec_facts)

lemma rl_full_clear [log_facts]: "rl_full (rl_clear rl) []"
  by (simp add: rl_full_def rl_clear_def vec_facts)

lemma rl_full_record [log_facts]: "rl_full rl cs \<Longrightarrow> rl_full (rl_record rl c) (cs @ [c])"
  by (simp add: rl_full_def rl_record_def vec_facts)

lemma rl_record_unchecked_eq [log_facts]:
  "rl_full rl cs \<Longrightarrow> \<not> rl_next_push_allocates rl \<Longrightarrow> rl_record_unchecked rl c = Inr (rl_record rl c)"
  by (simp add: rl_full_def rl_record_unchecked_def rl_record_def rl_next_push_allocates_def
      push_unchecked_eq)

lemma filter_elems_map_Some:
  "filter_elems keep (map Some cs) = Inr (map (\<lambda>c. if keep c then Some c else None) cs)"
  by (induction cs) simp_all

lemma filter_in_place_locks [log_facts]:
  assumes "rl_full rl cs"
  shows "\<exists>rl'. filter_in_place keep rl = Inr rl' \<and> rl_epoch_locks rl' = filter keep cs"
proof -
  have "List.map_filter id (map (\<lambda>c. if keep c then Some c else None) cs) = filter keep cs"
    by (induction cs) (simp_all add: map_filter_simps)
  with assms show ?thesis
    by (auto simp: filter_in_place_def rl_full_def filter_elems_map_Some rl_epoch_locks_def)
qed

lemma validate_loop_iff:
  "validate_loop p locks cs \<longleftrightarrow> (\<forall>c\<in>set cs. read_write_valid_lockable p (locks c))"
  by (induction cs) auto

lemma validate_htm_loop_full:
  "validate_htm_loop p locks (map Some cs) = Inr (validate_loop p locks cs)"
  by (induction cs) auto

text \<open>
  Validating in a hardware transaction and in software agree. On a log that holds
  the reads \<open>cs\<close> (not yet filtered) both succeed exactly if no cell of \<open>cs\<close> is locked or has
  been published after the pinned time; the hardware walk never reaches the unreachable case.
  After the reads that are also writes have been filtered out, software validation looks at the
  remaining reads only, and the filter never reaches its unreachable case.
\<close>

theorem read_log_validation:
  assumes "rl_full rl cs" and "time_ok p"
  shows "validate_reads_htm rl p locks = Inr (validate_reads rl p locks) \<and>
    (validate_reads rl p locks \<longleftrightarrow>
       (\<forall>c\<in>set cs. \<not> is_locked (locks c) \<and> ver (locks c) \<le> ver (qget p))) \<and>
    (\<exists>rl'. filter_in_place keep rl = Inr rl' \<and>
       (validate_reads rl' p locks \<longleftrightarrow>
          (\<forall>c\<in>set cs. keep c \<longrightarrow> \<not> is_locked (locks c) \<and> ver (locks c) \<le> ver (qget p))))"
proof -
  obtain rl' where rl': "filter_in_place keep rl = Inr rl'" "rl_epoch_locks rl' = filter keep cs"
    using filter_in_place_locks [OF assms(1)] by blast
  have "validate_reads_htm rl p locks = Inr (validate_loop p locks (rev cs))"
    using assms(1) by (simp add: validate_reads_htm_def rl_full_def rev_map validate_htm_loop_full)
  with assms rl' show ?thesis
    by (auto simp: validate_reads_def log_facts validate_loop_iff valid_lockable_iff is_locked_def)
qed

lemma read_log_validation_witness:
  "validate_reads (rl_record read_log_new 8) (QuiesceEpoch 5) (\<lambda>_. 3)"
proof -
  have "time_ok (QuiesceEpoch 5)"
    by (simp add: time_ok_def lock_bit_set_iff unpark_bit_set_iff_odd word_le_nat_alt unat_FIRST)
  from read_log_validation [OF rl_full_record [OF rl_full_new, of 8] this, of "\<lambda>_. 3"] show ?thesis
    by (simp add: is_locked_def lock_bit_set_iff ver_eq)
qed

end
