(* ===== verification/Stm.thy ===== *)
theory Stm
  imports Epoch Read_Log
begin

text \<open>
  The transactional memory as a whole: any number of threads that run transactions over shared
  cells, in every interleaving of their atomic steps. The steps are the loads, stores and
  compare-exchanges of \<open>src/rw.rs\<close>, \<open>src/internal/commit.rs\<close> and \<open>src/internal/thread.rs\<close>, with the
  operations on lock words, pins and the clock taken from theory \<open>Epoch\<close>: a value is read word by
  word and then checked; a commit locks cell by cell (load, then compare-exchange), validates
  read by read, writes word by word, ticks, and publishes cell by cell, or undoes its locks
  cell by cell (load, then store). A hardware commit is one step up to its tick. The logs of a
  thread are the abstract ones that theory \<open>Rw_Tx\<close> proves the concrete logs to stand for.
  Memory is sequentially consistent; the tick that would run the clock into the lock bit is
  excluded (theory \<open>Epoch\<close> shows after how many commits it comes).

  The fields after \<open>wlog\<close> and the history are not part of the program: they record what the
  theorems speak about.
\<close>

section \<open>State\<close>

type_synonym tid = nat

datatype pc =
    Idle
  | Running
  | Reading cell "usize list" bool
  | Locking nat "epoch_lock option"
  | Validating nat
  | Writing nat nat
  | Ticking
  | Publishing nat quiesce_epoch
  | Undoing nat nat "epoch_lock option"

record thr =
  pc :: pc
  pin :: quiesce_epoch
  rlog :: "(cell \<times> usize list) list"
  wlog :: "(cell \<times> usize list) list"
  seen :: "(cell \<times> usize list) list"
  vis :: "nat set"
  ppos :: nat
  ent :: nat

text \<open>
  The history: one entry per commit that has taken all its locks, in that order, with what
  it read and writes, and how far it has come.
\<close>

datatype status = Pending | Effective | Ticked | Aborted

record entry =
  etid :: tid
  erd :: "(cell \<times> usize list) list"
  ewr :: "(cell \<times> usize list) list"
  est :: status

record stm =
  clk :: epoch_clock
  lk :: "cell \<Rightarrow> epoch_lock"
  dat :: "cell \<Rightarrow> nat \<Rightarrow> usize"
  th :: "tid \<Rightarrow> thr"
  hist :: "entry list"

definition idle_thr :: thr where
  "idle_thr = \<lparr>pc = Idle, pin = QuiesceEpoch 0, rlog = [], wlog = [], seen = [], vis = {}, ppos = 0, ent = 0\<rparr>"

abbreviation upd :: "stm \<Rightarrow> tid \<Rightarrow> thr \<Rightarrow> stm" where
  "upd s t x \<equiv> s\<lparr>th := (th s)(t := x)\<rparr>"

abbreviation set_lk :: "stm \<Rightarrow> cell \<Rightarrow> epoch_lock \<Rightarrow> stm" where
  "set_lk s c w \<equiv> s\<lparr>lk := (lk s)(c := w)\<rparr>"

abbreviation wcell :: "thr \<Rightarrow> nat \<Rightarrow> cell" where
  "wcell x i \<equiv> fst (wlog x ! i)"

abbreviation wcells :: "thr \<Rightarrow> cell set" where
  "wcells x \<equiv> set (map fst (wlog x))"

text \<open>The reads that are validated: those that are not also writes.\<close>

definition vreads :: "thr \<Rightarrow> cell list" where
  "vreads x = filter (\<lambda>c. c \<notin> wcells x) (map fst (rlog x))"

definition valid :: "thr \<Rightarrow> epoch_lock \<Rightarrow> bool" where
  "valid x w = read_write_valid_lockable (pin x) w"

definition set_status :: "nat \<Rightarrow> status \<Rightarrow> entry list \<Rightarrow> entry list" where
  "set_status i st h = h[i := (h ! i)\<lparr>est := st\<rparr>]"

definition ticked :: "entry list \<Rightarrow> nat set" where
  "ticked h = {j. j < length h \<and> est (h ! j) = Ticked}"

section \<open>Steps\<close>

inductive stm_step :: "(cell \<Rightarrow> nat) \<Rightarrow> stm \<Rightarrow> stm \<Rightarrow> bool" for csz where
  begin_tx: "\<lbrakk>x = th s t; pc x = Idle; clock_now (clk s) = Some p\<rbrakk> \<Longrightarrow>
    stm_step csz s (upd s t \<lparr>pc = Running, pin = p, rlog = [], wlog = [], seen = [],
      vis = ticked (hist s), ppos = length (hist s), ent = 0\<rparr>)"
| end_tx: "\<lbrakk>x = th s t; pc x = Running\<rbrakk> \<Longrightarrow> stm_step csz s (upd s t (x\<lparr>pc := Idle\<rparr>))"
| read_start: "\<lbrakk>x = th s t; pc x = Running; c \<notin> wcells x\<rbrakk> \<Longrightarrow>
    stm_step csz s (upd s t (x\<lparr>pc := Reading c [] logged\<rparr>))"
| read_word: "\<lbrakk>x = th s t; pc x = Reading c buf logged; length buf < csz c\<rbrakk> \<Longrightarrow>
    stm_step csz s (upd s t (x\<lparr>pc := Reading c (buf @ [dat s c (length buf)]) logged\<rparr>))"
| read_ok: "\<lbrakk>x = th s t; pc x = Reading c buf logged; length buf = csz c; valid x (lk s c)\<rbrakk> \<Longrightarrow>
    stm_step csz s (upd s t (x\<lparr>pc := Running, seen := seen x @ [(c, buf)],
      rlog := rlog x @ (if logged then [(c, buf)] else [])\<rparr>))"
| read_conflict: "\<lbrakk>x = th s t; pc x = Reading c buf logged; length buf = csz c; \<not> valid x (lk s c)\<rbrakk> \<Longrightarrow>
    stm_step csz s (upd s t (x\<lparr>pc := Running\<rparr>))"
| set_first: "\<lbrakk>x = th s t; pc x = Running; c \<notin> wcells x; length v = csz c; valid x (lk s c)\<rbrakk> \<Longrightarrow>
    stm_step csz s (upd s t (x\<lparr>wlog := wlog x @ [(c, v)]\<rparr>))"
| set_overwrite: "\<lbrakk>x = th s t; pc x = Running; i < length (wlog x); length v = csz (wcell x i)\<rbrakk> \<Longrightarrow>
    stm_step csz s (upd s t (x\<lparr>wlog := (wlog x)[i := (wcell x i, v)]\<rparr>))"
| set_replace: "\<lbrakk>x = th s t; pc x = Running; c \<in> wcells x; length v = csz c\<rbrakk> \<Longrightarrow>
    stm_step csz s (upd s t (x\<lparr>wlog := filter (\<lambda>w. fst w \<noteq> c) (wlog x) @ [(c, v)]\<rparr>))"
| commit_soft: "\<lbrakk>x = th s t; pc x = Running; wlog x \<noteq> []\<rbrakk> \<Longrightarrow>
    stm_step csz s (upd s t (x\<lparr>pc := Locking 0 None\<rparr>))"
| lock_load: "\<lbrakk>x = th s t; pc x = Locking i None; i < length (wlog x)\<rbrakk> \<Longrightarrow>
    stm_step csz s (upd s t (x\<lparr>pc := Locking i (Some (lk s (wcell x i)))\<rparr>))"
| lock_cas: "\<lbrakk>x = th s t; pc x = Locking i (Some a); i < length (wlog x);
      try_lock (pin x) a (lk s (wcell x i)) = (Some st, w)\<rbrakk> \<Longrightarrow>
    stm_step csz s (upd (set_lk s (wcell x i) w) t (x\<lparr>pc := Locking (Suc i) None\<rparr>))"
| lock_fail: "\<lbrakk>x = th s t; pc x = Locking i (Some a); i < length (wlog x);
      try_lock (pin x) a (lk s (wcell x i)) = (None, w)\<rbrakk> \<Longrightarrow>
    stm_step csz s (upd (set_lk s (wcell x i) w) t (x\<lparr>pc := Undoing 0 i None\<rparr>))"
| lock_done: "\<lbrakk>x = th s t; pc x = Locking (length (wlog x)) None\<rbrakk> \<Longrightarrow>
    stm_step csz s (upd s t (x\<lparr>pc := Validating 0, ent := length (hist s)\<rparr>)
      \<lparr>hist := hist s @ [\<lparr>etid = t, erd = rlog x, ewr = wlog x, est = Pending\<rparr>]\<rparr>)"
| validate_ok: "\<lbrakk>x = th s t; pc x = Validating i; i < length (vreads x); valid x (lk s (vreads x ! i))\<rbrakk> \<Longrightarrow>
    stm_step csz s (upd s t (x\<lparr>pc := Validating (Suc i)\<rparr>))"
| validate_fail: "\<lbrakk>x = th s t; pc x = Validating i; i < length (vreads x); \<not> valid x (lk s (vreads x ! i))\<rbrakk> \<Longrightarrow>
    stm_step csz s (upd s t (x\<lparr>pc := Undoing 0 (length (wlog x)) None\<rparr>)
      \<lparr>hist := set_status (ent x) Aborted (hist s)\<rparr>)"
| validate_done: "\<lbrakk>x = th s t; pc x = Validating (length (vreads x))\<rbrakk> \<Longrightarrow>
    stm_step csz s (upd s t (x\<lparr>pc := Writing 0 0\<rparr>)\<lparr>hist := set_status (ent x) Effective (hist s)\<rparr>)"
| write_word: "\<lbrakk>x = th s t; pc x = Writing i k; i < length (wlog x); k < length (snd (wlog x ! i))\<rbrakk> \<Longrightarrow>
    stm_step csz s (upd s t (x\<lparr>pc := Writing i (Suc k)\<rparr>)
      \<lparr>dat := (dat s)(wcell x i := (dat s (wcell x i))(k := snd (wlog x ! i) ! k))\<rparr>)"
| write_next: "\<lbrakk>x = th s t; pc x = Writing i k; i < length (wlog x); k = length (snd (wlog x ! i))\<rbrakk> \<Longrightarrow>
    stm_step csz s (upd s t (x\<lparr>pc := Writing (Suc i) 0\<rparr>))"
| write_done: "\<lbrakk>x = th s t; pc x = Writing (length (wlog x)) 0\<rbrakk> \<Longrightarrow>
    stm_step csz s (upd s t (x\<lparr>pc := Ticking\<rparr>))"
| tick: "\<lbrakk>x = th s t; pc x = Ticking; fetch_and_tick (clk s) = (sync, clk'); \<not> lock_bit_set clk'\<rbrakk> \<Longrightarrow>
    stm_step csz s (upd s t (x\<lparr>pc := Publishing 0 sync\<rparr>)
      \<lparr>clk := clk', hist := set_status (ent x) Ticked (hist s)\<rparr>)"
| publish: "\<lbrakk>x = th s t; pc x = Publishing i sync; i < length (wlog x)\<rbrakk> \<Longrightarrow>
    stm_step csz s (upd (set_lk s (wcell x i) (unlock_publish (quiesce_next sync) (lk s (wcell x i)))) t
      (x\<lparr>pc := Publishing (Suc i) sync\<rparr>))"
| publish_done: "\<lbrakk>x = th s t; pc x = Publishing (length (wlog x)) sync\<rbrakk> \<Longrightarrow>
    stm_step csz s (upd s t (x\<lparr>pc := Idle\<rparr>))"
| undo_load: "\<lbrakk>x = th s t; pc x = Undoing j n None; j < n\<rbrakk> \<Longrightarrow>
    stm_step csz s (upd s t (x\<lparr>pc := Undoing j n (Some (lk s (wcell x j)))\<rparr>))"
| undo_store: "\<lbrakk>x = th s t; pc x = Undoing j n (Some w)\<rbrakk> \<Longrightarrow>
    stm_step csz s (upd (set_lk s (wcell x j) (unlock_undo w)) t (x\<lparr>pc := Undoing (Suc j) n None\<rparr>))"
| undo_done: "\<lbrakk>x = th s t; pc x = Undoing n n None\<rbrakk> \<Longrightarrow>
    stm_step csz s (upd s t (x\<lparr>pc := Idle\<rparr>))"
| commit_hard: "\<lbrakk>x = th s t; pc x = Running; wlog x \<noteq> [];
      \<forall>c\<in>set (map fst (rlog x)) \<union> wcells x. valid x (lk s c)\<rbrakk> \<Longrightarrow>
    stm_step csz s (upd s t (x\<lparr>pc := Ticking, ent := length (hist s)\<rparr>)
      \<lparr>lk := (\<lambda>c. if c \<in> wcells x then toggle_lock_bit (lk s c) else lk s c),
       dat := (\<lambda>c k. case map_of (wlog x) c of Some v \<Rightarrow> if k < length v then v ! k else dat s c k | None \<Rightarrow> dat s c k),
       hist := hist s @ [\<lparr>etid = t, erd = rlog x, ewr = wlog x, est = Effective\<rparr>]\<rparr>)"
| park_clear: "\<lbrakk>time_ok q; try_clear_unpark_bit q a (lk s c) = (r, w)\<rbrakk> \<Longrightarrow> stm_step csz s (set_lk s c w)"
| park_set: "stm_step csz s (set_lk s c (set_unpark_bit (lk s c)))"

definition stm_init :: "(cell \<Rightarrow> nat) \<Rightarrow> (cell \<Rightarrow> usize list) \<Rightarrow> stm \<Rightarrow> bool" where
  "stm_init csz vals s \<longleftrightarrow>
     clk s = epoch_clock_new \<and> lk s = (\<lambda>_. epoch_lock_first) \<and> (\<forall>c. length (vals c) = csz c) \<and>
     dat s = (\<lambda>c k. vals c ! k) \<and> th s = (\<lambda>_. idle_thr) \<and> hist s = []"

section \<open>What a set of commits leaves behind\<close>

definition writes :: "entry \<Rightarrow> cell \<Rightarrow> bool" where
  "writes e c \<longleftrightarrow> c \<in> set (map fst (ewr e))"

definition writers :: "nat set \<Rightarrow> entry list \<Rightarrow> cell \<Rightarrow> nat list" where
  "writers J h c = filter (\<lambda>j. j \<in> J \<and> writes (h ! j) c) [0..<length h]"

text \<open>The value of a cell after running the entries of \<open>J\<close>, in the order of the history.\<close>

definition val_after :: "(cell \<Rightarrow> usize list) \<Rightarrow> nat set \<Rightarrow> entry list \<Rightarrow> cell \<Rightarrow> usize list" where
  "val_after vals J h c =
     (case writers J h c of
        [] \<Rightarrow> vals c
      | j # js \<Rightarrow> the (map_of (ewr (h ! last (j # js))) c))"

fun effective :: "status \<Rightarrow> bool" where
  "effective Effective = True"
| "effective Ticked = True"
| "effective _ = False"

definition effs :: "entry list \<Rightarrow> nat set" where
  "effs h = {j. j < length h \<and> effective (est (h ! j))}"

end
