(* ===== verification/Stm_Inv.thy ===== *)
theory Stm_Inv
  imports Stm
begin

text \<open>
  The invariant of theory \<open>Stm\<close>, and that every step keeps it. A thread's snapshot is what the
  commits that had ticked when it pinned left behind. The heart of the argument: a commit that
  became effective without being in the snapshot \<^emph>\<open>dooms\<close> the cells it writes for the thread:
  they are locked, or will be when they are next looked at have a version newer than the pin, so no
  check of the thread succeeds on them.
\<close>

section \<open>Values after a set of commits\<close>

lemma val_after_cong:
  assumes "\<And>j. j < length h \<Longrightarrow> writes (h ! j) c \<Longrightarrow> (j \<in> J) = (j \<in> J')"
  shows "val_after vals J h c = val_after vals J' h c"
proof -
  have "writers J h c = writers J' h c"
    unfolding writers_def by (rule filter_cong) (use assms in auto)
  then show ?thesis by (simp add: val_after_def)
qed

lemma val_after_hist_cong:
  assumes "length h \<le> length h'" and "\<And>j. j < length h \<Longrightarrow> ewr (h' ! j) = ewr (h ! j)"
    and "J \<subseteq> {..<length h}"
  shows "val_after vals J h' c = val_after vals J h c"
proof -
  have "[0..<length h'] = [0..<length h] @ [length h..<length h']"
    using assms(1) by (metis le0 le_add_diff_inverse upt_add_eq_append)
  moreover have "filter (\<lambda>j. j \<in> J \<and> writes (h' ! j) c) [length h..<length h'] = []"
    using assms(3) by (auto simp: filter_empty_conv)
  moreover have "filter (\<lambda>j. j \<in> J \<and> writes (h' ! j) c) [0..<length h] = writers J h c"
    unfolding writers_def by (rule filter_cong) (simp_all add: writes_def assms(2))
  ultimately have w: "writers J h' c = writers J h c"
    by (simp add: writers_def)
  show ?thesis
  proof (cases "writers J h c")
    case Nil
    with w show ?thesis by (simp add: val_after_def)
  next
    case (Cons j js)
    then have "last (j # js) \<in> set (writers J h c)" by (metis last_in_set list.distinct(1))
    then have "last (j # js) < length h" by (simp add: writers_def del: last.simps)
    with Cons w assms(2) show ?thesis by (simp add: val_after_def del: last.simps)
  qed
qed

lemma val_after_last:
  assumes "j < length h" and "j \<in> J" and "writes (h ! j) c"
    and "\<And>i. j < i \<Longrightarrow> i < length h \<Longrightarrow> i \<in> J \<Longrightarrow> \<not> writes (h ! i) c"
  shows "val_after vals J h c = the (map_of (ewr (h ! j)) c)"
proof -
  have "[0..<length h] = [0..<j] @ [j..<length h]"
    using assms(1) upt_add_eq_append [of 0 j "length h - j"] by simp
  moreover have "[j..<length h] = j # [Suc j..<length h]"
    using assms(1) by (rule upt_conv_Cons)
  moreover have "filter (\<lambda>i. i \<in> J \<and> writes (h ! i) c) [Suc j..<length h] = []"
    using assms(4) by (auto simp: filter_empty_conv)
  ultimately obtain ws where "writers J h c = ws @ [j]"
    using assms(2,3) by (simp add: writers_def)
  then show ?thesis
    by (cases ws) (simp_all add: val_after_def)
qed

section \<open>Histories grow\<close>

fun later_status :: "status \<Rightarrow> status \<Rightarrow> bool" where
  "later_status Pending st = True"
| "later_status Effective st \<longleftrightarrow> st = Effective \<or> st = Ticked"
| "later_status st st' \<longleftrightarrow> st' = st"

definition grows :: "entry list \<Rightarrow> entry list \<Rightarrow> bool" where
  "grows h h' \<longleftrightarrow> length h \<le> length h' \<and>
     (\<forall>j<length h. etid (h' ! j) = etid (h ! j) \<and> erd (h' ! j) = erd (h ! j) \<and>
        ewr (h' ! j) = ewr (h ! j) \<and> later_status (est (h ! j)) (est (h' ! j)))"

lemma later_status_refl [simp]: "later_status st st"
  by (cases st) auto

lemma later_effective: "later_status st st' \<Longrightarrow> effective st \<Longrightarrow> effective st'"
  by (cases st) auto

lemma grows_refl [simp]: "grows h h"
  by (simp add: grows_def)

lemma grows_append: "grows h (h @ es)"
  by (simp add: grows_def nth_append)

lemma nth_set_status:
  "set_status i st h ! j = (if i = j \<and> i < length h then (h ! j)\<lparr>est := st\<rparr> else h ! j)"
  by (cases "i < length h") (auto simp: set_status_def nth_list_update list_update_beyond)

lemma set_status_simps [simp]:
  "length (set_status i st h) = length h"
  "etid (set_status i st h ! j) = etid (h ! j)" "erd (set_status i st h ! j) = erd (h ! j)"
  "ewr (set_status i st h ! j) = ewr (h ! j)"
  by (simp add: set_status_def) (simp_all add: nth_set_status)

lemma est_set_status: "j < length h \<Longrightarrow> est (set_status i st h ! j) = (if i = j then st else est (h ! j))"
  by (simp add: set_status_def)

lemma writes_set_status [simp]: "writes (set_status i st h ! j) c = writes (h ! j) c"
  by (simp add: writes_def)

lemma grows_set_status: "later_status (est (h ! i)) st \<Longrightarrow> grows h (set_status i st h)"
  by (auto simp: grows_def est_set_status)

definition clean :: "nat set \<Rightarrow> nat \<Rightarrow> entry list \<Rightarrow> cell \<Rightarrow> bool" where
  "clean J n h c \<longleftrightarrow>
     (\<forall>j<n. writes (h ! j) c \<longrightarrow> est (h ! j) = Aborted \<or> est (h ! j) = Ticked \<and> j \<in> J)"

definition dirty :: "nat set \<Rightarrow> entry list \<Rightarrow> cell \<Rightarrow> bool" where
  "dirty J h c \<longleftrightarrow> (\<exists>j\<in>effs h. j \<notin> J \<and> writes (h ! j) c)"

lemma grows_writes: "grows h h' \<Longrightarrow> j < length h \<Longrightarrow> writes (h' ! j) c = writes (h ! j) c"
  by (simp add: grows_def writes_def)

lemma grows_effs: "grows h h' \<Longrightarrow> j \<in> effs h \<Longrightarrow> j \<in> effs h'"
  by (auto simp: grows_def effs_def intro: later_effective)

lemma grows_ticked: "grows h h' \<Longrightarrow> ticked h \<subseteq> ticked h'"
  by (fastforce simp: grows_def ticked_def)

lemma grows_clean: "grows h h' \<Longrightarrow> n \<le> length h \<Longrightarrow> clean J n h c \<Longrightarrow> clean J n h' c"
  unfolding clean_def grows_def writes_def
  by (metis later_status.simps(3,4) order_less_le_trans)

lemma grows_dirty: "grows h h' \<Longrightarrow> dirty J h c \<Longrightarrow> dirty J h' c"
  by (auto simp: dirty_def grows_writes effs_def dest: grows_effs)
    (metis (no_types, lifting) effs_def grows_effs grows_writes mem_Collect_eq)

lemma grows_val_after: "grows h h' \<Longrightarrow> J \<subseteq> {..<length h} \<Longrightarrow> val_after vals J h' c = val_after vals J h c"
  by (rule val_after_hist_cong) (auto simp: grows_def)

lemma ticked_effs: "ticked h \<subseteq> effs h"
  by (auto simp: ticked_def effs_def)

lemma ticked_less: "ticked h \<subseteq> {..<length h}"
  by (auto simp: ticked_def)

section \<open>What a thread holds, and dooms\<close>

fun lo :: "pc \<Rightarrow> nat" where
  "lo (Publishing i sync) = i"
| "lo (Undoing j n a) = j"
| "lo _ = 0"

fun hi :: "pc \<Rightarrow> nat \<Rightarrow> nat" where
  "hi (Locking i a) len = i"
| "hi (Undoing j n a) len = n"
| "hi Idle len = 0"
| "hi Running len = 0"
| "hi (Reading c buf logged) len = 0"
| "hi _ len = len"

definition held :: "thr \<Rightarrow> cell set" where
  "held x = wcell x ` {lo (pc x)..<hi (pc x) (length (wlog x))}"

fun phase :: "pc \<Rightarrow> status option" where
  "phase (Validating i) = Some Pending"
| "phase (Writing i k) = Some Effective"
| "phase Ticking = Some Effective"
| "phase (Publishing i sync) = Some Ticked"
| "phase _ = None"

fun dooms :: "pc \<Rightarrow> quiesce_epoch \<Rightarrow> bool" where
  "dooms (Writing i k) p = True"
| "dooms Ticking p = True"
| "dooms (Publishing i sync) p \<longleftrightarrow> ver (qget p) \<le> ver (qget sync)"
| "dooms _ p = False"

definition doomed :: "stm \<Rightarrow> quiesce_epoch \<Rightarrow> cell \<Rightarrow> bool" where
  "doomed s p c \<longleftrightarrow> ver (qget p) < ver (lk s c) \<or> (\<exists>u. c \<in> held (th s u) \<and> dooms (pc (th s u)) p)"

lemma wcells_image: "wcells x = wcell x ` {..<length (wlog x)}"
proof -
  have "set (wlog x) = (!) (wlog x) ` {0..<length (wlog x)}"
    by (simp add: nth_image)
  then show ?thesis by (simp add: image_image atLeast0LessThan)
qed

lemma held_all: "pc x = Validating i \<or> pc x = Writing i k \<or> pc x = Ticking \<Longrightarrow> held x = wcells x"
  by (auto simp: held_def wcells_image atLeast0LessThan simp del: set_map)

lemma held_phase: "phase (pc x) = Some st \<Longrightarrow> st \<noteq> Ticked \<Longrightarrow> held x = wcells x"
  by (cases "pc x") (auto simp: held_all)

lemma held_none:
  "pc x = Idle \<Longrightarrow> held x = {}" "pc x = Running \<Longrightarrow> held x = {}"
  "pc x = Reading c buf logged \<Longrightarrow> held x = {}"
  by (simp_all add: held_def)

section \<open>The invariant\<close>

fun pc_ok :: "nat \<Rightarrow> pc \<Rightarrow> bool" where
  "pc_ok len (Locking i a) \<longleftrightarrow> i \<le> len"
| "pc_ok len (Publishing i sync) \<longleftrightarrow> i \<le> len"
| "pc_ok len (Undoing j n a) \<longleftrightarrow> j \<le> n \<and> n \<le> len \<and> (a \<noteq> None \<longrightarrow> j < n)"
| "pc_ok len _ = True"

text \<open>One thread against the shared state.\<close>

definition thr_ok :: "(cell \<Rightarrow> nat) \<Rightarrow> stm \<Rightarrow> thr \<Rightarrow> bool" where
  "thr_ok csz s x \<longleftrightarrow>
     distinct (map fst (wlog x)) \<and> (\<forall>w\<in>set (wlog x). length (snd w) = csz (fst w)) \<and>
     pc_ok (length (wlog x)) (pc x) \<and> set (rlog x) \<subseteq> set (seen x) \<and>
     (pc x \<noteq> Idle \<longrightarrow> time_ok (pin x) \<and> ver (qget (pin x)) \<le> ver (clk s) \<and>
        vis x \<subseteq> ticked (hist s) \<and> vis x \<subseteq> {..<ppos x} \<and> ppos x \<le> length (hist s)) \<and>
     (\<forall>i sync. pc x = Publishing i sync \<longrightarrow>
        ver (qget (quiesce_next sync)) = Suc (ver (qget sync)) \<and>
        \<not> lock_bit_set (qget (quiesce_next sync)) \<and> Suc (ver (qget sync)) \<le> ver (clk s))"

definition lock_ok :: "stm \<Rightarrow> thr \<Rightarrow> bool" where
  "lock_ok s x \<longleftrightarrow>
     (\<forall>j n w. pc x = Undoing j n (Some w) \<longrightarrow> lock_bit_set w \<and> ver w = ver (lk s (wcell x j))) \<and>
     (\<forall>i sync. pc x = Publishing i sync \<longrightarrow> (\<forall>c\<in>held x. ver (lk s c) \<le> ver (qget sync)))"

definition ent_ok :: "stm \<Rightarrow> tid \<Rightarrow> bool" where
  "ent_ok s t \<longleftrightarrow> (let x = th s t in \<forall>st. phase (pc x) = Some st \<longrightarrow>
     ent x < length (hist s) \<and> hist s ! ent x = \<lparr>etid = t, erd = rlog x, ewr = wlog x, est = st\<rparr>)"

definition later_ok :: "stm \<Rightarrow> thr \<Rightarrow> bool" where
  "later_ok s x \<longleftrightarrow> (phase (pc x) = Some Pending \<or> phase (pc x) = Some Effective \<longrightarrow>
     (\<forall>j c. ent x < j \<and> j < length (hist s) \<and> c \<in> wcells x \<longrightarrow> \<not> writes (hist s ! j) c))"

definition doom_ok :: "stm \<Rightarrow> thr \<Rightarrow> bool" where
  "doom_ok s x \<longleftrightarrow> (pc x \<noteq> Idle \<longrightarrow>
     (\<forall>j\<in>effs (hist s). j \<notin> vis x \<longrightarrow> (\<forall>c. writes (hist s ! j) c \<longrightarrow> doomed s (pin x) c)))"

definition wrote_ok :: "stm \<Rightarrow> thr \<Rightarrow> bool" where
  "wrote_ok s x \<longleftrightarrow>
     (\<forall>i k. pc x = Writing i k \<longrightarrow>
        (\<forall>i' k'. i' < length (wlog x) \<and> k' < length (snd (wlog x ! i')) \<and> (i' < i \<or> i' = i \<and> k' < k) \<longrightarrow>
           dat s (wcell x i') k' = snd (wlog x ! i') ! k')) \<and>
     (pc x = Ticking \<longrightarrow>
        (\<forall>i' k'. i' < length (wlog x) \<and> k' < length (snd (wlog x ! i')) \<longrightarrow>
           dat s (wcell x i') k' = snd (wlog x ! i') ! k'))"

definition read_ok :: "(cell \<Rightarrow> nat) \<Rightarrow> (cell \<Rightarrow> usize list) \<Rightarrow> stm \<Rightarrow> thr \<Rightarrow> bool" where
  "read_ok csz vals s x \<longleftrightarrow> (pc x \<noteq> Idle \<longrightarrow>
     (\<forall>r\<in>set (seen x). snd r = val_after vals (vis x) (hist s) (fst r) \<and>
        clean (vis x) (ppos x) (hist s) (fst r)) \<and>
     (\<forall>c buf logged. pc x = Reading c buf logged \<longrightarrow> length buf \<le> csz c \<and>
        (dirty (vis x) (hist s) c \<or>
           (\<forall>k<length buf. buf ! k = val_after vals (vis x) (hist s) c ! k))))"

definition clean_ok :: "stm \<Rightarrow> thr \<Rightarrow> bool" where
  "clean_ok s x \<longleftrightarrow>
     (\<forall>i a. pc x = Locking i a \<longrightarrow> (\<forall>c\<in>held x. clean (vis x) (length (hist s)) (hist s) c)) \<and>
     (\<forall>n. pc x = Validating n \<longrightarrow> ppos x \<le> ent x \<and>
        (\<forall>c\<in>wcells x \<union> set (take n (vreads x)). clean (vis x) (ent x) (hist s) c))"

definition tinv :: "(cell \<Rightarrow> nat) \<Rightarrow> (cell \<Rightarrow> usize list) \<Rightarrow> stm \<Rightarrow> tid \<Rightarrow> bool" where
  "tinv csz vals s t \<longleftrightarrow>
     thr_ok csz s (th s t) \<and> lock_ok s (th s t) \<and> ent_ok s t \<and> later_ok s (th s t) \<and>
     doom_ok s (th s t) \<and> wrote_ok s (th s t) \<and> read_ok csz vals s (th s t) \<and> clean_ok s (th s t)"

text \<open>The shared state alone.\<close>

definition locks_inv :: "stm \<Rightarrow> bool" where
  "locks_inv s \<longleftrightarrow> clock_ok (clk s) \<and> (\<forall>c. ver (lk s c) \<le> ver (clk s)) \<and>
     (\<forall>t t'. t \<noteq> t' \<longrightarrow> held (th s t) \<inter> held (th s t') = {}) \<and>
     (\<forall>c. lock_bit_set (lk s c) \<longleftrightarrow> (\<exists>t. c \<in> held (th s t)))"

definition hist_inv :: "(cell \<Rightarrow> nat) \<Rightarrow> stm \<Rightarrow> bool" where
  "hist_inv csz s \<longleftrightarrow> (\<forall>j<length (hist s). let e = hist s ! j; y = th s (etid e) in
     (est e = Pending \<or> est e = Effective \<longrightarrow> phase (pc y) = Some (est e) \<and> ent y = j) \<and>
     distinct (map fst (ewr e)) \<and> (\<forall>w\<in>set (ewr e). length (snd w) = csz (fst w)))"

definition mem_inv :: "(cell \<Rightarrow> nat) \<Rightarrow> (cell \<Rightarrow> usize list) \<Rightarrow> stm \<Rightarrow> bool" where
  "mem_inv csz vals s \<longleftrightarrow> (\<forall>c. length (vals c) = csz c \<and>
     ((\<forall>j<length (hist s). est (hist s ! j) = Effective \<longrightarrow> \<not> writes (hist s ! j) c) \<longrightarrow>
       (\<forall>k<csz c. dat s c k = val_after vals (effs (hist s)) (hist s) c ! k)))"

definition ser_inv :: "(cell \<Rightarrow> usize list) \<Rightarrow> entry list \<Rightarrow> bool" where
  "ser_inv vals h \<longleftrightarrow> (\<forall>i\<in>effs h. \<forall>r\<in>set (erd (h ! i)).
     snd r = val_after vals (effs h \<inter> {..<i}) h (fst r) \<and>
     (\<forall>j<i. writes (h ! j) (fst r) \<longrightarrow> est (h ! j) \<noteq> Pending))"

definition stm_inv :: "(cell \<Rightarrow> nat) \<Rightarrow> (cell \<Rightarrow> usize list) \<Rightarrow> stm \<Rightarrow> bool" where
  "stm_inv csz vals s \<longleftrightarrow>
     (\<forall>t. tinv csz vals s t) \<and> locks_inv s \<and> hist_inv csz s \<and> mem_inv csz vals s \<and> ser_inv vals (hist s)"

section \<open>What the other threads see of a step\<close>

text \<open>
  A step of thread \<open>t\<close>: the history grows, only entries of \<open>t\<close> change their status, new entries
  write no cell that another thread holds, cells held by another thread keep their version and
  words, dooming is for good for pins so far, and what becomes effective dooms its cells for every pin so far.
\<close>

definition frame :: "stm \<Rightarrow> stm \<Rightarrow> tid set \<Rightarrow> bool" where
  "frame s s' T \<longleftrightarrow>
     grows (hist s) (hist s') \<and> ver (clk s) \<le> ver (clk s') \<and> (\<forall>u. u \<notin> T \<longrightarrow> th s' u = th s u) \<and>
     (\<forall>u c. u \<notin> T \<longrightarrow> c \<in> held (th s u) \<longrightarrow>
        ver (lk s' c) = ver (lk s c) \<and> dat s' c = dat s c) \<and>
     (\<forall>j<length (hist s). etid (hist s ! j) \<notin> T \<longrightarrow> est (hist s' ! j) = est (hist s ! j)) \<and>
     (\<forall>j c u. length (hist s) \<le> j \<longrightarrow> j < length (hist s') \<longrightarrow> u \<notin> T \<longrightarrow> writes (hist s' ! j) c \<longrightarrow>
        c \<notin> held (th s u)) \<and>
     (\<forall>p c. doomed s p c \<longrightarrow> ver (qget p) \<le> ver (clk s) \<longrightarrow> doomed s' p c) \<and>
     (\<forall>j\<in>effs (hist s'). j \<notin> effs (hist s) \<longrightarrow>
        (\<forall>c p. writes (hist s' ! j) c \<longrightarrow> ver (qget p) \<le> ver (clk s) \<longrightarrow> doomed s' p c))"

lemma frame_thr_ok:
  assumes "grows (hist s) (hist s')" and "ver (clk s) \<le> ver (clk s')" and "thr_ok csz s x"
  shows "thr_ok csz s' x"
proof -
  have "ticked (hist s) \<subseteq> ticked (hist s')" "length (hist s) \<le> length (hist s')"
    using assms(1) grows_ticked by (auto simp: grows_def)
  with assms(2,3) show ?thesis by (fastforce simp: thr_ok_def)
qed

lemma frame_read_ok:
  assumes g: "grows (hist s) (hist s')" and "thr_ok csz s x" and "read_ok csz vals s x"
  shows "read_ok csz vals s' x"
proof (cases "pc x = Idle")
  case True
  then show ?thesis by (simp add: read_ok_def)
next
  case False
  with assms(2) have v: "vis x \<subseteq> {..<length (hist s)}" and p: "ppos x \<le> length (hist s)"
    using ticked_less [of "hist s"] by (auto simp: thr_ok_def)
  note eq = grows_val_after [OF g v]
  show ?thesis
    using assms(3) False grows_clean [OF g p] grows_dirty [OF g]
    unfolding read_ok_def eq by blast
qed

lemma frame_doom_ok:
  assumes f: "frame s s' T" and "thr_ok csz s x" and "doom_ok s x"
  shows "doom_ok s' x"
  unfolding doom_ok_def
proof (intro impI ballI allI)
  fix j c
  assume act: "pc x \<noteq> Idle" and j: "j \<in> effs (hist s')" "j \<notin> vis x" and w: "writes (hist s' ! j) c"
  from assms(2) act have p: "ver (qget (pin x)) \<le> ver (clk s)" by (simp add: thr_ok_def)
  show "doomed s' (pin x) c"
  proof (cases "j \<in> effs (hist s)")
    case True
    then have "j < length (hist s)" by (simp add: effs_def)
    moreover have "grows (hist s) (hist s')" using f by (simp add: frame_def)
    ultimately have "writes (hist s ! j) c" using w grows_writes by blast
    with assms(3) act True j(2) have "doomed s (pin x) c" by (auto simp: doom_ok_def)
    with f p show ?thesis by (auto simp: frame_def)
  next
    case False
    with f j(1) w p show ?thesis by (auto simp: frame_def)
  qed
qed

lemma frame_clean_ok:
  assumes f: "frame s s' T" and t: "u \<notin> T" and "ent_ok s u" and "clean_ok s (th s u)"
  shows "clean_ok s' (th s u)"
  unfolding clean_ok_def
proof (intro conjI allI impI ballI)
  let ?x = "th s u"
  from f have g: "grows (hist s) (hist s')" by (simp add: frame_def)
  show "clean (vis ?x) (length (hist s')) (hist s') c" if "pc ?x = Locking i a" "c \<in> held ?x" for i a c
  proof -
    have "clean (vis ?x) (length (hist s)) (hist s) c"
      using assms(4) that by (auto simp: clean_ok_def)
    with g have "clean (vis ?x) (length (hist s)) (hist s') c" by (simp add: grows_clean)
    moreover have "\<not> writes (hist s' ! j) c" if "length (hist s) \<le> j" "j < length (hist s')" for j
      using f t that \<open>c \<in> held ?x\<close> unfolding frame_def by blast
    ultimately show ?thesis
      unfolding clean_def by (metis not_less)
  qed
  show "ppos ?x \<le> ent ?x" if "pc ?x = Validating n" for n
    using assms(4) that by (auto simp: clean_ok_def)
  show "clean (vis ?x) (ent ?x) (hist s') c"
    if "pc ?x = Validating n" "c \<in> wcells ?x \<union> set (take n (vreads ?x))" for n c
  proof -
    have "ent ?x < length (hist s)"
      using assms(3) that(1) by (auto simp: ent_ok_def Let_def)
    moreover have "clean (vis ?x) (ent ?x) (hist s) c"
      using assms(4) that unfolding clean_ok_def by blast
    ultimately show ?thesis using grows_clean [OF g] by simp
  qed
qed

lemma frame_tinv:
  assumes f: "frame s s' T" and t: "u \<notin> T" and i: "tinv csz vals s u"
  shows "tinv csz vals s' u"
proof -
  let ?x = "th s u"
  from f have g: "grows (hist s) (hist s')" and c: "ver (clk s) \<le> ver (clk s')"
    and x: "th s' u = ?x"
    and h: "\<And>c. c \<in> held ?x \<Longrightarrow> ver (lk s' c) = ver (lk s c) \<and> dat s' c = dat s c"
    and e: "\<And>j. j < length (hist s) \<Longrightarrow> etid (hist s ! j) \<notin> T \<Longrightarrow> est (hist s' ! j) = est (hist s ! j)"
    and n: "\<And>j c. length (hist s) \<le> j \<Longrightarrow> j < length (hist s') \<Longrightarrow> writes (hist s' ! j) c \<Longrightarrow> c \<notin> held ?x"
    using t unfolding frame_def by blast+
  from i have thr: "thr_ok csz s ?x" by (simp add: tinv_def)
  have lock: "lock_ok s' ?x"
    unfolding lock_ok_def
  proof (intro conjI allI impI ballI)
    fix j n w
    assume pc: "pc ?x = Undoing j n (Some w)"
    with thr have "j < n" by (simp add: thr_ok_def)
    with pc have "wcell ?x j \<in> held ?x" by (simp add: held_def)
    with i pc h show "lock_bit_set w" "ver w = ver (lk s' (wcell ?x j))"
      by (auto simp: tinv_def lock_ok_def)
  next
    fix i' sync c
    assume "pc ?x = Publishing i' sync" and "c \<in> held ?x"
    with i h show "ver (lk s' c) \<le> ver (qget sync)"
      by (auto simp: tinv_def lock_ok_def)
  qed
  have ent: "ent_ok s' u"
    unfolding ent_ok_def Let_def
  proof (intro allI impI)
    fix st
    assume "phase (pc (th s' u)) = Some st"
    with i x have es: "ent ?x < length (hist s)"
        "hist s ! ent ?x = \<lparr>etid = u, erd = rlog ?x, ewr = wlog ?x, est = st\<rparr>"
      by (auto simp: tinv_def ent_ok_def Let_def)
    with g e [of "ent ?x"] t have "ent ?x < length (hist s')"
        "hist s' ! ent ?x = \<lparr>etid = u, erd = rlog ?x, ewr = wlog ?x, est = st\<rparr>"
      by (auto simp: grows_def intro!: entry.equality)
    then show "ent (th s' u) < length (hist s') \<and> hist s' ! ent (th s' u) =
        \<lparr>etid = u, erd = rlog (th s' u), ewr = wlog (th s' u), est = st\<rparr>"
      by (simp add: x)
  qed
  have later: "later_ok s' ?x"
    unfolding later_ok_def
  proof (intro impI allI, elim conjE)
    fix j c
    assume ph: "phase (pc ?x) = Some Pending \<or> phase (pc ?x) = Some Effective"
      and j: "ent ?x < j" "j < length (hist s')" "c \<in> wcells ?x"
    show "\<not> writes (hist s' ! j) c"
    proof (cases "j < length (hist s)")
      case True
      with i ph j show ?thesis
        by (auto simp: tinv_def later_ok_def grows_writes [OF g])
    next
      case False
      from ph have "held ?x = wcells ?x" using held_phase [of ?x] by blast
      with False n [of j c] j show ?thesis by auto
    qed
  qed
  have wrote: "wrote_ok s' ?x"
  proof -
    have "dat s' (wcell ?x k) = dat s (wcell ?x k)"
      if "k < length (wlog ?x)" "pc ?x = Writing a b \<or> pc ?x = Ticking" for k a b
    proof -
      have "wcell ?x k \<in> wcells ?x" using that(1) by simp
      then have "wcell ?x k \<in> held ?x" using that(2) held_all [of ?x] by auto
      then show ?thesis using h by blast
    qed
    with i show ?thesis unfolding tinv_def wrote_ok_def by metis
  qed
  show ?thesis
    using i x lock ent later wrote frame_thr_ok [OF g c thr] frame_read_ok [OF g thr]
      frame_doom_ok [OF f thr] frame_clean_ok [OF f t]
    by (simp add: tinv_def)
qed

end
