(* ===== verification/Stm_Steps.thy ===== *)
theory Stm_Steps
  imports Stm_Inv
begin

text \<open>
  Every step of theory \<open>Stm\<close> keeps the invariant of theory \<open>Stm_Inv\<close>: first what a successful
  check of a lock word means, then the steps that only change the thread itself, then
  one lemma for each step that changes the shared state.
\<close>

section \<open>What a successful check means\<close>

lemma stm_invD:
  assumes "stm_inv csz vals s"
  shows "thr_ok csz s (th s t)" "lock_ok s (th s t)" "ent_ok s t" "later_ok s (th s t)"
    "doom_ok s (th s t)" "wrote_ok s (th s t)" "read_ok csz vals s (th s t)" "clean_ok s (th s t)"
    "locks_inv s" "hist_inv csz s" "mem_inv csz vals s" "ser_inv vals (hist s)"
  using assms by (simp_all add: stm_inv_def tinv_def)

lemma effsI: "j < length h \<Longrightarrow> est (h ! j) = Effective \<or> est (h ! j) = Ticked \<Longrightarrow> j \<in> effs h"
  by (auto simp: effs_def)

lemma hist_owner:
  assumes "stm_inv csz vals s" and "j < length (hist s)"
    and "est (hist s ! j) = st" and "st = Pending \<or> st = Effective"
  shows "phase (pc (th s (etid (hist s ! j)))) = Some st" and "ent (th s (etid (hist s ! j))) = j"
    and "ewr (hist s ! j) = wlog (th s (etid (hist s ! j)))"
    and "held (th s (etid (hist s ! j))) = wcells (th s (etid (hist s ! j)))"
proof -
  let ?u = "etid (hist s ! j)"
  show ph: "phase (pc (th s ?u)) = Some st" and e: "ent (th s ?u) = j"
    using stm_invD(10) [OF assms(1)] assms(2-4) by (auto simp: hist_inv_def Let_def)
  from stm_invD(3) [OF assms(1), of ?u] ph e have "hist s ! j = \<lparr>etid = ?u, erd = rlog (th s ?u), ewr = wlog (th s ?u), est = st\<rparr>"
    by (simp add: ent_ok_def Let_def)
  then show "ewr (hist s ! j) = wlog (th s ?u)" by (metis entry.select_convs(3))
  show "held (th s ?u) = wcells (th s ?u)"
    by (rule held_phase [OF ph]) (use assms(4) in auto)
qed

lemma held_locked: "stm_inv csz vals s \<Longrightarrow> c \<in> held (th s u) \<Longrightarrow> lock_bit_set (lk s c)"
  using stm_invD(9) by (auto simp: locks_inv_def)

lemma doomed_invalid:
  assumes "stm_inv csz vals s" and "doomed s p c" and "time_ok p"
  shows "\<not> read_write_valid_lockable p (lk s c)"
  using assms held_locked [OF assms(1)] by (auto simp: doomed_def valid_lockable_iff)

text \<open>A valid cell: nobody who holds it, no commit that the thread's snapshot misses.\<close>

lemma valid_clean:
  assumes i: "stm_inv csz vals s" and a: "pc (th s t) \<noteq> Idle" and v: "valid (th s t) (lk s c)"
  shows "clean (vis (th s t)) (length (hist s)) (hist s) c" and "\<not> dirty (vis (th s t)) (hist s) c"
    and "\<not> lock_bit_set (lk s c)"
proof -
  let ?x = "th s t"
  from stm_invD(1) [OF i, of t] a have p: "time_ok (pin ?x)" and vis: "vis ?x \<subseteq> ticked (hist s)"
    by (simp_all add: thr_ok_def)
  from v p show free: "\<not> lock_bit_set (lk s c)"
    by (simp add: valid_def valid_lockable_iff)
  have nd: "\<not> doomed s (pin ?x) c"
    using doomed_invalid [OF i _ p] v by (auto simp: valid_def)
  then show d: "\<not> dirty (vis ?x) (hist s) c"
    using stm_invD(5) [OF i, of t] a by (auto simp: dirty_def doom_ok_def)
  show "clean (vis ?x) (length (hist s)) (hist s) c"
    unfolding clean_def
  proof (intro allI impI)
    fix j
    assume j: "j < length (hist s)" and w: "writes (hist s ! j) c"
    have no: "est (hist s ! j) \<noteq> st" if "st = Pending \<or> st = Effective" for st
    proof
      assume st: "est (hist s ! j) = st"
      note o = hist_owner [OF i j st that]
      from w o(3,4) have "c \<in> held (th s (etid (hist s ! j)))"
        by (simp add: writes_def)
      with free show False using held_locked [OF i] by blast
    qed
    have "est (hist s ! j) = Ticked \<Longrightarrow> j \<in> vis ?x"
      using d w effsI [OF j] by (auto simp: dirty_def)
    with no [of Pending] no [of Effective]
    show "est (hist s ! j) = Aborted \<or> est (hist s ! j) = Ticked \<and> j \<in> vis ?x"
      by (cases "est (hist s ! j)") auto
  qed
qed

lemma val_after_vis:
  assumes "vis x \<subseteq> ticked h" and "\<not> dirty (vis x) h c"
  shows "val_after vals (effs h) h c = val_after vals (vis x) h c"
  using assms ticked_effs [of h] by (intro val_after_cong) (auto simp: dirty_def)

lemma not_dirty_dat:
  assumes i: "stm_inv csz vals s" and a: "pc (th s t) \<noteq> Idle" and d: "\<not> dirty (vis (th s t)) (hist s) c"
    and k: "k < csz c"
  shows "dat s c k = val_after vals (vis (th s t)) (hist s) c ! k"
proof -
  let ?x = "th s t"
  from stm_invD(1) [OF i, of t] a have vis: "vis ?x \<subseteq> ticked (hist s)"
    by (simp add: thr_ok_def)
  have "\<not> writes (hist s ! j) c" if "j < length (hist s)" "est (hist s ! j) = Effective" for j
    using d vis that effsI [OF that(1)] by (auto simp: dirty_def ticked_def)
  with stm_invD(11) [OF i] k have "dat s c k = val_after vals (effs (hist s)) (hist s) c ! k"
    by (auto simp: mem_inv_def)
  with val_after_vis [OF vis d] show ?thesis by simp
qed

section \<open>Steps of the thread alone\<close>

lemma th_upd_simps [simp]:
  "thr_ok csz (upd s t y) x = thr_ok csz s x" "lock_ok (upd s t y) x = lock_ok s x"
  "later_ok (upd s t y) x = later_ok s x" "wrote_ok (upd s t y) x = wrote_ok s x"
  "read_ok csz vals (upd s t y) x = read_ok csz vals s x" "clean_ok (upd s t y) x = clean_ok s x"
  "mem_inv csz vals (upd s t y) = mem_inv csz vals s"
  by (simp_all add: thr_ok_def lock_ok_def later_ok_def wrote_ok_def read_ok_def clean_ok_def mem_inv_def)

definition quiet :: "thr \<Rightarrow> thr \<Rightarrow> bool" where
  "quiet x x' \<longleftrightarrow>
     held x' = held x \<and>
     (phase (pc x') = phase (pc x) \<or> phase (pc x') = None \<and> (phase (pc x) = None \<or> phase (pc x) = Some Ticked)) \<and>
     (phase (pc x') \<noteq> None \<longrightarrow> ent x' = ent x \<and> rlog x' = rlog x \<and> wlog x' = wlog x) \<and>
     (pc x' \<noteq> Idle \<longrightarrow> pc x \<noteq> Idle \<and> pin x' = pin x \<and> vis x' = vis x \<and> ppos x' = ppos x) \<and>
     (held x \<noteq> {} \<longrightarrow> dooms (pc x') = dooms (pc x))"

lemma doomed_quiet:
  assumes "quiet (th s t) x'"
  shows "doomed (upd s t x') p c = doomed s p c"
proof -
  have "(c \<in> held (((th s)(t := x')) u) \<and> dooms (pc (((th s)(t := x')) u)) p) =
      (c \<in> held (th s u) \<and> dooms (pc (th s u)) p)" for u
    using assms by (cases "u = t") (auto simp: quiet_def)
  then show ?thesis by (simp add: doomed_def)
qed

lemma frame_quiet: "quiet (th s t) x' \<Longrightarrow> frame s (upd s t x') {t}"
  by (simp add: frame_def doomed_quiet)

lemma stm_inv_quiet:
  assumes i: "stm_inv csz vals s" and q: "quiet (th s t) x'"
    and own: "thr_ok csz s x'" "lock_ok s x'" "wrote_ok s x'" "read_ok csz vals s x'" "clean_ok s x'"
  shows "stm_inv csz vals (upd s t x')"
proof -
  let ?s = "upd s t x'"
  have ent: "ent_ok ?s t"
    using stm_invD(3) [OF i, of t] q by (auto simp: ent_ok_def Let_def quiet_def)
  have later: "later_ok s x'"
    using stm_invD(4) [OF i, of t] q by (auto simp: later_ok_def quiet_def)
  have doom: "doom_ok ?s x'"
    using stm_invD(5) [OF i, of t] q by (simp add: doom_ok_def doomed_quiet) (simp add: quiet_def)
  have "tinv csz vals ?s u" for u
  proof (cases "u = t")
    case True
    with own ent later doom show ?thesis by (simp add: tinv_def)
  next
    case False
    with i show ?thesis by (intro frame_tinv [OF frame_quiet [OF q]]) (auto simp: stm_inv_def)
  qed
  moreover have "locks_inv ?s"
  proof -
    have h: "held (th ?s u) = held (th s u)" for u
      using q by (simp add: quiet_def)
    show ?thesis using stm_invD(9) [OF i] unfolding locks_inv_def h by simp
  qed
  moreover have "hist_inv csz ?s"
    unfolding hist_inv_def Let_def
  proof (intro allI impI)
    fix j
    assume "j < length (hist ?s)"
    then have j: "j < length (hist s)" by simp
    with stm_invD(10) [OF i] show "(est (hist ?s ! j) = Pending \<or> est (hist ?s ! j) = Effective \<longrightarrow>
           phase (pc (th ?s (etid (hist ?s ! j)))) = Some (est (hist ?s ! j)) \<and>
           ent (th ?s (etid (hist ?s ! j))) = j) \<and>
         distinct (map fst (ewr (hist ?s ! j))) \<and>
         (\<forall>w\<in>set (ewr (hist ?s ! j)). length (snd w) = csz (fst w))"
      using q by (auto simp: hist_inv_def Let_def quiet_def)
  qed
  ultimately show ?thesis
    using stm_invD(11,12) [OF i] by (simp add: stm_inv_def)
qed

lemma quiet_end: "pc x = Running \<Longrightarrow> quiet x (x\<lparr>pc := Idle\<rparr>)"
  by (simp add: quiet_def held_def)

text \<open>The rules of this section, one by one.\<close>

lemma inv_end_tx:
  assumes i: "stm_inv csz vals s" and p: "pc (th s t) = Running"
  shows "stm_inv csz vals (upd s t ((th s t)\<lparr>pc := Idle\<rparr>))"
  by (rule stm_inv_quiet [OF i])
    (use stm_invD(1) [OF i, of t] p in \<open>auto simp: quiet_def held_def thr_ok_def lock_ok_def wrote_ok_def
      read_ok_def clean_ok_def\<close>)

lemma inv_read_start:
  assumes i: "stm_inv csz vals s" and p: "pc (th s t) = Running"
  shows "stm_inv csz vals (upd s t ((th s t)\<lparr>pc := Reading c [] logged\<rparr>))"
  by (rule stm_inv_quiet [OF i])
    (use stm_invD(1,7) [OF i, of t] p in \<open>auto simp: quiet_def held_def thr_ok_def lock_ok_def wrote_ok_def
      read_ok_def clean_ok_def\<close>)

lemma inv_read_word:
  assumes i: "stm_inv csz vals s" and p: "pc (th s t) = Reading c buf logged" and k: "length buf < csz c"
  shows "stm_inv csz vals (upd s t ((th s t)\<lparr>pc := Reading c (buf @ [dat s c (length buf)]) logged\<rparr>))"
proof (rule stm_inv_quiet [OF i])
  let ?x = "th s t"
  let ?x' = "?x\<lparr>pc := Reading c (buf @ [dat s c (length buf)]) logged\<rparr>"
  show "quiet ?x ?x'" "thr_ok csz s ?x'" "lock_ok s ?x'" "wrote_ok s ?x'" "clean_ok s ?x'"
    using stm_invD(1) [OF i, of t] p
    by (simp_all add: quiet_def held_def thr_ok_def lock_ok_def wrote_ok_def clean_ok_def)
  have "dirty (vis ?x) (hist s) c \<or> (\<forall>k<Suc (length buf).
      (buf @ [dat s c (length buf)]) ! k = val_after vals (vis ?x) (hist s) c ! k)"
    using stm_invD(7) [OF i, of t] p not_dirty_dat [OF i, of t c "length buf"] k
    by (auto simp: read_ok_def nth_append less_Suc_eq)
  then show "read_ok csz vals s ?x'"
    using stm_invD(7) [OF i, of t] p k by (simp add: read_ok_def)
qed

lemma length_val_after:
  assumes "hist_inv csz s" and "length (vals c) = csz c"
  shows "length (val_after vals J (hist s) c) = csz c"
proof (cases "writers J (hist s) c")
  case Nil
  with assms(2) show ?thesis by (simp add: val_after_def)
next
  case (Cons j js)
  let ?l = "last (j # js)"
  have "?l \<in> set (writers J (hist s) c)" using Cons by (metis last_in_set list.distinct(1))
  then have l: "?l < length (hist s)" "writes (hist s ! ?l) c"
    by (auto simp: writers_def simp del: last.simps)
  then obtain v where v: "map_of (ewr (hist s ! ?l)) c = Some v"
    by (cases "map_of (ewr (hist s ! ?l)) c") (auto simp: writes_def map_of_eq_None_iff simp del: last.simps)
  have "\<forall>w\<in>set (ewr (hist s ! ?l)). length (snd w) = csz (fst w)"
    using assms(1) l(1) by (simp add: hist_inv_def Let_def)
  with map_of_SomeD [OF v] have "length v = csz c" by fastforce
  with v Cons show ?thesis by (simp add: val_after_def del: last.simps)
qed

lemma inv_read_ok:
  assumes i: "stm_inv csz vals s" and p: "pc (th s t) = Reading c buf logged" and k: "length buf = csz c"
    and v: "valid (th s t) (lk s c)"
  shows "stm_inv csz vals (upd s t ((th s t)\<lparr>pc := Running, seen := seen (th s t) @ [(c, buf)],
      rlog := rlog (th s t) @ (if logged then [(c, buf)] else [])\<rparr>))"
proof (rule stm_inv_quiet [OF i])
  let ?x = "th s t"
  let ?x' = "?x\<lparr>pc := Running, seen := seen ?x @ [(c, buf)],
      rlog := rlog ?x @ (if logged then [(c, buf)] else [])\<rparr>"
  have a: "pc ?x \<noteq> Idle" using p by simp
  show "quiet ?x ?x'" "lock_ok s ?x'" "wrote_ok s ?x'" "clean_ok s ?x'"
    using p by (simp_all add: quiet_def held_def lock_ok_def wrote_ok_def clean_ok_def)
  show "thr_ok csz s ?x'"
    using stm_invD(1) [OF i, of t] p by (auto simp: thr_ok_def)
  note cl = valid_clean [OF i a v]
  have "ppos ?x \<le> length (hist s)"
    using stm_invD(1) [OF i, of t] a by (simp add: thr_ok_def)
  then have "clean (vis ?x) (ppos ?x) (hist s) c"
    using cl(1) by (auto simp: clean_def)
  moreover have "\<forall>k<length buf. buf ! k = val_after vals (vis ?x) (hist s) c ! k"
    using stm_invD(7) [OF i, of t] p cl(2) by (auto simp: read_ok_def)
  then have "buf = val_after vals (vis ?x) (hist s) c"
    using k length_val_after [OF stm_invD(10) [OF i], of vals c] stm_invD(11) [OF i]
    by (intro nth_equalityI) (auto simp: mem_inv_def)
  ultimately show "read_ok csz vals s ?x'"
    using stm_invD(7) [OF i, of t] a by (auto simp: read_ok_def)
qed

lemma inv_read_conflict:
  assumes i: "stm_inv csz vals s" and p: "pc (th s t) = Reading c buf logged"
  shows "stm_inv csz vals (upd s t ((th s t)\<lparr>pc := Running\<rparr>))"
  by (rule stm_inv_quiet [OF i])
    (use stm_invD(1,7) [OF i, of t] p in \<open>auto simp: quiet_def held_def thr_ok_def lock_ok_def wrote_ok_def
      read_ok_def clean_ok_def\<close>)

text \<open>Changes of the write log of a running transaction.\<close>

lemma inv_set:
  assumes i: "stm_inv csz vals s" and p: "pc (th s t) = Running"
    and w: "distinct (map fst wl)" "\<forall>w\<in>set wl. length (snd w) = csz (fst w)"
  shows "stm_inv csz vals (upd s t ((th s t)\<lparr>wlog := wl\<rparr>))"
  by (rule stm_inv_quiet [OF i])
    (use stm_invD(1,7) [OF i, of t] p w in \<open>auto simp: quiet_def held_def thr_ok_def lock_ok_def wrote_ok_def
      read_ok_def clean_ok_def\<close>)

lemma thr_ok_wlog:
  assumes "stm_inv csz vals s"
  shows "distinct (map fst (wlog (th s t)))" "\<forall>w\<in>set (wlog (th s t)). length (snd w) = csz (fst w)"
  using stm_invD(1) [OF assms, of t] by (simp_all add: thr_ok_def)

lemma inv_set_first:
  assumes i: "stm_inv csz vals s" and p: "pc (th s t) = Running" and "c \<notin> wcells (th s t)" and "length v = csz c"
  shows "stm_inv csz vals (upd s t ((th s t)\<lparr>wlog := wlog (th s t) @ [(c, v)]\<rparr>))"
  by (rule inv_set [OF i p]) (use assms thr_ok_wlog [OF i, of t] in auto)

lemma inv_set_overwrite:
  assumes i: "stm_inv csz vals s" and p: "pc (th s t) = Running" and k: "k < length (wlog (th s t))"
    and l: "length v = csz (wcell (th s t) k)"
  shows "stm_inv csz vals (upd s t ((th s t)\<lparr>wlog := (wlog (th s t))[k := (wcell (th s t) k, v)]\<rparr>))"
proof (rule inv_set [OF i p])
  let ?w = "wlog (th s t)"
  have "map fst (?w[k := (wcell (th s t) k, v)]) = map fst ?w"
    using k by (simp add: map_update list_update_same_conv)
  then show "distinct (map fst (?w[k := (wcell (th s t) k, v)]))"
    using thr_ok_wlog [OF i, of t] by simp
  show "\<forall>w\<in>set (?w[k := (wcell (th s t) k, v)]). length (snd w) = csz (fst w)"
    using thr_ok_wlog [OF i, of t] l set_update_subset_insert [of ?w k] by fastforce
qed

lemma inv_set_replace:
  assumes i: "stm_inv csz vals s" and p: "pc (th s t) = Running" and l: "length v = csz c"
  shows "stm_inv csz vals (upd s t ((th s t)\<lparr>wlog := filter (\<lambda>w. fst w \<noteq> c) (wlog (th s t)) @ [(c, v)]\<rparr>))"
proof (rule inv_set [OF i p])
  let ?w = "wlog (th s t)"
  have "map fst (filter (\<lambda>w. fst w \<noteq> c) ?w) = filter (\<lambda>d. d \<noteq> c) (map fst ?w)"
    by (simp add: filter_map comp_def)
  then show "distinct (map fst (filter (\<lambda>w. fst w \<noteq> c) ?w @ [(c, v)]))"
    using thr_ok_wlog [OF i, of t] by (simp add: distinct_filter)
  show "\<forall>w\<in>set (filter (\<lambda>w. fst w \<noteq> c) ?w @ [(c, v)]). length (snd w) = csz (fst w)"
    using thr_ok_wlog [OF i, of t] l by auto
qed

text \<open>Within a commit.\<close>

lemma inv_commit_soft:
  assumes i: "stm_inv csz vals s" and p: "pc (th s t) = Running"
  shows "stm_inv csz vals (upd s t ((th s t)\<lparr>pc := Locking 0 None\<rparr>))"
  by (rule stm_inv_quiet [OF i])
    (use stm_invD(1,7) [OF i, of t] p in \<open>auto simp: quiet_def held_def thr_ok_def lock_ok_def wrote_ok_def
      read_ok_def clean_ok_def\<close>)

lemma inv_lock_load:
  assumes i: "stm_inv csz vals s" and p: "pc (th s t) = Locking k a"
  shows "stm_inv csz vals (upd s t ((th s t)\<lparr>pc := Locking k b\<rparr>))"
  by (rule stm_inv_quiet [OF i])
    (use stm_invD(1,7,8) [OF i, of t] p in \<open>auto simp: quiet_def held_def thr_ok_def lock_ok_def wrote_ok_def
      read_ok_def clean_ok_def\<close>)

lemma inv_lock_fail:
  assumes i: "stm_inv csz vals s" and p: "pc (th s t) = Locking k a"
  shows "stm_inv csz vals (upd s t ((th s t)\<lparr>pc := Undoing 0 k None\<rparr>))"
  by (rule stm_inv_quiet [OF i])
    (use stm_invD(1,7,8) [OF i, of t] p in \<open>auto simp: quiet_def held_def thr_ok_def lock_ok_def wrote_ok_def
      read_ok_def clean_ok_def\<close>)

lemma inv_validate_ok:
  assumes i: "stm_inv csz vals s" and p: "pc (th s t) = Validating n" and n: "n < length (vreads (th s t))"
    and v: "valid (th s t) (lk s (vreads (th s t) ! n))"
  shows "stm_inv csz vals (upd s t ((th s t)\<lparr>pc := Validating (Suc n)\<rparr>))"
proof (rule stm_inv_quiet [OF i])
  let ?x = "th s t" let ?x' = "?x\<lparr>pc := Validating (Suc n)\<rparr>"
  have a: "pc ?x \<noteq> Idle" using p by simp
  show "quiet ?x ?x'" "thr_ok csz s ?x'" "lock_ok s ?x'" "wrote_ok s ?x'" "read_ok csz vals s ?x'"
    using stm_invD(1,7) [OF i, of t] p
    by (simp_all add: quiet_def held_def thr_ok_def lock_ok_def wrote_ok_def read_ok_def fun_eq_iff)
  have "ent ?x < length (hist s)"
    using stm_invD(3) [OF i, of t] p by (simp add: ent_ok_def Let_def)
  then have "clean (vis ?x) (ent ?x) (hist s) (vreads ?x ! n)"
    using valid_clean(1) [OF i a v] by (auto simp: clean_def)
  moreover have "vreads ?x' = vreads ?x" by (simp add: vreads_def)
  ultimately show "clean_ok s ?x'"
    using stm_invD(8) [OF i, of t] p n by (auto simp: clean_ok_def take_Suc_conv_app_nth)
qed

lemma inv_write_next:
  assumes i: "stm_inv csz vals s" and p: "pc (th s t) = Writing k (length (snd (wlog (th s t) ! k)))"
  shows "stm_inv csz vals (upd s t ((th s t)\<lparr>pc := Writing (Suc k) 0\<rparr>))"
  by (rule stm_inv_quiet [OF i])
    (use stm_invD(1,6,7) [OF i, of t] p in \<open>auto simp: quiet_def held_def thr_ok_def lock_ok_def wrote_ok_def
      read_ok_def clean_ok_def less_Suc_eq\<close>)

lemma inv_write_done:
  assumes i: "stm_inv csz vals s" and p: "pc (th s t) = Writing (length (wlog (th s t))) 0"
  shows "stm_inv csz vals (upd s t ((th s t)\<lparr>pc := Ticking\<rparr>))"
  by (rule stm_inv_quiet [OF i])
    (use stm_invD(1,6,7) [OF i, of t] p in \<open>auto simp: quiet_def held_def thr_ok_def lock_ok_def wrote_ok_def
      read_ok_def clean_ok_def fun_eq_iff\<close>)

lemma inv_publish_done:
  assumes i: "stm_inv csz vals s" and p: "pc (th s t) = Publishing (length (wlog (th s t))) sync"
  shows "stm_inv csz vals (upd s t ((th s t)\<lparr>pc := Idle\<rparr>))"
  by (rule stm_inv_quiet [OF i])
    (use stm_invD(1,6,7) [OF i, of t] p in \<open>auto simp: quiet_def held_def thr_ok_def lock_ok_def wrote_ok_def
      read_ok_def clean_ok_def\<close>)

lemma inv_undo_load:
  assumes i: "stm_inv csz vals s" and p: "pc (th s t) = Undoing j n None" and j: "j < n"
  shows "stm_inv csz vals (upd s t ((th s t)\<lparr>pc := Undoing j n (Some (lk s (wcell (th s t) j)))\<rparr>))"
proof -
  have "wcell (th s t) j \<in> held (th s t)"
    using p j by (simp add: held_def)
  then have "lock_bit_set (lk s (wcell (th s t) j))" by (rule held_locked [OF i])
  then show ?thesis
    by (intro stm_inv_quiet [OF i])
      (use stm_invD(1,7) [OF i, of t] p j in \<open>auto simp: quiet_def held_def thr_ok_def lock_ok_def wrote_ok_def
        read_ok_def clean_ok_def\<close>)
qed

lemma inv_undo_done:
  assumes i: "stm_inv csz vals s" and p: "pc (th s t) = Undoing n n None"
  shows "stm_inv csz vals (upd s t ((th s t)\<lparr>pc := Idle\<rparr>))"
  by (rule stm_inv_quiet [OF i])
    (use stm_invD(1,7) [OF i, of t] p in \<open>auto simp: quiet_def held_def thr_ok_def lock_ok_def wrote_ok_def
      read_ok_def clean_ok_def\<close>)

section \<open>Steps that change the shared state\<close>

lemma stm_inv_frame:
  assumes "stm_inv csz vals s" and "frame s s' {t}"
    and "tinv csz vals s' t" "locks_inv s'" "hist_inv csz s'" "mem_inv csz vals s'" "ser_inv vals (hist s')"
  shows "stm_inv csz vals s'"
proof -
  have "tinv csz vals s' u" for u
    using assms(1,3) frame_tinv [OF assms(2), of u] by (cases "u = t") (auto simp: stm_inv_def)
  with assms(4-) show ?thesis by (simp add: stm_inv_def)
qed

text \<open>Steps that leave locks, words and history alone, but not what the thread is pinned at.\<close>

lemma inv_begin_tx:
  assumes i: "stm_inv csz vals s" and p: "pc (th s t) = Idle" and c: "clock_now (clk s) = Some p"
  shows "stm_inv csz vals (upd s t \<lparr>pc = Running, pin = p, rlog = [], wlog = [], seen = [],
      vis = ticked (hist s), ppos = length (hist s), ent = 0\<rparr>)" (is "stm_inv _ _ (upd s t ?x)")
proof (rule stm_inv_frame [OF i, of _ t])
  let ?s = "upd s t ?x"
  have h: "held ?x = {}" "held (th s t) = {}"
    using p by (simp_all add: held_def)
  then have hh: "held (th ?s u) = held (th s u)" for u by simp
  have "(c \<in> held (th ?s u) \<and> dooms (pc (th ?s u)) q) = (c \<in> held (th s u) \<and> dooms (pc (th s u)) q)" for u c q
    using h by (cases "u = t") auto
  then have d: "doomed ?s q c = doomed s q c" for q c
    by (simp add: doomed_def)
  show f: "frame s ?s {t}" by (simp add: frame_def d)
  have now: "p = QuiesceEpoch (clk s)" using c by (simp add: clock_now_Some)
  have "time_ok p" using stm_invD(9) [OF i] now by (simp add: locks_inv_def clock_ok_def)
  then have "thr_ok csz s ?x" using now ticked_less [of "hist s"] by (auto simp: thr_ok_def)
  moreover have "doomed s p c" if "j \<in> effs (hist s)" "j \<notin> ticked (hist s)" "writes (hist s ! j) c" for j c
  proof -
    from that have j: "j < length (hist s)" "est (hist s ! j) = Effective"
      by (auto simp: effs_def ticked_def elim: effective.elims)
    note o = hist_owner [OF i this]
    from o(1) have "dooms (pc (th s (etid (hist s ! j)))) p"
      by (cases "pc (th s (etid (hist s ! j)))") auto
    moreover from o(3,4) that(3) have "c \<in> held (th s (etid (hist s ! j)))" by (simp add: writes_def)
    ultimately show ?thesis by (auto simp: doomed_def)
  qed
  then have "doom_ok ?s ?x" by (simp add: doom_ok_def d)
  ultimately show "tinv csz vals ?s t"
    by (simp add: tinv_def lock_ok_def ent_ok_def later_ok_def wrote_ok_def read_ok_def clean_ok_def)
  show "locks_inv ?s" using stm_invD(9) [OF i] unfolding locks_inv_def hh by simp
  show "hist_inv csz ?s"
    using stm_invD(10) [OF i] p by (auto simp: hist_inv_def Let_def)
qed (use stm_invD(11,12) [OF i] in simp_all)

text \<open>Steps that change flags of lock words only.\<close>

lemma inv_flags:
  assumes i: "stm_inv csz vals s" and l: "\<And>d. ver (lk' d) = ver (lk s d) \<and> lock_bit_set (lk' d) = lock_bit_set (lk s d)"
  shows "stm_inv csz vals (s\<lparr>lk := lk'\<rparr>)"
proof -
  let ?s = "s\<lparr>lk := lk'\<rparr>"
  have d: "doomed ?s q c = doomed s q c" for q c using l by (simp add: doomed_def)
  have f: "frame s ?s {}" using l by (simp add: frame_def d)
  have "tinv csz vals ?s u" for u
    using frame_tinv [OF f, of u] i by (simp add: stm_inv_def)
  moreover have "locks_inv ?s" using stm_invD(9) [OF i] l by (simp add: locks_inv_def)
  moreover have "hist_inv csz ?s" using stm_invD(10) [OF i] by (simp add: hist_inv_def)
  moreover have "mem_inv csz vals ?s" using stm_invD(11) [OF i] by (simp add: mem_inv_def)
  ultimately show ?thesis using stm_invD(12) [OF i] by (simp add: stm_inv_def)
qed

lemma inv_park_clear:
  assumes "stm_inv csz vals s" and "time_ok q" and "try_clear_unpark_bit q a (lk s c) = (r, w)"
  shows "stm_inv csz vals (set_lk s c w)"
  by (rule inv_flags [OF assms(1)]) (use try_clear_unpark_bit_word [OF assms(3,2)] in auto)

lemma inv_park_set: "stm_inv csz vals s \<Longrightarrow> stm_inv csz vals (set_lk s c (set_unpark_bit (lk s c)))"
  by (rule inv_flags) (auto simp: set_unpark_bit_def)

text \<open>
  Steps on one lock word of the thread's own: the word of the cell \<open>d\<close> changes, and the thread's
  position \<open>pc\<close>; nobody else holds the cell before or after.
\<close>

lemma inv_own_lock:
  assumes i: "stm_inv csz vals s" and x: "x = th s t" and x': "x' = x\<lparr>pc := pc'\<rparr>"
    and act: "pc x \<noteq> Idle" "pc' \<noteq> Idle"
    and ph: "phase pc' = phase (pc x)" "phase (pc x) = None \<or> phase (pc x) = Some Ticked"
    and others: "\<And>u. u \<noteq> t \<Longrightarrow> d \<notin> held (th s u)" and own: "held x' - {d} = held x - {d}"
    and bit: "lock_bit_set w = (d \<in> held x')" and v: "ver (lk s d) \<le> ver w" "ver w \<le> ver (clk s)"
    and dm: "\<And>p. d \<in> held x \<Longrightarrow> dooms (pc x) p \<Longrightarrow> d \<in> held x' \<or> ver (qget p) < ver w"
    and dm': "dooms pc' = dooms (pc x)"
    and rest: "thr_ok csz s x'" "lock_ok (set_lk s d w) x'" "read_ok csz vals s x'" "clean_ok s x'"
      "\<And>a b. pc' \<noteq> Writing a b" "pc' \<noteq> Ticking"
  shows "stm_inv csz vals (upd (set_lk s d w) t x')"
proof (rule stm_inv_frame [OF i, of _ t])
  let ?s = "upd (set_lk s d w) t x'"
  have pcx: "pc x' = pc'" "pin x' = pin x" "vis x' = vis x" "wlog x' = wlog x" "rlog x' = rlog x" "ent x' = ent x"
    using x' by simp_all
  have dmono: "doomed ?s p c" if "doomed s p c" for p c
  proof (cases "ver (qget p) < ver (lk s c)")
    case True
    then show ?thesis using v(1) by (auto simp: doomed_def)
  next
    case False
    with that obtain u where u: "c \<in> held (th s u)" "dooms (pc (th s u)) p"
      by (auto simp: doomed_def)
    show ?thesis
    proof (cases "u = t")
      case True
      with u x dm [of p] own dm' have "c \<in> held x' \<and> dooms pc' p \<or> c = d \<and> ver (qget p) < ver w"
        by auto
      then show ?thesis
        using pcx(1) by (auto simp: doomed_def intro: exI [of _ t])
    next
      case False
      with u show ?thesis by (auto simp: doomed_def intro!: exI [of _ u])
    qed
  qed
  show f: "frame s ?s {t}"
    using others dmono by (auto simp: frame_def)
  have "doom_ok ?s x'"
    using stm_invD(5) [OF i, of t] dmono x act by (auto simp: doom_ok_def pcx)
  moreover have "ent_ok ?s t"
    using stm_invD(3) [OF i, of t] x ph by (simp add: ent_ok_def Let_def pcx)
  moreover have "later_ok ?s x'" using ph by (auto simp: later_ok_def pcx)
  moreover have "wrote_ok ?s x'" using rest by (simp add: wrote_ok_def pcx)
  moreover have "thr_ok csz ?s x'" "read_ok csz vals ?s x'" "clean_ok ?s x'"
    using rest(1,3,4) by (simp_all add: thr_ok_def read_ok_def clean_ok_def)
  moreover have "lock_ok ?s x'" using rest(2) by (simp add: lock_ok_def)
  ultimately show "tinv csz vals ?s t" by (simp add: tinv_def)
  have L: "clock_ok (clk s)" "\<And>c. ver (lk s c) \<le> ver (clk s)"
    "\<And>t t'. t \<noteq> t' \<Longrightarrow> held (th s t) \<inter> held (th s t') = {}"
    "\<And>c. lock_bit_set (lk s c) = (\<exists>t. c \<in> held (th s t))"
    using stm_invD(9) [OF i] unfolding locks_inv_def by blast+
  have disj: "held x' \<inter> held (th s u) = {}" if "u \<noteq> t" for u
    using L(3) [of t u] others [OF that] own x that by blast
  have ex: "(\<exists>u. c \<in> held (th ?s u)) = (\<exists>u. c \<in> held (th s u))" if "c \<noteq> d" for c
    using own that x by (auto split: if_splits)
  have exd: "(\<exists>u. d \<in> held (th ?s u)) = (d \<in> held x')"
    using others by (auto split: if_splits)
  have bits: "lock_bit_set (lk ?s c) = (\<exists>u. c \<in> held (th ?s u))" for c
  proof (cases "c = d")
    case True
    then show ?thesis using exd bit by simp
  next
    case False
    then show ?thesis using ex [OF False] L(4) [of c] by simp
  qed
  have dis: "held (th ?s u) \<inter> held (th ?s u') = {}" if "u \<noteq> u'" for u u'
    using disj L(3) [OF that] disj [of u] disj [of u'] that by (cases "u = t"; cases "u' = t") auto
  show "locks_inv ?s"
    unfolding locks_inv_def using L(1,2) v(2) dis bits by auto
  show "hist_inv csz ?s"
    unfolding hist_inv_def Let_def
    using stm_invD(10) [OF i] x ph by (auto simp: hist_inv_def Let_def pcx)
qed (use stm_invD(11,12) [OF i] in \<open>simp_all add: mem_inv_def\<close>)


lemma held_other:
  assumes "stm_inv csz vals s" and "u \<noteq> t" and "d \<in> held (th s t)"
  shows "d \<notin> held (th s u)"
  using stm_invD(9) [OF assms(1)] assms(2,3) unfolding locks_inv_def by blast

lemma inv_lock_cas:
  assumes i: "stm_inv csz vals s" and p: "pc (th s t) = Locking k (Some a)" and k: "k < length (wlog (th s t))"
    and tl: "try_lock (pin (th s t)) a (lk s (wcell (th s t) k)) = (Some st, w)"
  shows "stm_inv csz vals (upd (set_lk s (wcell (th s t) k) w) t ((th s t)\<lparr>pc := Locking (Suc k) None\<rparr>))"
proof -
  let ?x = "th s t" let ?d = "wcell ?x k" let ?x' = "?x\<lparr>pc := Locking (Suc k) None\<rparr>"
  note t = try_lock_Some [OF tl]
  have a: "pc ?x \<noteq> Idle" using p by simp
  have v: "valid ?x (lk s ?d)" using t by (simp add: valid_def read_write_valid_lockable_def)
  note cl = valid_clean [OF i a v]
  have free: "?d \<notin> held (th s u)" for u using cl(3) held_locked [OF i] by blast
  have h: "held ?x = wcell ?x ` {..<k}" "held ?x' = insert ?d (held ?x)"
    using p by (auto simp: held_def lessThan_Suc atLeast0LessThan less_Suc_eq)
  have thr: "thr_ok csz s ?x'" using stm_invD(1) [OF i, of t] p k by (auto simp: thr_ok_def)
  have rd: "read_ok csz vals s ?x'" using stm_invD(7) [OF i, of t] p by (simp add: read_ok_def)
  have cle: "clean_ok s ?x'"
    using stm_invD(8) [OF i, of t] p cl(1) unfolding clean_ok_def h(2) by simp
  have bit: "lock_bit_set w = (?d \<in> held ?x')" using t(1,3) cl(3) h(2) by auto
  have own: "held ?x' - {?d} = held ?x - {?d}" using h(2) by blast
  have ver: "ver w = ver (lk s ?d)" "ver (lk s ?d) \<le> ver (clk s)"
    using t(1,3) stm_invD(9) [OF i] unfolding locks_inv_def by auto
  show ?thesis
    by (rule inv_own_lock [OF i refl refl])
      (use p free bit own ver thr rd cle h(2) in \<open>simp_all add: lock_ok_def fun_eq_iff\<close>)
qed

lemma wcell_range:
  assumes "distinct (map fst (wlog x))" and "j < n" and "n \<le> length (wlog x)"
  shows "wcell x j \<notin> wcell x ` {Suc j..<n}" and "wcell x ` {j..<n} = insert (wcell x j) (wcell x ` {Suc j..<n})"
proof -
  show "wcell x j \<notin> wcell x ` {Suc j..<n}"
  proof
    assume "wcell x j \<in> wcell x ` {Suc j..<n}"
    then obtain m where "Suc j \<le> m" "m < n" "wcell x j = wcell x m" by auto
    then show False using assms nth_eq_iff_index_eq [OF assms(1), of j m] by simp
  qed
  have "{j..<n} = insert j {Suc j..<n}" using assms(2) by auto
  then show "wcell x ` {j..<n} = insert (wcell x j) (wcell x ` {Suc j..<n})" by simp
qed

lemma inv_undo_store:
  assumes i: "stm_inv csz vals s" and p: "pc (th s t) = Undoing j n (Some w)"
  shows "stm_inv csz vals (upd (set_lk s (wcell (th s t) j) (unlock_undo w)) t ((th s t)\<lparr>pc := Undoing (Suc j) n None\<rparr>))"
proof -
  let ?x = "th s t" let ?d = "wcell ?x j" let ?x' = "?x\<lparr>pc := Undoing (Suc j) n None\<rparr>"
  have thr: "thr_ok csz s ?x'" and j: "j < n" "n \<le> length (wlog ?x)" and dist: "distinct (map fst (wlog ?x))"
    using stm_invD(1) [OF i, of t] p by (auto simp: thr_ok_def)
  have h: "held ?x = wcell ?x ` {j..<n}" "held ?x' = wcell ?x ` {Suc j..<n}"
    using p by (simp_all add: held_def)
  have h2: "held ?x = insert ?d (held ?x')" and nd: "?d \<notin> held ?x'"
    using wcell_range [OF dist j] by (simp_all add: h)
  have lw: "lock_bit_set w" "ver w = ver (lk s ?d)"
    using stm_invD(2) [OF i, of t] p by (auto simp: lock_ok_def)
  have others: "?d \<notin> held (th s u)" if "u \<noteq> t" for u
    using held_other [OF i that, of ?d] h2 by blast
  have rd: "read_ok csz vals s ?x'" using stm_invD(7) [OF i, of t] p by (simp add: read_ok_def)
  have own: "held ?x' - {?d} = held ?x - {?d}" using h2 by blast
  have ver: "ver (unlock_undo w) = ver (lk s ?d)" "ver (lk s ?d) \<le> ver (clk s)" "\<not> lock_bit_set (unlock_undo w)"
    using lw stm_invD(9) [OF i] by (simp_all add: locks_inv_def unlock_undo_def)
  show ?thesis
    by (rule inv_own_lock [OF i refl refl])
      (use p others own ver thr rd nd in \<open>simp_all add: lock_ok_def clean_ok_def fun_eq_iff\<close>)
qed

lemma inv_publish:
  assumes i: "stm_inv csz vals s" and p: "pc (th s t) = Publishing j sync" and j: "j < length (wlog (th s t))"
  shows "stm_inv csz vals (upd (set_lk s (wcell (th s t) j) (unlock_publish (quiesce_next sync) (lk s (wcell (th s t) j)))) t
      ((th s t)\<lparr>pc := Publishing (Suc j) sync\<rparr>))"
proof -
  let ?x = "th s t" let ?d = "wcell ?x j" let ?x' = "?x\<lparr>pc := Publishing (Suc j) sync\<rparr>"
  let ?w = "unlock_publish (quiesce_next sync) (lk s ?d)" let ?n = "length (wlog ?x)"
  have thr: "thr_ok csz s ?x'" and dist: "distinct (map fst (wlog ?x))"
    and w: "ver ?w = Suc (ver (qget sync))" "\<not> lock_bit_set ?w" "ver ?w \<le> ver (clk s)"
    using stm_invD(1) [OF i, of t] p j by (auto simp: thr_ok_def unlock_publish_def)
  have h: "held ?x = wcell ?x ` {j..<?n}" "held ?x' = wcell ?x ` {Suc j..<?n}"
    using p by (simp_all add: held_def)
  have h2: "held ?x = insert ?d (held ?x')" and nd: "?d \<notin> held ?x'"
    using wcell_range [OF dist j] by (simp_all add: h)
  have lo: "\<forall>c\<in>held ?x. ver (lk s c) \<le> ver (qget sync)"
    using stm_invD(2) [OF i, of t] p by (auto simp: lock_ok_def)
  then have lk: "lock_ok (set_lk s ?d ?w) ?x'"
    using h2 nd by (auto simp: lock_ok_def)
  have others: "?d \<notin> held (th s u)" if "u \<noteq> t" for u
    using held_other [OF i that, of ?d] h2 by blast
  have rd: "read_ok csz vals s ?x'" using stm_invD(7) [OF i, of t] p by (simp add: read_ok_def)
  have own: "held ?x' - {?d} = held ?x - {?d}" using h2 by blast
  have ver: "ver (lk s ?d) \<le> ver ?w" using lo h2 w(1) by auto
  show ?thesis
    by (rule inv_own_lock [OF i refl refl])
      (use p others own ver w thr rd nd lk in \<open>simp_all add: clean_ok_def fun_eq_iff\<close>)
qed

text \<open>The words of the cells: one word of a held cell.\<close>


lemma wcell_held: "phase (pc x) = Some Effective \<Longrightarrow> k < length (wlog x) \<Longrightarrow> wcell x k \<in> held x"
  using held_phase [of x Effective] by simp

lemma inv_write_word:
  assumes i: "stm_inv csz vals s" and p: "pc (th s t) = Writing n k" and n: "n < length (wlog (th s t))"
    and k: "k < length (snd (wlog (th s t) ! n))"
  shows "stm_inv csz vals (upd s t ((th s t)\<lparr>pc := Writing n (Suc k)\<rparr>)
      \<lparr>dat := (dat s)(wcell (th s t) n := (dat s (wcell (th s t) n))(k := snd (wlog (th s t) ! n) ! k))\<rparr>)"
    (is "stm_inv csz vals ?s")
proof (rule stm_inv_frame [OF i, of _ t])
  let ?x = "th s t" let ?d = "wcell ?x n" let ?x' = "?x\<lparr>pc := Writing n (Suc k)\<rparr>"
  have dh: "?d \<in> held ?x" by (rule wcell_held) (use p n in simp_all)
  have hx: "held ?x' = held ?x" using p by (simp add: held_def)
  then have hh: "held (th ?s u) = held (th s u)" for u by simp
  have dd: "dooms (pc (th ?s u)) = dooms (pc (th s u))" for u using p by (simp add: fun_eq_iff)
  have d: "doomed ?s q c = doomed s q c" for q c unfolding doomed_def hh dd by simp
  show f: "frame s ?s {t}"
    using held_other [OF i _ dh] by (auto simp: frame_def d)
  have dist: "distinct (map fst (wlog ?x))" using stm_invD(1) [OF i, of t] by (simp add: thr_ok_def)
  have ne: "wcell ?x n' \<noteq> ?d" if "n' < length (wlog ?x)" "n' \<noteq> n" for n'
    using nth_eq_iff_index_eq [OF dist, of n' n] that n by simp
  have wr: "dat s (wcell ?x n') k' = snd (wlog ?x ! n') ! k'"
    if "n' < length (wlog ?x)" "k' < length (snd (wlog ?x ! n'))" "n' < n \<or> n' = n \<and> k' < k" for n' k'
    using stm_invD(6) [OF i, of t] p that unfolding wrote_ok_def by blast
  have "wrote_ok ?s ?x'"
    using wr ne by (auto simp: wrote_ok_def less_Suc_eq)
  moreover have "thr_ok csz ?s ?x'" "lock_ok ?s ?x'" "ent_ok ?s t" "later_ok ?s ?x'" "clean_ok ?s ?x'"
    using stm_invD(1,3,4) [OF i, of t] p
    by (simp_all add: thr_ok_def lock_ok_def ent_ok_def Let_def later_ok_def clean_ok_def)
  moreover have "doom_ok ?s ?x'" using stm_invD(5) [OF i, of t] p by (simp add: doom_ok_def d)
  moreover have "read_ok csz vals ?s ?x'" using stm_invD(7) [OF i, of t] p by (simp add: read_ok_def)
  ultimately show "tinv csz vals ?s t" by (simp add: tinv_def)
  show "locks_inv ?s" using stm_invD(9) [OF i] unfolding locks_inv_def hh by simp
  show "hist_inv csz ?s" using stm_invD(10) [OF i] p by (auto simp: hist_inv_def Let_def)
  from stm_invD(3) [OF i, of t] p have e: "ent ?x < length (hist s)" "est (hist s ! ent ?x) = Effective"
    "ewr (hist s ! ent ?x) = wlog ?x" by (simp_all add: ent_ok_def Let_def)
  have "writes (hist s ! ent ?x) ?d" using n by (simp add: writes_def e(3))
  with e stm_invD(11) [OF i] show "mem_inv csz vals ?s"
    by (auto simp: mem_inv_def)
qed (use stm_invD(12) [OF i] in simp)

section \<open>Steps that change the history\<close>

lemma hist_inv_step:
  assumes h: "hist_inv csz s" and g: "grows (hist s) (hist s')"
    and o: "\<And>u. u \<noteq> t \<Longrightarrow> th s' u = th s u"
    and e: "\<And>j. j < length (hist s) \<Longrightarrow> etid (hist s ! j) \<noteq> t \<Longrightarrow> est (hist s' ! j) = est (hist s ! j)"
    and new: "\<And>j. length (hist s) \<le> j \<Longrightarrow> j < length (hist s') \<Longrightarrow> etid (hist s' ! j) = t \<and>
        distinct (map fst (ewr (hist s' ! j))) \<and> (\<forall>w\<in>set (ewr (hist s' ! j)). length (snd w) = csz (fst w))"
    and own: "\<And>j. j < length (hist s') \<Longrightarrow> etid (hist s' ! j) = t \<Longrightarrow>
        est (hist s' ! j) = Pending \<or> est (hist s' ! j) = Effective \<Longrightarrow>
        phase (pc (th s' t)) = Some (est (hist s' ! j)) \<and> ent (th s' t) = j"
  shows "hist_inv csz s'"
  unfolding hist_inv_def Let_def
proof (intro allI impI)
  fix j assume j: "j < length (hist s')"
  let ?e = "hist s' ! j"
  have "(est ?e = Pending \<or> est ?e = Effective \<longrightarrow>
       phase (pc (th s' (etid ?e))) = Some (est ?e) \<and> ent (th s' (etid ?e)) = j)"
  proof (cases "etid ?e = t")
    case True
    with own [OF j True] show ?thesis by simp
  next
    case False
    with new [of j] j have l: "j < length (hist s)" by force
    then have t: "etid ?e = etid (hist s ! j)" using g by (simp add: grows_def)
    have "est ?e = est (hist s ! j)" "th s' (etid ?e) = th s (etid ?e)"
      using e [OF l] o [OF False] False t by simp_all
    with h l show ?thesis by (simp add: hist_inv_def Let_def t)
  qed
  moreover have "distinct (map fst (ewr ?e)) \<and> (\<forall>w\<in>set (ewr ?e). length (snd w) = csz (fst w))"
  proof (cases "j < length (hist s)")
    case True
    with g have "ewr ?e = ewr (hist s ! j)" by (simp add: grows_def)
    with True h show ?thesis by (simp add: hist_inv_def Let_def)
  next
    case False
    with new [of j] j show ?thesis by simp
  qed
  ultimately show "(est ?e = Pending \<or> est ?e = Effective \<longrightarrow>
       phase (pc (th s' (etid ?e))) = Some (est ?e) \<and> ent (th s' (etid ?e)) = j) \<and>
     distinct (map fst (ewr ?e)) \<and> (\<forall>w\<in>set (ewr ?e). length (snd w) = csz (fst w))" by blast
qed

text \<open>An entry of the thread that has not ended is the one it is working on.\<close>

lemma own_entry:
  assumes i: "stm_inv csz vals s" and "j < length (hist s)" and "etid (hist s ! j) = t"
    and "est (hist s ! j) = Pending \<or> est (hist s ! j) = Effective"
  shows "phase (pc (th s t)) = Some (est (hist s ! j))" and "ent (th s t) = j"
  using hist_owner [OF i assms(2) refl assms(4)] assms(3) by simp_all

lemma mem_inv_step:
  assumes m: "mem_inv csz vals s" and g: "grows (hist s) (hist s')"
    and c: "\<And>c. (\<And>j. j < length (hist s') \<Longrightarrow> est (hist s' ! j) = Effective \<Longrightarrow> \<not> writes (hist s' ! j) c) \<Longrightarrow>
      dat s' c = dat s c \<and> (\<forall>j<length (hist s). est (hist s ! j) = Effective \<longrightarrow> \<not> writes (hist s ! j) c) \<and>
      (\<forall>j<length (hist s'). writes (hist s' ! j) c \<longrightarrow> (j \<in> effs (hist s')) = (j \<in> effs (hist s)))"
  shows "mem_inv csz vals s'"
  unfolding mem_inv_def
proof (intro allI conjI impI)
  show "length (vals c) = csz c" for c using m by (simp add: mem_inv_def)
  fix c k
  assume n: "\<forall>j<length (hist s'). est (hist s' ! j) = Effective \<longrightarrow> \<not> writes (hist s' ! j) c" and k: "k < csz c"
  from c [of c] n have d: "dat s' c = dat s c"
    and ne: "\<forall>j<length (hist s). est (hist s ! j) = Effective \<longrightarrow> \<not> writes (hist s ! j) c"
    and ef: "\<And>j. j < length (hist s') \<Longrightarrow> writes (hist s' ! j) c \<Longrightarrow> (j \<in> effs (hist s')) = (j \<in> effs (hist s))"
    by blast+
  have "val_after vals (effs (hist s')) (hist s') c = val_after vals (effs (hist s)) (hist s') c"
    by (rule val_after_cong) (rule ef)
  also have "\<dots> = val_after vals (effs (hist s)) (hist s) c"
    by (rule grows_val_after [OF g]) (auto simp: effs_def)
  finally show "dat s' c k = val_after vals (effs (hist s')) (hist s') c ! k"
    using m ne k d by (simp add: mem_inv_def)
qed

lemma ser_inv_same:
  assumes i: "ser_inv vals h" and g: "grows h h'" and ef: "effs h' = effs h"
    and p: "\<And>j. j < length h \<Longrightarrow> est (h' ! j) = Pending \<Longrightarrow> est (h ! j) = Pending"
  shows "ser_inv vals h'"
  unfolding ser_inv_def ef
proof (intro ballI conjI allI impI)
  fix k r assume k: "k \<in> effs h" and r: "r \<in> set (erd (h' ! k))"
  have l: "k < length h" using k by (simp add: effs_def)
  with g r have r': "r \<in> set (erd (h ! k))" by (simp add: grows_def)
  have "val_after vals (effs h \<inter> {..<k}) h' (fst r) = val_after vals (effs h \<inter> {..<k}) h (fst r)"
    by (rule grows_val_after [OF g]) (auto simp: effs_def)
  with i k r' show "snd r = val_after vals (effs h \<inter> {..<k}) h' (fst r)" by (simp add: ser_inv_def)
  fix j assume "j < k" and "writes (h' ! j) (fst r)"
  with i k r' l p [of j] grows_writes [OF g, of j "fst r"] show "est (h' ! j) \<noteq> Pending"
    by (auto simp: ser_inv_def)
qed

text \<open>What a thread has read is what the commits before its point in the history leave behind.\<close>

lemma reads_at:
  assumes i: "stm_inv csz vals s" and a: "pc (th s t) \<noteq> Idle" and r: "r \<in> set (seen (th s t))"
    and c: "clean (vis (th s t)) n (hist s) (fst r)" and n: "ppos (th s t) \<le> n"
  shows "snd r = val_after vals (effs (hist s) \<inter> {..<n}) (hist s) (fst r)"
proof -
  let ?x = "th s t"
  from stm_invD(1) [OF i, of t] a have vis: "vis ?x \<subseteq> ticked (hist s)" "vis ?x \<subseteq> {..<ppos ?x}"
    by (simp_all add: thr_ok_def)
  have "snd r = val_after vals (vis ?x) (hist s) (fst r)"
    using stm_invD(7) [OF i, of t] a r by (simp add: read_ok_def)
  also have "\<dots> = val_after vals (effs (hist s) \<inter> {..<n}) (hist s) (fst r)"
    by (rule val_after_cong) (use vis n c in \<open>auto simp: clean_def effs_def ticked_def\<close>)
  finally show ?thesis .
qed


lemma effs_append: "effs (h @ [e]) = (if effective (est e) then insert (length h) (effs h) else effs h)"
  by (auto simp: effs_def nth_append less_Suc_eq)

lemma effs_set_status:
  "n < length h \<Longrightarrow> effs (set_status n st h) = (if effective st then insert n (effs h) else effs h - {n})"
  by (auto simp: effs_def est_set_status split: if_splits)

lemma frame_append:
  assumes "stm_inv csz vals s" and "\<And>u. u \<noteq> t \<Longrightarrow> th s' u = th s u" and "hist s' = hist s @ [e]"
    and "wcells (th s' t) = held (th s' t)" and "ewr e = wlog (th s' t)"
    and "\<And>u. u \<noteq> t \<Longrightarrow> held (th s' t) \<inter> held (th s u) = {}"
    and "\<And>u c. u \<noteq> t \<Longrightarrow> c \<in> held (th s u) \<Longrightarrow> dat s' c = dat s c" "clk s' = clk s" "\<And>c. ver (lk s' c) = ver (lk s c)"
    and "\<And>p c. doomed s p c \<Longrightarrow> doomed s' p c"
    and "\<And>c p. effective (est e) \<Longrightarrow> c \<in> wcells (th s' t) \<Longrightarrow> doomed s' p c"
  shows "frame s s' {t}"
  unfolding frame_def
proof (intro conjI allI impI ballI)
  have w: "writes e c = (c \<in> held (th s' t))" for c
    using assms(4,5) by (simp add: writes_def)
  show "grows (hist s) (hist s')" by (simp add: assms(3) grows_append)
  show "est (hist s' ! j) = est (hist s ! j)" if "j < length (hist s)" for j
    using that by (simp add: assms(3) nth_append)
  show "c \<notin> held (th s u)" if "length (hist s) \<le> j" "j < length (hist s')" "u \<notin> {t}" "writes (hist s' ! j) c" for j c u
    using that assms(6) [of u] w [of c] by (auto simp: assms(3) nth_append less_Suc_eq)
  show "doomed s' p c" if "j \<in> effs (hist s')" "j \<notin> effs (hist s)" "writes (hist s' ! j) c" for j c p
    using that assms(11) [of c p] w [of c] assms(4)
    by (auto simp: assms(3) effs_append effs_def nth_append split: if_splits)
qed (use assms in auto)

lemma inv_lock_done:
  assumes i: "stm_inv csz vals s" and p: "pc (th s t) = Locking (length (wlog (th s t))) None"
  shows "stm_inv csz vals (upd s t ((th s t)\<lparr>pc := Validating 0, ent := length (hist s)\<rparr>)
      \<lparr>hist := hist s @ [\<lparr>etid = t, erd = rlog (th s t), ewr = wlog (th s t), est = Pending\<rparr>]\<rparr>)"
    (is "stm_inv csz vals ?s")
proof (rule stm_inv_frame [OF i, of _ t])
  let ?x = "th s t" let ?x' = "?x\<lparr>pc := Validating 0, ent := length (hist s)\<rparr>"
  let ?e = "\<lparr>etid = t, erd = rlog ?x, ewr = wlog ?x, est = Pending\<rparr>"
  have hx: "held ?x' = held ?x" "held ?x = wcells ?x"
    using p by (simp_all only: held_def wcells_image) (simp_all add: atLeast0LessThan)
  have hh: "held (th ?s u) = held (th s u)" for u using hx by simp
  have dd: "dooms (pc (th ?s u)) = dooms (pc (th s u))" for u using p by (simp add: fun_eq_iff)
  have d: "doomed ?s q c = doomed s q c" for q c unfolding doomed_def hh dd by simp
  have dj: "held (th ?s t) \<inter> held (th s u) = {}" if "u \<noteq> t" for u
    using held_other [OF i that] hh [of t] by blast
  show f: "frame s ?s {t}"
    by (rule frame_append [OF i, of t _ ?e]) (use dj d hx in auto)
  have g: "grows (hist s) (hist ?s)" by (simp add: grows_append)
  have thr: "thr_ok csz s ?x" "thr_ok csz s ?x'" using stm_invD(1) [OF i, of t] p by (simp_all add: thr_ok_def)
  have "read_ok csz vals s ?x'" using stm_invD(7) [OF i, of t] p by (simp add: read_ok_def)
  then have "read_ok csz vals ?s ?x'" by (rule frame_read_ok [OF g thr(2)])
  moreover have "thr_ok csz ?s ?x'" by (rule frame_thr_ok [OF g _ thr(2)]) simp
  moreover have "doom_ok ?s ?x'"
    using stm_invD(5) [OF i, of t] p
    by (auto simp: doom_ok_def d effs_append nth_append) (auto simp: effs_def)
  moreover have "clean_ok ?s ?x'"
  proof -
    have "\<forall>c\<in>wcells ?x. clean (vis ?x) (length (hist s)) (hist s) c"
      using stm_invD(8) [OF i, of t] p hx(2) by (simp add: clean_ok_def)
    then have "\<forall>c\<in>wcells ?x. clean (vis ?x) (length (hist s)) (hist ?s) c"
      using grows_clean [OF g] by blast
    then show ?thesis using thr(1) p by (simp add: clean_ok_def thr_ok_def)
  qed
  moreover have "later_ok ?s ?x'" by (auto simp: later_ok_def)
  ultimately show "tinv csz vals ?s t"
    by (simp add: tinv_def lock_ok_def ent_ok_def wrote_ok_def)
  show "locks_inv ?s" using stm_invD(9) [OF i] unfolding locks_inv_def hh by simp
  show "hist_inv csz ?s"
  proof (rule hist_inv_step [OF stm_invD(10) [OF i] g, of t])
    fix j assume "j < length (hist ?s)" "etid (hist ?s ! j) = t" "est (hist ?s ! j) = Pending \<or> est (hist ?s ! j) = Effective"
    then show "phase (pc (th ?s t)) = Some (est (hist ?s ! j)) \<and> ent (th ?s t) = j"
      using own_entry [OF i, of j t] p by (auto simp: nth_append less_Suc_eq split: if_splits)
  qed (use thr(1) in \<open>auto simp: nth_append less_Suc_eq thr_ok_def split: if_splits\<close>)
  show "mem_inv csz vals ?s"
  proof (rule mem_inv_step [OF stm_invD(11) [OF i] g])
    fix c assume n: "\<And>j. j < length (hist ?s) \<Longrightarrow> est (hist ?s ! j) = Effective \<Longrightarrow> \<not> writes (hist ?s ! j) c"
    have "\<not> writes (hist s ! j) c" if "j < length (hist s)" "est (hist s ! j) = Effective" for j
      using n [of j] that by (simp add: nth_append)
    then show "dat ?s c = dat s c \<and> (\<forall>j<length (hist s). est (hist s ! j) = Effective \<longrightarrow> \<not> writes (hist s ! j) c) \<and>
        (\<forall>j<length (hist ?s). writes (hist ?s ! j) c \<longrightarrow> (j \<in> effs (hist ?s)) = (j \<in> effs (hist s)))"
      by (simp add: effs_append)
  qed
  show "ser_inv vals (hist ?s)"
    by (rule ser_inv_same [OF stm_invD(12) [OF i] g]) (auto simp: effs_append nth_append)
qed


text \<open>The entry of a committing thread, and steps that only change its status.\<close>

lemma own_ent:
  assumes "stm_inv csz vals s" and "phase (pc (th s t)) = Some st"
  shows "ent (th s t) < length (hist s)" and "hist s ! ent (th s t) = \<lparr>etid = t, erd = rlog (th s t), ewr = wlog (th s t), est = st\<rparr>"
  using stm_invD(3) [OF assms(1), of t] assms(2) by (simp_all add: ent_ok_def Let_def)

lemma frame_status:
  assumes i: "stm_inv csz vals s" and ph: "phase (pc (th s t)) = Some st0" "later_status st0 st"
    and h: "hist s' = set_status (ent (th s t)) st (hist s)"
    and o: "\<And>u. u \<noteq> t \<Longrightarrow> th s' u = th s u" and same: "lk s' = lk s" "dat s' = dat s" "ver (clk s) \<le> ver (clk s')"
    and m: "\<And>p c. doomed s p c \<Longrightarrow> ver (qget p) \<le> ver (clk s) \<Longrightarrow> doomed s' p c"
    and n: "\<And>c p. effective st \<Longrightarrow> \<not> effective st0 \<Longrightarrow> c \<in> wcells (th s t) \<Longrightarrow> doomed s' p c"
  shows "frame s s' {t}"
  unfolding frame_def
proof (intro conjI allI impI ballI)
  note e = own_ent [OF i ph(1)]
  show "grows (hist s) (hist s')"
    using ph(2) by (simp add: h grows_set_status e(2))
  show "est (hist s' ! j) = est (hist s ! j)" if "j < length (hist s)" "etid (hist s ! j) \<notin> {t}" for j
    using that e by (auto simp: h est_set_status)
  show "doomed s' p c" if j: "j \<in> effs (hist s')" "j \<notin> effs (hist s)" "writes (hist s' ! j) c" for j c p
  proof -
    have j': "j = ent (th s t)" "effective st" "\<not> effective st0"
      using j(1,2) e by (auto simp: h effs_def est_set_status split: if_splits)
    have "c \<in> wcells (th s t)" using j(3) e(2) by (simp add: h j'(1) writes_def)
    then show ?thesis using n [of c p] j' by blast
  qed
qed (use o same m h in auto)

lemma hist_inv_status:
  assumes i: "stm_inv csz vals s" and ph: "phase (pc (th s t)) = Some st0" "later_status st0 st"
    and h: "hist s' = set_status (ent (th s t)) st (hist s)"
    and o: "\<And>u. u \<noteq> t \<Longrightarrow> th s' u = th s u"
    and own: "st = Pending \<or> st = Effective \<Longrightarrow> phase (pc (th s' t)) = Some st \<and> ent (th s' t) = ent (th s t)"
  shows "hist_inv csz s'"
proof (rule hist_inv_step [OF stm_invD(10) [OF i], of _ t])
  note e = own_ent [OF i ph(1)]
  show "grows (hist s) (hist s')"
    using ph(2) by (simp add: h grows_set_status e(2))
  fix j
  assume j: "j < length (hist s')" "etid (hist s' ! j) = t" "est (hist s' ! j) = Pending \<or> est (hist s' ! j) = Effective"
  have "j = ent (th s t)"
  proof (rule ccontr)
    assume "j \<noteq> ent (th s t)"
    then show False using j own_entry(2) [OF i, of j t] by (auto simp: h est_set_status)
  qed
  with j own e show "phase (pc (th s' t)) = Some (est (hist s' ! j)) \<and> ent (th s' t) = j"
    by (simp add: h est_set_status)
qed (use own_ent [OF i ph(1)] o h in \<open>auto simp: est_set_status\<close>)

lemma inv_validate_fail:
  assumes i: "stm_inv csz vals s" and p: "pc (th s t) = Validating n"
  shows "stm_inv csz vals (upd s t ((th s t)\<lparr>pc := Undoing 0 (length (wlog (th s t))) None\<rparr>)
      \<lparr>hist := set_status (ent (th s t)) Aborted (hist s)\<rparr>)" (is "stm_inv csz vals ?s")
proof (rule stm_inv_frame [OF i, of _ t])
  let ?x = "th s t" let ?x' = "?x\<lparr>pc := Undoing 0 (length (wlog ?x)) None\<rparr>"
  have ph: "phase (pc ?x) = Some Pending" using p by simp
  note e = own_ent [OF i ph]
  have hx: "held ?x' = held ?x" using p by (simp add: held_def)
  have hh: "held (th ?s u) = held (th s u)" for u using hx by simp
  have dd: "dooms (pc (th ?s u)) = dooms (pc (th s u))" for u using p by (simp add: fun_eq_iff)
  have d: "doomed ?s q c = doomed s q c" for q c unfolding doomed_def hh dd by simp
  show f: "frame s ?s {t}"
    by (rule frame_status [OF i ph, where st = Aborted]) (use d in auto)
  have g: "grows (hist s) (hist ?s)" using f by (simp add: frame_def)
  have thr: "thr_ok csz s ?x'" using stm_invD(1) [OF i, of t] p by (simp add: thr_ok_def)
  have "read_ok csz vals s ?x'" using stm_invD(7) [OF i, of t] p by (simp add: read_ok_def)
  then have "read_ok csz vals ?s ?x'" by (rule frame_read_ok [OF g thr])
  moreover have "thr_ok csz ?s ?x'" by (rule frame_thr_ok [OF g _ thr]) simp
  moreover have ef: "effs (hist ?s) = effs (hist s)"
    using e by (auto simp: effs_def est_set_status split: if_splits)
  moreover have "doom_ok ?s ?x'"
    using stm_invD(5) [OF i, of t] p ef by (simp add: doom_ok_def d)
  ultimately show "tinv csz vals ?s t"
    by (simp add: tinv_def lock_ok_def ent_ok_def later_ok_def wrote_ok_def clean_ok_def)
  show "locks_inv ?s" using stm_invD(9) [OF i] unfolding locks_inv_def hh by simp
  show "hist_inv csz ?s" by (rule hist_inv_status [OF i ph, where st = Aborted]) auto
  show "mem_inv csz vals ?s"
  proof (rule mem_inv_step [OF stm_invD(11) [OF i] g])
    fix c assume n: "\<And>j. j < length (hist ?s) \<Longrightarrow> est (hist ?s ! j) = Effective \<Longrightarrow> \<not> writes (hist ?s ! j) c"
    have "\<not> writes (hist s ! j) c" if "j < length (hist s)" "est (hist s ! j) = Effective" for j
      using n [of j] that e by (cases "ent ?x = j") (auto simp: est_set_status)
    then show "dat ?s c = dat s c \<and> (\<forall>j<length (hist s). est (hist s ! j) = Effective \<longrightarrow> \<not> writes (hist s ! j) c) \<and>
        (\<forall>j<length (hist ?s). writes (hist ?s ! j) c \<longrightarrow> (j \<in> effs (hist ?s)) = (j \<in> effs (hist s)))"
      using ef by simp
  qed
  show "ser_inv vals (hist ?s)"
    by (rule ser_inv_same [OF stm_invD(12) [OF i] g ef]) (auto simp: est_set_status split: if_splits)
qed


lemma vreads_cover: "fst ` set (rlog x) \<subseteq> wcells x \<union> set (vreads x)"
  by (auto simp: vreads_def)

lemma inv_validate_done:
  assumes i: "stm_inv csz vals s" and p: "pc (th s t) = Validating (length (vreads (th s t)))"
  shows "stm_inv csz vals (upd s t ((th s t)\<lparr>pc := Writing 0 0\<rparr>)
      \<lparr>hist := set_status (ent (th s t)) Effective (hist s)\<rparr>)" (is "stm_inv csz vals ?s")
proof (rule stm_inv_frame [OF i, of _ t])
  let ?x = "th s t" let ?x' = "?x\<lparr>pc := Writing 0 0\<rparr>" let ?n = "ent ?x" let ?h = "hist s" let ?h' = "hist ?s"
  have ph: "phase (pc ?x) = Some Pending" and a: "pc ?x \<noteq> Idle" using p by simp_all
  note e = own_ent [OF i ph]
  have hx: "held ?x' = held ?x" using p by (simp add: held_def)
  have hw: "held ?x' = wcells ?x" using held_phase [OF ph] hx by simp
  have hh: "held (th ?s u) = held (th s u)" for u using hx by simp
  have dd: "dooms (pc (th s u)) q \<Longrightarrow> dooms (pc (th ?s u)) q" for u q using p by auto
  have d: "doomed ?s q c" if "doomed s q c" for q c
  proof -
    have "lk ?s = lk s" by simp
    with that dd [of _ q] show ?thesis unfolding doomed_def hh by metis
  qed
  have own: "doomed ?s q c" if "c \<in> wcells ?x" for q c
    unfolding doomed_def by (rule disjI2, rule exI [of _ t]) (use that hw in simp)
  show f: "frame s ?s {t}"
    by (rule frame_status [OF i ph, where st = Effective]) (use d own in \<open>simp_all del: set_map\<close>)
  have g: "grows ?h ?h'" using f by (simp add: frame_def)
  have ef: "effs ?h' = insert ?n (effs ?h)" using e by (simp add: effs_set_status)
  have thr: "thr_ok csz s ?x" "thr_ok csz s ?x'" using stm_invD(1) [OF i, of t] p by (simp_all add: thr_ok_def)
  have "read_ok csz vals s ?x'" using stm_invD(7) [OF i, of t] p by (simp add: read_ok_def)
  then have "read_ok csz vals ?s ?x'" by (rule frame_read_ok [OF g thr(2)])
  moreover have "thr_ok csz ?s ?x'" by (rule frame_thr_ok [OF g _ thr(2)]) simp
  moreover have "doom_ok ?s ?x'"
    unfolding doom_ok_def
  proof (intro impI ballI allI)
    fix j c assume j: "j \<in> effs ?h'" "j \<notin> vis ?x'" and w: "writes (?h' ! j) c"
    show "doomed ?s (pin ?x') c"
    proof (cases "j = ?n")
      case True
      then have "c \<in> wcells ?x" using w e(2) by (simp add: writes_def)
      then show ?thesis using own by simp
    next
      case False
      then have "doomed s (pin ?x) c"
        using j w ef stm_invD(5) [OF i, of t] a by (auto simp: doom_ok_def)
      then show ?thesis using d by simp
    qed
  qed
  moreover have "later_ok ?s ?x'" using stm_invD(4) [OF i, of t] p by (simp add: later_ok_def)
  ultimately show "tinv csz vals ?s t"
    using e by (simp add: tinv_def lock_ok_def ent_ok_def wrote_ok_def clean_ok_def nth_set_status)
  show "locks_inv ?s" using stm_invD(9) [OF i] unfolding locks_inv_def hh by simp
  show "hist_inv csz ?s" by (rule hist_inv_status [OF i ph, where st = Effective]) auto
  show "mem_inv csz vals ?s"
  proof (rule mem_inv_step [OF stm_invD(11) [OF i] g])
    fix c assume n: "\<And>j. j < length ?h' \<Longrightarrow> est (?h' ! j) = Effective \<Longrightarrow> \<not> writes (?h' ! j) c"
    have "\<not> writes (?h ! j) c" if "j < length ?h" "est (?h ! j) = Effective" for j
      using n [of j] that by (auto simp: est_set_status)
    moreover have "\<not> writes (?h ! ?n) c" using n [of ?n] e(1) by (simp add: est_set_status)
    ultimately show "dat ?s c = dat s c \<and> (\<forall>j<length ?h. est (?h ! j) = Effective \<longrightarrow> \<not> writes (?h ! j) c) \<and>
        (\<forall>j<length ?h'. writes (?h' ! j) c \<longrightarrow> (j \<in> effs ?h') = (j \<in> effs ?h))"
      using ef by auto
  qed
  have cl: "ppos ?x \<le> ?n" "\<And>c. c \<in> wcells ?x \<union> set (vreads ?x) \<Longrightarrow> clean (vis ?x) ?n ?h c"
    using stm_invD(8) [OF i, of t] p unfolding clean_ok_def by (simp, metis order_refl take_all)
  show "ser_inv vals ?h'"
    unfolding ser_inv_def ef
  proof (intro ballI conjI allI impI)
    fix k r assume k: "k \<in> insert ?n (effs ?h)" and r: "r \<in> set (erd (?h' ! k))"
    have kl: "k < length ?h" using k e(1) by (auto simp: effs_def)
    have old: "snd r = val_after vals (effs ?h \<inter> {..<k}) ?h (fst r) \<and>
       (\<forall>j<k. writes (?h ! j) (fst r) \<longrightarrow> est (?h ! j) \<noteq> Pending)"
    proof (cases "k = ?n")
      case True
      then have r': "r \<in> set (rlog ?x)" using r e(2) by simp
      then have c: "clean (vis ?x) ?n ?h (fst r)" using vreads_cover [of ?x] by (intro cl(2)) auto
      moreover have "r \<in> set (seen ?x)" using r' thr(1) by (auto simp: thr_ok_def)
      ultimately show ?thesis
        using reads_at [OF i a _ c cl(1)] True by (auto simp: clean_def)
    next
      case False
      then show ?thesis using k r stm_invD(12) [OF i] by (auto simp: ser_inv_def)
    qed
    have "val_after vals (insert ?n (effs ?h) \<inter> {..<k}) ?h' (fst r) = val_after vals (effs ?h \<inter> {..<k}) ?h' (fst r)"
      by (rule val_after_cong) (use old e(2) in auto)
    also have "\<dots> = val_after vals (effs ?h \<inter> {..<k}) ?h (fst r)"
      by (rule grows_val_after [OF g]) (auto simp: effs_def)
    finally show "snd r = val_after vals (insert ?n (effs ?h) \<inter> {..<k}) ?h' (fst r)" using old by simp
    fix j assume "j < k" and "writes (?h' ! j) (fst r)"
    with old kl show "est (?h' ! j) \<noteq> Pending" by (auto simp: est_set_status)
  qed
qed


lemma map_of_wlog:
  assumes "distinct (map fst (wlog x))" and "n < length (wlog x)"
  shows "map_of (wlog x) (wcell x n) = Some (snd (wlog x ! n))"
  using assms by (intro map_of_is_SomeI) (auto simp: nth_mem)

lemma inv_tick:
  assumes i: "stm_inv csz vals s" and p: "pc (th s t) = Ticking"
    and tk: "fetch_and_tick (clk s) = (sync, clk')" "\<not> lock_bit_set clk'"
  shows "stm_inv csz vals (upd s t ((th s t)\<lparr>pc := Publishing 0 sync\<rparr>)
      \<lparr>clk := clk', hist := set_status (ent (th s t)) Ticked (hist s)\<rparr>)" (is "stm_inv csz vals ?s")
proof (rule stm_inv_frame [OF i, of _ t])
  let ?x = "th s t" let ?x' = "?x\<lparr>pc := Publishing 0 sync\<rparr>" let ?n = "ent ?x" let ?h = "hist s" let ?h' = "hist ?s"
  have L: "clock_ok (clk s)" "\<And>c. ver (lk s c) \<le> ver (clk s)" using stm_invD(9) [OF i] by (simp_all add: locks_inv_def)
  note c = clock_ok_tick [OF L(1) tk]
  have ph: "phase (pc ?x) = Some Effective" using p by simp
  note e = own_ent [OF i ph]
  have hx: "held ?x' = held ?x" "held ?x = wcells ?x" using p held_phase [OF ph] by (simp_all add: held_def)
  have hh: "held (th ?s u) = held (th s u)" for u using hx by simp
  have dd: "dooms (pc (th s u)) q \<Longrightarrow> ver (qget q) \<le> ver (clk s) \<Longrightarrow> dooms (pc (th ?s u)) q" for u q
    using p c(2) by auto
  have d: "doomed ?s q b" if "doomed s q b" "ver (qget q) \<le> ver (clk s)" for q b
  proof -
    have "lk ?s = lk s" by simp
    with that dd [of _ q] show ?thesis unfolding doomed_def hh by metis
  qed
  show f: "frame s ?s {t}"
    by (rule frame_status [OF i ph, where st = Ticked]) (use d c(4) in simp_all)
  have g: "grows ?h ?h'" using f by (simp add: frame_def)
  have ef: "effs ?h' = effs ?h" using e by (auto simp: effs_def est_set_status split: if_splits)
  have thr: "thr_ok csz s ?x" using stm_invD(1) [OF i, of t] .
  have "read_ok csz vals ?s ?x" by (rule frame_read_ok [OF g thr stm_invD(7) [OF i]])
  then have "read_ok csz vals ?s ?x'" using p by (simp add: read_ok_def)
  moreover have "thr_ok csz ?s ?x" by (rule frame_thr_ok [OF g _ thr]) (simp add: c(4))
  then have "thr_ok csz ?s ?x'"
    using c p tk(2) by (simp add: thr_ok_def)
  moreover have "doom_ok ?s ?x" by (rule frame_doom_ok [OF f thr stm_invD(5) [OF i]])
  then have "doom_ok ?s ?x'" using p by (simp add: doom_ok_def)
  moreover have "lock_ok ?s ?x'" using L(2) c(2) by (simp add: lock_ok_def)
  ultimately show "tinv csz vals ?s t"
    using e by (simp add: tinv_def ent_ok_def later_ok_def wrote_ok_def clean_ok_def nth_set_status)
  show "locks_inv ?s"
    using stm_invD(9) [OF i] c(1,4) unfolding locks_inv_def hh by (simp add: le_Suc_eq)
  show "hist_inv csz ?s" by (rule hist_inv_status [OF i ph, where st = Ticked]) auto
  show "mem_inv csz vals ?s"
    unfolding mem_inv_def
  proof (intro allI conjI impI)
    have m: "mem_inv csz vals s" by (rule stm_invD(11) [OF i])
    then show "length (vals b) = csz b" for b by (simp add: mem_inv_def)
    fix b k
    assume ne: "\<forall>j<length ?h'. est (?h' ! j) = Effective \<longrightarrow> \<not> writes (?h' ! j) b" and k: "k < csz b"
    show "dat ?s b k = val_after vals (effs ?h') ?h' b ! k"
    proof (cases "b \<in> wcells ?x")
      case False
      then have "\<not> writes (?h ! ?n) b" using e(2) by (simp add: writes_def)
      then have "\<forall>j<length ?h. est (?h ! j) = Effective \<longrightarrow> \<not> writes (?h ! j) b"
        using ne by (auto simp: est_set_status split: if_splits)
      moreover have "val_after vals (effs ?h') ?h' b = val_after vals (effs ?h) ?h b"
        unfolding ef by (rule grows_val_after [OF g]) (auto simp: effs_def)
      ultimately show ?thesis using m k by (simp add: mem_inv_def)
    next
      case True
      then obtain n where n: "n < length (wlog ?x)" "b = wcell ?x n"
        by (auto simp: wcells_image simp del: set_map)
      have wl: "distinct (map fst (wlog ?x))" "length (snd (wlog ?x ! n)) = csz b"
        using thr n nth_mem [OF n(1)] by (auto simp: thr_ok_def)
      have "?n \<in> effs ?h'" unfolding ef using e by (simp add: effs_def)
      moreover have "writes (?h' ! ?n) b" using e(2) True by (simp add: writes_def)
      moreover have "\<not> writes (?h' ! j) b" if "?n < j" "j < length ?h'" for j
        using stm_invD(4) [OF i, of t] ph that True by (auto simp: later_ok_def)
      ultimately have "val_after vals (effs ?h') ?h' b = the (map_of (ewr (?h' ! ?n)) b)"
        using e(1) by (intro val_after_last) auto
      also have "\<dots> = snd (wlog ?x ! n)" using e(2) map_of_wlog [OF wl(1) n(1)] n(2) by simp
      finally show ?thesis
        using stm_invD(6) [OF i, of t] p n k wl(2) by (simp add: wrote_ok_def)
    qed
  qed
  show "ser_inv vals ?h'"
    by (rule ser_inv_same [OF stm_invD(12) [OF i] g ef]) (auto simp: est_set_status split: if_splits)
qed


lemma inv_commit_hard:
  assumes i: "stm_inv csz vals s" and p: "pc (th s t) = Running"
    and v: "\<forall>c\<in>set (map fst (rlog (th s t))) \<union> wcells (th s t). valid (th s t) (lk s c)"
  shows "stm_inv csz vals (upd s t ((th s t)\<lparr>pc := Ticking, ent := length (hist s)\<rparr>)
      \<lparr>lk := (\<lambda>c. if c \<in> wcells (th s t) then toggle_lock_bit (lk s c) else lk s c),
       dat := (\<lambda>c k. case map_of (wlog (th s t)) c of Some v \<Rightarrow> if k < length v then v ! k else dat s c k | None \<Rightarrow> dat s c k),
       hist := hist s @ [\<lparr>etid = t, erd = rlog (th s t), ewr = wlog (th s t), est = Effective\<rparr>]\<rparr>)"
    (is "stm_inv csz vals ?s")
proof (rule stm_inv_frame [OF i, of _ t])
  let ?x = "th s t" let ?x' = "?x\<lparr>pc := Ticking, ent := length (hist s)\<rparr>" let ?h = "hist s" let ?h' = "hist ?s"
  let ?e = "\<lparr>etid = t, erd = rlog ?x, ewr = wlog ?x, est = Effective\<rparr>"
  have a: "pc ?x \<noteq> Idle" using p by simp
  have va: "clean (vis ?x) (length ?h) ?h c" "\<not> lock_bit_set (lk s c)" if "c \<in> fst ` set (rlog ?x) \<union> wcells ?x" for c
    using valid_clean [OF i a, of c] v that by auto
  have free: "c \<notin> held (th s u)" if "c \<in> wcells ?x" for c u
    using va(2) [of c] that held_locked [OF i, of c u] by blast
  have hx: "held ?x = {}" "held ?x' = wcells ?x" using p held_all [of ?x'] by (simp_all add: held_none)
  have h1: "held (th ?s t) = wcells ?x" "\<And>u. u \<noteq> t \<Longrightarrow> held (th ?s u) = held (th s u)" using hx by auto
  have vl: "ver (lk ?s c) = ver (lk s c)" for c by simp
  have d: "doomed ?s q c" if "doomed s q c" for q c
  proof (cases "ver (qget q) < ver (lk s c)")
    case True
    then show ?thesis unfolding doomed_def vl by blast
  next
    case False
    with that obtain u where u: "c \<in> held (th s u)" "dooms (pc (th s u)) q" by (auto simp: doomed_def)
    then have "u \<noteq> t" using hx by auto
    then have "c \<in> held (th ?s u) \<and> dooms (pc (th ?s u)) q" using u by simp
    then show ?thesis unfolding doomed_def by blast
  qed
  have own: "doomed ?s q c" if "c \<in> wcells ?x" for q c
    unfolding doomed_def by (rule disjI2, rule exI [of _ t]) (use that h1 in simp)
  have dt: "dat ?s c = dat s c" if "c \<notin> wcells ?x" for c
    using that by (simp add: map_of_eq_None_iff fun_eq_iff split: option.split) (metis fst_conv image_eqI map_of_SomeD option.distinct(1) weak_map_of_SomeI)
  show f: "frame s ?s {t}"
  proof (rule frame_append [OF i, of t _ ?e])
    show "held (th ?s t) \<inter> held (th s u) = {}" for u unfolding h1(1) using free by blast
    show "dat ?s c = dat s c" if "u \<noteq> t" "c \<in> held (th s u)" for u c
      by (rule dt) (use free that(2) in blast)
  qed (use d own h1(1) in \<open>simp_all del: set_map\<close>)
  have g: "grows ?h ?h'" by (simp add: grows_append)
  have thr: "thr_ok csz s ?x" "thr_ok csz s ?x'" using stm_invD(1) [OF i, of t] p by (simp_all add: thr_ok_def)
  have "read_ok csz vals ?s ?x" by (rule frame_read_ok [OF g thr(1) stm_invD(7) [OF i]])
  then have "read_ok csz vals ?s ?x'" using p by (simp add: read_ok_def)
  moreover have "thr_ok csz ?s ?x'" by (rule frame_thr_ok [OF g _ thr(2)]) simp
  moreover have "doom_ok ?s ?x" by (rule frame_doom_ok [OF f thr(1) stm_invD(5) [OF i]])
  then have "doom_ok ?s ?x'" using p by (simp add: doom_ok_def)
  moreover have "later_ok ?s ?x'" by (auto simp: later_ok_def)
  moreover have "distinct (map fst (wlog ?x))" using thr(1) by (simp add: thr_ok_def)
  then have "wrote_ok ?s ?x'" by (simp add: wrote_ok_def map_of_wlog del: distinct_map)
  ultimately show "tinv csz vals ?s t"
    by (simp add: tinv_def lock_ok_def ent_ok_def clean_ok_def)
  show "locks_inv ?s"
    unfolding locks_inv_def
  proof (intro conjI allI impI)
    have L: "clock_ok (clk s)" "\<And>c. ver (lk s c) \<le> ver (clk s)"
      "\<And>t t'. t \<noteq> t' \<Longrightarrow> held (th s t) \<inter> held (th s t') = {}"
      "\<And>c. lock_bit_set (lk s c) = (\<exists>t. c \<in> held (th s t))"
      using stm_invD(9) [OF i] unfolding locks_inv_def by blast+
    show "clock_ok (clk ?s)" using L(1) by simp
    show "ver (lk ?s c) \<le> ver (clk ?s)" for c unfolding vl using L(2) by simp
    show "held (th ?s u) \<inter> held (th ?s u') = {}" if "u \<noteq> u'" for u u'
      using L(3) [OF that] free that h1 by (cases "u = t"; cases "u' = t") (auto simp del: set_map)
    show "lock_bit_set (lk ?s c) = (\<exists>u. c \<in> held (th ?s u))" for c
    proof (cases "c \<in> wcells ?x")
      case True
      then have "c \<in> held (th ?s t)" unfolding h1(1) .
      then show ?thesis using True va(2) [of c] by auto
    next
      case False
      have "(c \<in> held (th ?s u)) = (c \<in> held (th s u))" for u
        using False h1(1) h1(2) [of u] hx(1) by (cases "u = t") blast+
      then have "(\<exists>u. c \<in> held (th ?s u)) = (\<exists>u. c \<in> held (th s u))" by blast
      then show ?thesis using False L(4) [of c] by simp
    qed
  qed
  show "hist_inv csz ?s"
  proof (rule hist_inv_step [OF stm_invD(10) [OF i] g, of t])
    fix j assume "j < length ?h'" "etid (?h' ! j) = t" "est (?h' ! j) = Pending \<or> est (?h' ! j) = Effective"
    then show "phase (pc (th ?s t)) = Some (est (?h' ! j)) \<and> ent (th ?s t) = j"
      using own_entry [OF i, of j t] p by (auto simp: nth_append less_Suc_eq split: if_splits)
  qed (use thr(1) in \<open>auto simp: nth_append less_Suc_eq thr_ok_def split: if_splits\<close>)
  have ef: "effs ?h' = insert (length ?h) (effs ?h)" by (simp add: effs_append)
  show "mem_inv csz vals ?s"
  proof (rule mem_inv_step [OF stm_invD(11) [OF i] g])
    fix c assume n: "\<And>j. j < length ?h' \<Longrightarrow> est (?h' ! j) = Effective \<Longrightarrow> \<not> writes (?h' ! j) c"
    have "\<not> writes (?h ! j) c" if "j < length ?h" "est (?h ! j) = Effective" for j
      using n [of j] that by (simp add: nth_append)
    moreover have "\<not> writes ?e c" using n [of "length ?h"] by simp
    then have "dat ?s c = dat s c" by (intro dt) (simp add: writes_def)
    ultimately show "dat ?s c = dat s c \<and> (\<forall>j<length ?h. est (?h ! j) = Effective \<longrightarrow> \<not> writes (?h ! j) c) \<and>
        (\<forall>j<length ?h'. writes (?h' ! j) c \<longrightarrow> (j \<in> effs ?h') = (j \<in> effs ?h))"
      using ef \<open>\<not> writes ?e c\<close> by auto
  qed
  show "ser_inv vals ?h'"
    unfolding ser_inv_def ef
  proof (intro ballI conjI allI impI)
    fix k r assume k: "k \<in> insert (length ?h) (effs ?h)" and r: "r \<in> set (erd (?h' ! k))"
    have kl: "k \<le> length ?h" using k by (auto simp: effs_def)
    have old: "snd r = val_after vals (effs ?h \<inter> {..<k}) ?h (fst r) \<and>
       (\<forall>j<k. writes (?h ! j) (fst r) \<longrightarrow> est (?h ! j) \<noteq> Pending)"
    proof (cases "k = length ?h")
      case True
      then have r': "r \<in> set (rlog ?x)" using r by simp
      then have c: "clean (vis ?x) (length ?h) ?h (fst r)" by (intro va(1)) auto
      moreover have "r \<in> set (seen ?x)" "ppos ?x \<le> length ?h" using r' thr(1) a by (auto simp: thr_ok_def)
      ultimately show ?thesis
        using reads_at [OF i a _ c] True by (auto simp: clean_def)
    next
      case False
      then show ?thesis using k kl r stm_invD(12) [OF i] by (auto simp: ser_inv_def nth_append)
    qed
    have "insert (length ?h) (effs ?h) \<inter> {..<k} = effs ?h \<inter> {..<k}" using kl by auto
    moreover have "val_after vals (effs ?h \<inter> {..<k}) ?h' (fst r) = val_after vals (effs ?h \<inter> {..<k}) ?h (fst r)"
      by (rule grows_val_after [OF g]) (auto simp: effs_def)
    ultimately show "snd r = val_after vals (insert (length ?h) (effs ?h) \<inter> {..<k}) ?h' (fst r)" using old by simp
    fix j assume "j < k" and "writes (?h' ! j) (fst r)"
    with old kl show "est (?h' ! j) \<noteq> Pending" by (auto simp: nth_append)
  qed
qed


end
