(* ===== verification/Bloom.thy ===== *)
theory Bloom
  imports Prelude
begin

text \<open>
  \<open>src/internal/bloom.rs\<close>: a one-word bloom filter over cell addresses, which turns into a
  hash map from addresses to word indices when it overflows (all bits set is the
  \<open>OVERFLOWED\<close> sentinel). The hash map of the standard library is a partial map.
\<close>

datatype contained = No | Maybe

definition OVERFLOWED :: usize where
  "OVERFLOWED = NOT 0"

record bloom =
  filter_word :: usize
  overflow_map :: "usize \<rightharpoonup> nat"

definition bloom_new :: bloom where
  "bloom_new = \<lparr>filter_word = 0, overflow_map = Map.empty\<rparr>"

definition has_overflowed :: "bloom \<Rightarrow> bool" where
  "has_overflowed b \<longleftrightarrow> filter_word b = OVERFLOWED"

definition bloom_clear :: "bloom \<Rightarrow> bloom" where
  "bloom_clear b =
     (let b' = (if filter_word b = OVERFLOWED then b\<lparr>overflow_map := Map.empty\<rparr> else b)
      in b'\<lparr>filter_word := 0\<rparr>)"

definition bloom_is_empty :: "bloom \<Rightarrow> bool" where
  "bloom_is_empty b \<longleftrightarrow> filter_word b = 0"

definition run_overflow :: "bloom \<Rightarrow> (usize \<times> nat) list \<Rightarrow> bloom" where
  "run_overflow b offsets =
     b\<lparr>filter_word := OVERFLOWED, overflow_map := fold (\<lambda>(k, v) m. m(k \<mapsto> v)) offsets (overflow_map b)\<rparr>"

definition to_overflow :: "bloom \<Rightarrow> (usize \<times> nat) list \<Rightarrow> bloom" where
  "to_overflow b offsets =
     (if filter_word b \<noteq> OVERFLOWED then run_overflow b offsets else b)"

text \<open>The shift drops the address bits that alignment forces to zero, and one more.\<close>

definition calc_shift :: "nat \<Rightarrow> nat" where
  "calc_shift align_of =
     of_bool (align_of > 1) + of_bool (align_of > 2) + of_bool (align_of > 4)
     + of_bool (align_of > 8) + 1"

text \<open>The filter's keys are \<open>TCellErased\<close>s, whose alignment is that of \<open>usize\<close>.\<close>

definition tcell_erased_align :: nat where
  "tcell_erased_align = 8"

definition bloom_bit :: "usize \<Rightarrow> usize" where
  "bloom_bit value =
     (let raw_hash = drop_bit (calc_shift tcell_erased_align) value
      in push_bit (unat (raw_hash AND (8 * 8 - 1))) 1)"

definition bloom_contained :: "bloom \<Rightarrow> usize \<Rightarrow> contained" where
  "bloom_contained b key =
     (if filter_word b AND bloom_bit key \<noteq> 0 then Maybe else No)"

definition insert_inline :: "bloom \<Rightarrow> usize \<Rightarrow> contained \<times> bloom" where
  "insert_inline b key =
     (let filter = filter_word b; bit = bloom_bit key in
      if filter AND bit \<noteq> 0 then (Maybe, b)
      else let new_filter = filter OR bit in
        if new_filter \<noteq> OVERFLOWED then (No, b\<lparr>filter_word := new_filter\<rparr>) else (Maybe, b))"

definition overflow_get :: "bloom \<Rightarrow> usize \<Rightarrow> nat option" where
  "overflow_get b key = overflow_map b key"

text \<open>Inserting through a vacant or an occupied entry of the hash map.\<close>

definition overflow_insert :: "bloom \<Rightarrow> usize \<Rightarrow> nat \<Rightarrow> bloom" where
  "overflow_insert b key i = b\<lparr>overflow_map := (overflow_map b)(key \<mapsto> i)\<rparr>"

lemma bloom_bit_index: "unat ((drop_bit n value :: usize) AND (8 * 8 - 1)) < 64"
proof -
  have "(drop_bit n value :: usize) AND 63 \<le> 63"
    by (rule word_and_le1)
  then have "unat ((drop_bit n value :: usize) AND 63) \<le> unat (63 :: usize)"
    by (simp only: word_le_nat_alt)
  then show ?thesis by simp
qed

lemma bloom_bit_eq: "\<exists>n<64. bloom_bit value = push_bit n 1"
  using bloom_bit_index by (auto simp: bloom_bit_def Let_def)

lemma bloom_bit_nonzero: "bloom_bit value \<noteq> 0"
proof -
  obtain n where n: "n < 64" "bloom_bit value = push_bit n 1"
    using bloom_bit_eq by blast
  then have "bit (bloom_bit value) n"
    by (simp add: bit_simps)
  then show ?thesis by auto
qed

lemma overflowed_contained: "has_overflowed b \<Longrightarrow> bloom_contained b key = Maybe"
  by (simp add: has_overflowed_def bloom_contained_def OVERFLOWED_def bloom_bit_nonzero)

lemma contained_No_iff: "bloom_contained b key = No \<longleftrightarrow> filter_word b AND bloom_bit key = 0"
  by (simp add: bloom_contained_def)

text \<open>
  A fresh key: the bit is taken, older keys stay in, and the filter has not overflowed. A
  colliding key leaves the filter as it was.
\<close>

lemma insert_inline_No:
  assumes "insert_inline b key = (No, b')"
  shows "bloom_contained b key = No" "bloom_contained b' key = Maybe"
    and "bloom_contained b k = Maybe \<Longrightarrow> bloom_contained b' k = Maybe"
    and "overflow_map b' = overflow_map b" "\<not> has_overflowed b" "\<not> has_overflowed b'"
    and "\<not> bloom_is_empty b'"
proof -
  from assms have b': "filter_word b AND bloom_bit key = 0"
    "b' = b\<lparr>filter_word := filter_word b OR bloom_bit key\<rparr>"
    "filter_word b OR bloom_bit key \<noteq> OVERFLOWED"
    by (auto simp: insert_inline_def Let_def split: if_splits)
  then show "bloom_contained b key = No" "overflow_map b' = overflow_map b" "\<not> has_overflowed b'"
    by (simp_all add: bloom_contained_def has_overflowed_def)
  from b'(2) show "bloom_contained b' key = Maybe"
    by (simp add: bloom_contained_def word_ao_absorbs bloom_bit_nonzero)
  show "bloom_contained b k = Maybe \<Longrightarrow> bloom_contained b' k = Maybe"
    using b'(2)
    by (auto simp: bloom_contained_def bit_eq_iff bit_simps split: if_splits)
  from b'(1) show "\<not> has_overflowed b"
    by (auto simp: has_overflowed_def OVERFLOWED_def bloom_bit_nonzero)
  show "\<not> bloom_is_empty b'"
    using b'(2) bloom_bit_nonzero [of key] by (simp add: bloom_is_empty_def or_eq_0_iff)
qed

lemma insert_inline_Maybe: "insert_inline b key = (Maybe, b') \<Longrightarrow> b' = b"
  by (auto simp: insert_inline_def Let_def split: if_splits)

lemma clear_new: "\<not> has_overflowed b \<longrightarrow> overflow_map b = Map.empty \<Longrightarrow> bloom_clear b = bloom_new"
  by (auto simp: bloom_clear_def bloom_new_def has_overflowed_def Let_def)

text \<open>Building the overflow map from offsets with distinct keys.\<close>

lemma fold_upd_map_of:
  "distinct (map fst offsets) \<Longrightarrow>
     fold (\<lambda>(k, v) m. m(k \<mapsto> v)) offsets m = m ++ map_of offsets"
  by (induction offsets arbitrary: m)
    (auto simp: map_add_upd_left dom_map_of_conv_image_fst simp del: fun_upd_apply)

end
