(* ===== verification/Write_Log.thy ===== *)
theory Write_Log
  imports Bloom Read_Log
begin

text \<open>
  \<open>src/internal/write_log.rs\<close>: the pending writes of a transaction. An entry is a dynamically
  typed value: the word of its destination (zero for \<open>None\<close>, a tombstone) and the words of
  the pending value. The bloom filter answers most lookups; once it overflows, the hash map
  holds the word index of the live entry of every written cell.

  \<open>vts\<close> gives the size recorded in a vtable. The value type \<open>T\<close> of a write enters as its
  vtable and the words of the value.
\<close>

section \<open>Entries\<close>

definition write_entry_new :: "usize \<Rightarrow> cell \<Rightarrow> usize list \<Rightarrow> dyn_elem" where
  "write_entry_new vt dest pending = (vt, dest # pending)"

definition entry_tcell :: "dyn_elem \<Rightarrow> cell option" where
  "entry_tcell e = (if hd (snd e) = 0 then None else Some (hd (snd e)))"

definition entry_pending :: "dyn_elem \<Rightarrow> usize list" where
  "entry_pending e = tl (snd e)"

text \<open>\<open>WriteEntry::read\<close> at a type of \<open>size_of\<close> words.\<close>

definition entry_read :: "nat \<Rightarrow> dyn_elem \<Rightarrow> usize list outcome" where
  "entry_read size_of e =
     (if length (snd e) \<noteq> Suc size_of then Inl Undefined
      else if size_of = 0 then Inl Panic
      else Inr (entry_pending e))"

section \<open>The log\<close>

record write_log =
  wl_bloom :: bloom
  wl_data :: "usize fvec"

definition write_log_new :: write_log where
  "write_log_new = \<lparr>wl_bloom = bloom_new, wl_data = fvec_new\<rparr>"

definition wl_contained :: "write_log \<Rightarrow> cell \<Rightarrow> contained" where
  "wl_contained wl tcell = bloom_contained (wl_bloom wl) tcell"

definition wl_contained_set :: "write_log \<Rightarrow> cell \<Rightarrow> contained \<times> write_log" where
  "wl_contained_set wl tcell =
     (case insert_inline (wl_bloom wl) tcell of (r, b) \<Rightarrow> (r, wl\<lparr>wl_bloom := b\<rparr>))"

definition wl_word_len :: "write_log \<Rightarrow> nat" where
  "wl_word_len wl = flen (wl_data wl)"

text \<open>Clearing returns the entries that are dropped.\<close>

definition wl_clear :: "(usize \<Rightarrow> nat) \<Rightarrow> write_log \<Rightarrow> (write_log \<times> dyn_elem list) outcome" where
  "wl_clear vts wl =
     map_sum id (map_prod (\<lambda>d. wl\<lparr>wl_bloom := bloom_clear (wl_bloom wl), wl_data := d\<rparr>) id)
       (dyn_clear vts (wl_data wl))"

definition wl_clear_no_drop :: "write_log \<Rightarrow> write_log" where
  "wl_clear_no_drop wl =
     wl\<lparr>wl_bloom := bloom_clear (wl_bloom wl), wl_data := dyn_clear_no_drop (wl_data wl)\<rparr>"

definition wl_drop_writes :: "(usize \<Rightarrow> nat) \<Rightarrow> write_log \<Rightarrow> dyn_elem list outcome" where
  "wl_drop_writes vts wl = dyn_iter vts (fdata (wl_data wl))"

definition wl_is_empty :: "write_log \<Rightarrow> bool" where
  "wl_is_empty wl \<longleftrightarrow> fdata (wl_data wl) = []"

definition wl_entries :: "(usize \<Rightarrow> nat) \<Rightarrow> write_log \<Rightarrow> dyn_elem list outcome" where
  "wl_entries vts wl = dyn_iter vts (fdata (wl_data wl))"

definition wl_epoch_locks :: "(usize \<Rightarrow> nat) \<Rightarrow> write_log \<Rightarrow> cell list outcome" where
  "wl_epoch_locks vts wl = map_sum id (List.map_filter entry_tcell) (wl_entries vts wl)"

text \<open>The live cells with the distance of their entry from the first entry, in words.\<close>

fun entry_offsets :: "nat \<Rightarrow> dyn_elem list \<Rightarrow> (cell \<times> nat) list" where
  "entry_offsets n [] = []"
| "entry_offsets n (e # es) =
     (case entry_tcell e of None \<Rightarrow> [] | Some c \<Rightarrow> [(c, n)]) @ entry_offsets (n + length (as_slice e)) es"

definition wl_overflow :: "(usize \<Rightarrow> nat) \<Rightarrow> write_log \<Rightarrow> write_log outcome" where
  "wl_overflow vts wl =
     (if has_overflowed (wl_bloom wl) then Inr wl
      else map_sum id (\<lambda>es. wl\<lparr>wl_bloom := to_overflow (wl_bloom wl) (entry_offsets 0 es)\<rparr>)
             (wl_entries vts wl))"

definition find_skip_filter ::
  "(usize \<Rightarrow> nat) \<Rightarrow> write_log \<Rightarrow> cell \<Rightarrow> (write_log \<times> dyn_elem option) outcome" where
  "find_skip_filter vts wl dest_tcell =
     (case wl_overflow vts wl of
        Inl s \<Rightarrow> Inl s
      | Inr wl' \<Rightarrow>
          (case overflow_get (wl_bloom wl') dest_tcell of
             None \<Rightarrow> Inr (wl', None)
           | Some index \<Rightarrow>
               map_sum id (\<lambda>e. (wl', Some e)) (word_index_unchecked vts (fdata (wl_data wl')) index)))"

definition wl_find ::
  "(usize \<Rightarrow> nat) \<Rightarrow> write_log \<Rightarrow> cell \<Rightarrow> (write_log \<times> dyn_elem option) outcome" where
  "wl_find vts wl dest_tcell =
     (if bloom_contained (wl_bloom wl) dest_tcell = No then Inr (wl, None)
      else find_skip_filter vts wl dest_tcell)"

text \<open>
  \<open>entry\<close> looks the cell up in the hash map. A vacant entry is filled at once with the index
  the next push will get; an occupied one carries the index it holds.
\<close>

datatype log_entry = Vacant | Occupied nat

definition wl_entry ::
  "(usize \<Rightarrow> nat) \<Rightarrow> write_log \<Rightarrow> cell \<Rightarrow> (write_log \<times> log_entry) outcome" where
  "wl_entry vts wl dest_tcell =
     (case wl_overflow vts wl of
        Inl s \<Rightarrow> Inl s
      | Inr wl' \<Rightarrow>
          (case overflow_get (wl_bloom wl') dest_tcell of
             Some index \<Rightarrow> Inr (wl', Occupied index)
           | None \<Rightarrow>
               Inr (wl'\<lparr>wl_bloom := overflow_insert (wl_bloom wl') dest_tcell (wl_word_len wl')\<rparr>, Vacant)))"

definition wl_next_push_allocates :: "write_log \<Rightarrow> usize \<Rightarrow> usize list \<Rightarrow> bool" where
  "wl_next_push_allocates wl vt val = dyn_next_push_allocates (wl_data wl) (write_entry_new vt 0 val)"

definition wl_record_unchecked ::
  "write_log \<Rightarrow> usize \<Rightarrow> cell \<Rightarrow> usize list \<Rightarrow> write_log outcome" where
  "wl_record_unchecked wl vt dest_tcell val =
     map_sum id (\<lambda>d. wl\<lparr>wl_data := d\<rparr>)
       (dyn_push_unchecked (wl_data wl) (write_entry_new vt dest_tcell val))"

definition wl_record :: "write_log \<Rightarrow> usize \<Rightarrow> cell \<Rightarrow> usize list \<Rightarrow> write_log" where
  "wl_record wl vt dest_tcell val =
     wl\<lparr>wl_data := dyn_push (wl_data wl) (write_entry_new vt dest_tcell val)\<rparr>"

definition validate_writes ::
  "(usize \<Rightarrow> nat) \<Rightarrow> write_log \<Rightarrow> quiesce_epoch \<Rightarrow> (cell \<Rightarrow> epoch_lock) \<Rightarrow> bool outcome" where
  "validate_writes vts wl pin_epoch locks =
     map_sum id (validate_loop pin_epoch locks) (wl_epoch_locks vts wl)"

text \<open>
  An occupied entry is overwritten in place, dropping the old value, or (for a value that is
  published with an undo action) turned into a tombstone and pushed again.
\<close>

definition wl_overwrite ::
  "(usize \<Rightarrow> nat) \<Rightarrow> write_log \<Rightarrow> nat \<Rightarrow> usize \<Rightarrow> cell \<Rightarrow> usize list \<Rightarrow> (write_log \<times> dyn_elem) outcome" where
  "wl_overwrite vts wl index vt dest_tcell val =
     map_sum id (map_prod (\<lambda>d. wl\<lparr>wl_data := d\<rparr>) id)
       (dyn_assign vts (wl_data wl) index (write_entry_new vt dest_tcell val))"

definition wl_tombstone_replace ::
  "(usize \<Rightarrow> nat) \<Rightarrow> write_log \<Rightarrow> nat \<Rightarrow> usize \<Rightarrow> cell \<Rightarrow> usize list \<Rightarrow> write_log outcome" where
  "wl_tombstone_replace vts wl prev vt dest_tcell val =
     (let b = overflow_insert (wl_bloom wl) dest_tcell (wl_word_len wl)
      in case word_index_unchecked vts (fdata (wl_data wl)) prev of
           Inl s \<Rightarrow> Inl s
         | Inr e \<Rightarrow>
             let d = (wl_data wl)\<lparr>fdata := (fdata (wl_data wl))[Suc prev := 0]\<rparr>
             in Inr (wl\<lparr>wl_bloom := b, wl_data := dyn_push d (write_entry_new vt dest_tcell val)\<rparr>))"

section \<open>The entries a log holds\<close>

text \<open>
  The live writes of a list of entries, newest state of each cell. \<open>csz\<close> is the size in words
  of the value type of a cell, which the type of the cell fixes.
\<close>

definition live :: "dyn_elem list \<Rightarrow> cell list" where
  "live es = List.map_filter entry_tcell es"

definition entry_write :: "dyn_elem \<Rightarrow> (cell \<times> usize list) option" where
  "entry_write e = map_option (\<lambda>c. (c, entry_pending e)) (entry_tcell e)"

definition writes_of :: "dyn_elem list \<Rightarrow> (cell \<times> usize list) list" where
  "writes_of es = List.map_filter entry_write es"

definition entry_ok :: "(usize \<Rightarrow> nat) \<Rightarrow> (cell \<Rightarrow> nat) \<Rightarrow> dyn_elem \<Rightarrow> bool" where
  "entry_ok vts csz e \<longleftrightarrow> elem_ok vts e \<and> snd e \<noteq> [] \<and>
     (\<forall>c. entry_tcell e = Some c \<longrightarrow> length (entry_pending e) = csz c)"

definition wl_holds ::
  "(usize \<Rightarrow> nat) \<Rightarrow> (cell \<Rightarrow> nat) \<Rightarrow> write_log \<Rightarrow> dyn_elem list \<Rightarrow> bool" where
  "wl_holds vts csz wl es \<longleftrightarrow>
     elems_of_words vts (wl_data wl) es \<and> list_all (entry_ok vts csz) es \<and> distinct (live es) \<and>
     (if has_overflowed (wl_bloom wl)
      then overflow_map (wl_bloom wl) = map_of (entry_offsets 0 es)
      else overflow_map (wl_bloom wl) = Map.empty \<and>
        (\<forall>c\<in>set (live es). bloom_contained (wl_bloom wl) c = Maybe))"

lemma live_simps [simp]:
  "live [] = []"
  "live (e # es) = (case entry_tcell e of None \<Rightarrow> [] | Some c \<Rightarrow> [c]) @ live es"
  "live (es @ es') = live es @ live es'"
  by (simp_all add: live_def map_filter_def split: option.splits)

lemma writes_of_simps [simp]:
  "writes_of [] = []"
  "writes_of (e # es) = (case entry_write e of None \<Rightarrow> [] | Some w \<Rightarrow> [w]) @ writes_of es"
  "writes_of (es @ es') = writes_of es @ writes_of es'"
  by (simp_all add: writes_of_def map_filter_def split: option.splits)

lemma map_fst_writes_of: "map fst (writes_of es) = live es"
  by (induction es) (auto simp: entry_write_def split: option.splits)

lemma entry_offsets_append:
  "entry_offsets n (es @ es') = entry_offsets n es @ entry_offsets (n + length (dyn_words es)) es'"
  by (induction es arbitrary: n) (auto simp: add.assoc)

lemma map_fst_entry_offsets: "map fst (entry_offsets n es) = live es"
  by (induction es arbitrary: n) (auto split: option.splits)

lemma dom_entry_offsets: "dom (map_of (entry_offsets n es)) = set (live es)"
  by (simp add: dom_map_of_conv_image_fst flip: map_fst_entry_offsets [of n es])

lemma set_writes_of: "w \<in> set (writes_of es) \<longleftrightarrow> (\<exists>e\<in>set es. entry_write e = Some w)"
  by (cases w, induction es) (auto split: option.splits)

text \<open>With distinct live cells, the offset map names the live entry of each cell.\<close>

lemma entry_offsets_nth:
  "(c, i) \<in> set (entry_offsets n es) \<Longrightarrow>
     \<exists>k<length es. i = n + word_offset es k \<and> entry_tcell (es ! k) = Some c"
proof (induction es arbitrary: n)
  case Nil
  then show ?case by simp
next
  case (Cons e es)
  show ?case
  proof (cases "(c, i) \<in> set (entry_offsets (n + length (as_slice e)) es)")
    case True
    from Cons.IH [OF True] show ?thesis
      by (auto simp: word_offset_def intro: exI [of _ "Suc k" for k])
  next
    case False
    with Cons.prems show ?thesis
      by (auto simp: word_offset_def split: option.splits intro!: exI [of _ 0])
  qed
qed

lemma map_of_writes_nth:
  assumes "distinct (live es)" and "k < length es" and "entry_tcell (es ! k) = Some c"
  shows "map_of (writes_of es) c = Some (entry_pending (es ! k))"
proof -
  have "(c, entry_pending (es ! k)) \<in> set (writes_of es)"
    using assms(2,3) by (auto simp: set_writes_of entry_write_def simp del: split_paired_Ex
        intro!: bexI [of _ "es ! k"])
  then show ?thesis
    using assms(1) by (simp add: map_of_eq_Some_iff map_fst_writes_of)
qed

lemma offsets_find:
  assumes "distinct (live es)" and "map_of (entry_offsets 0 es) c = Some i"
  shows "\<exists>k<length es. i = word_offset es k \<and> entry_tcell (es ! k) = Some c \<and>
    map_of (writes_of es) c = Some (entry_pending (es ! k))"
  using entry_offsets_nth [OF map_of_SomeD [OF assms(2)]] map_of_writes_nth [OF assms(1)] by auto

lemma offsets_None_iff: "map_of (entry_offsets n es) c = None \<longleftrightarrow> map_of (writes_of es) c = None"
  by (simp add: map_of_eq_None_iff map_fst_entry_offsets map_fst_writes_of flip: set_map)

lemma dom_writes_of: "dom (map_of (writes_of es)) = set (live es)"
  by (simp add: dom_map_of_conv_image_fst flip: map_fst_writes_of)

section \<open>What the operations do to the entries\<close>

lemma wl_entries_holds [log_facts]: "wl_holds vts csz wl es \<Longrightarrow> wl_entries vts wl = Inr es"
  by (simp add: wl_holds_def wl_entries_def elems_of_words_def dyn_iter_words)

lemma wl_epoch_locks_holds [log_facts]: "wl_holds vts csz wl es \<Longrightarrow> wl_epoch_locks vts wl = Inr (live es)"
  by (simp add: wl_epoch_locks_def wl_entries_holds live_def)

lemma wl_word_len_holds: "wl_holds vts csz wl es \<Longrightarrow> wl_word_len wl = length (dyn_words es)"
  by (simp add: wl_holds_def wl_word_len_def elems_of_words_def)

lemma wl_holds_new [log_facts]: "wl_holds vts csz write_log_new []"
  by (simp add: wl_holds_def write_log_new_def elems_of_words_def fvec_new_def vec_facts
      bloom_new_def has_overflowed_def OVERFLOWED_def)

lemma wl_holds_clear_no_drop [log_facts]:
  assumes "wl_holds vts csz wl es"
  shows "wl_holds vts csz (wl_clear_no_drop wl) []"
proof -
  from assms have "bloom_clear (wl_bloom wl) = bloom_new"
    by (intro clear_new) (auto simp: wl_holds_def split: if_splits)
  then show ?thesis
    by (simp add: wl_holds_def wl_clear_no_drop_def dyn_clear_no_drop_def elems_of_words_def
        vec_facts bloom_new_def has_overflowed_def OVERFLOWED_def)
qed

lemma wl_clear_holds [log_facts]:
  assumes "wl_holds vts csz wl es"
  shows "wl_clear vts wl = Inr (wl_clear_no_drop wl, es)"
  using assms
  by (simp add: wl_holds_def wl_clear_def dyn_clear_def dyn_drain_def elems_of_words_def
      dyn_iter_words wl_clear_no_drop_def dyn_clear_no_drop_def)

lemma wl_overflow_holds:
  assumes "wl_holds vts csz wl es"
  shows "\<exists>wl'. wl_overflow vts wl = Inr wl' \<and> wl_holds vts csz wl' es \<and>
    has_overflowed (wl_bloom wl') \<and> wl_data wl' = wl_data wl"
proof (cases "has_overflowed (wl_bloom wl)")
  case True
  with assms show ?thesis by (simp add: wl_overflow_def)
next
  case False
  with assms have "fold (\<lambda>(k, v) m. m(k \<mapsto> v)) (entry_offsets 0 es) (overflow_map (wl_bloom wl))
      = map_of (entry_offsets 0 es)"
    by (simp add: wl_holds_def fold_upd_map_of map_fst_entry_offsets)
  with False assms wl_entries_holds [OF assms] show ?thesis
    by (simp add: wl_overflow_def wl_holds_def to_overflow_def run_overflow_def
        has_overflowed_def)
qed

text \<open>Looking a cell up: the pending value, if the cell has been written.\<close>

lemma find_skip_filter_holds:
  assumes "wl_holds vts csz wl es"
  shows "\<exists>wl' r. find_skip_filter vts wl c = Inr (wl', r) \<and> wl_holds vts csz wl' es \<and>
    wl_data wl' = wl_data wl \<and> map_option entry_pending r = map_of (writes_of es) c \<and>
    (\<forall>e. r = Some e \<longrightarrow> entry_read (csz c) e = (if csz c = 0 then Inl Panic else Inr (entry_pending e)))"
proof -
  obtain wl' where wl': "wl_overflow vts wl = Inr wl'" "wl_holds vts csz wl' es"
    "has_overflowed (wl_bloom wl')" "wl_data wl' = wl_data wl"
    using wl_overflow_holds [OF assms] by blast
  have words: "fdata (wl_data wl') = dyn_words es" "list_all (elem_ok vts) es"
    and ok: "list_all (entry_ok vts csz) es" and dist: "distinct (live es)"
    and map: "overflow_map (wl_bloom wl') = map_of (entry_offsets 0 es)"
    using wl'(2,3) by (auto simp: wl_holds_def elems_of_words_def)
  show ?thesis
  proof (cases "map_of (entry_offsets 0 es) c")
    case None
    with wl' map offsets_None_iff [of 0 es c] show ?thesis
      by (simp add: find_skip_filter_def overflow_get_def)
  next
    case (Some i)
    from offsets_find [OF dist Some] obtain k where k: "k < length es" "i = word_offset es k"
      "entry_tcell (es ! k) = Some c" "map_of (writes_of es) c = Some (entry_pending (es ! k))"
      by blast
    from k ok have "entry_ok vts csz (es ! k)"
      by (simp add: list_all_length)
    with k(3) have "length (snd (es ! k)) = Suc (csz c)"
      by (cases "snd (es ! k)") (auto simp: entry_ok_def entry_pending_def)
    with k wl' words map Some show ?thesis
      by (auto simp: find_skip_filter_def overflow_get_def word_index_words entry_read_def
          simp del: split_paired_Ex split_paired_All)
  qed
qed

lemma wl_find_holds:
  assumes "wl_holds vts csz wl es"
  shows "\<exists>wl' r. wl_find vts wl c = Inr (wl', r) \<and> wl_holds vts csz wl' es \<and>
    wl_data wl' = wl_data wl \<and> map_option entry_pending r = map_of (writes_of es) c \<and>
    (\<forall>e. r = Some e \<longrightarrow> entry_read (csz c) e = (if csz c = 0 then Inl Panic else Inr (entry_pending e)))"
proof (cases "bloom_contained (wl_bloom wl) c = No")
  case True
  then have "\<not> has_overflowed (wl_bloom wl)"
    using overflowed_contained by fastforce
  with True assms have "c \<notin> set (live es)"
    by (auto simp: wl_holds_def)
  then have "map_of (writes_of es) c = None"
    by (metis domIff dom_writes_of)
  with True assms show ?thesis by (simp add: wl_find_def)
next
  case False
  with find_skip_filter_holds [OF assms] show ?thesis by (simp add: wl_find_def)
qed

text \<open>The three ways a write enters the log.\<close>

lemma entry_new_facts:
  assumes "c \<noteq> 0" and "vts vt = Suc (length val)"
  shows "entry_tcell (write_entry_new vt c val) = Some c"
    and "entry_pending (write_entry_new vt c val) = val"
    and "entry_write (write_entry_new vt c val) = Some (c, val)"
    and "elem_ok vts (write_entry_new vt c val)"
    and "length val = csz c \<Longrightarrow> entry_ok vts csz (write_entry_new vt c val)"
  using assms
  by (simp_all add: write_entry_new_def entry_tcell_def entry_pending_def entry_write_def
      elem_ok_def entry_ok_def)

lemma elems_push_entry:
  assumes "elems_of_words vts v es" and "c \<noteq> 0" and "vts vt = Suc (length val)"
  shows "elems_of_words vts (dyn_push v (write_entry_new vt c val)) (es @ [write_entry_new vt c val])"
  using dyn.elems_push [OF assms(1) entry_new_facts(4) [of c vts vt val, OF assms(2,3)]] .

text \<open>A write after the inline filter took the cell's bit.\<close>

lemma wl_holds_record_inline:
  assumes "wl_holds vts csz wl es" and "wl_contained_set wl c = (No, wl')"
    and "c \<noteq> 0" and "vts vt = Suc (length val)" and "length val = csz c"
  shows "wl_holds vts csz (wl_record wl' vt c val) (es @ [write_entry_new vt c val])"
    and "c \<notin> set (live es)"
proof -
  from assms(2) obtain b where b: "insert_inline (wl_bloom wl) c = (No, b)" "wl' = wl\<lparr>wl_bloom := b\<rparr>"
    by (auto simp: wl_contained_set_def split: prod.splits)
  note facts = insert_inline_No [OF b(1)]
  from facts(1,5) assms(1) show "c \<notin> set (live es)"
    by (auto simp: wl_holds_def)
  with facts assms b show "wl_holds vts csz (wl_record wl' vt c val) (es @ [write_entry_new vt c val])"
    by (auto simp: wl_holds_def wl_record_def elems_push_entry entry_new_facts [where val = val])
qed

text \<open>A write through a vacant entry of the hash map.\<close>

lemma wl_entry_holds:
  assumes "wl_holds vts csz wl es"
  shows "\<exists>wl'. wl_data wl' = wl_data wl \<and> has_overflowed (wl_bloom wl') \<and> wl_holds vts csz wl' es \<and>
    wl_entry vts wl c = Inr (case map_of (entry_offsets 0 es) c of
        Some i \<Rightarrow> (wl', Occupied i)
      | None \<Rightarrow> (wl'\<lparr>wl_bloom := overflow_insert (wl_bloom wl') c (wl_word_len wl)\<rparr>, Vacant))"
proof -
  obtain wl' where wl': "wl_overflow vts wl = Inr wl'" "wl_holds vts csz wl' es"
    "has_overflowed (wl_bloom wl')" "wl_data wl' = wl_data wl"
    using wl_overflow_holds [OF assms] by blast
  then have "overflow_map (wl_bloom wl') = map_of (entry_offsets 0 es)"
    by (auto simp: wl_holds_def)
  with wl' show ?thesis
    by (intro exI [of _ wl'])
      (auto simp: wl_entry_def overflow_get_def wl_word_len_def split: option.splits)
qed

lemma wl_holds_record_vacant:
  assumes "wl_holds vts csz wl es" and "has_overflowed (wl_bloom wl)" and "c \<notin> set (live es)"
    and "c \<noteq> 0" and "vts vt = Suc (length val)" and "length val = csz c"
  shows "wl_holds vts csz
    (wl_record (wl\<lparr>wl_bloom := overflow_insert (wl_bloom wl) c (wl_word_len wl)\<rparr>) vt c val)
    (es @ [write_entry_new vt c val])"
proof -
  have "map_of (entry_offsets 0 (es @ [write_entry_new vt c val]))
      = (map_of (entry_offsets 0 es))(c \<mapsto> wl_word_len wl)"
    using assms(3) entry_new_facts [of c vts vt val, OF assms(4,5)] wl_word_len_holds [OF assms(1)]
    by (simp add: entry_offsets_append map_add_upd_left dom_entry_offsets)
  with assms show ?thesis
    by (auto simp: wl_holds_def wl_record_def overflow_insert_def has_overflowed_def
        elems_push_entry entry_new_facts [where val = val])
qed

text \<open>A write to a cell that is in the log: in place, or as a tombstone and a new entry.\<close>

lemma live_update:
  "k < length es \<Longrightarrow> entry_tcell (es ! k) = Some c \<Longrightarrow> entry_tcell e = Some c \<Longrightarrow> live (es[k := e]) = live es"
  by (induction es arbitrary: k) (auto simp: nth_Cons split: nat.splits)

lemma entry_offsets_update:
  "k < length es \<Longrightarrow> entry_tcell e = entry_tcell (es ! k) \<Longrightarrow> length (snd e) = length (snd (es ! k)) \<Longrightarrow>
     entry_offsets n (es[k := e]) = entry_offsets n es"
  by (induction es arbitrary: k n) (auto simp: nth_Cons as_slice_def split: nat.splits option.splits)

lemma writes_of_update:
  assumes "k < length es" "entry_tcell (es ! k) = Some c" "entry_write e = Some (c, val)"
    and "distinct (live es)"
  shows "map_of (writes_of (es[k := e])) = (map_of (writes_of es))(c \<mapsto> val)"
proof -
  have es: "es = take k es @ es ! k # drop (Suc k) es"
    using assms(1) by (rule id_take_nth_drop)
  have "c \<notin> set (live (take k es))" "c \<notin> set (live (drop (Suc k) es))"
    using assms(4) by (subst (asm) es, simp add: assms(2))+
  then have "c \<notin> dom (map_of (writes_of (take k es)))"
    by (simp add: dom_writes_of)
  moreover have "entry_write (es ! k) = Some (c, entry_pending (es ! k))"
    using assms(2) by (simp add: entry_write_def)
  ultimately show ?thesis
    by (subst (2) es) (simp add: upd_conv_take_nth_drop assms(1,3) map_add_upd_left)
qed

lemma wl_overwrite_holds:
  assumes "wl_holds vts csz wl es" and "map_of (entry_offsets 0 es) c = Some i"
    and "c \<noteq> 0" and "vts vt = Suc (length val)" and "length val = csz c"
  shows "\<exists>wl' k. k < length es \<and> entry_tcell (es ! k) = Some c \<and>
    wl_overwrite vts wl i vt c val = Inr (wl', es ! k) \<and>
    wl_holds vts csz wl' (es[k := write_entry_new vt c val])"
proof -
  let ?e = "write_entry_new vt c val"
  note e = entry_new_facts [of c vts vt val, OF assms(3,4)]
  from assms(1) have v: "elems_of_words vts (wl_data wl) es" and dist: "distinct (live es)"
    and ok: "list_all (entry_ok vts csz) es"
    by (auto simp: wl_holds_def)
  from offsets_find [OF dist assms(2)] obtain k where k: "k < length es" "i = word_offset es k"
    "entry_tcell (es ! k) = Some c" by blast
  from k ok have "entry_ok vts csz (es ! k)"
    by (simp add: list_all_length)
  with k(3) assms(5) have len: "length (snd ?e) = length (snd (es ! k))"
    by (cases "snd (es ! k)") (auto simp: entry_ok_def entry_pending_def write_entry_new_def)
  obtain d where d: "dyn_assign vts (wl_data wl) i ?e = Inr (d, es ! k)"
    "elems_of_words vts d (es[k := ?e])"
    using dyn.assign_offset [OF v k(1) e(4)] len k(2) by auto
  have "wl_holds vts csz (wl\<lparr>wl_data := d\<rparr>) (es[k := ?e])"
    using assms(1) d(2) ok e(5) [of csz, OF assms(5)] live_update [OF k(1,3) e(1)]
      entry_offsets_update [OF k(1) _ len] k(3) e(1)
    by (auto simp: wl_holds_def list_all_update)
  with d(1) k show ?thesis
    by (intro exI [of _ "wl\<lparr>wl_data := d\<rparr>"] exI [of _ k]) (simp add: wl_overwrite_def)
qed

definition tombstone :: "dyn_elem \<Rightarrow> dyn_elem" where
  "tombstone e = (fst e, 0 # tl (snd e))"

lemma entry_tcell_tombstone [simp]:
  "entry_tcell (tombstone e) = None" "entry_write (tombstone e) = None"
  "entry_pending (tombstone e) = entry_pending e"
  by (simp_all add: entry_tcell_def tombstone_def entry_write_def entry_pending_def)

lemma dyn_words_tombstone:
  assumes "k < length es" and "snd (es ! k) \<noteq> []"
  shows "(dyn_words es)[Suc (word_offset es k) := 0] = dyn_words (es[k := tombstone (es ! k)])"
proof -
  from assms(2) obtain d p where e: "snd (es ! k) = d # p" by (cases "snd (es ! k)") auto
  have split: "dyn_words es = dyn_words (take k es) @ (fst (es ! k) # d # p) @ dyn_words (drop (Suc k) es)"
    using dyn_words_split [OF assms(1)] e by (simp add: as_slice_def)
  show ?thesis
    using assms(1) e
    by (subst split)
      (simp add: word_offset_def list_update_append upd_conv_take_nth_drop tombstone_def as_slice_def)
qed

text \<open>Around the entry of a live cell, no other entry has the cell.\<close>

lemma live_split:
  assumes "k < length es" and "entry_tcell (es ! k) = Some c" and "distinct (live es)"
  shows "es = take k es @ es ! k # drop (Suc k) es"
    and "c \<notin> set (live (take k es))" "c \<notin> set (live (drop (Suc k) es))"
proof -
  show es: "es = take k es @ es ! k # drop (Suc k) es"
    using assms(1) by (rule id_take_nth_drop)
  show "c \<notin> set (live (take k es))" "c \<notin> set (live (drop (Suc k) es))"
    using assms(3) by (subst (asm) es, simp add: assms(2))+
qed

lemma map_of_upd_None: "c \<notin> dom m \<Longrightarrow> c \<notin> dom m' \<Longrightarrow> (m(c \<mapsto> v) ++ m')(c := None) = m ++ m'"
  by (auto simp: fun_eq_iff map_add_def split: option.splits)

lemma tombstone_facts:
  assumes k: "k < length es" "entry_tcell (es ! k) = Some c" and ne: "snd (es ! k) \<noteq> []"
    and dist: "distinct (live es)"
  shows "map_of (entry_offsets n (es[k := tombstone (es ! k)])) = (map_of (entry_offsets n es))(c := None)"
    and "live (es[k := tombstone (es ! k)]) = filter (\<lambda>x. x \<noteq> c) (live es)"
    and "map_of (writes_of (es[k := tombstone (es ! k)])) = (map_of (writes_of es))(c := None)"
proof -
  let ?l = "take k es" and ?r = "drop (Suc k) es" and ?t = "tombstone (es ! k)"
  note split = live_split [OF k dist]
  have upd: "es[k := ?t] = ?l @ ?t # ?r"
    using k(1) by (rule upd_conv_take_nth_drop)
  have len: "length (as_slice ?t) = length (as_slice (es ! k))"
    using ne by (simp add: tombstone_def as_slice_def)
  have "filter (\<lambda>x. x \<noteq> c) (live ?l) = live ?l" "filter (\<lambda>x. x \<noteq> c) (live ?r) = live ?r"
    using split(2,3) by (auto simp: filter_id_conv)
  then show "live (es[k := ?t]) = filter (\<lambda>x. x \<noteq> c) (live es)"
    by (subst (2) split(1)) (simp add: upd k(2))
  have w: "entry_write (es ! k) = Some (c, entry_pending (es ! k))"
    using k(2) by (simp add: entry_write_def)
  have "c \<notin> dom (map_of (writes_of ?l))" "c \<notin> dom (map_of (writes_of ?r))"
    using split(2,3) by (simp_all add: dom_writes_of)
  then show "map_of (writes_of (es[k := ?t])) = (map_of (writes_of es))(c := None)"
    by (subst (2) split(1)) (simp add: upd w map_of_upd_None)
  have "c \<notin> dom (map_of (entry_offsets i ?l))" "c \<notin> dom (map_of (entry_offsets i ?r))" for i
    using split(2,3) by (simp_all add: dom_entry_offsets)
  then show "map_of (entry_offsets n (es[k := ?t])) = (map_of (entry_offsets n es))(c := None)"
    by (subst (2) split(1)) (simp add: upd k(2) len entry_offsets_append map_of_upd_None)
qed

lemma wl_tombstone_replace_holds:
  assumes "wl_holds vts csz wl es" and "has_overflowed (wl_bloom wl)"
    and "map_of (entry_offsets 0 es) c = Some i"
    and "c \<noteq> 0" and "vts vt = Suc (length val)" and "length val = csz c"
  shows "\<exists>wl' k. k < length es \<and> entry_tcell (es ! k) = Some c \<and>
    wl_tombstone_replace vts wl i vt c val = Inr wl' \<and>
    wl_holds vts csz wl' (es[k := tombstone (es ! k)] @ [write_entry_new vt c val])"
proof -
  let ?e = "write_entry_new vt c val"
  note e = entry_new_facts [of c vts vt val, OF assms(4,5)]
  from assms(1,2) have v: "elems_of_words vts (wl_data wl) es" and dist: "distinct (live es)"
    and ok: "list_all (entry_ok vts csz) es"
    and map: "overflow_map (wl_bloom wl) = map_of (entry_offsets 0 es)"
    by (auto simp: wl_holds_def)
  from offsets_find [OF dist assms(3)] obtain k where k: "k < length es" "i = word_offset es k"
    "entry_tcell (es ! k) = Some c" by blast
  let ?es = "es[k := tombstone (es ! k)]" and ?d = "(wl_data wl)\<lparr>fdata := (fdata (wl_data wl))[Suc i := 0]\<rparr>"
  from k ok have entry: "entry_ok vts csz (es ! k)" by (simp add: list_all_length)
  then have ne: "snd (es ! k) \<noteq> []" by (simp add: entry_ok_def)
  from entry have t: "entry_ok vts csz (tombstone (es ! k))" "elem_ok vts (tombstone (es ! k))"
    by (cases "snd (es ! k)"; auto simp: entry_ok_def elem_ok_def tombstone_def entry_tcell_def)+
  have len: "length (dyn_words ?es) = length (dyn_words es)"
    by (metis dyn_words_tombstone [OF k(1) ne] length_list_update)
  with v t k(1) ne have d: "elems_of_words vts ?d ?es"
    by (auto simp: elems_of_words_def fvec_ok_def k(2) dyn_words_tombstone list_all_update)
  from len have len: "length (dyn_words ?es) = wl_word_len wl"
    by (simp add: wl_word_len_holds [OF assms(1)])
  have offs: "map_of (entry_offsets 0 (?es @ [?e])) = (map_of (entry_offsets 0 es))(c \<mapsto> wl_word_len wl)"
    using tombstone_facts(1,2) [OF k(1,3) ne dist] e(1) len
    by (simp add: entry_offsets_append map_add_upd_left dom_entry_offsets)
  let ?wl = "wl\<lparr>wl_bloom := overflow_insert (wl_bloom wl) c (wl_word_len wl), wl_data := dyn_push ?d ?e\<rparr>"
  have "wl_tombstone_replace vts wl i vt c val = Inr ?wl"
    using v k by (simp add: wl_tombstone_replace_def elems_of_words_def word_index_words Let_def)
  moreover have "wl_holds vts csz ?wl (?es @ [?e])"
    using elems_push_entry [OF d assms(4,5)] e t(1) ok assms(2,6) offs map
      tombstone_facts(2) [OF k(1,3) ne dist] dist
    by (simp add: wl_holds_def overflow_insert_def has_overflowed_def list_all_update)
  ultimately show ?thesis
    using k by blast
qed

end
