(* ===== verification/Thread_Garbage.thy ===== *)
theory Thread_Garbage
  imports Epoch Alloc
begin

text \<open>
  \<open>src/internal/gc/thread_garbage.rs\<close> and the sequential part of
  \<open>src/internal/gc/quiesce/synch.rs\<close>: the trash a thread has queued. Trash of the running
  transaction sits in the speculative bag; a commit seals the bag with the time before its
  tick; sealed bags wait until no thread can hold a reference into them.

  A piece of trash is a dynamically typed value (its destructor is its vtable). Collecting a
  bag drops its values; the dropped values, in order, are part of every result. What the
  collecting thread observes of the other threads' epochs is the argument \<open>obs\<close>: the epochs
  read while it walks the list of threads.
\<close>

section \<open>Waiting for the other threads\<close>

text \<open>
  \<open>FreezeList::quiesce\<close>: a thread observed after the epoch contributes to the minimum, the
  others are waited for and do not.
\<close>

definition quiesce :: "quiesce_epoch \<Rightarrow> quiesce_epoch list \<Rightarrow> quiesce_epoch" where
  "quiesce epoch obs =
     (case List.map_filter (\<lambda>td_epoch. if td_epoch > epoch then Some td_epoch else None) obs of
        [] \<Rightarrow> max_value
      | e # es \<Rightarrow> fold min es e)"

lemma fold_min_set: "fold min es (e :: 'a :: linorder) \<in> set (e # es)"
proof (induction es arbitrary: e)
  case (Cons a es)
  from Cons.IH [of "min a e"] show ?case by (auto simp: min_def)
qed simp

lemma fold_min_le: "x \<in> set (e # es) \<Longrightarrow> fold min es (e :: 'a :: linorder) \<le> x"
proof (induction es arbitrary: e x)
  case Nil
  then show ?case by simp
next
  case (Cons a es)
  have "fold min es (min a e) \<le> min a e" by (rule Cons.IH) simp
  with Cons.prems Cons.IH [of x "min a e"] show ?case by auto
qed

lemma quiesce_gt:
  assumes "epoch < max_value"
  shows "epoch < quiesce epoch obs"
proof -
  let ?es = "List.map_filter (\<lambda>t. if t > epoch then Some t else None) obs"
  have gt: "\<forall>x\<in>set ?es. epoch < x"
    by (auto simp: map_filter_def split: if_splits)
  show ?thesis
  proof (cases ?es)
    case Nil
    with assms show ?thesis by (simp add: quiesce_def)
  next
    case (Cons e es)
    have "quiesce epoch obs = fold min es e"
      by (simp add: quiesce_def Cons)
    also have "\<dots> \<in> set ?es"
      using fold_min_set [of es e] Cons by simp
    finally show ?thesis using gt by blast
  qed
qed

lemma quiesce_le:
  assumes "x \<in> set obs" and "epoch < x"
  shows "quiesce epoch obs \<le> x"
proof -
  let ?es = "List.map_filter (\<lambda>t. if t > epoch then Some t else None) obs"
  have x: "x \<in> set ?es"
    using assms by (auto simp: map_filter_def)
  then obtain e es where es: "?es = e # es" by (cases ?es) auto
  have "quiesce epoch obs = fold min es e"
    by (simp add: quiesce_def es)
  then show ?thesis
    using fold_min_le [of x e es] x es by simp
qed

section \<open>Bags\<close>

definition UNUSED_BAG_COUNT :: nat where
  "UNUSED_BAG_COUNT = 64"

type_synonym bag = "usize fvec"

definition bag_new :: bag where
  "bag_new = fvec_new"

record sealed_bag =
  quiesce_epoch_of :: quiesce_epoch
  sealed :: bag

definition bag_seal :: "bag \<Rightarrow> quiesce_epoch \<Rightarrow> sealed_bag" where
  "bag_seal b e = \<lparr>quiesce_epoch_of = e, sealed = b\<rparr>"

text \<open>Collecting drains the bag and calls every closure once.\<close>

definition bag_collect :: "(usize \<Rightarrow> nat) \<Rightarrow> bag \<Rightarrow> (bag \<times> dyn_elem list) outcome" where
  "bag_collect vts b = dyn_drain vts b"

type_synonym unused_bags = "bag fvec"

definition unused_bags_new :: unused_bags where
  "unused_bags_new =
     fold (\<lambda>_ r. fvec_push r bag_new) [0..<UNUSED_BAG_COUNT] (fvec_with_capacity UNUSED_BAG_COUNT)"

definition open_bag :: "unused_bags \<Rightarrow> (unused_bags \<times> bag) option" where
  "open_bag u =
     (if fdata u = [] then None else Some (u\<lparr>fdata := butlast (fdata u)\<rparr>, last (fdata u)))"

definition open_bag_unchecked :: "unused_bags \<Rightarrow> (unused_bags \<times> bag) outcome" where
  "open_bag_unchecked u = pop_unchecked u"

text \<open>The bag goes back first, and is collected in its place.\<close>

definition recycle_bag_unchecked ::
  "(usize \<Rightarrow> nat) \<Rightarrow> unused_bags \<Rightarrow> bag \<Rightarrow> (unused_bags \<times> dyn_elem list) outcome" where
  "recycle_bag_unchecked vts u b =
     (case push_unchecked u b of
        Inl s \<Rightarrow> Inl s
      | Inr u' \<Rightarrow>
          (case back_unchecked u' of
             Inl s \<Rightarrow> Inl s
           | Inr bag \<Rightarrow>
               (case bag_collect vts bag of
                  Inl s \<Rightarrow> Inl s
                | Inr (bag', dropped) \<Rightarrow>
                    Inr (u'\<lparr>fdata := (fdata u')[flen u' - 1 := bag']\<rparr>, dropped))))"

section \<open>Thread garbage\<close>

record thread_garbage =
  speculative_bag :: bag
  sealed_bags :: "sealed_bag fvec"
  unused_bags :: unused_bags

definition thread_garbage_new :: "thread_garbage outcome" where
  "thread_garbage_new =
     (case open_bag unused_bags_new of
        None \<Rightarrow> Inl Panic
      | Some (u, b) \<Rightarrow>
          Inr \<lparr>speculative_bag = b, sealed_bags = fvec_with_capacity (UNUSED_BAG_COUNT - 1),
               unused_bags = u\<rparr>)"

definition is_speculative_bag_empty :: "thread_garbage \<Rightarrow> bool" where
  "is_speculative_bag_empty g \<longleftrightarrow> fdata (speculative_bag g) = []"

definition abort_speculative_garbage :: "thread_garbage \<Rightarrow> thread_garbage" where
  "abort_speculative_garbage g = g\<lparr>speculative_bag := dyn_clear_no_drop (speculative_bag g)\<rparr>"

definition next_dispose_allocates :: "thread_garbage \<Rightarrow> dyn_elem \<Rightarrow> bool" where
  "next_dispose_allocates g value = dyn_next_push_allocates (speculative_bag g) value"

definition dispose :: "thread_garbage \<Rightarrow> dyn_elem \<Rightarrow> thread_garbage" where
  "dispose g value = g\<lparr>speculative_bag := dyn_push (speculative_bag g) value\<rparr>"

definition dispose_unchecked :: "thread_garbage \<Rightarrow> dyn_elem \<Rightarrow> thread_garbage outcome" where
  "dispose_unchecked g value =
     map_sum id (\<lambda>b. g\<lparr>speculative_bag := b\<rparr>) (dyn_push_unchecked (speculative_bag g) value)"

text \<open>Recycling the drained prefix of the sealed bags, oldest first.\<close>

fun recycle_all ::
  "(usize \<Rightarrow> nat) \<Rightarrow> unused_bags \<Rightarrow> sealed_bag list \<Rightarrow> (unused_bags \<times> dyn_elem list) outcome" where
  "recycle_all vts u [] = Inr (u, [])"
| "recycle_all vts u (sb # sbs) =
     (case recycle_bag_unchecked vts u (sealed sb) of
        Inl s \<Rightarrow> Inl s
      | Inr (u', dropped) \<Rightarrow>
          map_sum id (map_prod id ((@) dropped)) (recycle_all vts u' sbs))"

definition collect ::
  "(usize \<Rightarrow> nat) \<Rightarrow> thread_garbage \<Rightarrow> quiesce_epoch \<Rightarrow> (thread_garbage \<times> dyn_elem list) outcome" where
  "collect vts g max_epoch =
     (let sbs = fdata (sealed_bags g);
          max_idx = (case position (\<lambda>sb. quiesce_epoch_of sb \<ge> max_epoch) sbs of
                       Some i \<Rightarrow> i | None \<Rightarrow> length sbs)
      in map_sum id
           (map_prod
             (\<lambda>u. g\<lparr>sealed_bags := (sealed_bags g)\<lparr>fdata := drop max_idx sbs\<rparr>, unused_bags := u\<rparr>) id)
           (recycle_all vts (unused_bags g) (take max_idx sbs)))"

definition earliest_epoch_unchecked :: "thread_garbage \<Rightarrow> quiesce_epoch outcome" where
  "earliest_epoch_unchecked g =
     (case fdata (sealed_bags g) of [] \<Rightarrow> Inl Undefined | sb # _ \<Rightarrow> Inr (quiesce_epoch_of sb))"

definition latest_epoch_unchecked :: "thread_garbage \<Rightarrow> quiesce_epoch outcome" where
  "latest_epoch_unchecked g =
     (if fdata (sealed_bags g) = [] then Inl Undefined
      else Inr (quiesce_epoch_of (last (fdata (sealed_bags g)))))"

text \<open>Synchronising sets the thread's own epoch to the collect epoch before it looks around.\<close>

definition synch_and_collect_impl ::
  "(usize \<Rightarrow> nat) \<Rightarrow> thread_garbage \<Rightarrow> thread_epoch \<Rightarrow> quiesce_epoch \<Rightarrow> quiesce_epoch list \<Rightarrow>
     (thread_garbage \<times> thread_epoch \<times> dyn_elem list) outcome" where
  "synch_and_collect_impl vts g synch quiesce_epoch obs =
     (let synch' = set_collect_epoch synch
      in map_sum id (map_prod id (Pair synch')) (collect vts g (quiesce quiesce_epoch obs)))"

definition synch_and_collect ::
  "(usize \<Rightarrow> nat) \<Rightarrow> thread_garbage \<Rightarrow> thread_epoch \<Rightarrow> quiesce_epoch list \<Rightarrow>
     (thread_garbage \<times> thread_epoch \<times> dyn_elem list) outcome" where
  "synch_and_collect vts g synch obs =
     (case earliest_epoch_unchecked g of
        Inl s \<Rightarrow> Inl s
      | Inr e \<Rightarrow> synch_and_collect_impl vts g synch e obs)"

definition synch_and_collect_all ::
  "(usize \<Rightarrow> nat) \<Rightarrow> thread_garbage \<Rightarrow> thread_epoch \<Rightarrow> quiesce_epoch list \<Rightarrow>
     (thread_garbage \<times> thread_epoch \<times> dyn_elem list) outcome" where
  "synch_and_collect_all vts g synch obs =
     (if fdata (sealed_bags g) \<noteq> [] then
        (case latest_epoch_unchecked g of
           Inl s \<Rightarrow> Inl s
         | Inr e \<Rightarrow> synch_and_collect_impl vts g synch e obs)
      else Inr (g, synch, []))"

definition seal_with_epoch_slow ::
  "(usize \<Rightarrow> nat) \<Rightarrow> thread_garbage \<Rightarrow> thread_epoch \<Rightarrow> quiesce_epoch \<Rightarrow> quiesce_epoch list \<Rightarrow>
     (thread_garbage \<times> thread_epoch \<times> dyn_elem list) outcome" where
  "seal_with_epoch_slow vts g synch quiesce_epoch obs =
     (case open_bag_unchecked (unused_bags g) of
        Inl s \<Rightarrow> Inl s
      | Inr (u, new_bag) \<Rightarrow>
          (case push_unchecked (sealed_bags g) (bag_seal (speculative_bag g) quiesce_epoch) of
             Inl s \<Rightarrow> Inl s
           | Inr sbs \<Rightarrow>
               let g' = \<lparr>speculative_bag = new_bag, sealed_bags = sbs, unused_bags = u\<rparr>
               in if next_push_allocates (sealed_bags g') then synch_and_collect vts g' synch obs
                  else Inr (g', synch, [])))"

definition seal_with_epoch ::
  "(usize \<Rightarrow> nat) \<Rightarrow> thread_garbage \<Rightarrow> thread_epoch \<Rightarrow> quiesce_epoch \<Rightarrow> quiesce_epoch list \<Rightarrow>
     (thread_garbage \<times> thread_epoch \<times> dyn_elem list) outcome" where
  "seal_with_epoch vts g synch quiesce_epoch obs =
     (if \<not> is_speculative_bag_empty g then seal_with_epoch_slow vts g synch quiesce_epoch obs
      else Inr (g, synch, []))"

section \<open>What the bags hold\<close>

text \<open>
  Between operations a thread's garbage stands for the values of the running transaction and
  the queue of committed batches, each with its epoch. No bag is lost or gained.
\<close>

definition bag_holds :: "(usize \<Rightarrow> nat) \<Rightarrow> bag \<Rightarrow> dyn_elem list \<Rightarrow> bool" where
  "bag_holds vts b es \<longleftrightarrow> fdata b = dyn_words es \<and> list_all (elem_ok vts) es"

definition sealed_holds :: "(usize \<Rightarrow> nat) \<Rightarrow> sealed_bag \<Rightarrow> quiesce_epoch \<times> dyn_elem list \<Rightarrow> bool" where
  "sealed_holds vts sb q \<longleftrightarrow> quiesce_epoch_of sb = fst q \<and> bag_holds vts (sealed sb) (snd q)"

definition tg_shape :: "thread_garbage \<Rightarrow> bool" where
  "tg_shape g \<longleftrightarrow>
     flen (sealed_bags g) + flen (unused_bags g) + 1 = UNUSED_BAG_COUNT \<and>
     fcap (sealed_bags g) = UNUSED_BAG_COUNT - 1 \<and> fcap (unused_bags g) = UNUSED_BAG_COUNT \<and>
     list_all (\<lambda>b. fdata b = []) (fdata (unused_bags g))"

definition tg_holds ::
  "(usize \<Rightarrow> nat) \<Rightarrow> thread_garbage \<Rightarrow> dyn_elem list \<Rightarrow> (quiesce_epoch \<times> dyn_elem list) list \<Rightarrow> bool" where
  "tg_holds vts g spec seals \<longleftrightarrow>
     tg_shape g \<and> bag_holds vts (speculative_bag g) spec \<and>
     list_all2 (sealed_holds vts) (fdata (sealed_bags g)) seals"

text \<open>What a collection at an epoch drops, and what it keeps.\<close>

definition collected :: "quiesce_epoch \<Rightarrow> (quiesce_epoch \<times> dyn_elem list) list \<Rightarrow> dyn_elem list" where
  "collected epoch seals = concat (map snd (takeWhile (\<lambda>q. fst q < epoch) seals))"

definition kept ::
  "quiesce_epoch \<Rightarrow> (quiesce_epoch \<times> dyn_elem list) list \<Rightarrow> (quiesce_epoch \<times> dyn_elem list) list" where
  "kept epoch seals = dropWhile (\<lambda>q. fst q < epoch) seals"

lemma collected_kept: "collected epoch seals @ concat (map snd (kept epoch seals)) = concat (map snd seals)"
  by (simp add: collected_def kept_def flip: concat_append map_append)

lemma bag_collect_holds:
  "bag_holds vts b es \<Longrightarrow> bag_collect vts b = Inr (fvec_clear b, es)"
  by (simp add: bag_holds_def bag_collect_def dyn_drain_def vec_facts)

lemma recycle_bag_holds:
  assumes "bag_holds vts b es" and "\<not> next_push_allocates u"
  shows "recycle_bag_unchecked vts u b = Inr (u\<lparr>fdata := fdata u @ [fvec_clear b]\<rparr>, es)"
  using assms
  by (simp add: recycle_bag_unchecked_def push_unchecked_def back_unchecked_def bag_collect_holds)

lemma recycle_all_holds:
  assumes "list_all2 (sealed_holds vts) sbs seals" and "flen u + length sbs \<le> fcap u"
  shows "recycle_all vts u sbs =
    Inr (u\<lparr>fdata := fdata u @ map (fvec_clear \<circ> sealed) sbs\<rparr>, concat (map snd seals))"
  using assms
proof (induction sbs seals arbitrary: u rule: list_all2_induct)
  case Nil
  then show ?case by simp
next
  case (Cons sb sbs q seals)
  from Cons.prems have "\<not> next_push_allocates u"
    by (simp add: next_push_allocates_def)
  with Cons.hyps have "recycle_bag_unchecked vts u (sealed sb) =
      Inr (u\<lparr>fdata := fdata u @ [fvec_clear (sealed sb)]\<rparr>, snd q)"
    by (simp add: recycle_bag_holds sealed_holds_def)
  with Cons.prems Cons.IH [of "u\<lparr>fdata := fdata u @ [fvec_clear (sealed sb)]\<rparr>"] show ?case
    by simp
qed

lemma takeWhile_sealed_holds:
  assumes "list_all2 (sealed_holds vts) sbs seals"
  shows "list_all2 (sealed_holds vts)
      (takeWhile (\<lambda>sb. \<not> epoch \<le> quiesce_epoch_of sb) sbs) (takeWhile (\<lambda>q. fst q < epoch) seals)"
    and "list_all2 (sealed_holds vts)
      (dropWhile (\<lambda>sb. \<not> epoch \<le> quiesce_epoch_of sb) sbs) (dropWhile (\<lambda>q. fst q < epoch) seals)"
  using assms by (induction rule: list_all2_induct) (auto simp: sealed_holds_def)

text \<open>Collecting keeps the bags' shape even when the sealed bags are full.\<close>

lemma collect_holds:
  assumes "tg_holds vts g spec seals"
  obtains g' where "collect vts g epoch = Inr (g', collected epoch seals)"
    and "tg_holds vts g' spec (kept epoch seals)"
proof -
  let ?sbs = "fdata (sealed_bags g)"
  let ?old = "takeWhile (\<lambda>sb. \<not> epoch \<le> quiesce_epoch_of sb) ?sbs"
  let ?new = "dropWhile (\<lambda>sb. \<not> epoch \<le> quiesce_epoch_of sb) ?sbs"
  from assms have sh: "tg_shape g" and bag: "bag_holds vts (speculative_bag g) spec"
    and all: "list_all2 (sealed_holds vts) ?sbs seals"
    by (simp_all add: tg_holds_def)
  note parts = takeWhile_sealed_holds [OF all, of epoch]
  have len: "length ?old + length ?new = length ?sbs"
    by (metis length_append takeWhile_dropWhile_id)
  let ?u = "(unused_bags g)\<lparr>fdata := fdata (unused_bags g) @ map (fvec_clear \<circ> sealed) ?old\<rparr>"
  have "recycle_all vts (unused_bags g) ?old = Inr (?u, collected epoch seals)"
    unfolding collected_def
    by (rule recycle_all_holds [OF parts(1)]) (use sh len in \<open>auto simp: tg_shape_def\<close>)
  then have run: "collect vts g epoch =
      Inr (g\<lparr>sealed_bags := (sealed_bags g)\<lparr>fdata := ?new\<rparr>, unused_bags := ?u\<rparr>, collected epoch seals)"
    by (simp add: collect_def Let_def take_position drop_position)
  have "tg_holds vts (g\<lparr>sealed_bags := (sealed_bags g)\<lparr>fdata := ?new\<rparr>, unused_bags := ?u\<rparr>)
      spec (kept epoch seals)"
    using sh bag parts(2) len
    by (auto simp: tg_holds_def tg_shape_def kept_def list_all_iff fvec_clear_def)
  with run show thesis by (rule that)
qed

lemma thread_garbage_new_holds:
  obtains g where "thread_garbage_new = Inr g" and "tg_holds vts g [] []"
proof -
  have grown: "fold (\<lambda>_ r. fvec_push r bag_new) ns r =
      r\<lparr>fdata := fdata r @ replicate (length ns) bag_new\<rparr>"
    if "flen r + length ns \<le> fcap r" for ns :: "nat list" and r
    using that
    by (induction ns arbitrary: r)
      (auto simp: fvec_push_def fvec_extend_def grow_def replicate_app_Cons_same)
  have u: "unused_bags_new = \<lparr>fdata = replicate 64 bag_new, fcap = 64\<rparr>"
    by (simp add: unused_bags_new_def grown UNUSED_BAG_COUNT_def fvec_with_capacity_def del: upt_Suc)
  have b: "butlast (replicate 64 bag_new) = replicate 63 bag_new" "last (replicate 64 bag_new) = bag_new"
    by (simp_all add: butlast_conv_take last_replicate)
  let ?g = "\<lparr>speculative_bag = bag_new, sealed_bags = fvec_with_capacity (UNUSED_BAG_COUNT - 1),
    unused_bags = \<lparr>fdata = replicate 63 bag_new, fcap = 64\<rparr>\<rparr>"
  show thesis
  proof (rule that)
    show "thread_garbage_new = Inr ?g"
      by (simp add: thread_garbage_new_def open_bag_def u b)
    show "tg_holds vts ?g [] []"
      by (simp add: tg_holds_def tg_shape_def bag_holds_def UNUSED_BAG_COUNT_def list_all_iff
          fvec_with_capacity_def bag_new_def fvec_new_def)
  qed
qed

lemma sealed_epochs: "tg_holds vts g spec seals \<Longrightarrow> map quiesce_epoch_of (fdata (sealed_bags g)) = map fst seals"
  by (auto simp: tg_holds_def sealed_holds_def list_all2_conv_all_nth intro: nth_equalityI)

section \<open>Sealing and collecting\<close>

definition tg_ready ::
  "(usize \<Rightarrow> nat) \<Rightarrow> thread_garbage \<Rightarrow> dyn_elem list \<Rightarrow> (quiesce_epoch \<times> dyn_elem list) list \<Rightarrow> bool" where
  "tg_ready vts g spec seals \<longleftrightarrow>
     tg_holds vts g spec seals \<and> length seals < UNUSED_BAG_COUNT - 1 \<and>
     (\<forall>q\<in>set seals. is_active (fst q) \<and> snd q \<noteq> [])"

lemma is_active_less: "is_active q \<longleftrightarrow> q < max_value"
  using INACTIVE_greatest [of "qget q"]
  by (auto simp: is_active_def quiesce_order max_value_eq)

lemma thread_garbage_new_ready:
  obtains g where "thread_garbage_new = Inr g" and "tg_ready vts g [] []"
  using thread_garbage_new_holds [of vts] by (auto simp: tg_ready_def UNUSED_BAG_COUNT_def)

lemma dispose_ready:
  assumes "tg_ready vts g spec seals" and "elem_ok vts v"
  shows "tg_ready vts (dispose g v) (spec @ [v]) seals"
    and "\<not> next_dispose_allocates g v \<Longrightarrow> dispose_unchecked g v = Inr (dispose g v)"
proof -
  have "bag_holds vts (dyn_push (speculative_bag g) v) (spec @ [v])"
    using assms by (simp add: tg_ready_def tg_holds_def bag_holds_def dyn_push_def vec_facts)
  then show "tg_ready vts (dispose g v) (spec @ [v]) seals"
    using assms(1) by (simp add: tg_ready_def tg_holds_def tg_shape_def dispose_def)
  show "\<not> next_dispose_allocates g v \<Longrightarrow> dispose_unchecked g v = Inr (dispose g v)"
    by (simp add: dispose_unchecked_def dispose_def dyn_push_unchecked_def dyn_push_def
        extend_unchecked_eq next_dispose_allocates_def dyn_next_push_allocates_def)
qed

lemma abort_ready:
  "tg_ready vts g spec seals \<Longrightarrow> tg_ready vts (abort_speculative_garbage g) [] seals"
  by (simp add: tg_ready_def tg_holds_def tg_shape_def abort_speculative_garbage_def
      bag_holds_def dyn_clear_no_drop_def fvec_clear_def)

lemma kept_subset: "set (kept epoch seals) \<subseteq> set seals"
  by (auto simp: kept_def dest: set_dropWhileD)

lemma length_kept: "length (kept epoch seals) \<le> length seals"
  by (simp add: kept_def length_dropWhile_le)

lemma synch_impl_holds:
  assumes "tg_holds vts g spec seals"
  obtains g' where "synch_and_collect_impl vts g synch e obs =
      Inr (g', qget end_of_time, collected (quiesce e obs) seals)"
    and "tg_holds vts g' spec (kept (quiesce e obs) seals)"
proof -
  from collect_holds [OF assms, of "quiesce e obs"] obtain g'
    where "collect vts g (quiesce e obs) = Inr (g', collected (quiesce e obs) seals)"
      and "tg_holds vts g' spec (kept (quiesce e obs) seals)" .
  then show thesis
    by (intro that) (simp_all add: synch_and_collect_impl_def set_collect_epoch_def thread_epoch_set_def)
qed

text \<open>The bag that is sealed leaves room for the next one, or the oldest batch is collected.\<close>

lemma sealed_push_holds:
  assumes "tg_ready vts g spec seals" and "spec \<noteq> []"
  obtains g' where "tg_holds vts g' [] (seals @ [(e, spec)])"
    and "\<And>synch obs. seal_with_epoch vts g synch e obs =
      (if length seals + 1 = UNUSED_BAG_COUNT - 1 then synch_and_collect vts g' synch obs
       else Inr (g', synch, []))"
proof -
  from assms have sh: "tg_shape g" and bag: "bag_holds vts (speculative_bag g) spec"
    and all: "list_all2 (sealed_holds vts) (fdata (sealed_bags g)) seals"
    and len: "length seals < UNUSED_BAG_COUNT - 1"
    by (auto simp: tg_ready_def tg_holds_def)
  have same: "flen (sealed_bags g) = length seals" by (rule list_all2_lengthD [OF all])
  let ?g' = "\<lparr>speculative_bag = last (fdata (unused_bags g)),
    sealed_bags = (sealed_bags g)\<lparr>fdata := fdata (sealed_bags g) @ [bag_seal (speculative_bag g) e]\<rparr>,
    unused_bags = (unused_bags g)\<lparr>fdata := butlast (fdata (unused_bags g))\<rparr>\<rparr>"
  from sh same len have ne: "fdata (unused_bags g) \<noteq> []"
    by (auto simp: tg_shape_def UNUSED_BAG_COUNT_def)
  with sh have "fdata (last (fdata (unused_bags g))) = []"
    by (simp add: tg_shape_def list_all_iff)
  moreover have "list_all (\<lambda>b. fdata b = []) (butlast (fdata (unused_bags g)))"
    using sh by (auto simp: tg_shape_def list_all_iff dest: in_set_butlastD)
  moreover obtain n where "flen (unused_bags g) = Suc n"
    using ne by (cases "flen (unused_bags g)") auto
  ultimately have shape: "tg_shape ?g'" "bag_holds vts (speculative_bag ?g') []"
    using sh ne by (auto simp: tg_shape_def bag_holds_def)
  have "sealed_holds vts (bag_seal (speculative_bag g) e) (e, spec)"
    using bag by (simp add: sealed_holds_def bag_seal_def)
  with all have "list_all2 (sealed_holds vts) (fdata (sealed_bags ?g')) (seals @ [(e, spec)])"
    by (simp add: list_all2_appendI)
  with shape have "tg_holds vts ?g' [] (seals @ [(e, spec)])"
    by (simp add: tg_holds_def)
  moreover have "seal_with_epoch vts g synch e obs =
      (if length seals + 1 = UNUSED_BAG_COUNT - 1 then synch_and_collect vts ?g' synch obs
       else Inr (?g', synch, []))" for synch obs
    using sh bag same len ne assms(2)
    by (auto simp: seal_with_epoch_def seal_with_epoch_slow_def is_speculative_bag_empty_def
        bag_holds_def open_bag_unchecked_def pop_unchecked_def push_unchecked_def
        next_push_allocates_def tg_shape_def UNUSED_BAG_COUNT_def Let_def)
  ultimately show thesis by (rule that)
qed

lemma seal_ready:
  fixes obs :: "quiesce_epoch list"
  assumes ready: "tg_ready vts g spec seals" and act: "is_active e"
  defines "seals' \<equiv> (if spec = [] then seals else seals @ [(e, spec)])"
  defines "c \<equiv> quiesce (fst (hd seals')) obs"
  obtains g' synch' d where "seal_with_epoch vts g synch e obs = Inr (g', synch', d)"
    and "if length seals' = UNUSED_BAG_COUNT - 1
         then d = collected c seals' \<and> d \<noteq> [] \<and> synch' = qget end_of_time \<and>
              tg_ready vts g' [] (kept c seals')
         else d = [] \<and> synch' = synch \<and> tg_ready vts g' [] seals'"
proof (cases "spec = []")
  case True
  with ready that [of g synch "[]"] show thesis
    by (auto simp: tg_ready_def tg_holds_def bag_holds_def seal_with_epoch_def
        is_speculative_bag_empty_def seals'_def)
next
  case False
  from sealed_push_holds [OF ready False, of e] obtain g1
    where h: "tg_holds vts g1 [] (seals @ [(e, spec)])"
      and run: "\<And>synch obs. seal_with_epoch vts g synch e obs =
        (if length seals + 1 = UNUSED_BAG_COUNT - 1 then synch_and_collect vts g1 synch obs
         else Inr (g1, synch, []))" by blast
  have s': "seals' = seals @ [(e, spec)]" using False by (simp add: seals'_def)
  have ok: "\<forall>q\<in>set seals'. is_active (fst q) \<and> snd q \<noteq> []"
    using ready act False by (auto simp: tg_ready_def s')
  show thesis
  proof (cases "length seals' = UNUSED_BAG_COUNT - 1")
    case full: False
    with ready h ok False have "tg_ready vts g1 [] seals'"
      by (auto simp: tg_ready_def s')
    with that [of g1 synch "[]"] run full show thesis by (simp add: s')
  next
    case full: True
    obtain q qs where q: "seals' = q # qs" by (cases seals') (auto simp: s')
    with h have hd1: "earliest_epoch_unchecked g1 = Inr (fst q)"
      by (auto simp: earliest_epoch_unchecked_def tg_holds_def sealed_holds_def s'
          list_all2_Cons2 split: list.split)
    from synch_impl_holds [OF h, of synch "fst q" obs] obtain g2
      where r2: "synch_and_collect_impl vts g1 synch (fst q) obs =
          Inr (g2, qget end_of_time, collected c seals')"
        and h2: "tg_holds vts g2 [] (kept c seals')"
      by (auto simp: c_def q s' [symmetric])
    have "fst q < c"
      using quiesce_gt ok by (simp add: c_def q is_active_less)
    then have c1: "snd q @ collected c qs = collected c seals'" and k1: "kept c seals' = kept c qs"
      by (simp_all add: q collected_def kept_def)
    have "tg_ready vts g2 [] (kept c seals')"
      using h2 ok full kept_subset [of c seals'] length_kept [of c qs] k1
      by (auto simp: tg_ready_def q)
    moreover have "collected c seals' \<noteq> []"
      using ok c1 q by (metis Nil_is_append_conv list.set_intros(1))
    moreover have "seal_with_epoch vts g synch e obs = Inr (g2, qget end_of_time, collected c seals')"
      using full r2 by (simp add: run s' synch_and_collect_def hd1)
    ultimately show thesis using that [of g2 "qget end_of_time"] full by simp
  qed
qed

lemma collect_all_ready:
  assumes ready: "tg_ready vts g spec seals"
  obtains g' synch' d where "synch_and_collect_all vts g synch obs = Inr (g', synch', d)"
    and "if seals = [] then d = [] \<and> tg_ready vts g' spec []
         else d = collected (quiesce (fst (last seals)) obs) seals \<and>
              tg_ready vts g' spec (kept (quiesce (fst (last seals)) obs) seals)"
proof (cases "seals = []")
  case True
  with ready that [of g synch "[]"] show thesis
    by (auto simp: tg_ready_def tg_holds_def synch_and_collect_all_def)
next
  case False
  let ?c = "quiesce (fst (last seals)) obs"
  from ready have h: "tg_holds vts g spec seals" by (simp add: tg_ready_def)
  then have ne: "fdata (sealed_bags g) \<noteq> []"
    using False by (auto simp: tg_holds_def)
  with h sealed_epochs [OF h] have "quiesce_epoch_of (last (fdata (sealed_bags g))) = fst (last seals)"
    by (metis False last_map)
  then have "synch_and_collect_all vts g synch obs =
      synch_and_collect_impl vts g synch (fst (last seals)) obs"
    using ne by (simp add: synch_and_collect_all_def latest_epoch_unchecked_def)
  moreover from synch_impl_holds [OF h, of synch "fst (last seals)" obs] obtain g'
    where "synch_and_collect_impl vts g synch (fst (last seals)) obs =
        Inr (g', qget end_of_time, collected ?c seals)"
      and "tg_holds vts g' spec (kept ?c seals)" by blast
  moreover from this(2) have "tg_ready vts g' spec (kept ?c seals)"
    using ready kept_subset [of ?c seals] length_kept [of ?c seals] by (auto simp: tg_ready_def)
  ultimately show thesis using that False by auto
qed

section \<open>A thread's whole life\<close>

text \<open>
  What a thread does to its garbage: queue a value (on the path the capacity test picks),
  forget the values of an aborted transaction, seal after a commit, and collect everything when
  the thread key is dropped. The observed epochs are part of the operation.
\<close>

datatype tg_op =
    Dispose dyn_elem
  | AbortSpeculative
  | Seal quiesce_epoch "quiesce_epoch list"
  | CollectAll "quiesce_epoch list"

fun tg_apply ::
  "(usize \<Rightarrow> nat) \<Rightarrow> tg_op \<Rightarrow> thread_garbage \<times> thread_epoch \<Rightarrow>
     (thread_garbage \<times> thread_epoch \<times> dyn_elem list) outcome" where
  "tg_apply vts (Dispose v) (g, synch) =
     (if next_dispose_allocates g v then Inr (dispose g v, synch, [])
      else map_sum id (\<lambda>g'. (g', synch, [])) (dispose_unchecked g v))"
| "tg_apply vts AbortSpeculative (g, synch) = Inr (abort_speculative_garbage g, synch, [])"
| "tg_apply vts (Seal e obs) (g, synch) = seal_with_epoch vts g synch e obs"
| "tg_apply vts (CollectAll obs) (g, synch) = synch_and_collect_all vts g synch obs"

fun tg_run ::
  "(usize \<Rightarrow> nat) \<Rightarrow> tg_op list \<Rightarrow> thread_garbage \<times> thread_epoch \<Rightarrow>
     (thread_garbage \<times> thread_epoch \<times> dyn_elem list) outcome" where
  "tg_run vts [] (g, synch) = Inr (g, synch, [])"
| "tg_run vts (op # ops) s =
     (case tg_apply vts op s of
        Inl e \<Rightarrow> Inl e
      | Inr (g, synch, d) \<Rightarrow>
          map_sum id (map_prod id (map_prod id ((@) d))) (tg_run vts ops (g, synch)))"

text \<open>The values whose transaction has committed, and those of the running transaction.\<close>

fun tg_committed :: "tg_op list \<Rightarrow> dyn_elem list \<Rightarrow> dyn_elem list \<times> dyn_elem list" where
  "tg_committed [] spec = ([], spec)"
| "tg_committed (Dispose v # ops) spec = tg_committed ops (spec @ [v])"
| "tg_committed (AbortSpeculative # ops) spec = tg_committed ops []"
| "tg_committed (Seal e obs # ops) spec = map_prod ((@) spec) id (tg_committed ops [])"
| "tg_committed (CollectAll obs # ops) spec = tg_committed ops spec"

fun tg_op_ok :: "(usize \<Rightarrow> nat) \<Rightarrow> tg_op \<Rightarrow> bool" where
  "tg_op_ok vts (Dispose v) = elem_ok vts v"
| "tg_op_ok vts (Seal e obs) = is_active e"
| "tg_op_ok vts _ = True"

lemma tg_apply_ready:
  assumes "tg_ready vts g spec seals" and "tg_op_ok vts op"
  obtains g' synch' d seals' where "tg_apply vts op (g, synch) = Inr (g', synch', d)"
    and "tg_ready vts g' (snd (tg_committed [op] spec)) seals'"
    and "d @ concat (map snd seals') = concat (map snd seals) @ fst (tg_committed [op] spec)"
proof (cases op)
  case (Dispose v)
  with assms dispose_ready [OF assms(1), of v] that [of "dispose g v" synch "[]" seals]
  show thesis by (cases "next_dispose_allocates g v") auto
next
  case AbortSpeculative
  with abort_ready [OF assms(1)] that show thesis by simp
next
  case (Seal e obs)
  let ?seals = "if spec = [] then seals else seals @ [(e, spec)]"
  let ?c = "quiesce (fst (hd ?seals)) obs"
  from Seal assms(2) have "is_active e" by simp
  from seal_ready [OF assms(1) this, of synch obs] obtain g' synch' d
    where run: "seal_with_epoch vts g synch e obs = Inr (g', synch', d)"
      and res: "if length ?seals = UNUSED_BAG_COUNT - 1
         then d = collected ?c ?seals \<and> d \<noteq> [] \<and> synch' = qget end_of_time \<and>
              tg_ready vts g' [] (kept ?c ?seals)
         else d = [] \<and> synch' = synch \<and> tg_ready vts g' [] ?seals" by blast
  have all: "concat (map snd ?seals) = concat (map snd seals) @ spec" by simp
  show thesis
  proof (cases "length ?seals = UNUSED_BAG_COUNT - 1")
    case True
    with res all show thesis
      using collected_kept [of ?c ?seals]
      by (intro that [of g' synch' d "kept ?c ?seals"]) (simp_all add: Seal run del: split_paired_All)
  next
    case False
    with res all show thesis
      by (intro that [of g' synch' d ?seals]) (simp_all add: Seal run)
  qed
next
  case (CollectAll obs)
  let ?c = "quiesce (fst (last seals)) obs"
  from collect_all_ready [OF assms(1), of synch obs] obtain g' synch' d
    where run: "synch_and_collect_all vts g synch obs = Inr (g', synch', d)"
      and res: "if seals = [] then d = [] \<and> tg_ready vts g' spec []
         else d = collected ?c seals \<and> tg_ready vts g' spec (kept ?c seals)" by blast
  have "kept ?c [] = []" "collected ?c [] = []" by (simp_all add: kept_def collected_def)
  with res collected_kept [of ?c seals] run CollectAll
    that [of g' synch' d "kept ?c seals"] show thesis
    by (auto split: if_splits)
qed

lemma tg_committed_Cons:
  "tg_committed (op # ops) spec =
     map_prod ((@) (fst (tg_committed [op] spec))) id (tg_committed ops (snd (tg_committed [op] spec)))"
  by (cases op) (auto simp: prod.map_comp o_def id_def map_prod_def split: prod.split)

lemma tg_run_ready:
  assumes "tg_ready vts g spec seals" and "list_all (tg_op_ok vts) ops"
  shows "\<exists>g' synch' d seals'. tg_run vts ops (g, synch) = Inr (g', synch', d) \<and>
    tg_ready vts g' (snd (tg_committed ops spec)) seals' \<and>
    d @ concat (map snd seals') = concat (map snd seals) @ fst (tg_committed ops spec)"
  using assms
proof (induction ops arbitrary: g spec seals synch)
  case Nil
  then show ?case by auto
next
  case (Cons op ops)
  from Cons.prems have ok: "tg_op_ok vts op" "list_all (tg_op_ok vts) ops" by simp_all
  from tg_apply_ready [OF Cons.prems(1) ok(1), of synch] obtain g1 synch1 d1 seals1
    where run1: "tg_apply vts op (g, synch) = Inr (g1, synch1, d1)"
      and r1: "tg_ready vts g1 (snd (tg_committed [op] spec)) seals1"
      and e1: "d1 @ concat (map snd seals1) = concat (map snd seals) @ fst (tg_committed [op] spec)" .
  from Cons.IH [OF r1 ok(2), of synch1] obtain g2 synch2 d2 seals2
    where run2: "tg_run vts ops (g1, synch1) = Inr (g2, synch2, d2)"
      and r2: "tg_ready vts g2 (snd (tg_committed ops (snd (tg_committed [op] spec)))) seals2"
      and e2: "d2 @ concat (map snd seals2) =
        concat (map snd seals1) @ fst (tg_committed ops (snd (tg_committed [op] spec)))" by blast
  from run1 run2 have "tg_run vts (op # ops) (g, synch) = Inr (g2, synch2, d1 @ d2)" by simp
  moreover have "(d1 @ d2) @ concat (map snd seals2) =
      concat (map snd seals) @ fst (tg_committed (op # ops) spec)"
    using e1 e2 by (simp add: tg_committed_Cons [of op ops])
  moreover have "tg_ready vts g2 (snd (tg_committed (op # ops) spec)) seals2"
    using r2 by (simp add: tg_committed_Cons [of op ops])
  ultimately show ?case by blast
qed

section \<open>Properties\<close>



text \<open>
  A commit that seals its bag only runs a collection when the sealed bags are full;
  it then collects a non-empty prefix of the batches, oldest first, and a batch is
  collected only if its epoch is older than every epoch the collector observed, except those of
  threads it waited for, which were not newer than the oldest batch.
\<close>

theorem seal_collects_quiesced_prefix:
  assumes "tg_ready vts g spec seals" and "is_active e" and "spec \<noteq> []"
  shows "\<exists>g' synch' batches rest. seal_with_epoch vts g synch e obs =
      Inr (g', synch', concat (map snd batches)) \<and>
    seals @ [(e, spec)] = batches @ rest \<and> tg_ready vts g' [] rest \<and>
    (batches \<noteq> [] \<longleftrightarrow> length seals + 1 = UNUSED_BAG_COUNT - 1) \<and>
    (\<forall>b\<in>set batches. \<forall>td\<in>set obs. td \<le> fst (hd (seals @ [(e, spec)])) \<or> fst b < td)"
proof -
  let ?seals = "seals @ [(e, spec)]"
  let ?c = "quiesce (fst (hd ?seals)) obs"
  let ?batches = "takeWhile (\<lambda>q. fst q < ?c) ?seals"
  from seal_ready [OF assms(1,2), of synch obs, unfolded if_not_P [OF assms(3)]] obtain g' synch' d
    where run: "seal_with_epoch vts g synch e obs = Inr (g', synch', d)"
      and res: "if length ?seals = UNUSED_BAG_COUNT - 1
         then d = collected ?c ?seals \<and> d \<noteq> [] \<and> synch' = qget end_of_time \<and>
              tg_ready vts g' [] (kept ?c ?seals)
         else d = [] \<and> synch' = synch \<and> tg_ready vts g' [] ?seals" .
  show ?thesis
  proof (cases "length ?seals = UNUSED_BAG_COUNT - 1")
    case True
    then have d: "d = concat (map snd ?batches)" "d \<noteq> []" "tg_ready vts g' [] (kept ?c ?seals)"
      using res [unfolded if_P [OF True] collected_def] by blast+
    have "?seals = ?batches @ kept ?c ?seals" by (simp add: kept_def)
    moreover have "\<forall>b\<in>set ?batches. \<forall>td\<in>set obs. td \<le> fst (hd ?seals) \<or> fst b < td"
    proof (intro ballI)
      fix b td
      assume "b \<in> set ?batches" and "td \<in> set obs"
      then show "td \<le> fst (hd ?seals) \<or> fst b < td"
        using quiesce_le [of td obs "fst (hd ?seals)"] by (force dest: set_takeWhileD)
    qed
    moreover have "?batches \<noteq> []" using d(1,2) by (metis concat.simps(1) list.simps(8))
    ultimately show ?thesis
      using run d True
      by (intro exI [of _ g'] exI [of _ synch'] exI [of _ ?batches] exI [of _ "kept ?c ?seals"]) simp
  next
    case False
    with res run show ?thesis
      by (intro exI [of _ g'] exI [of _ synch'] exI [of _ "[]"] exI [of _ ?seals]) simp
  qed
qed

lemma seal_collects_quiesced_prefix_witness:
  "\<exists>g g' synch' batches rest. tg_ready (\<lambda>_. 1) g [(7, [2])] [] \<and>
    seal_with_epoch (\<lambda>_. 1) g thread_epoch_inactive (QuiesceEpoch 5) [] =
      Inr (g', synch', concat (map snd batches)) \<and>
    [(QuiesceEpoch 5, [(7, [2])])] = batches @ rest"
proof -
  obtain g0 where g0: "tg_ready (\<lambda>_. 1) g0 [] []"
    using thread_garbage_new_ready [of "\<lambda>_. 1"] by blast
  have "tg_ready (\<lambda>_. 1) (dispose g0 (7, [2])) [(7, [2])] []"
    using dispose_ready(1) [OF g0, of "(7, [2])"] by (simp add: elem_ok_def)
  moreover from seal_collects_quiesced_prefix [OF this, of "QuiesceEpoch 5" thread_epoch_inactive "[]"]
  have "\<exists>g' synch' batches rest.
    seal_with_epoch (\<lambda>_. 1) (dispose g0 (7, [2])) thread_epoch_inactive (QuiesceEpoch 5) [] =
      Inr (g', synch', concat (map snd batches)) \<and>
    [(QuiesceEpoch 5, [(7, [2])])] = batches @ rest"
    by (auto simp: is_active_def INACTIVE_EPOCH_def)
  ultimately show ?thesis by blast
qed

text \<open>
  When the sealed epochs are in order, as the clock makes them, collecting
  everything (the destructor of a thread key) drops every committed value and leaves no batch,
  whatever the other threads do.
\<close>

theorem collect_all_leaves_nothing:
  assumes "tg_ready vts g spec seals" and "sorted (map fst seals)"
  shows "\<exists>g' synch'. synch_and_collect_all vts g synch obs = Inr (g', synch', concat (map snd seals)) \<and>
    tg_holds vts g' spec []"
proof (cases "seals = []")
  case True
  with assms(1) show ?thesis
    by (auto simp: tg_ready_def tg_holds_def synch_and_collect_all_def)
next
  case False
  let ?c = "quiesce (fst (last seals)) obs"
  from False assms(1) have "fst (last seals) < ?c"
    by (intro quiesce_gt) (auto simp: tg_ready_def simp flip: is_active_less)
  moreover have "fst q \<le> fst (last seals)" if "q \<in> set seals" for q
    using that assms(2) False
    by (auto simp: in_set_conv_nth last_conv_nth sorted_iff_nth_mono)
  ultimately have "\<forall>q\<in>set seals. fst q < ?c" by fastforce
  then have "collected ?c seals = concat (map snd seals)" "kept ?c seals = []"
    by (auto simp: collected_def kept_def takeWhile_eq_all_conv [THEN iffD2] dropWhile_eq_Nil_conv)
  moreover obtain g' synch' d where "synch_and_collect_all vts g synch obs = Inr (g', synch', d)"
    and "d = collected ?c seals \<and> tg_ready vts g' spec (kept ?c seals)"
    using collect_all_ready [OF assms(1), of synch obs, unfolded if_not_P [OF False]] .
  ultimately show ?thesis by (auto simp: tg_ready_def)
qed

lemma collect_all_leaves_nothing_witness:
  "\<exists>g g' synch'. synch_and_collect_all (\<lambda>_. 1) g thread_epoch_inactive [QuiesceEpoch 9] =
    Inr (g', synch', [(7, [2])])"
proof -
  obtain g0 where g0: "tg_ready (\<lambda>_. 1) g0 [] []"
    using thread_garbage_new_ready [of "\<lambda>_. 1"] by blast
  have d: "tg_ready (\<lambda>_. 1) (dispose g0 (7, [2])) [(7, [2])] []"
    using dispose_ready(1) [OF g0, of "(7, [2])"] by (simp add: elem_ok_def)
  from seal_ready [OF d, of "QuiesceEpoch 5" thread_epoch_inactive "[]"] obtain g
    where "tg_ready (\<lambda>_. 1) g [] [(QuiesceEpoch 5, [(7, [2])])]"
    by (auto simp: is_active_def INACTIVE_EPOCH_def UNUSED_BAG_COUNT_def)
  from collect_all_leaves_nothing [OF this, of thread_epoch_inactive "[QuiesceEpoch 9]"]
  show ?thesis by auto
qed

end
