(* ===== verification/Rw_Tx.thy ===== *)
theory Rw_Tx
  imports Read_Log Write_Log Thread_Garbage "HOL-Library.Multiset"
begin

text \<open>
  \<open>src/rw.rs\<close> and \<open>src/read.rs\<close>: the operations of a running transaction, over the logs of
  the thread (\<open>Logs\<close> of \<open>src/internal/thread.rs\<close>).

  A cell is shared with other threads, so every optimistic read of its words and every later
  check of its lock word may meet a different state of it. A \<^emph>\<open>look\<close> at a cell is such a pair of
  value words and lock word; an operation that falls back to its slow path takes one look for
  each path. Type-dependent facts of the generic code are arguments: the words of the cell's type
  (\<open>csz\<close>), its \<open>needs_drop\<close>, \<open>REQUEST_TCELL_LIFETIME\<close> of the value, and the vtables of the
  write log entry and of the queued trash.
\<close>

record logs =
  log_reads :: read_log
  log_writes :: write_log
  log_garbage :: thread_garbage

type_synonym look = "usize list \<times> epoch_lock"

definition rw_valid :: "quiesce_epoch \<Rightarrow> look \<Rightarrow> bool" where
  "rw_valid pin_epoch l = read_write_valid_lockable pin_epoch (snd l)"

section \<open>Reading\<close>

definition borrow_slow ::
  "(usize \<Rightarrow> nat) \<Rightarrow> nat \<Rightarrow> quiesce_epoch \<Rightarrow> logs \<Rightarrow> cell \<Rightarrow> look \<Rightarrow> (logs \<times> (error + usize list)) outcome"
  where
  "borrow_slow vts size_of pin_epoch lg tcell l =
     (case wl_find vts (log_writes lg) tcell of
        Inl s \<Rightarrow> Inl s
      | Inr (wl, None) \<Rightarrow>
          let lg' = lg\<lparr>log_writes := wl\<rparr>
          in if rw_valid pin_epoch l
             then Inr (lg'\<lparr>log_reads := rl_record (log_reads lg') tcell\<rparr>, Inr (fst l))
             else Inr (lg', Inl CONFLICT)
      | Inr (wl, Some entry) \<Rightarrow>
          let lg' = lg\<lparr>log_writes := wl\<rparr>
          in (case entry_read size_of entry of
                Inl s \<Rightarrow> Inl s
              | Inr value \<Rightarrow>
                  if rw_valid pin_epoch l then Inr (lg', Inr value) else Inr (lg', Inl CONFLICT)))"

definition borrow_impl ::
  "(usize \<Rightarrow> nat) \<Rightarrow> nat \<Rightarrow> quiesce_epoch \<Rightarrow> logs \<Rightarrow> cell \<Rightarrow> look \<Rightarrow> look \<Rightarrow>
     (logs \<times> (error + usize list)) outcome" where
  "borrow_impl vts size_of pin_epoch lg tcell l1 l2 =
     (if \<not> rl_next_push_allocates (log_reads lg) \<and> wl_contained (log_writes lg) tcell = No \<and>
         rw_valid pin_epoch l1
      then map_sum id (\<lambda>rl. (lg\<lparr>log_reads := rl\<rparr>, Inr (fst l1)))
             (rl_record_unchecked (log_reads lg) tcell)
      else borrow_slow vts size_of pin_epoch lg tcell l2)"

definition borrow_unlogged_slow ::
  "(usize \<Rightarrow> nat) \<Rightarrow> nat \<Rightarrow> quiesce_epoch \<Rightarrow> logs \<Rightarrow> cell \<Rightarrow> look \<Rightarrow> (logs \<times> (error + usize list)) outcome"
  where
  "borrow_unlogged_slow vts size_of pin_epoch lg tcell l =
     (case find_skip_filter vts (log_writes lg) tcell of
        Inl s \<Rightarrow> Inl s
      | Inr (wl, found) \<Rightarrow>
          (case (case found of None \<Rightarrow> Inr (fst l) | Some entry \<Rightarrow> entry_read size_of entry) of
             Inl s \<Rightarrow> Inl s
           | Inr snapshot \<Rightarrow>
               Inr (lg\<lparr>log_writes := wl\<rparr>,
                 if rw_valid pin_epoch l then Inr snapshot else Inl CONFLICT)))"

definition borrow_unlogged_impl ::
  "(usize \<Rightarrow> nat) \<Rightarrow> nat \<Rightarrow> quiesce_epoch \<Rightarrow> logs \<Rightarrow> cell \<Rightarrow> look \<Rightarrow> look \<Rightarrow>
     (logs \<times> (error + usize list)) outcome" where
  "borrow_unlogged_impl vts size_of pin_epoch lg tcell l1 l2 =
     (if wl_contained (log_writes lg) tcell = No \<and> rw_valid pin_epoch l1
      then Inr (lg, Inr (fst l1))
      else borrow_unlogged_slow vts size_of pin_epoch lg tcell l2)"

text \<open>A zero sized value needs no synchronisation.\<close>

definition rw_borrow ::
  "(usize \<Rightarrow> nat) \<Rightarrow> nat \<Rightarrow> quiesce_epoch \<Rightarrow> ordering \<Rightarrow> logs \<Rightarrow> cell \<Rightarrow> look \<Rightarrow> look \<Rightarrow>
     (logs \<times> (error + usize list)) outcome" where
  "rw_borrow vts size_of pin_epoch mo lg tcell l1 l2 =
     (if size_of \<noteq> 0 then
        (case mo of
           ReadWrite \<Rightarrow> borrow_impl vts size_of pin_epoch lg tcell l1 l2
         | _ \<Rightarrow> borrow_unlogged_impl vts size_of pin_epoch lg tcell l1 l2)
      else Inr (lg, Inr []))"

text \<open>In a read only transaction there are no logs: the value, then the check.\<close>

definition read_tx_borrow :: "nat \<Rightarrow> quiesce_epoch \<Rightarrow> look \<Rightarrow> error + usize list" where
  "read_tx_borrow size_of pin_epoch l =
     (if size_of \<noteq> 0 then if rw_valid pin_epoch l then Inr (fst l) else Inl CONFLICT else Inr [])"

section \<open>Writing\<close>

text \<open>
  What a \<open>set\<close> writes: the vtable of its log entry, the words of the value, whether the value is
  a publication (\<open>REQUEST_TCELL_LIFETIME\<close>), whether the type needs dropping, and the vtable of
  the trash made of the old value. \<open>CONFLICT\<close> gives the value back to the caller. An overwritten
  entry is dropped; the dropped entries are part of the result.
\<close>

record set_arg =
  entry_vt :: usize
  value_words :: "usize list"
  lifetime :: bool
  needs_drop :: bool
  trash_vt :: usize

type_synonym set_result = "(logs \<times> (error \<times> usize list + unit) \<times> dyn_elem list) outcome"

definition set_slow ::
  "(usize \<Rightarrow> nat) \<Rightarrow> quiesce_epoch \<Rightarrow> logs \<Rightarrow> cell \<Rightarrow> set_arg \<Rightarrow> look \<Rightarrow> set_result" where
  "set_slow vts pin_epoch lg tcell a l =
     (case wl_entry vts (log_writes lg) tcell of
        Inl s \<Rightarrow> Inl s
      | Inr (wl, Vacant) \<Rightarrow>
          if rw_valid pin_epoch l then
            Inr (lg\<lparr>log_writes := wl_record wl (entry_vt a) tcell (value_words a),
                    log_garbage := (if needs_drop a then dispose (log_garbage lg) (trash_vt a, fst l)
                                    else log_garbage lg)\<rparr>, Inr (), [])
          else Inr (lg\<lparr>log_writes := wl\<rparr>, Inl (CONFLICT, value_words a), [])
      | Inr (wl, Occupied o_idx) \<Rightarrow>
          if lifetime a then
            map_sum id (\<lambda>wl'. (lg\<lparr>log_writes := wl'\<rparr>, Inr (), []))
              (wl_tombstone_replace vts wl o_idx (entry_vt a) tcell (value_words a))
          else
            map_sum id (\<lambda>(wl', old). (lg\<lparr>log_writes := wl'\<rparr>, Inr (), [old]))
              (wl_overwrite vts wl o_idx (entry_vt a) tcell (value_words a)))"

definition set_impl ::
  "(usize \<Rightarrow> nat) \<Rightarrow> quiesce_epoch \<Rightarrow> logs \<Rightarrow> cell \<Rightarrow> set_arg \<Rightarrow> look \<Rightarrow> look \<Rightarrow> set_result" where
  "set_impl vts pin_epoch lg tcell a l1 l2 =
     (if \<not> wl_next_push_allocates (log_writes lg) (entry_vt a) (value_words a) \<and>
         (\<not> needs_drop a \<or> \<not> next_dispose_allocates (log_garbage lg) (trash_vt a, fst l1)) then
        (case wl_contained_set (log_writes lg) tcell of
           (found, wl) \<Rightarrow>
             if found = No \<and> rw_valid pin_epoch l1 then
               (case wl_record_unchecked wl (entry_vt a) tcell (value_words a) of
                  Inl s \<Rightarrow> Inl s
                | Inr wl' \<Rightarrow>
                    (case (if needs_drop a then dispose_unchecked (log_garbage lg) (trash_vt a, fst l1)
                           else Inr (log_garbage lg)) of
                       Inl s \<Rightarrow> Inl s
                     | Inr g \<Rightarrow> Inr (lg\<lparr>log_writes := wl', log_garbage := g\<rparr>, Inr (), [])))
             else set_slow vts pin_epoch (lg\<lparr>log_writes := wl\<rparr>) tcell a l2)
      else set_slow vts pin_epoch lg tcell a l2)"

text \<open>
  The assertions on sizes: the value is as large as the type of the cell; a zero sized value is
  dropped at once, and must not be a publication.
\<close>

definition rw_set ::
  "(usize \<Rightarrow> nat) \<Rightarrow> nat \<Rightarrow> quiesce_epoch \<Rightarrow> logs \<Rightarrow> cell \<Rightarrow> set_arg \<Rightarrow> look \<Rightarrow> look \<Rightarrow> set_result" where
  "rw_set vts size_of pin_epoch lg tcell a l1 l2 =
     (if length (value_words a) \<noteq> size_of then Inl Panic
      else if size_of \<noteq> 0 then set_impl vts pin_epoch lg tcell a l1 l2
      else if lifetime a then Inl Panic
      else Inr (lg, Inr (), [(entry_vt a, [])]))"

definition privatize :: "logs \<Rightarrow> dyn_elem \<Rightarrow> logs" where
  "privatize lg privatizer = lg\<lparr>log_garbage := dispose (log_garbage lg) privatizer\<rparr>"

section \<open>What the logs hold\<close>

text \<open>
  Between operations that have succeeded, the logs stand for: the cells read, the entries
  written, the old values queued, and the batches sealed by earlier transactions.
\<close>

definition tx_holds ::
  "(usize \<Rightarrow> nat) \<Rightarrow> (cell \<Rightarrow> nat) \<Rightarrow> logs \<Rightarrow> cell list \<Rightarrow> dyn_elem list \<Rightarrow> dyn_elem list \<Rightarrow>
     (quiesce_epoch \<times> dyn_elem list) list \<Rightarrow> bool" where
  "tx_holds vts csz lg rs es spec seals \<longleftrightarrow>
     rl_full (log_reads lg) rs \<and> wl_holds vts csz (log_writes lg) es \<and>
     tg_ready vts (log_garbage lg) spec seals"

abbreviation pending :: "dyn_elem list \<Rightarrow> cell \<Rightarrow> usize list option" where
  "pending es \<equiv> map_of (writes_of es)"

lemma wl_contained_No_holds:
  assumes "wl_holds vts csz wl es" and "wl_contained wl c = No"
  shows "pending es c = None"
proof -
  from assms(2) have "\<not> has_overflowed (wl_bloom wl)"
    using overflowed_contained [of "wl_bloom wl" c] by (auto simp: wl_contained_def)
  with assms have "c \<notin> set (live es)"
    by (auto simp: wl_holds_def wl_contained_def)
  then show ?thesis by (metis domIff dom_writes_of)
qed

text \<open>What a read returns, from the writes pending and the look at the cell.\<close>

definition read_result ::
  "quiesce_epoch \<Rightarrow> usize list option \<Rightarrow> look \<Rightarrow> look \<Rightarrow> error + usize list \<Rightarrow> bool" where
  "read_result p written l1 l2 r \<longleftrightarrow>
     (case r of
        Inr v \<Rightarrow>
          (case written of
             Some val \<Rightarrow> v = val \<and> rw_valid p l2
           | None \<Rightarrow> (\<exists>l\<in>{l1, l2}. rw_valid p l \<and> v = fst l))
      | Inl e \<Rightarrow> \<not> rw_valid p l2)"

lemma borrow_slow_holds:
  assumes h: "tx_holds vts csz lg rs es spec seals" and "csz c \<noteq> 0"
  shows "\<exists>lg' r rs'. borrow_slow vts (csz c) p lg c l2 = Inr (lg', r) \<and>
    tx_holds vts csz lg' rs' es spec seals \<and> read_result p (pending es c) l1 l2 r \<and>
    rs' = rs @ (if pending es c = None \<and> \<not> isl r then [c] else [])"
proof -
  from h have w: "wl_holds vts csz (log_writes lg) es" by (simp add: tx_holds_def)
  obtain wl r where f: "wl_find vts (log_writes lg) c = Inr (wl, r)" "wl_holds vts csz wl es"
      "map_option entry_pending r = pending es c"
      "\<forall>e. r = Some e \<longrightarrow> entry_read (csz c) e = (if csz c = 0 then Inl Panic else Inr (entry_pending e))"
    using wl_find_holds [OF w, of c] by blast
  show ?thesis
  proof (cases r)
    case None
    with f h show ?thesis
      by (cases "rw_valid p l2")
        (auto simp: borrow_slow_def tx_holds_def read_result_def rl_full_record)
  next
    case (Some e)
    with f h assms(2) show ?thesis
      by (cases "rw_valid p l2")
        (auto simp: borrow_slow_def tx_holds_def read_result_def)
  qed
qed

lemma borrow_impl_holds:
  assumes h: "tx_holds vts csz lg rs es spec seals" and "csz c \<noteq> 0"
  shows "\<exists>lg' r rs'. borrow_impl vts (csz c) p lg c l1 l2 = Inr (lg', r) \<and>
    tx_holds vts csz lg' rs' es spec seals \<and> read_result p (pending es c) l1 l2 r \<and>
    rs' = rs @ (if pending es c = None \<and> \<not> isl r then [c] else [])"
proof (cases "\<not> rl_next_push_allocates (log_reads lg) \<and> wl_contained (log_writes lg) c = No \<and>
         rw_valid p l1")
  case True
  from h have r: "rl_full (log_reads lg) rs" and w: "wl_holds vts csz (log_writes lg) es"
    by (simp_all add: tx_holds_def)
  from True w have "pending es c = None"
    by (blast intro: wl_contained_No_holds)
  with True h r show ?thesis
    by (auto simp: borrow_impl_def rl_record_unchecked_eq tx_holds_def read_result_def rl_full_record)
next
  case False
  with borrow_slow_holds [OF assms, of p l2 l1] show ?thesis
    by (simp only: borrow_impl_def if_False)
qed

lemma borrow_unlogged_holds:
  assumes h: "tx_holds vts csz lg rs es spec seals" and "csz c \<noteq> 0"
  shows "\<exists>lg' r. borrow_unlogged_impl vts (csz c) p lg c l1 l2 = Inr (lg', r) \<and>
    tx_holds vts csz lg' rs es spec seals \<and> read_result p (pending es c) l1 l2 r"
proof -
  from h have w: "wl_holds vts csz (log_writes lg) es" by (simp add: tx_holds_def)
  obtain wl r where f: "find_skip_filter vts (log_writes lg) c = Inr (wl, r)" "wl_holds vts csz wl es"
      "map_option entry_pending r = pending es c"
      "\<forall>e. r = Some e \<longrightarrow> entry_read (csz c) e = (if csz c = 0 then Inl Panic else Inr (entry_pending e))"
    using find_skip_filter_holds [OF w, of c] by blast
  show ?thesis
  proof (cases "wl_contained (log_writes lg) c = No \<and> rw_valid p l1")
    case True
    with wl_contained_No_holds [OF w] h show ?thesis
      by (auto simp: borrow_unlogged_impl_def read_result_def)
  next
    case False
    show ?thesis
    proof (cases r)
      case None
      with f h False show ?thesis
        by (auto simp: borrow_unlogged_impl_def borrow_unlogged_slow_def tx_holds_def read_result_def)
    next
      case (Some e)
      with f(1,2,4) f(3) [symmetric] h False assms(2) show ?thesis
        by (auto simp: borrow_unlogged_impl_def borrow_unlogged_slow_def tx_holds_def read_result_def)
    qed
  qed
qed

section \<open>What a write does\<close>

text \<open>
  The argument of a write fits the cell: the log entry's vtable counts the address and the words
  of the value, and the trash's vtable the words of an old value.
\<close>

definition set_arg_ok :: "(usize \<Rightarrow> nat) \<Rightarrow> (cell \<Rightarrow> nat) \<Rightarrow> cell \<Rightarrow> set_arg \<Rightarrow> bool" where
  "set_arg_ok vts csz c a \<longleftrightarrow> c \<noteq> 0 \<and> csz c \<noteq> 0 \<and> length (value_words a) = csz c \<and>
     vts (entry_vt a) = Suc (csz c) \<and> (needs_drop a \<longrightarrow> vts (trash_vt a) = csz c)"

definition trash_of :: "set_arg \<Rightarrow> look \<Rightarrow> dyn_elem list" where
  "trash_of a l = (if needs_drop a then [(trash_vt a, fst l)] else [])"

text \<open>Every value written, with its vtable, is in the log or has been dropped, once.\<close>

definition typed_pending :: "dyn_elem \<Rightarrow> usize \<times> usize list" where
  "typed_pending e = (fst e, entry_pending e)"

definition values_of :: "dyn_elem list \<Rightarrow> (usize \<times> usize list) multiset" where
  "values_of es = mset (map typed_pending es)"

text \<open>
  A successful write: the cell's pending value is replaced and the cells pending stay distinct; the
  first write of a cell needs a valid look and queues the value it saw. An unsuccessful one gives
  the value back and leaves the words of the log, the reads and the garbage alone.
\<close>

definition set_ok ::
  "quiesce_epoch \<Rightarrow> cell \<Rightarrow> set_arg \<Rightarrow> look \<Rightarrow> look \<Rightarrow> dyn_elem list \<Rightarrow> dyn_elem list \<Rightarrow>
     dyn_elem list \<Rightarrow> dyn_elem list \<Rightarrow> dyn_elem list \<Rightarrow> bool" where
  "set_ok p c a l1 l2 es spec d es' spec' \<longleftrightarrow>
     pending es' = (pending es)(c \<mapsto> value_words a) \<and>
     values_of es' + values_of d = values_of es + {#(entry_vt a, value_words a)#} \<and>
     (if pending es c = None
      then d = [] \<and> (\<exists>l\<in>{l1, l2}. rw_valid p l \<and> spec' = spec @ trash_of a l)
      else spec' = spec \<and> (d = [] \<longleftrightarrow> lifetime a))"

definition set_failed :: "quiesce_epoch \<Rightarrow> cell \<Rightarrow> set_arg \<Rightarrow> look \<Rightarrow> dyn_elem list \<Rightarrow> logs \<Rightarrow> logs \<Rightarrow> bool" where
  "set_failed p c a l2 es lg lg' \<longleftrightarrow>
     \<not> rw_valid p l2 \<and> pending es c = None \<and> log_reads lg' = log_reads lg \<and>
     log_garbage lg' = log_garbage lg \<and> wl_data (log_writes lg') = wl_data (log_writes lg) \<and>
     (\<not> has_overflowed (wl_bloom (log_writes lg')) \<longrightarrow> overflow_map (wl_bloom (log_writes lg')) = Map.empty)"

lemma pending_record:
  assumes "c \<notin> set (live es)" and "set_arg_ok vts csz c a"
  shows "pending (es @ [write_entry_new (entry_vt a) c (value_words a)]) = (pending es)(c \<mapsto> value_words a)"
    and "values_of (es @ [write_entry_new (entry_vt a) c (value_words a)]) = values_of es + {#(entry_vt a, value_words a)#}"
proof -
  from assms have f: "entry_write (write_entry_new (entry_vt a) c (value_words a)) = Some (c, value_words a)"
    "entry_pending (write_entry_new (entry_vt a) c (value_words a)) = value_words a"
    using entry_new_facts [of c vts "entry_vt a" "value_words a"] by (simp_all add: set_arg_ok_def)
  then show "values_of (es @ [write_entry_new (entry_vt a) c (value_words a)]) = values_of es + {#(entry_vt a, value_words a)#}"
    by (simp add: values_of_def typed_pending_def) (simp add: write_entry_new_def)
  from assms(1) have "c \<notin> dom (pending es)" by (simp add: dom_writes_of)
  with f show "pending (es @ [write_entry_new (entry_vt a) c (value_words a)]) = (pending es)(c \<mapsto> value_words a)"
    by (auto simp: fun_eq_iff map_add_def split: option.splits)
qed

lemma garbage_dispose_ready:
  assumes "tg_ready vts g spec seals" and "set_arg_ok vts csz c a" and "length (fst l) = csz c"
  shows "tg_ready vts (if needs_drop a then dispose g (trash_vt a, fst l) else g) (spec @ trash_of a l) seals"
    and "\<not> needs_drop a \<or> \<not> next_dispose_allocates g (trash_vt a, fst l) \<Longrightarrow>
      (if needs_drop a then dispose_unchecked g (trash_vt a, fst l) else Inr g) =
      Inr (if needs_drop a then dispose g (trash_vt a, fst l) else g)"
  using dispose_ready [OF assms(1), of "(trash_vt a, fst l)"] assms
  by (auto simp: trash_of_def set_arg_ok_def elem_ok_def)

lemma values_of_update:
  assumes "k < length es"
  shows "values_of (es[k := e]) + {#typed_pending (es ! k)#} = values_of es + {#typed_pending e#}"
proof -
  have "typed_pending (es ! k) \<in># values_of es"
    using assms by (auto simp: values_of_def)
  then show ?thesis
    using assms by (simp add: values_of_def map_update mset_update)
qed

lemma set_slow_holds:
  assumes h: "tx_holds vts csz lg rs es spec seals" and a: "set_arg_ok vts csz c a"
    and l: "length (fst l2) = csz c"
  shows "\<exists>lg' r d. set_slow vts p lg c a l2 = Inr (lg', r, d) \<and>
    (case r of
       Inr u \<Rightarrow> \<exists>es' spec'. tx_holds vts csz lg' rs es' spec' seals \<and> set_ok p c a l1 l2 es spec d es' spec'
     | Inl ev \<Rightarrow> ev = (CONFLICT, value_words a) \<and> d = [] \<and> set_failed p c a l2 es lg lg')"
proof -
  from h have w: "wl_holds vts csz (log_writes lg) es" and g: "tg_ready vts (log_garbage lg) spec seals"
    and r: "rl_full (log_reads lg) rs"
    by (simp_all add: tx_holds_def)
  from w have dist: "distinct (live es)" by (simp add: wl_holds_def)
  from a have sz: "c \<noteq> 0" "vts (entry_vt a) = Suc (length (value_words a))" "length (value_words a) = csz c"
    by (simp_all add: set_arg_ok_def)
  note e = entry_new_facts [of c vts "entry_vt a" "value_words a", OF sz(1,2)]
  obtain wl where wl: "wl_data wl = wl_data (log_writes lg)" "has_overflowed (wl_bloom wl)"
      "wl_holds vts csz wl es"
    and run: "wl_entry vts (log_writes lg) c = Inr (case map_of (entry_offsets 0 es) c of
        Some i \<Rightarrow> (wl, Occupied i)
      | None \<Rightarrow> (wl\<lparr>wl_bloom := overflow_insert (wl_bloom wl) c (wl_word_len (log_writes lg))\<rparr>, Vacant))"
    using wl_entry_holds [OF w, of c] by blast
  have len: "wl_word_len (log_writes lg) = wl_word_len wl"
    by (simp add: wl_word_len_def wl(1))
  show ?thesis
  proof (cases "map_of (entry_offsets 0 es) c")
    case None
    then have p: "pending es c = None" and nl: "c \<notin> set (live es)"
      using offsets_None_iff [of 0 es c] dom_entry_offsets [of 0 es] by auto
    show ?thesis
    proof (cases "rw_valid p l2")
      case True
      let ?es = "es @ [write_entry_new (entry_vt a) c (value_words a)]"
      let ?wl = "wl_record (wl\<lparr>wl_bloom := overflow_insert (wl_bloom wl) c (wl_word_len wl)\<rparr>)
        (entry_vt a) c (value_words a)"
      let ?g = "if needs_drop a then dispose (log_garbage lg) (trash_vt a, fst l2) else log_garbage lg"
      have "set_slow vts p lg c a l2 = Inr (lg\<lparr>log_writes := ?wl, log_garbage := ?g\<rparr>, Inr (), [])"
        using None run True by (simp add: set_slow_def len)
      moreover have "tx_holds vts csz (lg\<lparr>log_writes := ?wl, log_garbage := ?g\<rparr>) rs ?es
          (spec @ trash_of a l2) seals"
        using r wl_holds_record_vacant [OF wl(3,2) nl sz] garbage_dispose_ready(1) [OF g a l]
        by (simp add: tx_holds_def)
      moreover have "set_ok p c a l1 l2 es spec [] ?es (spec @ trash_of a l2)"
        using pending_record [OF nl a] p True by (auto simp only: set_ok_def) (simp_all add: values_of_def)
      ultimately show ?thesis by fastforce
    next
      case False
      with None run wl p show ?thesis
        by (simp add: set_slow_def set_failed_def overflow_insert_def has_overflowed_def)
    qed
  next
    case (Some i)
    then have p: "pending es c \<noteq> None"
      using offsets_None_iff [of 0 es c] by auto
    show ?thesis
    proof (cases "lifetime a")
      case False
      from wl_overwrite_holds [OF wl(3) Some sz] obtain wl' k
        where k: "k < length es" "entry_tcell (es ! k) = Some c"
          and w': "wl_overwrite vts wl i (entry_vt a) c (value_words a) = Inr (wl', es ! k)"
            "wl_holds vts csz wl' (es[k := write_entry_new (entry_vt a) c (value_words a)])" by blast
      have "set_ok p c a l1 l2 es spec [es ! k] (es[k := write_entry_new (entry_vt a) c (value_words a)]) spec"
        using writes_of_update [OF k e(3) dist] values_of_update [OF k(1)] p False e(2)
        by (auto simp: set_ok_def values_of_def typed_pending_def write_entry_new_def)
      with w' Some run False r g show ?thesis
        by (auto simp: set_slow_def tx_holds_def)
    next
      case True
      from wl_tombstone_replace_holds [OF wl(3,2) Some sz] obtain wl' k
        where k: "k < length es" "entry_tcell (es ! k) = Some c"
          and w': "wl_tombstone_replace vts wl i (entry_vt a) c (value_words a) = Inr wl'"
            "wl_holds vts csz wl' (es[k := tombstone (es ! k)] @ [write_entry_new (entry_vt a) c (value_words a)])"
        by blast
      from k w have ne: "snd (es ! k) \<noteq> []"
        by (auto simp: wl_holds_def entry_ok_def list_all_length)
      have nl: "c \<notin> set (live (es[k := tombstone (es ! k)]))"
        by (simp add: tombstone_facts(2) [OF k ne dist])
      have "pending (es[k := tombstone (es ! k)] @ [write_entry_new (entry_vt a) c (value_words a)])
          = (pending es)(c \<mapsto> value_words a)"
        using pending_record(1) [OF nl a] tombstone_facts(3) [OF k ne dist] by simp
      moreover have "values_of (es[k := tombstone (es ! k)]) = values_of es"
        using values_of_update [OF k(1), of "tombstone (es ! k)"] by (simp add: typed_pending_def) (simp add: tombstone_def)
      ultimately have "set_ok p c a l1 l2 es spec []
          (es[k := tombstone (es ! k)] @ [write_entry_new (entry_vt a) c (value_words a)]) spec"
        using pending_record(2) [OF nl a] p True by (auto simp: set_ok_def values_of_def)
      with w' Some run True r g show ?thesis
        by (auto simp: set_slow_def tx_holds_def)
    qed
  qed
qed

lemma wl_contained_set_holds:
  assumes "wl_holds vts csz wl es" and "wl_contained_set wl c = (r, wl')"
  shows "wl_holds vts csz wl' es" and "wl_data wl' = wl_data wl"
proof -
  from assms(2) obtain b where b: "insert_inline (wl_bloom wl) c = (r, b)" "wl' = wl\<lparr>wl_bloom := b\<rparr>"
    by (auto simp: wl_contained_set_def split: prod.splits)
  then show "wl_data wl' = wl_data wl" by simp
  show "wl_holds vts csz wl' es"
  proof (cases r)
    case No
    with b insert_inline_No [of "wl_bloom wl" c b] assms(1) show ?thesis
      by (auto simp: wl_holds_def)
  next
    case Maybe
    with b insert_inline_Maybe [of "wl_bloom wl" c b] assms(1) show ?thesis by simp
  qed
qed

lemma wl_record_unchecked_eq:
  "\<not> wl_next_push_allocates wl vt val \<Longrightarrow> wl_data wl' = wl_data wl \<Longrightarrow>
     wl_record_unchecked wl' vt c val = Inr (wl_record wl' vt c val)"
  by (simp add: wl_record_unchecked_def wl_record_def wl_next_push_allocates_def
      dyn_next_push_allocates_def dyn_push_unchecked_def dyn_push_def write_entry_new_def
      as_slice_def extend_unchecked_eq)

lemma set_impl_holds:
  assumes h: "tx_holds vts csz lg rs es spec seals" and a: "set_arg_ok vts csz c a"
    and l: "length (fst l1) = csz c" "length (fst l2) = csz c"
  shows "\<exists>lg' r d. set_impl vts p lg c a l1 l2 = Inr (lg', r, d) \<and>
    (case r of
       Inr u \<Rightarrow> \<exists>es' spec'. tx_holds vts csz lg' rs es' spec' seals \<and> set_ok p c a l1 l2 es spec d es' spec'
     | Inl ev \<Rightarrow> ev = (CONFLICT, value_words a) \<and> d = [] \<and> set_failed p c a l2 es lg lg')"
proof (cases "\<not> wl_next_push_allocates (log_writes lg) (entry_vt a) (value_words a) \<and>
         (\<not> needs_drop a \<or> \<not> next_dispose_allocates (log_garbage lg) (trash_vt a, fst l1))")
  case False
  then have "set_impl vts p lg c a l1 l2 = set_slow vts p lg c a l2"
    by (simp only: set_impl_def if_False)
  with set_slow_holds [OF h a l(2), of p l1] show ?thesis by simp
next
  case fast: True
  from h have w: "wl_holds vts csz (log_writes lg) es" and g: "tg_ready vts (log_garbage lg) spec seals"
    and r: "rl_full (log_reads lg) rs"
    by (simp_all add: tx_holds_def)
  obtain found wl where set: "wl_contained_set (log_writes lg) c = (found, wl)"
    by (cases "wl_contained_set (log_writes lg) c")
  note wl = wl_contained_set_holds [OF w set]
  show ?thesis
  proof (cases "found = No \<and> rw_valid p l1")
    case False
    have "tx_holds vts csz (lg\<lparr>log_writes := wl\<rparr>) rs es spec seals"
      using h wl by (simp add: tx_holds_def)
    from set_slow_holds [OF this a l(2), of p l1] obtain lg' res d
      where s: "set_slow vts p (lg\<lparr>log_writes := wl\<rparr>) c a l2 = Inr (lg', res, d)"
        and post: "case res of
       Inr u \<Rightarrow> \<exists>es' spec'. tx_holds vts csz lg' rs es' spec' seals \<and> set_ok p c a l1 l2 es spec d es' spec'
     | Inl ev \<Rightarrow> ev = (CONFLICT, value_words a) \<and> d = [] \<and>
         set_failed p c a l2 es (lg\<lparr>log_writes := wl\<rparr>) lg'"
      by blast
    have "set_impl vts p lg c a l1 l2 = Inr (lg', res, d)"
      using fast set False s by (auto simp: set_impl_def)
    with post wl(2) show ?thesis
      by (cases res) (simp_all add: set_failed_def)
  next
    case True
    with set have set: "wl_contained_set (log_writes lg) c = (No, wl)" by simp
    from a have sz: "c \<noteq> 0" "vts (entry_vt a) = Suc (length (value_words a))" "length (value_words a) = csz c"
      by (simp_all add: set_arg_ok_def)
    note rec = wl_holds_record_inline [OF w set sz]
    let ?es = "es @ [write_entry_new (entry_vt a) c (value_words a)]"
    let ?g = "if needs_drop a then dispose (log_garbage lg) (trash_vt a, fst l1) else log_garbage lg"
    let ?lg = "lg\<lparr>log_writes := wl_record wl (entry_vt a) c (value_words a), log_garbage := ?g\<rparr>"
    have "wl_record_unchecked wl (entry_vt a) c (value_words a) = Inr (wl_record wl (entry_vt a) c (value_words a))"
      using fast by (simp add: wl_record_unchecked_eq [OF _ wl(2)])
    then have "set_impl vts p lg c a l1 l2 = Inr (?lg, Inr (), [])"
      using fast set True garbage_dispose_ready(2) [OF g a l(1)] by (simp add: set_impl_def)
    moreover have "tx_holds vts csz ?lg rs ?es (spec @ trash_of a l1) seals"
      using r rec(1) garbage_dispose_ready(1) [OF g a l(1)] by (simp add: tx_holds_def)
    moreover have "pending es c = None"
      using rec(2) by (metis domIff dom_writes_of)
    then have "set_ok p c a l1 l2 es spec [] ?es (spec @ trash_of a l1)"
      using pending_record [OF rec(2) a] True by (auto simp only: set_ok_def) (simp_all add: values_of_def)
    ultimately show ?thesis by fastforce
  qed
qed

section \<open>A transaction as a sequence of operations\<close>

text \<open>
  The user's function calls operations until one fails (the error is usually passed up with
  \<open>?\<close>) or it returns.
\<close>

datatype tx_op =
    Borrow ordering cell look look
  | Set cell set_arg look look

datatype tx_result = Value "usize list" | Unit | Conflict "usize list option"

fun tx_op_apply ::
  "(usize \<Rightarrow> nat) \<Rightarrow> (cell \<Rightarrow> nat) \<Rightarrow> quiesce_epoch \<Rightarrow> tx_op \<Rightarrow> logs \<Rightarrow>
     (logs \<times> tx_result \<times> dyn_elem list) outcome" where
  "tx_op_apply vts csz p (Borrow mo c l1 l2) lg =
     map_sum id (\<lambda>(lg', r). (lg', case r of Inr v \<Rightarrow> Value v | Inl e \<Rightarrow> Conflict None, []))
       (rw_borrow vts (csz c) p mo lg c l1 l2)"
| "tx_op_apply vts csz p (Set c a l1 l2) lg =
     map_sum id (\<lambda>(lg', r, d). (lg', case r of Inr u \<Rightarrow> Unit | Inl (e, v) \<Rightarrow> Conflict (Some v), d))
       (rw_set vts (csz c) p lg c a l1 l2)"

fun is_conflict :: "tx_result \<Rightarrow> bool" where
  "is_conflict (Conflict v) = True"
| "is_conflict _ = False"

fun tx_ops_apply ::
  "(usize \<Rightarrow> nat) \<Rightarrow> (cell \<Rightarrow> nat) \<Rightarrow> quiesce_epoch \<Rightarrow> tx_op list \<Rightarrow> logs \<Rightarrow>
     (logs \<times> tx_result list \<times> dyn_elem list) outcome" where
  "tx_ops_apply vts csz p [] lg = Inr (lg, [], [])"
| "tx_ops_apply vts csz p (op # ops) lg =
     (case tx_op_apply vts csz p op lg of
        Inl s \<Rightarrow> Inl s
      | Inr (lg', r, d) \<Rightarrow>
          if is_conflict r then Inr (lg', [r], d)
          else map_sum id (\<lambda>(lg'', rs, d'). (lg'', r # rs, d @ d')) (tx_ops_apply vts csz p ops lg'))"

text \<open>The specification: a transaction has the cells it has read, a map of writes, and trash.\<close>

type_synonym tx_abs = "cell list \<times> (cell \<rightharpoonup> usize list) \<times> dyn_elem list"

fun tx_op_spec :: "quiesce_epoch \<Rightarrow> tx_op \<Rightarrow> tx_abs \<Rightarrow> tx_result \<Rightarrow> tx_abs \<Rightarrow> bool" where
  "tx_op_spec p (Borrow mo c l1 l2) (rs, m, trash) (Value v) s' =
     (read_result p (m c) l1 l2 (Inr v) \<and>
      s' = (rs @ (if mo = ReadWrite \<and> m c = None then [c] else []), m, trash))"
| "tx_op_spec p (Borrow mo c l1 l2) s (Conflict None) s' = (\<not> rw_valid p l2 \<and> s' = s)"
| "tx_op_spec p (Set c a l1 l2) (rs, m, trash) Unit s' =
     (if m c = None
      then \<exists>l\<in>{l1, l2}. rw_valid p l \<and> s' = (rs, m(c \<mapsto> value_words a), trash @ trash_of a l)
      else s' = (rs, m(c \<mapsto> value_words a), trash))"
| "tx_op_spec p (Set c a l1 l2) s (Conflict (Some v)) s' =
     (v = value_words a \<and> fst (snd s) c = None \<and> \<not> rw_valid p l2 \<and> s' = s)"
| "tx_op_spec p _ _ _ _ = False"

inductive tx_ops_spec :: "quiesce_epoch \<Rightarrow> tx_op list \<Rightarrow> tx_abs \<Rightarrow> tx_result list \<Rightarrow> tx_abs \<Rightarrow> bool" for p where
  returned: "tx_ops_spec p [] s [] s"
| failed: "tx_op_spec p op s r s' \<Longrightarrow> is_conflict r \<Longrightarrow> tx_ops_spec p (op # ops) s [r] s'"
| next_op: "tx_op_spec p op s r s' \<Longrightarrow> \<not> is_conflict r \<Longrightarrow> tx_ops_spec p ops s' rs s'' \<Longrightarrow>
    tx_ops_spec p (op # ops) s (r # rs) s''"

fun tx_op_ok :: "(usize \<Rightarrow> nat) \<Rightarrow> (cell \<Rightarrow> nat) \<Rightarrow> tx_op \<Rightarrow> bool" where
  "tx_op_ok vts csz (Borrow mo c l1 l2) \<longleftrightarrow> csz c \<noteq> 0"
| "tx_op_ok vts csz (Set c a l1 l2) \<longleftrightarrow>
     set_arg_ok vts csz c a \<and> length (fst l1) = csz c \<and> length (fst l2) = csz c"

fun op_value :: "tx_op \<Rightarrow> tx_result \<Rightarrow> (usize \<times> usize list) multiset" where
  "op_value (Set c a l1 l2) Unit = {#(entry_vt a, value_words a)#}"
| "op_value _ _ = {#}"

lemma tx_op_refines:
  assumes h: "tx_holds vts csz lg rs es spec seals" and ok: "tx_op_ok vts csz op"
  shows "\<exists>lg' r d rs' m' spec'. tx_op_apply vts csz p op lg = Inr (lg', r, d) \<and>
    tx_op_spec p op (rs, pending es, spec) r (rs', m', spec') \<and>
    (\<not> is_conflict r \<longrightarrow> (\<exists>es'. tx_holds vts csz lg' rs' es' spec' seals \<and> pending es' = m' \<and>
       values_of es' + values_of d = values_of es + op_value op r))"
proof (cases op)
  case (Borrow mo c l1 l2)
  with ok have c: "csz c \<noteq> 0" by simp
  show ?thesis
  proof (cases "mo = ReadWrite")
    case True
    obtain lg' r rs' where run: "borrow_impl vts (csz c) p lg c l1 l2 = Inr (lg', r)"
      and h': "tx_holds vts csz lg' rs' es spec seals"
      and r: "read_result p (pending es c) l1 l2 r"
      and rs': "rs' = rs @ (if pending es c = None \<and> \<not> isl r then [c] else [])"
      using borrow_impl_holds [where p = p and ?l1.0 = l1 and ?l2.0 = l2, OF h c] by blast
    show ?thesis
      using Borrow True c run h' r rs'
      by (cases r) (auto simp: rw_borrow_def values_of_def read_result_def)
  next
    case False
    obtain lg' r where run: "borrow_unlogged_impl vts (csz c) p lg c l1 l2 = Inr (lg', r)"
      and h': "tx_holds vts csz lg' rs es spec seals"
      and r: "read_result p (pending es c) l1 l2 r"
      using borrow_unlogged_holds [where p = p and ?l1.0 = l1 and ?l2.0 = l2, OF h c] by blast
    show ?thesis
      using Borrow False c run h' r
      by (cases r; cases mo) (auto simp: rw_borrow_def values_of_def read_result_def)
  qed
next
  case (Set c a l1 l2)
  with ok have a: "set_arg_ok vts csz c a" and l: "length (fst l1) = csz c" "length (fst l2) = csz c"
    by simp_all
  obtain lg' r d where run: "set_impl vts p lg c a l1 l2 = Inr (lg', r, d)"
    and post: "case r of
       Inr u \<Rightarrow> \<exists>es' spec'. tx_holds vts csz lg' rs es' spec' seals \<and> set_ok p c a l1 l2 es spec d es' spec'
     | Inl ev \<Rightarrow> ev = (CONFLICT, value_words a) \<and> d = [] \<and> set_failed p c a l2 es lg lg'"
    using set_impl_holds [OF h a l, of p] by blast
  from a run have run': "rw_set vts (csz c) p lg c a l1 l2 = Inr (lg', r, d)"
    by (auto simp: rw_set_def set_arg_ok_def)
  show ?thesis
  proof (cases r)
    case (Inl ev)
    with Set run' post show ?thesis by (auto simp: set_failed_def)
  next
    case (Inr u)
    with post obtain es' spec' where h': "tx_holds vts csz lg' rs es' spec' seals"
      and s: "set_ok p c a l1 l2 es spec d es' spec'" by auto
    from s have "tx_op_spec p op (rs, pending es, spec) Unit (rs, pending es', spec')"
      by (auto simp: Set set_ok_def)
    with h' s Inr Set run' show ?thesis
      by (intro exI [of _ lg'] exI [of _ Unit] exI [of _ d] exI [of _ rs] exI [of _ "pending es'"]
          exI [of _ spec']) (auto simp: set_ok_def)
  qed
qed

lemma tx_ops_refine:
  assumes "tx_holds vts csz lg rs es spec seals" and "list_all (tx_op_ok vts csz) ops"
  shows "\<exists>lg' res d rs' m' spec'. tx_ops_apply vts csz p ops lg = Inr (lg', res, d) \<and>
    tx_ops_spec p ops (rs, pending es, spec) res (rs', m', spec') \<and>
    (list_all (\<lambda>r. \<not> is_conflict r) res \<longrightarrow>
      (\<exists>es'. tx_holds vts csz lg' rs' es' spec' seals \<and> pending es' = m' \<and>
       values_of es' + values_of d = values_of es + sum_list (map2 op_value ops res)))"
  using assms
proof (induction ops arbitrary: lg rs es spec)
  case Nil
  then show ?case by (auto intro: tx_ops_spec.returned simp: values_of_def)
next
  case (Cons op ops)
  from Cons.prems have ok: "tx_op_ok vts csz op" "list_all (tx_op_ok vts csz) ops" by simp_all
  from tx_op_refines [OF Cons.prems(1) ok(1), of p] obtain lg1 r d1 rs1 m1 spec1
    where run: "tx_op_apply vts csz p op lg = Inr (lg1, r, d1)"
      and step: "tx_op_spec p op (rs, pending es, spec) r (rs1, m1, spec1)"
      and post: "\<not> is_conflict r \<longrightarrow> (\<exists>es'. tx_holds vts csz lg1 rs1 es' spec1 seals \<and> pending es' = m1 \<and>
       values_of es' + values_of d1 = values_of es + op_value op r)" by blast
  show ?case
  proof (cases "is_conflict r")
    case True
    with run step show ?thesis
      by (intro exI [of _ lg1] exI [of _ "[r]"] exI [of _ d1]) (auto intro: tx_ops_spec.failed)
  next
    case False
    with post obtain es1 where h1: "tx_holds vts csz lg1 rs1 es1 spec1 seals" and m1: "pending es1 = m1"
      and v1: "values_of es1 + values_of d1 = values_of es + op_value op r" by auto
    from Cons.IH [OF h1 ok(2)] obtain lg2 res d2 rs2 m2 spec2
      where run2: "tx_ops_apply vts csz p ops lg1 = Inr (lg2, res, d2)"
        and steps: "tx_ops_spec p ops (rs1, pending es1, spec1) res (rs2, m2, spec2)"
        and post2: "list_all (\<lambda>r. \<not> is_conflict r) res \<longrightarrow>
      (\<exists>es'. tx_holds vts csz lg2 rs2 es' spec2 seals \<and> pending es' = m2 \<and>
       values_of es' + values_of d2 = values_of es1 + sum_list (map2 op_value ops res))" by blast
    have all: "tx_ops_spec p (op # ops) (rs, pending es, spec) (r # res) (rs2, m2, spec2)"
      using step False steps by (auto simp: m1 intro: tx_ops_spec.next_op)
    have d: "values_of (d1 @ d2) = values_of d1 + values_of d2" by (simp add: values_of_def)
    have "\<exists>es'. tx_holds vts csz lg2 rs2 es' spec2 seals \<and> pending es' = m2 \<and>
       values_of es' + values_of (d1 @ d2) = values_of es + sum_list (map2 op_value (op # ops) (r # res))"
      if good: "list_all (\<lambda>r. \<not> is_conflict r) (r # res)"
    proof -
      from good post2 obtain es2 where h2: "tx_holds vts csz lg2 rs2 es2 spec2 seals" "pending es2 = m2"
        and v2: "values_of es2 + values_of d2 = values_of es1 + sum_list (map2 op_value ops res)" by auto
      have "values_of es2 + values_of (d1 @ d2) = (values_of es2 + values_of d2) + values_of d1"
        unfolding d by (simp add: ac_simps)
      also have "\<dots> = (values_of es1 + values_of d1) + sum_list (map2 op_value ops res)"
        unfolding v2 by (simp add: ac_simps)
      also have "\<dots> = values_of es + sum_list (map2 op_value (op # ops) (r # res))"
        by (simp only: v1) (simp add: add.assoc)
      finally show ?thesis using h2 by blast
    qed
    moreover have "tx_ops_apply vts csz p (op # ops) lg = Inr (lg2, r # res, d1 @ d2)"
      using run run2 False by simp
    ultimately show ?thesis using all by blast
  qed
qed

section \<open>Properties\<close>

text \<open>
  Property C8: a transaction refines a map. Running any sequence of reads and writes on
  the logs (with every look at a shared cell arbitrary, on fast and slow paths, before and after the
  bloom filter has overflowed) never panics and never violates an unchecked precondition; reads see
  the transaction's own pending write of the cell or else a look that was valid at the pinned
  time; the pending writes are those of the specification, the read log has exactly the cells read
  with \<open>ReadWrite\<close> before being written, the trash is the old value of each cell at its first
  write, and every value written is pending or has been dropped, exactly once.
\<close>

theorem transaction_refines_map:
  assumes "tx_holds vts csz lg [] [] [] seals" and "list_all (tx_op_ok vts csz) ops"
  shows "\<exists>lg' res d rs' m' spec'. tx_ops_apply vts csz p ops lg = Inr (lg', res, d) \<and>
    tx_ops_spec p ops ([], Map.empty, []) res (rs', m', spec') \<and>
    (list_all (\<lambda>r. \<not> is_conflict r) res \<longrightarrow>
      (\<exists>es'. rl_full (log_reads lg') rs' \<and> wl_holds vts csz (log_writes lg') es' \<and>
       tg_ready vts (log_garbage lg') spec' seals \<and> map_of (writes_of es') = m' \<and>
       values_of es' + values_of d = sum_list (map2 op_value ops res)))"
  using tx_ops_refine [OF assms, of p] by (simp add: tx_holds_def values_of_def)

definition new_logs :: "logs outcome" where
  "new_logs =
     map_sum id (\<lambda>g. \<lparr>log_reads = read_log_new, log_writes = write_log_new, log_garbage = g\<rparr>)
       thread_garbage_new"

lemma new_logs_holds:
  obtains lg where "new_logs = Inr lg" and "tx_holds vts csz lg [] [] [] []"
proof -
  obtain g where g: "thread_garbage_new = Inr g" "tg_ready vts g [] []"
    using thread_garbage_new_ready .
  show thesis
    by (rule that [of "\<lparr>log_reads = read_log_new, log_writes = write_log_new, log_garbage = g\<rparr>"])
      (simp_all add: new_logs_def tx_holds_def rl_full_new wl_holds_new g)
qed

lemma transaction_refines_map_witness:
  "\<exists>lg lg' res d. new_logs = Inr lg \<and>
    tx_ops_apply (\<lambda>_. 2) (\<lambda>_. 1) (QuiesceEpoch 5)
      [Borrow ReadWrite 8 ([1], 3) ([1], 3),
       Set 8 \<lparr>entry_vt = 1, value_words = [2], lifetime = False, needs_drop = False, trash_vt = 0\<rparr>
         ([1], 3) ([1], 3)] lg = Inr (lg', res, d)"
proof -
  obtain lg where lg: "new_logs = Inr lg" "tx_holds (\<lambda>_. 2) (\<lambda>_. 1) lg [] [] [] []"
    using new_logs_holds .
  let ?ops = "[Borrow ReadWrite 8 ([1], 3) ([1], 3),
    Set 8 \<lparr>entry_vt = 1, value_words = [2], lifetime = False, needs_drop = False, trash_vt = 0\<rparr>
      ([1], 3) ([1], 3)]"
  have "list_all (tx_op_ok (\<lambda>_. 2) (\<lambda>_. 1)) ?ops"
    by (simp add: set_arg_ok_def)
  from transaction_refines_map [OF lg(2) this, of "QuiesceEpoch 5"] lg(1) show ?thesis by blast
qed

text \<open>
  Property C25: a failed \<open>set\<close> that the user does not pass up corrupts the log. For any two cells
  \<open>c\<close>, \<open>d\<close> and a pinned time at which \<open>c\<close> is not valid and \<open>d\<close> is: \<open>set c\<close> reports a conflict but
  leaves \<open>c\<close> in the overflow map; \<open>set d\<close> is recorded at the index kept for \<open>c\<close>; and a second
  \<open>set c\<close>, although the cell is still not valid, succeeds, drops the value written to \<open>d\<close>
  and leaves a log in which \<open>d\<close> is not written at all. The documentation of \<open>SetError\<close> states
  that further operations on \<open>c\<close> continue to return errors.
\<close>

theorem failed_set_loses_other_write:
  assumes "c \<noteq> d" and "c \<noteq> 0" and "d \<noteq> 0" and "\<not> rw_valid p lc" and "rw_valid p ld"
    and "new_logs = Inr lg" and "vts vt = 2"
  defines "arg \<equiv> \<lambda>x. \<lparr>entry_vt = vt, value_words = [x], lifetime = False, needs_drop = False, trash_vt = 0\<rparr>"
  shows "\<exists>lg'. tx_op_apply vts (\<lambda>_. 1) p (Set c (arg x) lc lc) lg = Inr (lg', Conflict (Some [x]), []) \<and>
    (\<exists>lg''. tx_ops_apply vts (\<lambda>_. 1) p [Set d (arg y) ld ld, Set c (arg z) lc lc] lg' =
        Inr (lg'', [Unit, Unit], [write_entry_new vt d [y]]) \<and>
      wl_entries vts (log_writes lg'') = Inr [write_entry_new vt c [z]])"
proof -
  obtain g where g: "thread_garbage_new = Inr g"
    using thread_garbage_new_holds by blast
  from assms(6) have lg: "lg = \<lparr>log_reads = read_log_new, log_writes = write_log_new, log_garbage = g\<rparr>"
    unfolding new_logs_def g by simp
  let ?wl = "\<lambda>m ws n. \<lparr>wl_bloom = \<lparr>filter_word = OVERFLOWED, overflow_map = m\<rparr>,
    wl_data = \<lparr>fdata = ws, fcap = n\<rparr>\<rparr>"
  note defs = set_slow_def rw_set_def set_impl_def wl_next_push_allocates_def dyn_next_push_allocates_def
    next_n_pushes_allocates_def wl_entry_def wl_overflow_def has_overflowed_def overflow_get_def
    overflow_insert_def wl_word_len_def wl_record_def dyn_push_def fvec_extend_def grow_def
    write_entry_new_def as_slice_def
  have 1: "tx_op_apply vts (\<lambda>_. 1) p (Set c (arg x) lc lc) lg =
      Inr (lg\<lparr>log_writes := ?wl [c \<mapsto> 0] [] 0\<rparr>, Conflict (Some [x]), [])"
    using assms(4)
    by (simp add: defs arg_def lg write_log_new_def fvec_new_def fvec_with_capacity_def START_SIZE_def
        bloom_new_def OVERFLOWED_def wl_entries_def to_overflow_def run_overflow_def)
  have 2: "tx_op_apply vts (\<lambda>_. 1) p (Set d (arg y) ld ld) (lg\<lparr>log_writes := ?wl [c \<mapsto> 0] [] 0\<rparr>) =
      Inr (lg\<lparr>log_writes := ?wl [c \<mapsto> 0, d \<mapsto> 0] [vt, d, y] 3\<rparr>, Unit, [])"
    using assms(1,5) by (simp add: defs arg_def lg)
  have 3: "tx_op_apply vts (\<lambda>_. 1) p (Set c (arg z) lc lc)
        (lg\<lparr>log_writes := ?wl [c \<mapsto> 0, d \<mapsto> 0] [vt, d, y] 3\<rparr>) =
      Inr (lg\<lparr>log_writes := ?wl [c \<mapsto> 0, d \<mapsto> 0] [vt, c, z] 3\<rparr>, Unit, [(vt, [d, y])])"
    using assms(1,7)
    by (simp add: defs arg_def lg wl_overwrite_def dyn_assign_def assign_unchecked_def
        word_index_unchecked_def numeral_2_eq_2)
  have 4: "wl_entries vts (?wl [c \<mapsto> 0, d \<mapsto> 0] [vt, c, z] 3) = Inr [(vt, [c, z])]"
    using assms(7) by (simp add: wl_entries_def numeral_2_eq_2)
  have "tx_ops_apply vts (\<lambda>_. 1) p [Set d (arg y) ld ld, Set c (arg z) lc lc]
      (lg\<lparr>log_writes := ?wl [c \<mapsto> 0] [] 0\<rparr>) =
    Inr (lg\<lparr>log_writes := ?wl [c \<mapsto> 0, d \<mapsto> 0] [vt, c, z] 3\<rparr>, [Unit, Unit], [(vt, [d, y])])"
    by (simp add: 2 3 del: tx_op_apply.simps One_nat_def)
  with 1 4 show ?thesis
    unfolding write_entry_new_def by (intro exI conjI) (assumption, assumption, simp)
qed

lemma failed_set_loses_other_write_witness:
  "\<exists>lg lg' lg''. new_logs = Inr lg \<and>
    tx_ops_apply (\<lambda>_. 2) (\<lambda>_. 1) (QuiesceEpoch 5)
      [Set 16 \<lparr>entry_vt = 1, value_words = [2], lifetime = False, needs_drop = False, trash_vt = 0\<rparr> ([0], 3) ([0], 3),
       Set 8 \<lparr>entry_vt = 1, value_words = [3], lifetime = False, needs_drop = False, trash_vt = 0\<rparr> ([0], 7) ([0], 7)]
      lg' = Inr (lg'', [Unit, Unit], [write_entry_new 1 16 [2]])"
proof -
  obtain lg where lg: "new_logs = Inr lg"
    using new_logs_holds by blast
  have "\<not> rw_valid (QuiesceEpoch 5) ([0], 7)" "rw_valid (QuiesceEpoch 5) ([0], 3)"
    by (simp_all add: rw_valid_def read_write_valid_lockable_def read_write_valid_def
        read_write_valid_raw_def)
  from failed_set_loses_other_write [OF _ _ _ this lg, of 8 16 "\<lambda>_. 2" 1 1 2 3] lg
  show ?thesis by auto
qed

end
