(* ===== verification/Htm.thy ===== *)
theory Htm
  imports Prelude
begin

text \<open>
  \<open>swym-htm/src/lib.rs\<close> with the back end \<open>swym-htm/src/x86_64.rs\<close>: starting a hardware
  transaction with a bounded number of retries.

  The processor is an argument: the list of codes that the calls of \<open>begin\<close> return, in order.
  Control comes back to \<open>begin\<close> when a started transaction aborts, so a code that is not
  \<open>_XBEGIN_STARTED\<close> stands for a \<open>begin\<close> that failed or for a transaction that was rolled back,
  and a started code for a transaction whose body runs to its commit. \<open>None\<close> means that the codes
  given are used up.
\<close>

section \<open>x86\_64 begin codes\<close>

type_synonym begin_code = "32 word"

definition XBEGIN_STARTED :: begin_code where
  "XBEGIN_STARTED = NOT 0"

definition XABORT_EXPLICIT :: begin_code where
  "XABORT_EXPLICIT = push_bit 0 1"

definition XABORT_RETRY :: begin_code where
  "XABORT_RETRY = push_bit 1 1"

definition XABORT_CONFLICT :: begin_code where
  "XABORT_CONFLICT = push_bit 2 1"

definition XABORT_CAPACITY :: begin_code where
  "XABORT_CAPACITY = push_bit 3 1"

definition is_started :: "begin_code \<Rightarrow> bool" where
  "is_started c \<longleftrightarrow> c = XBEGIN_STARTED"

definition is_explicit_abort :: "begin_code \<Rightarrow> bool" where
  "is_explicit_abort c \<longleftrightarrow> c AND XABORT_EXPLICIT \<noteq> 0"

definition is_retry :: "begin_code \<Rightarrow> bool" where
  "is_retry c \<longleftrightarrow> c AND XABORT_RETRY \<noteq> 0"

definition is_conflict_code :: "begin_code \<Rightarrow> bool" where
  "is_conflict_code c \<longleftrightarrow> c AND XABORT_CONFLICT \<noteq> 0"

definition is_capacity :: "begin_code \<Rightarrow> bool" where
  "is_capacity c \<longleftrightarrow> c AND XABORT_CONFLICT \<noteq> 0"

text \<open>\<open>TestCode\<close> on x86\_64 is the byte that \<open>_xtest\<close> returns; suspension does not exist.\<close>

definition in_transaction :: "8 word \<Rightarrow> bool" where
  "in_transaction t \<longleftrightarrow> t \<noteq> 0"

definition is_suspended :: "8 word \<Rightarrow> bool" where
  "is_suspended t = False"

section \<open>Hardware transactions\<close>

datatype bounded_htx_err = SoftwareFallback | AbortOrConflict

text \<open>The loop of \<open>do_retry\<close>, and \<open>HardwareTx::new\<close> around it.\<close>

fun do_retry_loop ::
  "(begin_code \<Rightarrow> 's \<Rightarrow> 's \<times> ('e + unit)) \<Rightarrow> begin_code list \<Rightarrow> 's \<Rightarrow> ('s \<times> ('e + unit)) option" where
  "do_retry_loop retry_handler [] s = None"
| "do_retry_loop retry_handler (b # bs) s =
     (if is_started b then Some (s, Inr ())
      else (case retry_handler b s of
              (s', Inl e) \<Rightarrow> Some (s', Inl e)
            | (s', Inr u) \<Rightarrow> do_retry_loop retry_handler bs s'))"

definition do_retry ::
  "(begin_code \<Rightarrow> 's \<Rightarrow> 's \<times> ('e + unit)) \<Rightarrow> begin_code \<Rightarrow> begin_code list \<Rightarrow> 's \<Rightarrow>
     ('s \<times> ('e + unit)) option" where
  "do_retry retry_handler b bs s =
     (case retry_handler b s of
        (s', Inl e) \<Rightarrow> Some (s', Inl e)
      | (s', Inr u) \<Rightarrow> do_retry_loop retry_handler bs s')"

definition hardware_tx_new ::
  "(begin_code \<Rightarrow> 's \<Rightarrow> 's \<times> ('e + unit)) \<Rightarrow> begin_code list \<Rightarrow> 's \<Rightarrow> ('s \<times> ('e + unit)) option" where
  "hardware_tx_new retry_handler codes s =
     (case codes of
        [] \<Rightarrow> None
      | b # bs \<Rightarrow> if is_started b then Some (s, Inr ()) else do_retry retry_handler b bs s)"

text \<open>The handler of \<open>bounded\<close>; its state is the failure count, a \<open>u8\<close>.\<close>

definition bounded_handler ::
  "8 word \<Rightarrow> begin_code \<Rightarrow> 8 word \<Rightarrow> 8 word \<times> (bounded_htx_err + unit)" where
  "bounded_handler max_failures code failure_count =
     (if is_explicit_abort code \<or> is_conflict_code code \<and> \<not> is_retry code
      then (failure_count, Inl AbortOrConflict)
      else if is_retry code \<and> failure_count < max_failures
      then (failure_count + 1, Inr ())
      else (failure_count, Inl SoftwareFallback))"

definition bounded ::
  "8 word \<Rightarrow> begin_code list \<Rightarrow> 8 word \<Rightarrow> (8 word \<times> (bounded_htx_err + unit)) option" where
  "bounded max_failures codes failure_count =
     hardware_tx_new (bounded_handler max_failures) codes failure_count"

text \<open>\<open>HtmUsize\<close>: the word, read and written inside a hardware transaction.\<close>

definition htm_usize_get :: "usize \<Rightarrow> usize" where
  "htm_usize_get w = w"

definition htm_usize_set :: "usize \<Rightarrow> usize \<Rightarrow> usize" where
  "htm_usize_set v w = v"

section \<open>Lemmas\<close>

lemma hardware_tx_new_eq: "hardware_tx_new h codes s = do_retry_loop h codes s"
  by (cases codes) (auto simp: hardware_tx_new_def do_retry_def)

text \<open>A code that the bounded handler answers with a retry, while it has failures left.\<close>

definition retryable :: "begin_code \<Rightarrow> bool" where
  "retryable c \<longleftrightarrow> \<not> is_started c \<and> \<not> is_explicit_abort c \<and> is_retry c"

text \<open>What the first code that is not retried decides.\<close>

definition decided :: "begin_code \<Rightarrow> bounded_htx_err + unit" where
  "decided c =
     (if is_started c then Inr ()
      else if is_explicit_abort c \<or> is_conflict_code c \<and> \<not> is_retry c then Inl AbortOrConflict
      else Inl SoftwareFallback)"

lemma unat_Suc_less: "(f :: 8 word) < m \<Longrightarrow> unat (f + 1) = Suc (unat f)"
  using unsigned_less [of m, where ?'a = nat] by (simp add: unat_word_ariths word_less_nat_alt)

lemma bounded_Cons:
  "bounded m (c # cs) f =
     (if retryable c \<and> f < m then bounded m cs (f + 1) else Some (f, decided c))"
  by (auto simp: bounded_def hardware_tx_new_eq bounded_handler_def retryable_def decided_def)

lemma bounded_takeWhile:
  assumes "length (takeWhile retryable codes) < length codes"
    and "unat f + length (takeWhile retryable codes) \<le> unat m"
  shows "bounded m codes f =
    Some (f + of_nat (length (takeWhile retryable codes)),
      decided (codes ! length (takeWhile retryable codes)))"
  using assms
proof (induction codes arbitrary: f)
  case Nil
  then show ?case by simp
next
  case (Cons c cs)
  show ?case
  proof (cases "retryable c")
    case False
    then show ?thesis by (simp add: bounded_Cons)
  next
    case True
    with Cons.prems have "f < m" by (simp add: word_less_nat_alt)
    moreover from this Cons.prems True have "unat (f + 1) + length (takeWhile retryable cs) \<le> unat m"
      by (simp add: unat_Suc_less)
    ultimately show ?thesis
      using Cons True by (simp add: bounded_Cons ac_simps)
  qed
qed

lemma bounded_exhausted:
  assumes "unat m < unat f + length (takeWhile retryable codes)" and "f \<le> m"
  shows "bounded m codes f = Some (m, Inl SoftwareFallback)"
  using assms
proof (induction codes arbitrary: f)
  case Nil
  then show ?case by (simp add: word_le_nat_alt)
next
  case (Cons c cs)
  then have c: "retryable c" by (cases "retryable c") (auto simp: word_le_nat_alt)
  show ?case
  proof (cases "f < m")
    case True
    then have "f + 1 \<le> m" "unat (f + 1) = Suc (unat f)"
      by (simp_all add: unat_Suc_less word_le_nat_alt word_less_nat_alt)
    with Cons c True show ?thesis by (simp add: bounded_Cons)
  next
    case False
    with Cons.prems have "f = m" by simp
    with c show ?thesis
      by (simp add: bounded_Cons decided_def retryable_def)
  qed
qed

text \<open>One code more than the failures allowed is enough for a decision.\<close>

lemma bounded_total: "unat m < length codes \<Longrightarrow> bounded m codes 0 \<noteq> None"
proof (cases "unat (0 :: 8 word) + length (takeWhile retryable codes) \<le> unat m")
  case True
  then show "unat m < length codes \<Longrightarrow> ?thesis"
    by (subst bounded_takeWhile) simp_all
next
  case False
  then show ?thesis
    by (subst bounded_exhausted) simp_all
qed

section \<open>Properties\<close>

text \<open>
  Property C23: \<open>HardwareTx::bounded\<close> always comes to a decision: it needs at most one begin
  code more than the failures that are left, whatever the processor answers; it starts a transaction
  exactly if the first code that is not retried is a start; it counts one failure for every
  retry and never more than the maximum, without wrap-around of the \<open>u8\<close>; and it falls back to
  software when the retries are used up.
\<close>

theorem bounded_decides:
  assumes "f \<le> m" and "unat m - unat f < length codes"
  defines "n \<equiv> length (takeWhile retryable codes)"
  shows "bounded m codes f =
      (if unat f + n \<le> unat m then Some (f + of_nat n, decided (codes ! n))
       else Some (m, Inl SoftwareFallback)) \<and>
    (unat f + n \<le> unat m \<longrightarrow> unat (f + of_nat n) = unat f + n \<and> n < length codes)"
proof (cases "unat f + n \<le> unat m")
  case True
  from True assms(1,2) have len: "n < length codes"
    by (simp add: word_le_nat_alt)
  have "unat m < 256" using unsigned_less [of m, where ?'a = nat] by simp
  with True have "unat (f + of_nat n) = unat f + n"
    by (simp add: unat_word_ariths unat_of_nat)
  with True len bounded_takeWhile [of codes f m] show ?thesis
    by (simp add: n_def)
next
  case False
  with assms(1) bounded_exhausted [of m f codes] show ?thesis
    by (simp add: n_def)
qed

lemma bounded_decides_witness:
  "bounded 3 [2, 6, NOT 0, 0] 0 = Some (2, Inr ())"
proof -
  have "retryable 2" "retryable 6" "\<not> retryable (NOT 0)"
    by (simp_all add: retryable_def is_started_def XBEGIN_STARTED_def is_explicit_abort_def
        XABORT_EXPLICIT_def is_retry_def XABORT_RETRY_def)
  moreover have "decided (NOT 0) = Inr ()"
    by (simp add: decided_def is_started_def XBEGIN_STARTED_def)
  ultimately show ?thesis
    using bounded_decides [of 0 3 "[2, 6, NOT 0, 0]"] by simp
qed

text \<open>
  The x86\_64 \<open>is_capacity\<close> tests the conflict bit. It agrees with \<open>is_conflict\<close> on
  every code, so that a transaction aborted for its size alone is not reported as such, and one
  aborted by a conflict alone is.
\<close>

theorem is_capacity_reports_conflicts:
  "(\<forall>c. is_capacity c = is_conflict_code c) \<and>
   \<not> is_capacity XABORT_CAPACITY \<and> is_capacity XABORT_CONFLICT"
  by (simp add: is_capacity_def is_conflict_code_def XABORT_CAPACITY_def XABORT_CONFLICT_def)

end
