(* ===== verification/Commit.thy ===== *)
theory Commit
  imports Rw_Tx Htm
begin

text \<open>
  \<open>src/internal/commit.rs\<close>, with the parts of \<open>src/internal/thread.rs\<close> it ends in: the commit
  algorithm, in software (lock the write set, validate the read set, write, tick, publish) and in a
  hardware transaction (validate, write and lock at once; then tick and publish).

  The functions here run a commit with no other thread in between, on the shared state that it
  meets; how the steps of several commits interleave is the subject of theory \<open>Stm\<close>. The
  answers of the processor to \<open>begin\<close>, and the epochs of other threads that a garbage
  collection observes, are arguments.
\<close>

section \<open>Shared state\<close>

record shared =
  locks :: "cell \<Rightarrow> epoch_lock"
  mem :: "cell \<Rightarrow> usize list"
  clock :: epoch_clock

section \<open>Dropping a transaction\<close>

text \<open>\<open>Drop for PinRw\<close>: reads forgotten, trash leaked, pending values dropped.\<close>

definition pin_rw_drop :: "(usize \<Rightarrow> nat) \<Rightarrow> logs \<Rightarrow> (logs \<times> dyn_elem list) outcome" where
  "pin_rw_drop vts lg =
     (let lg1 = lg\<lparr>log_reads := rl_clear (log_reads lg)\<rparr>;
          lg2 = lg1\<lparr>log_garbage := abort_speculative_garbage (log_garbage lg1)\<rparr>
      in map_sum id (\<lambda>(wl, dropped). (lg2\<lparr>log_writes := wl\<rparr>, dropped)) (wl_clear vts (log_writes lg2)))"

definition validate_start_state :: "logs \<Rightarrow> bool" where
  "validate_start_state lg \<longleftrightarrow>
     rl_is_empty (log_reads lg) \<and> wl_is_empty (log_writes lg) \<and> is_speculative_bag_empty (log_garbage lg)"

section \<open>Parts of the commit algorithm\<close>

text \<open>
  \<open>remove_writes_from_reads\<close>: the filter's closure looks every read up in the write log,
  which may turn the write log's filter into a hash map on the way.
\<close>

fun remove_loop ::
  "(usize \<Rightarrow> nat) \<Rightarrow> write_log \<Rightarrow> cell option list \<Rightarrow> nat \<Rightarrow> (write_log \<times> cell option list \<times> nat) outcome"
  where
  "remove_loop vts wl [] n = Inr (wl, [], n)"
| "remove_loop vts wl (None # xs) n = Inl Undefined"
| "remove_loop vts wl (Some src # xs) n =
     (case wl_find vts wl src of
        Inl s \<Rightarrow> Inl s
      | Inr (wl', found) \<Rightarrow>
          map_sum id (map_prod id (map_prod (Cons (if found = None then Some src else None)) id))
            (remove_loop vts wl' xs (if found = None then n else Suc n)))"

definition remove_writes_from_reads :: "(usize \<Rightarrow> nat) \<Rightarrow> logs \<Rightarrow> logs outcome" where
  "remove_writes_from_reads vts lg =
     map_sum id
       (\<lambda>(wl, xs, n). lg\<lparr>log_writes := wl,
          log_reads := (log_reads lg)\<lparr>rl_data := (rl_data (log_reads lg))\<lparr>fdata := xs\<rparr>\<rparr>\<rparr>)
       (remove_loop vts (log_writes lg) (fdata (rl_data (log_reads lg))) 0)"

definition entry_try_lock_htm ::
  "quiesce_epoch \<Rightarrow> (cell \<Rightarrow> epoch_lock) \<Rightarrow> dyn_elem \<Rightarrow> (park_status \<times> (cell \<Rightarrow> epoch_lock)) option" where
  "entry_try_lock_htm pin_epoch ls e =
     (case entry_tcell e of
        Some tcell \<Rightarrow>
          map_option (\<lambda>(status, w). (status, ls(tcell := w))) (try_lock_htm pin_epoch (ls tcell))
      | None \<Rightarrow> Some (NoParked, ls))"

definition perform_write :: "(cell \<Rightarrow> usize list) \<Rightarrow> dyn_elem \<Rightarrow> (cell \<Rightarrow> usize list) outcome" where
  "perform_write m e =
     (case entry_tcell e of
        Some tcell \<Rightarrow> if entry_pending e = [] then Inl Undefined else Inr (m(tcell := entry_pending e))
      | None \<Rightarrow> Inr m)"

fun perform_writes :: "(cell \<Rightarrow> usize list) \<Rightarrow> dyn_elem list \<Rightarrow> (cell \<Rightarrow> usize list) outcome" where
  "perform_writes m [] = Inr m"
| "perform_writes m (e # es) =
     (case perform_write m e of Inl s \<Rightarrow> Inl s | Inr m' \<Rightarrow> perform_writes m' es)"

definition publish :: "quiesce_epoch \<Rightarrow> (cell \<Rightarrow> epoch_lock) \<Rightarrow> cell list \<Rightarrow> (cell \<Rightarrow> epoch_lock)" where
  "publish sync_epoch ls cells = fold (\<lambda>c l. l(c := unlock_publish sync_epoch (l c))) cells ls"

definition undo_locks :: "(cell \<Rightarrow> epoch_lock) \<Rightarrow> cell list \<Rightarrow> (cell \<Rightarrow> epoch_lock)" where
  "undo_locks ls cells = fold (\<lambda>c l. l(c := unlock_undo (l c))) cells ls"

text \<open>\<open>Inr None\<close>: an invalid cell has aborted the hardware transaction.\<close>

fun write_and_lock_htm ::
  "quiesce_epoch \<Rightarrow> (cell \<Rightarrow> epoch_lock) \<Rightarrow> (cell \<Rightarrow> usize list) \<Rightarrow> park_status \<Rightarrow> dyn_elem list \<Rightarrow>
     (park_status \<times> (cell \<Rightarrow> epoch_lock) \<times> (cell \<Rightarrow> usize list)) option outcome" where
  "write_and_lock_htm pin_epoch ls m status [] = Inr (Some (status, ls, m))"
| "write_and_lock_htm pin_epoch ls m status (e # es) =
     (case perform_write m e of
        Inl s \<Rightarrow> Inl s
      | Inr m' \<Rightarrow>
          (case entry_try_lock_htm pin_epoch ls e of
             None \<Rightarrow> Inr None
           | Some (st, ls') \<Rightarrow> write_and_lock_htm pin_epoch ls' m' (merge status st) es))"

text \<open>The loop of \<open>commit_soft\<close>: the locks taken so far, and the cell that could not be locked.\<close>

fun lock_loop ::
  "quiesce_epoch \<Rightarrow> (cell \<Rightarrow> epoch_lock) \<Rightarrow> park_status \<Rightarrow> cell list \<Rightarrow>
     (cell \<Rightarrow> epoch_lock) \<times> (cell + park_status)" where
  "lock_loop pin_epoch ls status [] = (ls, Inr status)"
| "lock_loop pin_epoch ls status (c # cs) =
     (case try_lock pin_epoch (ls c) (ls c) of
        (Some cur_status, w) \<Rightarrow> lock_loop pin_epoch (ls(c := w)) (merge status cur_status) cs
      | (None, w) \<Rightarrow> (ls(c := w), Inl c))"

section \<open>The commit algorithm\<close>

text \<open>
  The end of a commit: whether it succeeded, the shared state, the logs, the thread's epoch (a
  garbage collection changes it), whether parked threads are to be woken, and what was dropped.
\<close>

record commit_result =
  committed :: bool
  cr_shared :: shared
  cr_logs :: logs
  cr_synch :: thread_epoch
  cr_unpark :: bool
  cr_dropped :: "dyn_elem list"

definition commit_failed ::
  "(usize \<Rightarrow> nat) \<Rightarrow> shared \<Rightarrow> logs \<Rightarrow> thread_epoch \<Rightarrow> commit_result outcome" where
  "commit_failed vts sh lg synch =
     map_sum id
       (\<lambda>(lg', dropped). \<lparr>committed = False, cr_shared = sh, cr_logs = lg', cr_synch = synch,
          cr_unpark = False, cr_dropped = dropped\<rparr>)
       (pin_rw_drop vts lg)"

text \<open>
  After the point of no return, in software and in hardware: publish at the time after the tick,
  forget the logs, and seal the trash at the time before it.
\<close>

definition publish_and_seal ::
  "(usize \<Rightarrow> nat) \<Rightarrow> shared \<Rightarrow> logs \<Rightarrow> thread_epoch \<Rightarrow> quiesce_epoch list \<Rightarrow> park_status \<Rightarrow>
     commit_result outcome" where
  "publish_and_seal vts sh lg synch obs park_status =
     (case fetch_and_tick (clock sh) of
        (sync_epoch, clock') \<Rightarrow>
          (case wl_epoch_locks vts (log_writes lg) of
             Inl s \<Rightarrow> Inl s
           | Inr cells \<Rightarrow>
               let sh' = sh\<lparr>clock := clock', locks := publish (quiesce_next sync_epoch) (locks sh) cells\<rparr>
               in map_sum id
                    (\<lambda>(g, synch', dropped). \<lparr>committed = True, cr_shared = sh',
                       cr_logs = \<lparr>log_reads = rl_clear (log_reads lg),
                                  log_writes = wl_clear_no_drop (log_writes lg), log_garbage = g\<rparr>,
                       cr_synch = synch', cr_unpark = (park_status = HasParked), cr_dropped = dropped\<rparr>)
                    (seal_with_epoch vts (log_garbage lg) synch sync_epoch obs)))"

definition validation_success ::
  "(usize \<Rightarrow> nat) \<Rightarrow> shared \<Rightarrow> logs \<Rightarrow> thread_epoch \<Rightarrow> quiesce_epoch list \<Rightarrow> park_status \<Rightarrow>
     commit_result outcome" where
  "validation_success vts sh lg synch obs park_status =
     (case wl_entries vts (log_writes lg) of
        Inl s \<Rightarrow> Inl s
      | Inr es \<Rightarrow>
          (case perform_writes (mem sh) es of
             Inl s \<Rightarrow> Inl s
           | Inr m \<Rightarrow> publish_and_seal vts (sh\<lparr>mem := m\<rparr>) lg synch obs park_status))"

definition validation_failure ::
  "(usize \<Rightarrow> nat) \<Rightarrow> shared \<Rightarrow> logs \<Rightarrow> thread_epoch \<Rightarrow> commit_result outcome" where
  "validation_failure vts sh lg synch =
     (case wl_epoch_locks vts (log_writes lg) of
        Inl s \<Rightarrow> Inl s
      | Inr cells \<Rightarrow> commit_failed vts (sh\<lparr>locks := undo_locks (locks sh) cells\<rparr>) lg synch)"

definition write_log_lock_failure ::
  "(usize \<Rightarrow> nat) \<Rightarrow> shared \<Rightarrow> logs \<Rightarrow> thread_epoch \<Rightarrow> cell \<Rightarrow> commit_result outcome" where
  "write_log_lock_failure vts sh lg synch unlock_until =
     (case wl_epoch_locks vts (log_writes lg) of
        Inl s \<Rightarrow> Inl s
      | Inr cells \<Rightarrow>
          commit_failed vts
            (sh\<lparr>locks := undo_locks (locks sh) (takeWhile (\<lambda>e. e \<noteq> unlock_until) cells)\<rparr>) lg synch)"

definition write_log_lock_success ::
  "(usize \<Rightarrow> nat) \<Rightarrow> shared \<Rightarrow> logs \<Rightarrow> thread_epoch \<Rightarrow> quiesce_epoch list \<Rightarrow> park_status \<Rightarrow>
     commit_result outcome" where
  "write_log_lock_success vts sh lg synch obs park_status =
     (if validate_reads (log_reads lg) (thread_epoch_get synch) (locks sh)
      then validation_success vts sh lg synch obs park_status
      else validation_failure vts sh lg synch)"

definition commit_soft ::
  "(usize \<Rightarrow> nat) \<Rightarrow> shared \<Rightarrow> logs \<Rightarrow> thread_epoch \<Rightarrow> quiesce_epoch list \<Rightarrow> commit_result outcome" where
  "commit_soft vts sh lg synch obs =
     (case remove_writes_from_reads vts lg of
        Inl s \<Rightarrow> Inl s
      | Inr lg' \<Rightarrow>
          (case wl_epoch_locks vts (log_writes lg') of
             Inl s \<Rightarrow> Inl s
           | Inr cells \<Rightarrow>
               (case lock_loop (thread_epoch_get synch) (locks sh) NoParked cells of
                  (ls, Inl unlock_until) \<Rightarrow>
                    write_log_lock_failure vts (sh\<lparr>locks := ls\<rparr>) lg' synch unlock_until
                | (ls, Inr park_status) \<Rightarrow>
                    write_log_lock_success vts (sh\<lparr>locks := ls\<rparr>) lg' synch obs park_status)))"

text \<open>\<open>Inr None\<close>: the body of the hardware transaction has aborted it, undoing its effects.\<close>

definition commit_hard ::
  "(usize \<Rightarrow> nat) \<Rightarrow> shared \<Rightarrow> logs \<Rightarrow> thread_epoch \<Rightarrow> quiesce_epoch list \<Rightarrow> commit_result option outcome"
  where
  "commit_hard vts sh lg synch obs =
     (let current = thread_epoch_get synch in
      case validate_reads_htm (log_reads lg) current (locks sh) of
        Inl s \<Rightarrow> Inl s
      | Inr False \<Rightarrow> Inr None
      | Inr True \<Rightarrow>
          (case wl_entries vts (log_writes lg) of
             Inl s \<Rightarrow> Inl s
           | Inr es \<Rightarrow>
               (case write_and_lock_htm current (locks sh) (mem sh) NoParked es of
                  Inl s \<Rightarrow> Inl s
                | Inr None \<Rightarrow> Inr None
                | Inr (Some (park_status, ls, m)) \<Rightarrow>
                    map_sum id Some
                      (publish_and_seal vts (sh\<lparr>locks := ls, mem := m\<rparr>) lg synch obs park_status))))"

definition commit_empty_write_log :: "shared \<Rightarrow> logs \<Rightarrow> thread_epoch \<Rightarrow> commit_result" where
  "commit_empty_write_log sh lg synch =
     \<lparr>committed = True, cr_shared = sh, cr_logs = lg\<lparr>log_reads := rl_clear (log_reads lg)\<rparr>,
      cr_synch = synch, cr_unpark = False, cr_dropped = []\<rparr>"

definition MAX_HTX_RETRIES :: "8 word" where
  "MAX_HTX_RETRIES = 3"

text \<open>
  \<open>start_htx\<close>: hardware is tried on write sets of nine words or more. The processor's answers
  are a function from the number of the attempt; one more than the retries is always enough.
\<close>

definition start_htx ::
  "bool \<Rightarrow> (nat \<Rightarrow> begin_code) \<Rightarrow> logs \<Rightarrow> (8 word \<times> (bounded_htx_err + unit)) outcome" where
  "start_htx htm_supported codes lg =
     (if htm_supported \<and> wl_word_len (log_writes lg) \<ge> 9 then
        (case bounded MAX_HTX_RETRIES (map codes [0..<Suc (unat MAX_HTX_RETRIES)]) 0 of
           Some r \<Rightarrow> Inr r
         | None \<Rightarrow> Inl Undefined)
      else Inr (0, Inl SoftwareFallback))"

text \<open>
  An explicit abort comes back as an abort code, which the handler of \<open>bounded\<close> answers with
  \<open>AbortOrConflict\<close>.
\<close>

definition commit_slow ::
  "(usize \<Rightarrow> nat) \<Rightarrow> bool \<Rightarrow> (nat \<Rightarrow> begin_code) \<Rightarrow> shared \<Rightarrow> logs \<Rightarrow> thread_epoch \<Rightarrow>
     quiesce_epoch list \<Rightarrow> commit_result outcome" where
  "commit_slow vts htm_supported codes sh lg synch obs =
     (case start_htx htm_supported codes lg of
        Inl s \<Rightarrow> Inl s
      | Inr (retry_count, Inr htx) \<Rightarrow>
          (case commit_hard vts sh lg synch obs of
             Inl s \<Rightarrow> Inl s
           | Inr (Some r) \<Rightarrow> Inr r
           | Inr None \<Rightarrow> commit_failed vts sh lg synch)
      | Inr (retry_count, Inl SoftwareFallback) \<Rightarrow> commit_soft vts sh lg synch obs
      | Inr (retry_count, Inl AbortOrConflict) \<Rightarrow> commit_failed vts sh lg synch)"

definition commit ::
  "(usize \<Rightarrow> nat) \<Rightarrow> bool \<Rightarrow> (nat \<Rightarrow> begin_code) \<Rightarrow> shared \<Rightarrow> logs \<Rightarrow> thread_epoch \<Rightarrow>
     quiesce_epoch list \<Rightarrow> commit_result outcome" where
  "commit vts htm_supported codes sh lg synch obs =
     (if \<not> wl_is_empty (log_writes lg) then commit_slow vts htm_supported codes sh lg synch obs
      else Inr (commit_empty_write_log sh lg synch))"

section \<open>Lemmas\<close>

text \<open>What a commit decides on: every cell read or written is free and not newer than the pin.\<close>

definition cells_valid :: "quiesce_epoch \<Rightarrow> (cell \<Rightarrow> epoch_lock) \<Rightarrow> cell set \<Rightarrow> bool" where
  "cells_valid p ls C \<longleftrightarrow> (\<forall>c\<in>C. \<not> is_locked (ls c) \<and> ver (ls c) \<le> ver (qget p))"

definition toggled :: "(cell \<Rightarrow> epoch_lock) \<Rightarrow> cell set \<Rightarrow> cell \<Rightarrow> epoch_lock" where
  "toggled ls C c = (if c \<in> C then toggle_lock_bit (ls c) else ls c)"

definition has_parked :: "(cell \<Rightarrow> epoch_lock) \<Rightarrow> cell set \<Rightarrow> bool" where
  "has_parked ls C \<longleftrightarrow> (\<exists>c\<in>C. \<not> unpark_bit_set (ls c))"

definition written :: "(cell \<Rightarrow> usize list) \<Rightarrow> dyn_elem list \<Rightarrow> cell \<Rightarrow> usize list" where
  "written m es c = (case pending es c of Some v \<Rightarrow> v | None \<Rightarrow> m c)"

lemma cells_valid_insert:
  "cells_valid p ls (insert c C) \<longleftrightarrow> (\<not> is_locked (ls c) \<and> ver (ls c) \<le> ver (qget p)) \<and> cells_valid p ls C"
  by (auto simp: cells_valid_def)

lemma cells_valid_cong: "(\<And>c. c \<in> C \<Longrightarrow> ls c = ls' c) \<Longrightarrow> cells_valid p ls C = cells_valid p ls' C"
  by (auto simp: cells_valid_def)

lemma publish_eq: "publish q ls cells = (\<lambda>c. if c \<in> set cells then qget q else ls c)"
proof (induction cells arbitrary: ls)
  case (Cons a cells)
  have "publish q ls (a # cells) = publish q (ls(a := qget q)) cells"
    by (simp add: publish_def unlock_publish_def)
  then show ?case by (simp add: Cons fun_eq_iff)
qed (simp add: publish_def)

lemma undo_locks_eq: "distinct cells \<Longrightarrow> undo_locks ls cells = toggled ls (set cells)"
proof (induction cells arbitrary: ls)
  case (Cons a cells)
  have "undo_locks ls (a # cells) = undo_locks (ls(a := toggle_lock_bit (ls a))) cells"
    by (simp add: undo_locks_def unlock_undo_def)
  with Cons show ?case by (auto simp: fun_eq_iff toggled_def)
qed (simp add: undo_locks_def toggled_def fun_eq_iff)

lemma toggled_toggled [simp]: "toggled (toggled ls C) C = ls"
  by (simp add: toggled_def fun_eq_iff)

lemma toggled_insert: "c \<notin> C \<Longrightarrow> toggled (ls(c := toggle_lock_bit (ls c))) C = toggled ls (insert c C)"
  by (auto simp: toggled_def fun_eq_iff)

lemma try_lock_now:
  assumes "time_ok p"
  shows "try_lock p w w = (if \<not> is_locked w \<and> ver w \<le> ver (qget p)
    then (Some (park_status_of w), toggle_lock_bit w) else (None, w))"
  using assms by (simp add: try_lock_def read_write_valid_iff is_locked_def compare_exchange_def)

text \<open>All locks are taken, or the failed attempt leaves exactly the locks before it.\<close>

lemma lock_loop_success:
  assumes "time_ok p" and "distinct cells" and "cells_valid p ls (set cells)"
  shows "\<exists>st. lock_loop p ls status cells = (toggled ls (set cells), Inr st) \<and>
    (st = HasParked \<longleftrightarrow> status = HasParked \<or> has_parked ls (set cells))"
  using assms(2,3)
proof (induction cells arbitrary: ls status)
  case Nil
  then show ?case by (simp add: toggled_def has_parked_def fun_eq_iff)
next
  case (Cons c cells)
  let ?ls = "ls(c := toggle_lock_bit (ls c))"
  from Cons.prems have v: "\<not> is_locked (ls c) \<and> ver (ls c) \<le> ver (qget p)"
    and rest: "cells_valid p ?ls (set cells)"
    by (auto simp: cells_valid_def)
  from Cons.prems have d: "distinct cells" by simp
  from Cons.IH [OF d rest, of "merge status (park_status_of (ls c))"] obtain st
    where st: "lock_loop p ?ls (merge status (park_status_of (ls c))) cells =
        (toggled ?ls (set cells), Inr st)"
      and hp: "st = HasParked \<longleftrightarrow>
        merge status (park_status_of (ls c)) = HasParked \<or> has_parked ?ls (set cells)" by blast
  have "has_parked ?ls (set cells) = has_parked ls (set cells)"
    using Cons.prems by (auto simp: has_parked_def)
  with hp have "st = HasParked \<longleftrightarrow> status = HasParked \<or> has_parked ls (set (c # cells))"
    by (auto simp: merge_HasParked park_status_of_def has_parked_def)
  moreover have "lock_loop p ls status (c # cells) = (toggled ls (set (c # cells)), Inr st)"
    using Cons.prems st v by (simp add: try_lock_now [OF assms(1)] toggled_insert)
  ultimately show ?case by blast
qed

lemma lock_loop_failure:
  assumes "time_ok p" and "distinct cells" and "\<not> cells_valid p ls (set cells)"
  shows "\<exists>ls' c. lock_loop p ls status cells = (ls', Inl c) \<and>
    undo_locks ls' (takeWhile (\<lambda>e. e \<noteq> c) cells) = ls"
  using assms(2,3)
proof (induction cells arbitrary: ls status)
  case Nil
  then show ?case by (simp add: cells_valid_def)
next
  case (Cons c cells)
  show ?case
  proof (cases "\<not> is_locked (ls c) \<and> ver (ls c) \<le> ver (qget p)")
    case False
    then have "try_lock p (ls c) (ls c) = (None, ls c)"
      by (auto simp: try_lock_now [OF assms(1)])
    then show ?thesis
      by (intro exI [of _ ls] exI [of _ c]) (simp add: undo_locks_def)
  next
    case True
    let ?ls = "ls(c := toggle_lock_bit (ls c))"
    from Cons.prems True have rest: "\<not> cells_valid p ?ls (set cells)"
      by (auto simp: cells_valid_def)
    from Cons.prems have dc: "distinct cells" by simp
    from Cons.IH [OF dc rest, of "merge status (park_status_of (ls c))"] obtain ls' d
      where run: "lock_loop p ?ls (merge status (park_status_of (ls c))) cells = (ls', Inl d)"
        and undo: "undo_locks ls' (takeWhile (\<lambda>e. e \<noteq> d) cells) = ?ls" by blast
    have tw: "distinct (takeWhile (\<lambda>e. e \<noteq> d) cells)"
      and "c \<notin> set (takeWhile (\<lambda>e. e \<noteq> d) cells)"
      using Cons.prems by (auto dest: set_takeWhileD)
    with undo have ls': "toggled ls' (set (takeWhile (\<lambda>e. e \<noteq> d) cells)) = ?ls"
      and c: "ls' c = toggle_lock_bit (ls c)"
      by (auto simp: undo_locks_eq toggled_def fun_eq_iff split: if_splits)
    have "c \<noteq> d"
      using run True Cons.prems(1)
    proof -
      have "d \<in> set cells" if "lock_loop p l s cells = (ls', Inl d)" for l s
        using that by (induction cells arbitrary: l s)
          (auto split: prod.splits option.splits)
      with run Cons.prems(1) show ?thesis by auto
    qed
    then have "undo_locks ls' (takeWhile (\<lambda>e. e \<noteq> d) (c # cells)) =
        undo_locks (ls'(c := ls c)) (takeWhile (\<lambda>e. e \<noteq> d) cells)"
      by (simp add: undo_locks_def unlock_undo_def c)
    also have "\<dots> = ls"
      using ls' \<open>c \<notin> set (takeWhile (\<lambda>e. e \<noteq> d) cells)\<close>
      by (auto simp: undo_locks_eq [OF tw] toggled_def fun_eq_iff split: if_splits)
    finally show ?thesis
      using run True by (simp add: try_lock_now [OF assms(1)])
  qed
qed

text \<open>Writing: one cell at a time, tombstones skipped.\<close>

lemma perform_write_eq:
  assumes "entry_ok vts csz e" and "\<forall>c. entry_tcell e = Some c \<longrightarrow> csz c \<noteq> 0"
  shows "perform_write m e = Inr (case entry_tcell e of Some c \<Rightarrow> m(c := entry_pending e) | None \<Rightarrow> m)"
  using assms by (auto simp: perform_write_def entry_ok_def split: option.splits)

lemma written_Cons:
  assumes "distinct (live (e # es))"
  shows "written m (e # es) =
    written (case entry_tcell e of Some c \<Rightarrow> m(c := entry_pending e) | None \<Rightarrow> m) es"
proof (cases "entry_tcell e")
  case None
  then show ?thesis by (simp add: written_def fun_eq_iff entry_write_def)
next
  case (Some c)
  with assms have "c \<notin> dom (pending es)" by (simp add: dom_writes_of)
  with Some show ?thesis
    by (auto simp: written_def fun_eq_iff entry_write_def split: option.splits)
qed

lemma perform_writes_eq:
  assumes "list_all (entry_ok vts csz) es" and "distinct (live es)" and "\<forall>c\<in>set (live es). csz c \<noteq> 0"
  shows "perform_writes m es = Inr (written m es)"
  using assms
proof (induction es arbitrary: m)
  case Nil
  then show ?case by (simp add: written_def fun_eq_iff)
next
  case (Cons e es)
  then have "distinct (live es)" "\<forall>c\<in>set (live es). csz c \<noteq> 0" by auto
  with Cons show ?case
    by (auto simp: perform_write_eq written_Cons split: option.splits)
qed

lemma write_and_lock_htm_eq:
  assumes "time_ok p" and "list_all (entry_ok vts csz) es" and "distinct (live es)"
    and "\<forall>c\<in>set (live es). csz c \<noteq> 0"
  shows "\<exists>st. write_and_lock_htm p ls m status es =
      Inr (if cells_valid p ls (set (live es)) then Some (st, toggled ls (set (live es)), written m es)
           else None) \<and>
    (st = HasParked \<longleftrightarrow> status = HasParked \<or> has_parked ls (set (live es)))"
  using assms(2-4)
proof (induction es arbitrary: ls m status)
  case Nil
  show ?case
    by (intro exI [of _ status])
      (simp add: cells_valid_def toggled_def written_def has_parked_def fun_eq_iff)
next
  case (Cons e es)
  from Cons.prems have d: "distinct (live es)" "\<forall>c\<in>set (live es). csz c \<noteq> 0"
    and ok: "entry_ok vts csz e" "list_all (entry_ok vts csz) es" by auto
  let ?m = "case entry_tcell e of Some c \<Rightarrow> m(c := entry_pending e) | None \<Rightarrow> m"
  have w: "perform_write m e = Inr ?m"
    using Cons.prems by (intro perform_write_eq) auto
  note wr = written_Cons [OF Cons.prems(2), of m]
  show ?case
  proof (cases "entry_tcell e")
    case None
    from Cons.IH [OF ok(2) d, of ls m "merge status NoParked"] obtain st
      where "write_and_lock_htm p ls m (merge status NoParked) es =
          Inr (if cells_valid p ls (set (live es)) then Some (st, toggled ls (set (live es)), written m es)
               else None)"
        and "st = HasParked \<longleftrightarrow> merge status NoParked = HasParked \<or> has_parked ls (set (live es))"
      by blast
    with None w wr show ?thesis
      by (intro exI [of _ st]) (simp add: entry_try_lock_htm_def merge_HasParked)
  next
    case (Some c)
    show ?thesis
    proof (cases "\<not> is_locked (ls c) \<and> ver (ls c) \<le> ver (qget p)")
      case False
      then have "try_lock_htm p (ls c) = None"
        using assms(1) by (simp add: try_lock_htm_def is_locked_def flip: read_write_valid_def)
          (simp add: read_write_valid_iff)
      moreover have "\<not> cells_valid p ls (set (live (e # es)))"
        using False Some by (auto simp: cells_valid_insert)
      ultimately show ?thesis
        using w Some
        by (intro exI [of _ "if status = HasParked \<or> has_parked ls (set (live (e # es))) then HasParked
              else NoParked"])
          (simp add: entry_try_lock_htm_def)
    next
      case True
      let ?ls = "ls(c := toggle_lock_bit (ls c))"
      from True have t: "try_lock_htm p (ls c) = Some (park_status_of (ls c), toggle_lock_bit (ls c))"
        using assms(1) by (simp add: try_lock_htm_def is_locked_def flip: read_write_valid_def)
          (simp add: read_write_valid_iff)
      have c: "c \<notin> set (live es)" using Cons.prems Some by simp
      from Cons.IH [OF ok(2) d, of ?ls ?m "merge status (park_status_of (ls c))"] obtain st
        where st: "write_and_lock_htm p ?ls ?m (merge status (park_status_of (ls c))) es =
            Inr (if cells_valid p ?ls (set (live es)) then Some (st, toggled ?ls (set (live es)), written ?m es)
                 else None)"
          and hp: "st = HasParked \<longleftrightarrow> merge status (park_status_of (ls c)) = HasParked \<or>
            has_parked ?ls (set (live es))" by blast
      have "cells_valid p ?ls (set (live es)) = cells_valid p ls (set (live es))"
        using c by (intro cells_valid_cong) auto
      moreover have "has_parked ?ls (set (live es)) = has_parked ls (set (live es))"
        using c by (auto simp: has_parked_def)
      ultimately show ?thesis
        using w Some t st hp True c wr
        by (intro exI [of _ st])
          (auto simp: entry_try_lock_htm_def cells_valid_insert toggled_insert merge_HasParked
            park_status_of_def has_parked_def)
    qed
  qed
qed

text \<open>After the reads that are also writes have been removed, the rest is the read set.\<close>

lemma remove_loop_eq:
  assumes "wl_holds vts csz wl es"
  shows "\<exists>wl' k. remove_loop vts wl (map Some cs) n =
      Inr (wl', map (\<lambda>c. if pending es c = None then Some c else None) cs, k) \<and>
    wl_holds vts csz wl' es \<and> wl_data wl' = wl_data wl"
  using assms
proof (induction cs arbitrary: wl n)
  case Nil
  then show ?case by simp
next
  case (Cons c cs)
  obtain wl1 r where f: "wl_find vts wl c = Inr (wl1, r)" "wl_holds vts csz wl1 es"
      "wl_data wl1 = wl_data wl" "map_option entry_pending r = pending es c"
    using wl_find_holds [OF Cons.prems, of c] by blast
  have "(r = None) = (pending es c = None)" by (simp flip: f(4))
  moreover obtain wl2 k where "remove_loop vts wl1 (map Some cs) (if r = None then n else Suc n) =
      Inr (wl2, map (\<lambda>c. if pending es c = None then Some c else None) cs, k)"
    "wl_holds vts csz wl2 es" "wl_data wl2 = wl_data wl1"
    using Cons.IH [OF f(2), of "if r = None then n else Suc n"] by blast
  ultimately show ?case using f by simp
qed

lemma remove_writes_eq:
  assumes "tx_holds vts csz lg rs es spec seals"
  shows "\<exists>lg'. remove_writes_from_reads vts lg = Inr lg' \<and> wl_holds vts csz (log_writes lg') es \<and>
    log_garbage lg' = log_garbage lg \<and>
    rl_epoch_locks (log_reads lg') = filter (\<lambda>c. pending es c = None) rs"
proof -
  from assms have r: "fdata (rl_data (log_reads lg)) = map Some rs" and w: "wl_holds vts csz (log_writes lg) es"
    by (simp_all add: tx_holds_def rl_full_def)
  have "List.map_filter id (map (\<lambda>c. if pending es c = None then Some c else None) rs) =
      filter (\<lambda>c. pending es c = None) rs"
    by (induction rs) (simp_all add: map_filter_simps)
  with remove_loop_eq [OF w, of rs 0] r show ?thesis
    by (auto simp: remove_writes_from_reads_def rl_epoch_locks_def)
qed

lemma pin_rw_drop_eq:
  assumes "wl_holds vts csz (log_writes lg) es" and "tg_ready vts (log_garbage lg) spec seals"
  shows "\<exists>lg'. pin_rw_drop vts lg = Inr (lg', es) \<and> tx_holds vts csz lg' [] [] [] seals"
proof -
  let ?lg = "\<lparr>log_reads = rl_clear (log_reads lg), log_writes = wl_clear_no_drop (log_writes lg),
    log_garbage = abort_speculative_garbage (log_garbage lg)\<rparr>"
  have "rl_full (rl_clear (log_reads lg)) []"
    by (simp add: rl_full_def rl_clear_def vec_facts)
  then have "tx_holds vts csz ?lg [] [] [] seals"
    using wl_holds_clear_no_drop [OF assms(1)] abort_ready [OF assms(2)] by (simp add: tx_holds_def)
  moreover have "pin_rw_drop vts lg = Inr (?lg, es)"
    using wl_clear_holds [OF assms(1)] by (simp add: pin_rw_drop_def Let_def)
  ultimately show ?thesis by blast
qed

lemma tx_holds_start: "tx_holds vts csz lg [] [] [] seals \<Longrightarrow> validate_start_state lg"
  by (auto simp: validate_start_state_def tx_holds_def rl_full_def rl_is_empty_def wl_is_empty_def
      wl_holds_def elems_of_words_def tg_ready_def tg_holds_def bag_holds_def is_speculative_bag_empty_def)

section \<open>Commit as one step\<close>

text \<open>
  When a commit runs: the logs hold a transaction, the thread is pinned at a valid time, the
  clock has not run into the lock bit, and no zero sized cell is in the write log.
\<close>

definition commit_pre ::
  "(usize \<Rightarrow> nat) \<Rightarrow> (cell \<Rightarrow> nat) \<Rightarrow> shared \<Rightarrow> logs \<Rightarrow> thread_epoch \<Rightarrow> cell list \<Rightarrow> dyn_elem list \<Rightarrow>
     dyn_elem list \<Rightarrow> (quiesce_epoch \<times> dyn_elem list) list \<Rightarrow> bool" where
  "commit_pre vts csz sh lg synch rs es spec seals \<longleftrightarrow>
     tx_holds vts csz lg rs es spec seals \<and> time_ok (thread_epoch_get synch) \<and>
     clock_ok (clock sh) \<and> \<not> lock_bit_set (clock sh + TICK_SIZE) \<and> (\<forall>c\<in>set (live es). csz c \<noteq> 0)"

definition can_commit :: "shared \<Rightarrow> thread_epoch \<Rightarrow> cell list \<Rightarrow> dyn_elem list \<Rightarrow> bool" where
  "can_commit sh synch rs es \<longleftrightarrow>
     cells_valid (thread_epoch_get synch) (locks sh) (set rs \<union> set (live es))"

definition after_commit :: "shared \<Rightarrow> dyn_elem list \<Rightarrow> shared" where
  "after_commit sh es =
     \<lparr>locks = (\<lambda>c. if c \<in> set (live es) then clock sh + TICK_SIZE else locks sh c),
      mem = written (mem sh) es, clock = clock sh + TICK_SIZE\<rparr>"

definition commit_succeeds ::
  "(usize \<Rightarrow> nat) \<Rightarrow> (cell \<Rightarrow> nat) \<Rightarrow> shared \<Rightarrow> dyn_elem list \<Rightarrow> dyn_elem list \<Rightarrow>
     (quiesce_epoch \<times> dyn_elem list) list \<Rightarrow> commit_result \<Rightarrow> bool" where
  "commit_succeeds vts csz sh es spec seals r \<longleftrightarrow>
     committed r \<and> cr_shared r = after_commit sh es \<and>
     (cr_unpark r \<longleftrightarrow> has_parked (locks sh) (set (live es))) \<and>
     (\<exists>batches rest. (if spec = [] then seals else seals @ [(QuiesceEpoch (clock sh), spec)]) = batches @ rest \<and>
        tx_holds vts csz (cr_logs r) [] [] [] rest \<and> cr_dropped r = concat (map snd batches))"

definition commit_fails ::
  "(usize \<Rightarrow> nat) \<Rightarrow> (cell \<Rightarrow> nat) \<Rightarrow> shared \<Rightarrow> dyn_elem list \<Rightarrow>
     (quiesce_epoch \<times> dyn_elem list) list \<Rightarrow> commit_result \<Rightarrow> bool" where
  "commit_fails vts csz sh es seals r \<longleftrightarrow>
     \<not> committed r \<and> cr_shared r = sh \<and> \<not> cr_unpark r \<and>
     tx_holds vts csz (cr_logs r) [] [] [] seals \<and> cr_dropped r = es"

lemma seal_splits:
  assumes "tg_ready vts g spec seals" and "is_active e"
  shows "\<exists>g' synch' batches rest. seal_with_epoch vts g synch e obs =
      Inr (g', synch', concat (map snd batches)) \<and>
    (if spec = [] then seals else seals @ [(e, spec)]) = batches @ rest \<and> tg_ready vts g' [] rest"
proof -
  let ?seals = "if spec = [] then seals else seals @ [(e, spec)]"
  let ?c = "quiesce (fst (hd ?seals)) obs"
  obtain g' synch' d where run: "seal_with_epoch vts g synch e obs = Inr (g', synch', d)"
    and res: "if length ?seals = UNUSED_BAG_COUNT - 1
         then d = collected ?c ?seals \<and> d \<noteq> [] \<and> synch' = qget end_of_time \<and> tg_ready vts g' [] (kept ?c ?seals)
         else d = [] \<and> synch' = synch \<and> tg_ready vts g' [] ?seals"
    using seal_ready [OF assms, of synch obs] .
  show ?thesis
  proof (cases "length ?seals = UNUSED_BAG_COUNT - 1")
    case True
    then have "d = concat (map snd (takeWhile (\<lambda>q. fst q < ?c) ?seals))" "tg_ready vts g' [] (kept ?c ?seals)"
      using res [unfolded if_P [OF True] collected_def] by blast+
    moreover have "?seals = takeWhile (\<lambda>q. fst q < ?c) ?seals @ kept ?c ?seals"
      by (simp only: kept_def takeWhile_dropWhile_id)
    ultimately show ?thesis using run by blast
  next
    case False
    then have "d = concat (map snd [])" "tg_ready vts g' [] ?seals"
      using res [unfolded if_not_P [OF False]] by auto
    moreover have "?seals = [] @ ?seals" by simp
    ultimately show ?thesis using run by blast
  qed
qed

lemma publish_and_seal_eq:
  assumes w: "wl_holds vts csz (log_writes lg) es" and g: "tg_ready vts (log_garbage lg) spec seals"
    and c: "clock_ok (clock sh)" and ls: "locks sh' = toggled (locks sh) (set (live es))"
    and sh': "mem sh' = written (mem sh) es" "clock sh' = clock sh"
    and st: "st = HasParked \<longleftrightarrow> has_parked (locks sh) (set (live es))"
  shows "\<exists>r. publish_and_seal vts sh' lg synch obs st = Inr r \<and> commit_succeeds vts csz sh es spec seals r"
proof -
  have "is_active (QuiesceEpoch (clock sh))"
    using c by (simp add: clock_ok_def time_ok_active)
  from seal_splits [OF g this, of synch obs] obtain g' synch' batches rest
    where run: "seal_with_epoch vts (log_garbage lg) synch (QuiesceEpoch (clock sh)) obs =
        Inr (g', synch', concat (map snd batches))"
      and split: "(if spec = [] then seals else seals @ [(QuiesceEpoch (clock sh), spec)]) = batches @ rest"
      and ready: "tg_ready vts g' [] rest" by blast
  have rl: "rl_full (rl_clear (log_reads lg)) []"
    by (simp add: rl_full_def rl_clear_def vec_facts)
  have pub: "publish (quiesce_next (QuiesceEpoch (clock sh))) (locks sh') (live es) = locks (after_commit sh es)"
    by (auto simp: publish_eq ls toggled_def after_commit_def quiesce_next_def new_unchecked_def)
  let ?r = "\<lparr>committed = True,
    cr_shared = sh'\<lparr>clock := clock sh + TICK_SIZE, locks := locks (after_commit sh es)\<rparr>,
    cr_logs = \<lparr>log_reads = rl_clear (log_reads lg), log_writes = wl_clear_no_drop (log_writes lg), log_garbage = g'\<rparr>,
    cr_synch = synch', cr_unpark = (st = HasParked), cr_dropped = concat (map snd batches)\<rparr>"
  have "publish_and_seal vts sh' lg synch obs st = Inr ?r"
    using run wl_epoch_locks_holds [OF w] pub
    by (simp add: publish_and_seal_def fetch_and_tick_def new_unchecked_def sh' Let_def)
  moreover have "commit_succeeds vts csz sh es spec seals ?r"
    using split ready rl wl_holds_clear_no_drop [OF w] st
    unfolding commit_succeeds_def
    by (intro conjI exI [of _ batches] exI [of _ rest]) (simp_all add: after_commit_def sh' tx_holds_def)
  ultimately show ?thesis by blast
qed

lemma commit_failed_eq:
  assumes "wl_holds vts csz (log_writes lg) es" and "tg_ready vts (log_garbage lg) spec seals"
  shows "\<exists>r. commit_failed vts sh lg synch = Inr r \<and> commit_fails vts csz sh es seals r"
  using pin_rw_drop_eq [OF assms] by (auto simp: commit_failed_def commit_fails_def)

lemma wl_holds_facts:
  assumes "wl_holds vts csz wl es"
  shows "list_all (entry_ok vts csz) es" "distinct (live es)"
  using assms by (auto simp: wl_holds_def)

lemma commit_soft_eq:
  assumes pre: "commit_pre vts csz sh lg synch rs es spec seals"
  shows "\<exists>r. commit_soft vts sh lg synch obs = Inr r \<and>
    (if can_commit sh synch rs es then commit_succeeds vts csz sh es spec seals r
     else commit_fails vts csz sh es seals r)"
proof -
  let ?p = "thread_epoch_get synch" and ?W = "set (live es)"
  from pre have h: "tx_holds vts csz lg rs es spec seals" and p: "time_ok ?p" and c: "clock_ok (clock sh)"
    and sz: "\<forall>c\<in>?W. csz c \<noteq> 0"
    by (simp_all add: commit_pre_def)
  from h have g0: "tg_ready vts (log_garbage lg) spec seals" by (simp add: tx_holds_def)
  from remove_writes_eq [OF h] obtain lg1 where lg1: "remove_writes_from_reads vts lg = Inr lg1"
    and w: "wl_holds vts csz (log_writes lg1) es" and g1: "log_garbage lg1 = log_garbage lg"
    and r: "rl_epoch_locks (log_reads lg1) = filter (\<lambda>c. pending es c = None) rs" by blast
  from g0 g1 have g: "tg_ready vts (log_garbage lg1) spec seals" by simp
  note cells = wl_epoch_locks_holds [OF w] and dist = wl_holds_facts(2) [OF w]
  show ?thesis
  proof (cases "cells_valid ?p (locks sh) ?W")
    case False
    obtain ls u where run: "lock_loop ?p (locks sh) NoParked (live es) = (ls, Inl u)"
      and undo: "undo_locks ls (takeWhile (\<lambda>e. e \<noteq> u) (live es)) = locks sh"
      using lock_loop_failure [OF p dist False] by blast
    have "\<not> can_commit sh synch rs es"
      using False by (auto simp: can_commit_def cells_valid_def)
    with commit_failed_eq [OF w g, of sh synch] show ?thesis
      by (simp add: commit_soft_def lg1 cells run write_log_lock_failure_def undo)
  next
    case True
    obtain st where run: "lock_loop ?p (locks sh) NoParked (live es) = (toggled (locks sh) ?W, Inr st)"
      and st: "st = HasParked \<longleftrightarrow> has_parked (locks sh) ?W"
      using lock_loop_success [OF p dist True, of NoParked] by auto
    have pend: "pending es c = None \<longleftrightarrow> c \<notin> ?W" for c
      by (metis domIff dom_writes_of)
    have "validate_reads (log_reads lg1) ?p (toggled (locks sh) ?W) \<longleftrightarrow> can_commit sh synch rs es"
      using True p
      by (auto simp: validate_reads_def validate_loop_iff r pend valid_lockable_iff toggled_def
          can_commit_def cells_valid_def is_locked_def)
    moreover have "undo_locks (toggled (locks sh) ?W) (live es) = locks sh"
      by (simp add: undo_locks_eq [OF dist])
    moreover have "validation_success vts (sh\<lparr>locks := toggled (locks sh) ?W\<rparr>) lg1 synch obs st =
        publish_and_seal vts (sh\<lparr>locks := toggled (locks sh) ?W, mem := written (mem sh) es\<rparr>) lg1 synch obs st"
      using wl_entries_holds [OF w] perform_writes_eq [OF wl_holds_facts [OF w] sz]
      by (simp add: validation_success_def)
    moreover obtain r where "publish_and_seal vts (sh\<lparr>locks := toggled (locks sh) ?W, mem := written (mem sh) es\<rparr>)
        lg1 synch obs st = Inr r \<and> commit_succeeds vts csz sh es spec seals r"
      using publish_and_seal_eq [OF w g c _ _ _ st,
          where sh' = "sh\<lparr>locks := toggled (locks sh) ?W, mem := written (mem sh) es\<rparr>"] by auto
    ultimately show ?thesis
      using commit_failed_eq [OF w g, of sh synch]
      by (simp add: commit_soft_def lg1 cells run write_log_lock_success_def validation_failure_def)
  qed
qed

lemma commit_hard_eq:
  assumes pre: "commit_pre vts csz sh lg synch rs es spec seals"
  shows "if can_commit sh synch rs es
     then \<exists>r. commit_hard vts sh lg synch obs = Inr (Some r) \<and> commit_succeeds vts csz sh es spec seals r
     else commit_hard vts sh lg synch obs = Inr None"
proof -
  let ?p = "thread_epoch_get synch" and ?W = "set (live es)"
  from pre have h: "tx_holds vts csz lg rs es spec seals" and p: "time_ok ?p" and c: "clock_ok (clock sh)"
    and sz: "\<forall>c\<in>?W. csz c \<noteq> 0"
    by (simp_all add: commit_pre_def)
  from h have g: "tg_ready vts (log_garbage lg) spec seals" and w: "wl_holds vts csz (log_writes lg) es"
    and r: "fdata (rl_data (log_reads lg)) = map Some rs"
    by (simp_all add: tx_holds_def rl_full_def)
  have v: "validate_reads_htm (log_reads lg) ?p (locks sh) = Inr (cells_valid ?p (locks sh) (set rs))"
    using p by (simp add: validate_reads_htm_def r rev_map validate_htm_loop_full validate_loop_iff
        valid_lockable_iff cells_valid_def is_locked_def)
  obtain st where wl: "write_and_lock_htm ?p (locks sh) (mem sh) NoParked es =
      Inr (if cells_valid ?p (locks sh) ?W then Some (st, toggled (locks sh) ?W, written (mem sh) es) else None)"
    and st: "st = HasParked \<longleftrightarrow> has_parked (locks sh) ?W"
    using write_and_lock_htm_eq [OF p wl_holds_facts [OF w] sz, of "locks sh" "mem sh" NoParked] by auto
  have can: "can_commit sh synch rs es \<longleftrightarrow> cells_valid ?p (locks sh) (set rs) \<and> cells_valid ?p (locks sh) ?W"
    by (auto simp: can_commit_def cells_valid_def)
  obtain r where "publish_and_seal vts (sh\<lparr>locks := toggled (locks sh) ?W, mem := written (mem sh) es\<rparr>)
      lg synch obs st = Inr r \<and> commit_succeeds vts csz sh es spec seals r"
    using publish_and_seal_eq [OF w g c _ _ _ st,
        where sh' = "sh\<lparr>locks := toggled (locks sh) ?W, mem := written (mem sh) es\<rparr>"] by auto
  then show ?thesis
    by (cases "cells_valid ?p (locks sh) (set rs)"; cases "cells_valid ?p (locks sh) ?W")
      (simp_all add: commit_hard_def v wl wl_entries_holds [OF w] can)
qed

lemma start_htx_Inr: "\<exists>r. start_htx htm codes lg = Inr r"
proof -
  have "bounded MAX_HTX_RETRIES (map codes [0..<Suc (unat MAX_HTX_RETRIES)]) 0 \<noteq> None"
    by (rule bounded_total) simp
  then show ?thesis by (auto simp: start_htx_def)
qed

text \<open>The decision, whatever the processor answers, for a write set that is not empty.\<close>

lemma succeeds_committed: "commit_succeeds vts csz sh es spec seals r \<Longrightarrow> committed r"
  by (simp add: commit_succeeds_def)

lemma fails_not_committed: "commit_fails vts csz sh es seals r \<Longrightarrow> \<not> committed r"
  by (simp add: commit_fails_def)

lemma commit_cases:
  assumes "commit_pre vts csz sh lg synch rs es spec seals" and ne: "es \<noteq> []"
  shows "\<exists>r. commit vts htm codes sh lg synch obs = Inr r \<and>
    (committed r \<longrightarrow> can_commit sh synch rs es \<and> commit_succeeds vts csz sh es spec seals r) \<and>
    (\<not> committed r \<longrightarrow> commit_fails vts csz sh es seals r) \<and>
    (\<not> htm \<longrightarrow> committed r = can_commit sh synch rs es)"
proof -
  from assms have h: "tx_holds vts csz lg rs es spec seals" by (simp add: commit_pre_def)
  then have w: "wl_holds vts csz (log_writes lg) es" and g: "tg_ready vts (log_garbage lg) spec seals"
    by (simp_all add: tx_holds_def)
  from w ne have empty: "\<not> wl_is_empty (log_writes lg)"
    by (simp add: wl_holds_def elems_of_words_def wl_is_empty_def)
  obtain rc res where start: "start_htx htm codes lg = Inr (rc, res)"
    using start_htx_Inr [of htm codes lg] by auto
  have soft: "\<not> htm \<Longrightarrow> res = Inl SoftwareFallback"
    using start by (simp add: start_htx_def)
  obtain r where r: "commit_soft vts sh lg synch obs = Inr r"
    and post: "if can_commit sh synch rs es then commit_succeeds vts csz sh es spec seals r
     else commit_fails vts csz sh es seals r"
    using commit_soft_eq [OF assms(1)] by blast
  obtain f where f: "commit_failed vts sh lg synch = Inr f" "commit_fails vts csz sh es seals f"
    using commit_failed_eq [OF w g] by blast
  note hard = commit_hard_eq [OF assms(1), of obs]
  show ?thesis
  proof (cases res)
    case (Inr u)
    then have htm: "htm" using soft by auto
    show ?thesis
      using empty start Inr hard f htm
      by (cases "can_commit sh synch rs es")
        (auto simp: commit_def commit_slow_def dest: succeeds_committed fails_not_committed)
  next
    case (Inl e)
    show ?thesis
    proof (cases e)
      case SoftwareFallback
      with empty start Inl r post show ?thesis
        by (cases "can_commit sh synch rs es")
          (auto simp: commit_def commit_slow_def dest: succeeds_committed fails_not_committed)
    next
      case AbortOrConflict
      then have htm: "htm" using soft Inl by auto
      show ?thesis
        using AbortOrConflict empty start Inl f htm
        by (auto simp: commit_def commit_slow_def dest: fails_not_committed)
    qed
  qed
qed

section \<open>Properties\<close>

text \<open>
  Property C7: the software commit is atomic and decides correctly. It succeeds exactly if every cell
  read and every cell written is unlocked and not newer than the pinned time. Then the
  shared state afterwards differs from the one before in exactly the written cells, which hold the
  pending values and are unlocked at the time after the tick, and in the clock; parked threads are
  woken exactly if a written cell had its unpark bit cleared; the logs are empty and the trash is
  sealed at the time before the tick (and possibly older batches collected). Otherwise the shared
  state is, bit for bit, the one before, whichever lock or read failed, the trash is forgotten
  and every pending value is dropped once.
\<close>

theorem commit_soft_atomic:
  assumes "commit_pre vts csz sh lg synch rs es spec seals"
  shows "\<exists>r. commit_soft vts sh lg synch obs = Inr r \<and>
    (if cells_valid (thread_epoch_get synch) (locks sh) (set rs \<union> set (live es))
     then committed r \<and>
       cr_shared r =
         \<lparr>locks = (\<lambda>c. if c \<in> set (live es) then clock sh + TICK_SIZE else locks sh c),
          mem = (\<lambda>c. case map_of (writes_of es) c of Some v \<Rightarrow> v | None \<Rightarrow> mem sh c),
          clock = clock sh + TICK_SIZE\<rparr> \<and>
       (cr_unpark r \<longleftrightarrow> (\<exists>c\<in>set (live es). \<not> unpark_bit_set (locks sh c))) \<and>
       validate_start_state (cr_logs r) \<and>
       (\<exists>batches rest. (if spec = [] then seals else seals @ [(QuiesceEpoch (clock sh), spec)]) = batches @ rest \<and>
          cr_dropped r = concat (map snd batches) \<and> tg_ready vts (log_garbage (cr_logs r)) [] rest)
     else \<not> committed r \<and> cr_shared r = sh \<and> \<not> cr_unpark r \<and> cr_dropped r = es \<and>
       validate_start_state (cr_logs r) \<and> tg_ready vts (log_garbage (cr_logs r)) [] seals)"
proof -
  obtain r where r: "commit_soft vts sh lg synch obs = Inr r"
    and post: "if can_commit sh synch rs es then commit_succeeds vts csz sh es spec seals r
     else commit_fails vts csz sh es seals r"
    using commit_soft_eq [OF assms] by blast
  have start: "tx_holds vts csz (cr_logs r) [] [] [] x \<Longrightarrow>
      validate_start_state (cr_logs r) \<and> tg_ready vts (log_garbage (cr_logs r)) [] x" for x
    by (auto simp: tx_holds_start) (simp add: tx_holds_def)
  show ?thesis
  proof (cases "can_commit sh synch rs es")
    case True
    with post obtain batches rest where
        "(if spec = [] then seals else seals @ [(QuiesceEpoch (clock sh), spec)]) = batches @ rest"
        "tx_holds vts csz (cr_logs r) [] [] [] rest" "cr_dropped r = concat (map snd batches)"
      and "committed r" "cr_shared r = after_commit sh es" "cr_unpark r \<longleftrightarrow> has_parked (locks sh) (set (live es))"
      unfolding commit_succeeds_def by auto
    with True r start show ?thesis
      unfolding can_commit_def by (auto simp: after_commit_def written_def has_parked_def fun_eq_iff)
  next
    case False
    with post r start [of seals] show ?thesis
      by (simp add: can_commit_def commit_fails_def)
  qed
qed

lemma one_write_holds:
  "\<exists>lg es. tx_holds (\<lambda>_. 2) (\<lambda>_. 1) lg [] es [] [] \<and> map_of (writes_of es) = [8 \<mapsto> [2]] \<and> live es \<noteq> []"
proof -
  obtain lg where lg: "tx_holds (\<lambda>_. 2) (\<lambda>_. 1) lg [] [] [] []"
    using new_logs_holds by blast
  let ?a = "\<lparr>entry_vt = 1, value_words = [2], lifetime = False, needs_drop = False, trash_vt = 0\<rparr>"
  have a: "set_arg_ok (\<lambda>_. 2) (\<lambda>_. 1) 8 ?a" by (simp add: set_arg_ok_def)
  have v: "rw_valid (QuiesceEpoch 5) ([1], 3)"
    by (simp add: rw_valid_def read_write_valid_lockable_def read_write_valid_def read_write_valid_raw_def)
  have l: "length (fst ([1 :: usize], 3 :: epoch_lock)) = 1" by simp
  obtain lg' d and r :: "error \<times> usize list + unit" where post: "case r of
       Inr u \<Rightarrow> \<exists>es' spec'. tx_holds (\<lambda>_. 2) (\<lambda>_. 1) lg' [] es' spec' [] \<and>
         set_ok (QuiesceEpoch 5) 8 ?a ([1], 3) ([1], 3) [] [] d es' spec'
     | Inl ev \<Rightarrow> ev = (CONFLICT, value_words ?a) \<and> d = [] \<and> set_failed (QuiesceEpoch 5) 8 ?a ([1], 3) [] lg lg'"
    using set_impl_holds [OF lg a l l, of "QuiesceEpoch 5"] by blast
  with v obtain es' spec' where "tx_holds (\<lambda>_. 2) (\<lambda>_. 1) lg' [] es' spec' []"
    and s: "set_ok (QuiesceEpoch 5) 8 ?a ([1], 3) ([1], 3) [] [] d es' spec'"
    by (cases r) (auto simp: set_failed_def)
  moreover from s have "spec' = []" "pending es' = [8 \<mapsto> [2]]"
    by (auto simp: set_ok_def trash_of_def)
  moreover from this(2) have "live es' \<noteq> []"
    using dom_writes_of [of es'] by auto
  ultimately show ?thesis by blast
qed

lemma commit_soft_atomic_witness:
  "\<exists>lg r. commit_soft (\<lambda>_. 2) \<lparr>locks = \<lambda>_. 3, mem = \<lambda>_. [1], clock = 5\<rparr> lg 5 [] = Inr r \<and> committed r \<and>
    mem (cr_shared r) 8 = [2] \<and> clock (cr_shared r) = 7"
proof -
  let ?sh = "\<lparr>locks = \<lambda>_. 3, mem = \<lambda>_. [1], clock = 5\<rparr>"
  obtain lg es where h: "tx_holds (\<lambda>_. 2) (\<lambda>_. 1) lg [] es [] []" "map_of (writes_of es) = [8 \<mapsto> [2]]"
    using one_write_holds by blast
  have ok: "time_ok (QuiesceEpoch 5)" "\<not> lock_bit_set (5 + TICK_SIZE)" "\<not> is_locked 3" "ver 3 \<le> ver 5"
    by (simp_all add: time_ok_def lock_bit_set_iff unpark_bit_set_iff_odd word_le_nat_alt unat_FIRST
        TICK_SIZE_def is_locked_def ver_eq)
  with h have pre: "commit_pre (\<lambda>_. 2) (\<lambda>_. 1) \<lparr>locks = \<lambda>_. 3, mem = \<lambda>_. [1], clock = 5\<rparr> lg 5 [] es [] []"
    by (simp add: commit_pre_def thread_epoch_get_def new_unchecked_def clock_ok_def)
  have "cells_valid (thread_epoch_get 5) (\<lambda>_. 3) (set [] \<union> set (live es))"
    using ok by (simp add: cells_valid_def thread_epoch_get_def new_unchecked_def)
  then have valid: "cells_valid (thread_epoch_get 5) (locks ?sh) (set [] \<union> set (live es))" by simp
  obtain r where "commit_soft (\<lambda>_. 2) ?sh lg 5 [] = Inr r" and "committed r"
    and "cr_shared r = \<lparr>locks = (\<lambda>c. if c \<in> set (live es) then clock ?sh + TICK_SIZE else locks ?sh c),
       mem = (\<lambda>c. case map_of (writes_of es) c of Some v \<Rightarrow> v | None \<Rightarrow> mem ?sh c),
       clock = clock ?sh + TICK_SIZE\<rparr>"
    using commit_soft_atomic [OF pre, of "[]", unfolded if_P [OF valid]] by blast
  then show ?thesis
    by (intro exI [of _ lg] exI [of _ r]) (simp add: h TICK_SIZE_def)
qed



text \<open>
  The commit entry point, whatever the processor answers. A write set is tried in hardware
  or in software, or is given up; the result is always a success, and then every read
  and written cell was valid and exactly the pending writes have been published, or a failure with
  the shared state unchanged. Without hardware support it succeeds whenever the cells are valid. A transaction
  without writes succeeds without looking at the shared state.
\<close>

theorem commit_all_or_nothing:
  assumes "commit_pre vts csz sh lg synch rs es spec seals"
  shows "\<exists>r. commit vts htm codes sh lg synch obs = Inr r \<and>
    (if es = [] then committed r \<and> cr_shared r = sh \<and> cr_dropped r = []
     else
       (committed r \<longrightarrow>
          cells_valid (thread_epoch_get synch) (locks sh) (set rs \<union> set (live es)) \<and>
          cr_shared r = after_commit sh es) \<and>
       (\<not> committed r \<longrightarrow> cr_shared r = sh \<and> cr_dropped r = es) \<and>
       (\<not> htm \<longrightarrow> committed r =
          cells_valid (thread_epoch_get synch) (locks sh) (set rs \<union> set (live es))))"
proof (cases "es = []")
  case True
  with assms have "wl_is_empty (log_writes lg)"
    by (simp add: commit_pre_def tx_holds_def wl_holds_def elems_of_words_def wl_is_empty_def)
  with True show ?thesis by (simp add: commit_def commit_empty_write_log_def)
next
  case False
  with commit_cases [OF assms False, of htm codes obs] show ?thesis
    by (auto simp: commit_succeeds_def commit_fails_def can_commit_def)
qed

lemma commit_all_or_nothing_witness:
  "\<exists>lg es r. es \<noteq> [] \<and>
    commit (\<lambda>_. 2) False (\<lambda>_. 0) \<lparr>locks = \<lambda>_. 3, mem = \<lambda>_. [1], clock = 5\<rparr> lg 5 [] = Inr r \<and>
    committed r \<and> cr_shared r = after_commit \<lparr>locks = \<lambda>_. 3, mem = \<lambda>_. [1], clock = 5\<rparr> es"
proof -
  obtain lg es where h: "tx_holds (\<lambda>_. 2) (\<lambda>_. 1) lg [] es [] []" "live es \<noteq> []"
    using one_write_holds by blast
  then have ne: "es \<noteq> []" by auto
  have ok: "time_ok (QuiesceEpoch 5)" "\<not> lock_bit_set (5 + TICK_SIZE)" "\<not> is_locked 3" "ver 3 \<le> ver 5"
    by (simp_all add: time_ok_def lock_bit_set_iff unpark_bit_set_iff_odd word_le_nat_alt unat_FIRST
        TICK_SIZE_def is_locked_def ver_eq)
  with h have pre: "commit_pre (\<lambda>_. 2) (\<lambda>_. 1) \<lparr>locks = \<lambda>_. 3, mem = \<lambda>_. [1], clock = 5\<rparr> lg 5 [] es [] []"
    by (simp add: commit_pre_def thread_epoch_get_def new_unchecked_def clock_ok_def)
  have "cells_valid (thread_epoch_get 5) (\<lambda>_. 3) (set [] \<union> set (live es))"
    using ok by (simp add: cells_valid_def thread_epoch_get_def new_unchecked_def)
  with commit_all_or_nothing [OF pre, of False "\<lambda>_. 0" "[]"] ne show ?thesis by auto
qed

end
