(* ===== verification/Parking_Lot.thy ===== *)
theory Parking_Lot
  imports Prelude
begin

text \<open>
  What \<open>src/internal/starvation.rs\<close> and \<open>src/internal/parking.rs\<close> rely on of the crate
  \<open>parking_lot_core\<close>: queues of parked threads. \<open>unpark_filter\<close> is a parameter of the
  models; the documented behaviour of that function is \<open>unpark_filter_spec\<close>: the filter is called for each thread of the
  queue, in order, until it answers \<open>Stop\<close>; threads it answers \<open>Unpark\<close> for leave the queue, and threads
  remain if it answered \<open>Skip\<close> or \<open>Stop\<close> for one. The filter is called with the bucket
  locked and may carry state, here explicit.
\<close>

datatype filter_op = Unpark | Skip | Stop

type_synonym ('t, 'acc) unpark_filter =
  "('acc \<Rightarrow> 't \<Rightarrow> filter_op \<times> 'acc) \<Rightarrow> 'acc \<Rightarrow> 't list \<Rightarrow> 't list \<times> 't list \<times> bool \<times> 'acc"

definition unpark_filter_spec :: "('t, 'acc) unpark_filter \<Rightarrow> bool" where
  "unpark_filter_spec uf \<longleftrightarrow>
     (\<forall>f a. uf f a [] = ([], [], False, a)) \<and>
     (\<forall>f a a' t q. f a t = (Stop, a') \<longrightarrow> uf f a (t # q) = ([], t # q, True, a')) \<and>
     (\<forall>f a a' t q us rs more b. f a t = (Skip, a') \<longrightarrow> uf f a' q = (us, rs, more, b) \<longrightarrow>
        uf f a (t # q) = (us, t # rs, True, b)) \<and>
     (\<forall>f a a' t q us rs more b. f a t = (Unpark, a') \<longrightarrow> uf f a' q = (us, rs, more, b) \<longrightarrow>
        uf f a (t # q) = (t # us, rs, more, b))"

text \<open>A function that behaves like this, for the witnesses.\<close>

fun unpark_scan :: "('t, 'acc) unpark_filter" where
  "unpark_scan f a [] = ([], [], False, a)"
| "unpark_scan f a (t # q) =
     (case f a t of
        (Stop, a') \<Rightarrow> ([], t # q, True, a')
      | (Skip, a') \<Rightarrow> (case unpark_scan f a' q of (us, rs, more, b) \<Rightarrow> (us, t # rs, True, b))
      | (Unpark, a') \<Rightarrow> (case unpark_scan f a' q of (us, rs, more, b) \<Rightarrow> (t # us, rs, more, b)))"

lemma unpark_scan_spec: "unpark_filter_spec unpark_scan"
  by (simp add: unpark_filter_spec_def)

text \<open>Every function of the documented behaviour is that one.\<close>

lemma unpark_filter_unique:
  assumes "unpark_filter_spec uf"
  shows "uf f a q = unpark_scan f a q"
proof (induction q arbitrary: a)
  case Nil
  with assms show ?case by (simp add: unpark_filter_spec_def)
next
  case (Cons t q)
  obtain op a' where f: "f a t = (op, a')" by fastforce
  obtain us rs more b where r: "unpark_scan f a' q = (us, rs, more, b)" by (metis prod_cases4)
  with Cons.IH have r': "uf f a' q = (us, rs, more, b)" by simp
  show ?case
    using assms f r r' by (cases op) (simp_all add: unpark_filter_spec_def)
qed

end
