(* ===== verification/Starvation.thy ===== *)
theory Starvation
  imports Epoch Parking_Lot
begin

text \<open>
  \<open>src/internal/starvation.rs\<close>: backing off, and what a thread does when backing off was not
  enough. \<open>Progress\<close> counts a thread's failures; a thread that has failed too often takes the global
  \<open>Starvation\<close> lock, which makes the commits of all others wait. The lock is a byte with a
  locked bit and a parked bit and a queue of parked threads; an unlock wakes sleepers up to the
  first one that is itself due, and hands the lock to that one.

  The first part is the code as functions of one thread's \<open>Progress\<close> and of the byte; the second
  part is all threads' accesses to the byte and the queue in every interleaving. The weak
  compare-exchanges may fail spuriously. Validating and going to sleep is one step, as is a
  pass of \<open>unpark_filter\<close> with its callback: both run with the bucket of the queue locked.
\<close>

section \<open>Progress\<close>

definition EPOCH_BUFFER_ROOM :: usize where
  "EPOCH_BUFFER_ROOM = 2"

definition inc_thread_estimate :: "usize \<Rightarrow> usize" where
  "inc_thread_estimate m = m + TICK_SIZE * EPOCH_BUFFER_ROOM"

definition dec_thread_estimate :: "usize \<Rightarrow> usize" where
  "dec_thread_estimate m = m - TICK_SIZE * EPOCH_BUFFER_ROOM"

definition SPIN_LIMIT :: nat where
  "SPIN_LIMIT = 6"

definition YIELD_LIMIT :: nat where
  "YIELD_LIMIT = 10"

text \<open>The \<open>u32\<close> counter \<open>backoff\<close> never exceeds \<open>YIELD_LIMIT + 1\<close> (shown below), so it is a \<open>nat\<close>.\<close>

datatype progress = NotStarving (first_failed_epoch: "quiesce_epoch option") (backoff: nat) | Starving

definition progress_new :: progress where
  "progress_new = NotStarving None 0"

text \<open>
  \<open>should_upgrade\<close>, with the two atomics it may read: the clock and \<open>MAX_ELAPSED_EPOCHS\<close>. The
  subtraction wraps, as in a release build.
\<close>

fun should_upgrade :: "epoch_clock \<Rightarrow> usize \<Rightarrow> progress \<Rightarrow> bool outcome" where
  "should_upgrade clock max_elapsed (NotStarving (Some epoch) b) =
     (if b \<ge> YIELD_LIMIT then Inr True
      else (case clock_now clock of
              None \<Rightarrow> Inl Abort
            | Some now \<Rightarrow> Inr (qget now - qget epoch \<ge> max_elapsed)))"
| "should_upgrade clock max_elapsed (NotStarving None b) = Inr False"
| "should_upgrade clock max_elapsed Starving = Inl Undefined"

text \<open>
  \<open>failed_to_progress\<close> up to the point where it may have to take the lock: how it waits, and the progress
  left behind, or \<open>None\<close> if the thread goes on to \<open>starve_lock\<close>.
\<close>

datatype wait = SpinLoop nat | YieldNow

fun failed_to_progress :: "usize \<Rightarrow> quiesce_epoch \<Rightarrow> progress \<Rightarrow> wait \<times> progress option" where
  "failed_to_progress max_elapsed epoch (NotStarving first b) =
     (if b \<le> YIELD_LIMIT then
        let first' = (case first of Some e \<Rightarrow> e | None \<Rightarrow> epoch) in
        if b \<le> SPIN_LIMIT then
          if qget epoch - qget first' \<ge> max_elapsed
          then (YieldNow, Some (NotStarving (Some first') (SPIN_LIMIT + 1)))
          else (SpinLoop (2 ^ b), Some (NotStarving (Some first') (b + 1)))
        else (YieldNow, Some (NotStarving (Some first') (b + 1)))
      else (YieldNow, None))"
| "failed_to_progress max_elapsed epoch Starving = (YieldNow, Some Starving)"

section \<open>The byte\<close>

type_synonym u8 = "8 word"

definition LOCKED_BIT :: u8 where
  "LOCKED_BIT = push_bit 0 1"

definition PARKED_BIT :: u8 where
  "PARKED_BIT = push_bit 1 1"

lemma bit_values: "LOCKED_BIT = 1" "PARKED_BIT = 2"
  by (simp_all add: LOCKED_BIT_def PARKED_BIT_def)

text \<open>
  The filter of \<open>starve_unlock_slow\<close> carries \<open>next_starved_token\<close>; a token names the thread.
  The result: who is unparked, who stays, the byte stored, and the token handed to all unparked threads
  (\<open>None\<close> is \<open>NO_STARVERS\<close>).
\<close>

definition starve_filter :: "('t \<Rightarrow> bool) \<Rightarrow> 't option \<Rightarrow> 't \<Rightarrow> filter_op \<times> 't option" where
  "starve_filter upgrade next t =
     (if next = None then (Unpark, if upgrade t then Some t else None) else (Stop, next))"

definition starve_unlock_slow ::
  "('t, 't option) unpark_filter \<Rightarrow> ('t \<Rightarrow> bool) \<Rightarrow> u8 \<Rightarrow> 't list \<Rightarrow> 't list \<times> 't list \<times> u8 \<times> 't option" where
  "starve_unlock_slow uf upgrade state queue =
     (case uf (starve_filter upgrade) None queue of
        (us, rs, more, next) \<Rightarrow>
          (us, rs, if \<not> more then (if next \<noteq> None then LOCKED_BIT else 0) else state, next))"

section \<open>All threads\<close>

type_synonym tid = nat

text \<open>Where a thread is in the code of this file; a \<open>Starver\<close> is in \<open>starve_lock\<close>, a \<open>Waiter\<close> in \<open>wait_for_starvers\<close>.\<close>

datatype role = Starver | Waiter

datatype sv_pc =
    Out
  | LockFast
  | WaitFast
  | Load role
  | Loop role u8
  | Park role
  | Asleep role
  | Woken role "tid option"
  | Acquired
  | UnlockFast
  | UnlockSlow

record sv =
  sv_state :: u8
  sv_queue :: "tid list"
  sv_max :: usize
  sv_clock :: epoch_clock
  sv_prog :: "tid \<Rightarrow> progress"
  sv_pc :: "tid \<Rightarrow> sv_pc"

abbreviation goto :: "sv \<Rightarrow> tid \<Rightarrow> sv_pc \<Rightarrow> sv" where
  "goto s t p \<equiv> s\<lparr>sv_pc := (sv_pc s)(t := p)\<rparr>"

abbreviation set_prog :: "sv \<Rightarrow> tid \<Rightarrow> progress \<Rightarrow> sv" where
  "set_prog s t p \<equiv> s\<lparr>sv_prog := (sv_prog s)(t := p)\<rparr>"

text \<open>Unparked threads continue with the token; the one the token names is made a starver (\<open>upgrade\<close>).\<close>

fun wake :: "sv_pc \<Rightarrow> tid option \<Rightarrow> sv_pc" where
  "wake (Asleep r) next = Woken r next"
| "wake p next = p"

definition wake_all :: "sv \<Rightarrow> tid list \<Rightarrow> tid option \<Rightarrow> sv" where
  "wake_all s us next =
     s\<lparr>sv_pc := (\<lambda>t. if t \<in> set us then wake (sv_pc s t) next else sv_pc s t),
       sv_prog := (case next of Some n \<Rightarrow> (sv_prog s)(n := Starving) | None \<Rightarrow> sv_prog s)\<rparr>"

inductive sv_step :: "(tid, tid option) unpark_filter \<Rightarrow> sv \<Rightarrow> sv \<Rightarrow> bool" for uf where
  failed_backoff: "\<lbrakk>sv_pc s t = Out; failed_to_progress (sv_max s) epoch (sv_prog s t) = (w, Some p)\<rbrakk> \<Longrightarrow>
    sv_step uf s (set_prog s t p)"
| failed_starving: "\<lbrakk>sv_pc s t = Out; failed_to_progress (sv_max s) epoch (sv_prog s t) = (w, None)\<rbrakk> \<Longrightarrow>
    sv_step uf s (goto s t LockFast)"
| wait_call: "\<lbrakk>sv_pc s t = Out; sv_prog s t \<noteq> Starving\<rbrakk> \<Longrightarrow> sv_step uf s (goto s t WaitFast)"
| progressed_reset: "\<lbrakk>sv_pc s t = Out; sv_prog s t = NotStarving (Some e) b\<rbrakk> \<Longrightarrow>
    sv_step uf s (set_prog s t progress_new)"
| progressed_starving: "\<lbrakk>sv_pc s t = Out; sv_prog s t = Starving\<rbrakk> \<Longrightarrow> sv_step uf s (goto s t UnlockFast)"
| lock_fast: "\<lbrakk>sv_pc s t = LockFast; sv_state s = 0\<rbrakk> \<Longrightarrow>
    sv_step uf s (goto (s\<lparr>sv_state := LOCKED_BIT\<rparr>) t Acquired)"
| lock_fast_err: "sv_pc s t = LockFast \<Longrightarrow> sv_step uf s (goto s t (Load Starver))"
| wait_fast: "\<lbrakk>sv_pc s t = WaitFast; sv_state s = 0\<rbrakk> \<Longrightarrow> sv_step uf s (goto s t Out)"
| wait_slow: "\<lbrakk>sv_pc s t = WaitFast; sv_state s \<noteq> 0\<rbrakk> \<Longrightarrow> sv_step uf s (goto s t (Load Waiter))"
| load: "sv_pc s t = Load r \<Longrightarrow> sv_step uf s (goto s t (Loop r (sv_state s)))"
| loop_lock: "\<lbrakk>sv_pc s t = Loop Starver 0; sv_state s = 0\<rbrakk> \<Longrightarrow>
    sv_step uf s (goto (s\<lparr>sv_state := LOCKED_BIT\<rparr>) t Acquired)"
| loop_lock_err: "sv_pc s t = Loop Starver 0 \<Longrightarrow> sv_step uf s (goto s t (Loop Starver (sv_state s)))"
| loop_free: "sv_pc s t = Loop Waiter 0 \<Longrightarrow> sv_step uf s (goto s t Out)"
| loop_set: "\<lbrakk>sv_pc s t = Loop r w; w \<noteq> 0; w AND PARKED_BIT = 0; sv_state s = w\<rbrakk> \<Longrightarrow>
    sv_step uf s (goto (s\<lparr>sv_state := w OR PARKED_BIT\<rparr>) t (Park r))"
| loop_set_err: "\<lbrakk>sv_pc s t = Loop r w; w \<noteq> 0; w AND PARKED_BIT = 0\<rbrakk> \<Longrightarrow>
    sv_step uf s (goto s t (Loop r (sv_state s)))"
| loop_park: "\<lbrakk>sv_pc s t = Loop r w; w \<noteq> 0; w AND PARKED_BIT \<noteq> 0\<rbrakk> \<Longrightarrow> sv_step uf s (goto s t (Park r))"
| park_sleep: "\<lbrakk>sv_pc s t = Park r; sv_state s AND PARKED_BIT \<noteq> 0\<rbrakk> \<Longrightarrow>
    sv_step uf s (goto (s\<lparr>sv_queue := sv_queue s @ [t]\<rparr>) t (Asleep r))"
| park_invalid: "\<lbrakk>sv_pc s t = Park r; sv_state s AND PARKED_BIT = 0\<rbrakk> \<Longrightarrow> sv_step uf s (goto s t (Load r))"
| woken_starver: "sv_pc s t = Woken Starver tok \<Longrightarrow> sv_step uf s (goto s t Acquired)"
| woken_waiter: "\<lbrakk>sv_pc s t = Woken Waiter tok; tok = None \<or> tok = Some t\<rbrakk> \<Longrightarrow> sv_step uf s (goto s t Out)"
| woken_other: "\<lbrakk>sv_pc s t = Woken Waiter (Some u); u \<noteq> t\<rbrakk> \<Longrightarrow> sv_step uf s (goto s t (Load Waiter))"
| acquired: "sv_pc s t = Acquired \<Longrightarrow> sv_step uf s (goto (set_prog s t Starving) t Out)"
| unlock_fast: "\<lbrakk>sv_pc s t = UnlockFast; sv_state s = LOCKED_BIT\<rbrakk> \<Longrightarrow>
    sv_step uf s (goto (set_prog (s\<lparr>sv_state := 0\<rparr>) t progress_new) t Out)"
| unlock_fast_err: "\<lbrakk>sv_pc s t = UnlockFast; sv_state s \<noteq> LOCKED_BIT\<rbrakk> \<Longrightarrow> sv_step uf s (goto s t UnlockSlow)"
| unlock_slow: "\<lbrakk>sv_pc s t = UnlockSlow;
      \<forall>u. upgrade u = (should_upgrade (sv_clock s) (sv_max s) (sv_prog s u) = Inr True);
      starve_unlock_slow uf upgrade (sv_state s) (sv_queue s) = (us, rs, w, next)\<rbrakk> \<Longrightarrow>
    sv_step uf s (goto (set_prog (wake_all (s\<lparr>sv_state := w, sv_queue := rs\<rparr>) us next) t progress_new) t Out)"
| clock: "sv_step uf s (s\<lparr>sv_clock := snd (fetch_and_tick (sv_clock s))\<rparr>)"
| estimate: "m = inc_thread_estimate (sv_max s) \<or> m = dec_thread_estimate (sv_max s) \<Longrightarrow> sv_step uf s (s\<lparr>sv_max := m\<rparr>)"

definition sv_init :: "sv \<Rightarrow> bool" where
  "sv_init s \<longleftrightarrow> sv_state s = 0 \<and> sv_queue s = [] \<and> sv_clock s = epoch_clock_new \<and> sv_max s = 0 \<and>
     sv_prog s = (\<lambda>_. progress_new) \<and> sv_pc s = (\<lambda>_. Out)"

end
