(* ===== verification/Starvation_Proofs.thy ===== *)
theory Starvation_Proofs
  imports Starvation
begin

text \<open>
  The starvation lock of theory \<open>Starvation\<close>: one owner at a time, no lost wake-ups, hand-off to the
  first sleeper that is due, and a bound on the failures before a thread asks for it.
\<close>

section \<open>One pass of an unlock\<close>

lemma starve_filter_simps [simp]:
  "starve_filter up None t = (Unpark, if up t then Some t else None)"
  "starve_filter up (Some x) t = (Stop, Some x)"
  by (simp_all add: starve_filter_def)

lemma unlock_scan:
  "unpark_scan (starve_filter up) None q = (us, rs, mo, next) \<Longrightarrow>
     q = us @ rs \<and> (mo \<longleftrightarrow> rs \<noteq> []) \<and>
     (case next of None \<Rightarrow> rs = [] \<and> (\<forall>u\<in>set us. \<not> up u)
      | Some n \<Rightarrow> us \<noteq> [] \<and> n = last us \<and> up n \<and> (\<forall>u\<in>set (butlast us). \<not> up u))"
proof (induction q arbitrary: us rs mo)
  case Nil
  then show ?case by auto
next
  case (Cons t q)
  obtain us' rs' mo' next' where r: "unpark_scan (starve_filter up) None q = (us', rs', mo', next')"
    by (metis prod_cases4)
  show ?case
  proof (cases "up t")
    case True
    have "unpark_scan (starve_filter up) (Some t) q = ([], q, q \<noteq> [], Some t)"
      by (cases q) simp_all
    with Cons.prems True show ?thesis by auto
  next
    case False
    with Cons.prems r have "us = t # us'" "rs' = rs" "mo' = mo" "next' = next"
      by auto
    with Cons.IH [OF r [unfolded \<open>next' = next\<close>]] False show ?thesis by (auto split: option.splits)
  qed
qed

lemma unlock_slow_result:
  assumes "unpark_filter_spec uf" and "starve_unlock_slow uf up w q = (us, rs, w', next)"
  shows "q = us @ rs" and "next = None \<Longrightarrow> rs = [] \<and> w' = 0 \<and> (\<forall>u\<in>set us. \<not> up u)"
    and "next = Some n \<Longrightarrow> n \<in> set us \<and> n = last us \<and> up n \<and> (\<forall>u\<in>set (butlast us). \<not> up u) \<and>
      w' = (if rs = [] then LOCKED_BIT else w)"
proof -
  obtain mo where s: "unpark_scan (starve_filter up) None q = (us, rs, mo, next)"
    and w: "w' = (if \<not> mo then (if next \<noteq> None then LOCKED_BIT else 0) else w)"
    using assms(2) by (auto simp: starve_unlock_slow_def unpark_filter_unique [OF assms(1)] split: prod.splits)
  note f = unlock_scan [OF s]
  show "q = us @ rs" using f by blast
  show "rs = [] \<and> w' = 0 \<and> (\<forall>u\<in>set us. \<not> up u)" if "next = None"
    using f w that by auto
  show "n \<in> set us \<and> n = last us \<and> up n \<and> (\<forall>u\<in>set (butlast us). \<not> up u) \<and>
      w' = (if rs = [] then LOCKED_BIT else w)" if "next = Some n"
    using f w that by auto
qed

section \<open>The invariant\<close>

fun prog_ok :: "progress \<Rightarrow> bool" where
  "prog_ok (NotStarving first b) \<longleftrightarrow> b \<le> YIELD_LIMIT + 1 \<and> (first = None \<longrightarrow> b = 0)"
| "prog_ok Starving = True"

text \<open>A thread that is due: it has failed often enough to take the lock.\<close>

fun due :: "progress \<Rightarrow> bool" where
  "due (NotStarving first b) \<longleftrightarrow> b = YIELD_LIMIT + 1 \<and> first \<noteq> None"
| "due Starving = False"

fun role_ok :: "role \<Rightarrow> progress \<Rightarrow> bool" where
  "role_ok Starver p = due p"
| "role_ok Waiter p \<longleftrightarrow> p \<noteq> Starving \<and> prog_ok p"

fun place_ok :: "tid \<Rightarrow> progress \<Rightarrow> sv_pc \<Rightarrow> bool" where
  "place_ok t p Out = prog_ok p"
| "place_ok t p LockFast = due p"
| "place_ok t p WaitFast = role_ok Waiter p"
| "place_ok t p (Load r) = role_ok r p"
| "place_ok t p (Loop r w) \<longleftrightarrow> role_ok r p \<and> w \<in> {0, 1, 3}"
| "place_ok t p (Park r) = role_ok r p"
| "place_ok t p (Asleep r) = role_ok r p"
| "place_ok t p (Woken r tok) \<longleftrightarrow> (if tok = Some t then p = Starving else r = Waiter \<and> role_ok Waiter p)"
| "place_ok t p Acquired \<longleftrightarrow> due p \<or> p = Starving"
| "place_ok t p UnlockFast \<longleftrightarrow> p = Starving"
| "place_ok t p UnlockSlow \<longleftrightarrow> p = Starving"

definition owner :: "sv \<Rightarrow> tid \<Rightarrow> bool" where
  "owner s t \<longleftrightarrow> sv_prog s t = Starving \<or> sv_pc s t = Acquired"

definition sv_inv :: "sv \<Rightarrow> bool" where
  "sv_inv s \<longleftrightarrow>
     sv_state s \<in> {0, 1, 3} \<and> (sv_state s \<noteq> 3 \<longrightarrow> sv_queue s = []) \<and>
     distinct (sv_queue s) \<and> (\<forall>t. t \<in> set (sv_queue s) \<longleftrightarrow> (\<exists>r. sv_pc s t = Asleep r)) \<and>
     (sv_state s = 0 \<longrightarrow> (\<forall>t. \<not> owner s t)) \<and> (sv_state s \<noteq> 0 \<longrightarrow> (\<exists>!t. owner s t)) \<and>
     (\<forall>t. place_ok t (sv_prog s t) (sv_pc s t)) \<and>
     (\<forall>t. sv_pc s t = UnlockSlow \<longrightarrow> sv_state s = 3)"

text \<open>Steps of one thread that neither sleep nor wake, and change neither byte nor ownership.\<close>

lemma sv_inv_local:
  assumes i: "sv_inv s" and p: "place_ok t p' pc'" and a: "\<And>r. sv_pc s t \<noteq> Asleep r" "\<And>r. pc' \<noteq> Asleep r"
    and o: "(p' = Starving \<or> pc' = Acquired) = owner s t"
    and u: "pc' = UnlockSlow \<Longrightarrow> sv_state s = 3"
    and s': "sv_state s' = sv_state s" "sv_queue s' = sv_queue s" "sv_prog s' = (sv_prog s)(t := p')"
      "sv_pc s' = (sv_pc s)(t := pc')"
  shows "sv_inv s'"
proof -
  have ow: "owner s' u = owner s u" for u
    using o by (simp add: owner_def s')
  show ?thesis
    using i p a u unfolding sv_inv_def s' ow by auto
qed

lemma owner_upd: "owner (goto s t p) u = (if u = t then sv_prog s t = Starving \<or> p = Acquired else owner s u)"
  by (simp add: owner_def)

lemma sv_placeD: "sv_inv s \<Longrightarrow> place_ok t (sv_prog s t) (sv_pc s t)"
  by (simp add: sv_inv_def)

lemma state_bits: "w \<in> {0, 1, 3 :: u8} \<Longrightarrow> (w AND PARKED_BIT = 0) = (w \<noteq> 3)"
  "w \<in> {0, 1, 3 :: u8} \<Longrightarrow> w \<noteq> 0 \<Longrightarrow> w OR PARKED_BIT = 3"
  "w \<in> {0, 1, 3 :: u8} \<Longrightarrow> (w AND LOCKED_BIT = 0) = (w = 0)"
  by (auto simp: bit_values)

text \<open>Taking the free lock.\<close>

lemma sv_inv_take:
  assumes i: "sv_inv s" and z: "sv_state s = 0" and p: "due (sv_prog s t)" and a: "\<And>r. sv_pc s t \<noteq> Asleep r"
  shows "sv_inv (goto (s\<lparr>sv_state := LOCKED_BIT\<rparr>) t Acquired)" (is "sv_inv ?s")
proof -
  have none: "\<not> owner s u" for u using i z by (simp add: sv_inv_def)
  have ow: "owner ?s u = (u = t)" for u
    using none [of u] by (auto simp: owner_def)
  have q: "sv_queue s = []" using i z by (auto simp: sv_inv_def)
  have na: "sv_pc s u \<noteq> Asleep r" for u r using i q by (auto simp: sv_inv_def)
  have "sv_pc s u \<noteq> UnlockSlow" for u using i z by (auto simp: sv_inv_def)
  then show ?thesis
    using sv_placeD [OF i] p na q unfolding sv_inv_def ow by (auto simp: bit_values)
qed

text \<open>Announcing a sleeper, and going to sleep.\<close>

lemma sv_inv_set_parked:
  assumes i: "sv_inv s" and pc: "sv_pc s t = Loop r w" "w \<noteq> 0" "w AND PARKED_BIT = 0" "sv_state s = w"
  shows "sv_inv (goto (s\<lparr>sv_state := w OR PARKED_BIT\<rparr>) t (Park r))" (is "sv_inv ?s")
proof -
  have st: "sv_state s \<in> {0, 1, 3}" using i by (simp add: sv_inv_def)
  with pc have one: "sv_state s = 1" "w OR PARKED_BIT = 3" using state_bits(1,2) [OF st] by auto
  have ow: "owner ?s u = owner s u" for u using pc(1) by (auto simp: owner_def)
  have "sv_queue s = []" using i one by (auto simp: sv_inv_def)
  then show ?thesis
    using i pc(1) one sv_placeD [OF i, of t] unfolding sv_inv_def ow by auto
qed

lemma sv_inv_sleep:
  assumes i: "sv_inv s" and pc: "sv_pc s t = Park r" "sv_state s AND PARKED_BIT \<noteq> 0"
  shows "sv_inv (goto (s\<lparr>sv_queue := sv_queue s @ [t]\<rparr>) t (Asleep r))" (is "sv_inv ?s")
proof -
  have st: "sv_state s \<in> {0, 1, 3}" using i by (simp add: sv_inv_def)
  with pc(2) have three: "sv_state s = 3" using state_bits(1) [OF st] by blast
  have ow: "owner ?s u = owner s u" for u using pc(1) by (auto simp: owner_def)
  have "t \<notin> set (sv_queue s)" using i pc(1) by (simp add: sv_inv_def)
  then show ?thesis
    using i pc(1) three sv_placeD [OF i, of t] unfolding sv_inv_def ow by auto
qed

text \<open>The two unlocks.\<close>

lemma sv_inv_unlock_fast:
  assumes i: "sv_inv s" and pc: "sv_pc s t = UnlockFast" "sv_state s = LOCKED_BIT"
  shows "sv_inv (goto (set_prog (s\<lparr>sv_state := 0\<rparr>) t progress_new) t Out)" (is "sv_inv ?s")
proof -
  have "sv_prog s t = Starving" using sv_placeD [OF i, of t] pc(1) by simp
  then have "owner s t" by (simp add: owner_def)
  moreover have "\<exists>!u. owner s u" using i pc(2) by (simp add: sv_inv_def bit_values)
  ultimately have "\<not> owner s u" if "u \<noteq> t" for u using that by blast
  then have ow: "\<not> owner ?s u" for u by (auto simp: owner_def progress_new_def)
  have q: "sv_queue s = []" using i pc(2) by (auto simp: sv_inv_def bit_values)
  have na: "sv_pc s u \<noteq> Asleep r" for u r using i q by (auto simp: sv_inv_def)
  have "sv_pc s u \<noteq> UnlockSlow" for u using i pc(2) by (auto simp: sv_inv_def bit_values)
  then show ?thesis
    using sv_placeD [OF i] ow na q by (auto simp: sv_inv_def progress_new_def)
qed

lemma wake_all_sel [simp]:
  "sv_pc (wake_all s us next) u = (if u \<in> set us then wake (sv_pc s u) next else sv_pc s u)"
  "sv_prog (wake_all s us next) u = (if next = Some u then Starving else sv_prog s u)"
  "sv_state (wake_all s us next) = sv_state s" "sv_queue (wake_all s us next) = sv_queue s"
  by (simp_all add: wake_all_def split: option.splits)

lemma due_upgrade: "due p \<Longrightarrow> should_upgrade clock mx p = Inr True"
  by (cases p; cases "first_failed_epoch p") (auto split: if_splits)


lemma sv_inv_unlock_slow:
  assumes spec: "unpark_filter_spec uf" and i: "sv_inv s" and pc: "sv_pc s t = UnlockSlow"
    and up: "\<forall>u. up u = (should_upgrade (sv_clock s) (sv_max s) (sv_prog s u) = Inr True)"
    and ul: "starve_unlock_slow uf up (sv_state s) (sv_queue s) = (us, rs, w, next)"
  shows "sv_inv (goto (set_prog (wake_all (s\<lparr>sv_state := w, sv_queue := rs\<rparr>) us next) t progress_new) t Out)"
    (is "sv_inv ?s")
proof -
  note r = unlock_slow_result [OF spec ul]
  have st: "sv_state s = 3" using i pc unfolding sv_inv_def by blast
  have q: "sv_queue s = us @ rs" by (rule r(1))
  have dq: "distinct (us @ rs)" and asl: "\<And>u. u \<in> set (us @ rs) \<longleftrightarrow> (\<exists>r. sv_pc s u = Asleep r)"
    using i unfolding sv_inv_def q by blast+
  have tq: "t \<notin> set (us @ rs)" using asl [of t] pc by simp
  have ps: "sv_prog s t = Starving" using sv_placeD [OF i, of t] pc by simp
  then have own: "owner s t" by (simp add: owner_def)
  have "\<exists>!u. owner s u" using i st by (simp add: sv_inv_def)
  with own have others: "\<not> owner s u" if "u \<noteq> t" for u using that by blast
  have nS: "sv_prog s u \<noteq> Starving" "sv_pc s u \<noteq> Acquired" if "u \<noteq> t" for u
    using others [OF that] by (auto simp: owner_def)
  have pcs: "sv_pc ?s u = (if u = t then Out else if u \<in> set us then wake (sv_pc s u) next else sv_pc s u)" for u
    by (simp add: wake_all_def)
  have us_pc: "\<exists>r. sv_pc s u = Asleep r \<and> sv_pc ?s u = Woken r next \<and> role_ok r (sv_prog s u)" if u: "u \<in> set us" for u
  proof -
    obtain r where r: "sv_pc s u = Asleep r" using asl [of u] u by auto
    moreover have "u \<noteq> t" using u tq by auto
    ultimately show ?thesis using sv_placeD [OF i, of u] u by (simp add: wake_all_def)
  qed
  have starver: "up u" if "due (sv_prog s u)" for u
    using up due_upgrade [OF that] by simp
  have slow: "sv_pc ?s u \<noteq> UnlockSlow" for u
    using nS(1) [of u] sv_placeD [OF i, of u] us_pc [of u] by (cases "u \<in> set us") auto
  have asl': "(u \<in> set rs) = (\<exists>r. sv_pc ?s u = Asleep r)" for u
  proof (cases "u \<in> set us")
    case True
    then show ?thesis using us_pc [OF True] dq by auto
  next
    case False
    then show ?thesis using asl [of u] tq pcs [of u] by auto
  qed
  show ?thesis
  proof (cases "next")
    case None
    note r = r(2) [OF None]
    have pr: "sv_prog ?s u = (if u = t then progress_new else sv_prog s u)" for u
      using None by (simp add: wake_all_def)
    have no: "\<not> owner ?s u" for u
      using nS [of u] us_pc [of u] None unfolding owner_def pr by (auto simp: pcs progress_new_def split: if_splits)
    have "place_ok u (sv_prog ?s u) (sv_pc ?s u)" for u
    proof (cases "u = t")
      case True
      then show ?thesis by (simp add: pr pcs progress_new_def)
    next
      case False
      show ?thesis
      proof (cases "u \<in> set us")
        case True
        obtain ro where ro: "sv_pc ?s u = Woken ro None" "role_ok ro (sv_prog s u)"
          using us_pc [OF True] None by auto
        moreover have "\<not> up u" using r True by blast
        ultimately have "ro = Waiter" using starver [of u] by (cases ro) auto
        with ro False None True show ?thesis by simp
      next
        case nus: False
        then show ?thesis using False None sv_placeD [OF i, of u] by simp
      qed
    qed
    then show ?thesis
      unfolding sv_inv_def using no slow asl' r by (simp add: wake_all_def)
  next
    case (Some n)
    note r = r(3) [OF Some]
    have nt: "n \<noteq> t" using r tq by auto
    have pr: "sv_prog ?s u = (if u = t then progress_new else if u = n then Starving else sv_prog s u)" for u
      using Some by (simp add: wake_all_def)
    obtain ro where n: "sv_pc ?s n = Woken ro (Some n)" using us_pc [of n] r Some by auto
    have ow: "owner ?s u = (u = n)" for u
      using nS [of u] us_pc [of u] nt Some unfolding owner_def pr by (auto simp: pcs progress_new_def split: if_splits)
    have "place_ok u (sv_prog ?s u) (sv_pc ?s u)" for u
    proof (cases "u = t \<or> u = n")
      case True
      then show ?thesis using n nt Some by (auto simp: progress_new_def)
    next
      case False
      show ?thesis
      proof (cases "u \<in> set us")
        case True
        obtain ro where ro: "sv_pc ?s u = Woken ro (Some n)" "role_ok ro (sv_prog s u)"
          using us_pc [OF True] Some by auto
        have "u \<in> set (butlast us)" using True False r in_set_conv_decomp_last [of u us]
          by (metis append_butlast_last_id empty_iff list.set(1) rotate1.simps(2) set_ConsD set_rotate1)
        then have "\<not> up u" using r by blast
        with ro(2) have "ro = Waiter" using starver [of u] by (cases ro) auto
        with ro False Some True show ?thesis by simp
      next
        case nus: False
        then show ?thesis using False Some sv_placeD [OF i, of u] by simp
      qed
    qed
    moreover have "sv_state ?s = (if rs = [] then 1 else 3)" "sv_queue ?s = rs"
      using r st by (simp_all add: wake_all_def bit_values)
    ultimately have pl: "\<And>u. place_ok u (sv_prog ?s u) (sv_pc ?s u)"
      and ss: "sv_state ?s = (if rs = [] then 1 else 3)" "sv_queue ?s = rs" by blast+
    have "sv_state ?s \<in> {0, 1, 3} \<and> (sv_state ?s \<noteq> 3 \<longrightarrow> rs = []) \<and> sv_state ?s \<noteq> 0"
      unfolding ss by simp
    moreover have "distinct rs" using dq by simp
    ultimately show ?thesis
      unfolding sv_inv_def ow ss(2) using pl slow asl' by blast
  qed
qed

section \<open>The invariant is inductive\<close>

lemma sv_inv_init: "sv_init s \<Longrightarrow> sv_inv s"
  by (auto simp: sv_init_def sv_inv_def owner_def progress_new_def)

lemma failed_place:
  assumes "failed_to_progress mx e p = (w, r)" and "prog_ok p"
  shows "case r of None \<Rightarrow> due p | Some p' \<Rightarrow> prog_ok p' \<and> (p' = Starving \<longleftrightarrow> p = Starving)"
  using assms
  by (cases p) (auto simp: SPIN_LIMIT_def YIELD_LIMIT_def Let_def split: if_splits option.splits)

lemma sv_inv_shared:
  "sv_inv s \<Longrightarrow> sv_state s' = sv_state s \<Longrightarrow> sv_queue s' = sv_queue s \<Longrightarrow> sv_prog s' = sv_prog s \<Longrightarrow>
     sv_pc s' = sv_pc s \<Longrightarrow> sv_inv s'"
  by (simp add: sv_inv_def owner_def)


lemma sv_inv_step:
  assumes spec: "unpark_filter_spec uf" and i: "sv_inv s" and step: "sv_step uf s s'"
  shows "sv_inv s'"
  using step
proof cases
  case (failed_backoff t epoch w p)
  then have "prog_ok p \<and> (p = Starving \<longleftrightarrow> sv_prog s t = Starving)"
    using failed_place [OF failed_backoff(3)] sv_placeD [OF i, of t] by simp
  then show ?thesis
    using failed_backoff by (intro sv_inv_local [OF i, of t p Out]) (auto simp: owner_def)
next
  case (failed_starving t epoch w)
  then have "due (sv_prog s t)"
    using failed_place [OF failed_starving(3)] sv_placeD [OF i, of t] by simp
  then show ?thesis
    using failed_starving by (intro sv_inv_local [OF i, of t "sv_prog s t" LockFast]) (auto simp: owner_def)
next
  case (wait_call t)
  then show ?thesis using sv_placeD [OF i, of t]
    by (intro sv_inv_local [OF i, of t "sv_prog s t" WaitFast]) (auto simp: owner_def)
next
  case (progressed_reset t e b)
  then show ?thesis
    by (intro sv_inv_local [OF i, of t progress_new Out]) (auto simp: owner_def progress_new_def)
next
  case (progressed_starving t)
  then show ?thesis
    by (intro sv_inv_local [OF i, of t "sv_prog s t" UnlockFast]) (auto simp: owner_def)
next
  case (lock_fast t)
  then show ?thesis using sv_placeD [OF i, of t] sv_inv_take [OF i] by auto
next
  case (lock_fast_err t)
  then show ?thesis using sv_placeD [OF i, of t]
    by (intro sv_inv_local [OF i, of t "sv_prog s t" "Load Starver"]) (auto simp: owner_def)
next
  case (wait_fast t)
  then show ?thesis using sv_placeD [OF i, of t]
    by (intro sv_inv_local [OF i, of t "sv_prog s t" Out]) (auto simp: owner_def)
next
  case (wait_slow t)
  then show ?thesis using sv_placeD [OF i, of t]
    by (intro sv_inv_local [OF i, of t "sv_prog s t" "Load Waiter"]) (auto simp: owner_def)
next
  case (load t r)
  moreover have "sv_state s \<in> {0, 1, 3}" using i by (simp add: sv_inv_def)
  ultimately show ?thesis using sv_placeD [OF i, of t]
    by (intro sv_inv_local [OF i, of t "sv_prog s t" "Loop r (sv_state s)"]) (auto simp: owner_def)
next
  case (loop_lock t)
  then show ?thesis using sv_placeD [OF i, of t] sv_inv_take [OF i] by auto
next
  case (loop_lock_err t)
  moreover have "sv_state s \<in> {0, 1, 3}" using i by (simp add: sv_inv_def)
  ultimately show ?thesis using sv_placeD [OF i, of t]
    by (intro sv_inv_local [OF i, of t "sv_prog s t" "Loop Starver (sv_state s)"]) (auto simp: owner_def)
next
  case (loop_free t)
  then show ?thesis using sv_placeD [OF i, of t]
    by (intro sv_inv_local [OF i, of t "sv_prog s t" Out]) (auto simp: owner_def)
next
  case (loop_set t r w)
  then show ?thesis using sv_inv_set_parked [OF i] by simp
next
  case (loop_set_err t r w)
  moreover have "sv_state s \<in> {0, 1, 3}" using i by (simp add: sv_inv_def)
  ultimately show ?thesis using sv_placeD [OF i, of t]
    by (intro sv_inv_local [OF i, of t "sv_prog s t" "Loop r (sv_state s)"]) (auto simp: owner_def)
next
  case (loop_park t r w)
  then show ?thesis using sv_placeD [OF i, of t]
    by (intro sv_inv_local [OF i, of t "sv_prog s t" "Park r"]) (auto simp: owner_def)
next
  case (park_sleep t r)
  then show ?thesis using sv_inv_sleep [OF i] by simp
next
  case (park_invalid t r)
  then show ?thesis using sv_placeD [OF i, of t]
    by (intro sv_inv_local [OF i, of t "sv_prog s t" "Load r"]) (auto simp: owner_def)
next
  case (woken_starver t tok)
  then show ?thesis using sv_placeD [OF i, of t]
    by (intro sv_inv_local [OF i, of t "sv_prog s t" Acquired]) (auto simp: owner_def split: if_splits)
next
  case (woken_waiter t tok)
  then show ?thesis using sv_placeD [OF i, of t]
    by (intro sv_inv_local [OF i, of t "sv_prog s t" Out]) (auto simp: owner_def)
next
  case (woken_other t u)
  then show ?thesis using sv_placeD [OF i, of t]
    by (intro sv_inv_local [OF i, of t "sv_prog s t" "Load Waiter"]) (auto simp: owner_def)
next
  case (acquired t)
  then show ?thesis
    by (intro sv_inv_local [OF i, of t Starving Out]) (auto simp: owner_def)
next
  case (unlock_fast t)
  then show ?thesis using sv_inv_unlock_fast [OF i] by simp
next
  case (unlock_fast_err t)
  then have "sv_prog s t = Starving" using sv_placeD [OF i, of t] by simp
  moreover from this have "sv_state s \<noteq> 0" using i by (auto simp: sv_inv_def owner_def)
  ultimately have "sv_state s = 3 \<and> sv_prog s t = Starving" using i unlock_fast_err by (auto simp: sv_inv_def bit_values)
  then show ?thesis using unlock_fast_err
    by (intro sv_inv_local [OF i, of t "sv_prog s t" UnlockSlow]) (auto simp: owner_def)
next
  case (unlock_slow t up us rs w "next")
  then show ?thesis using sv_inv_unlock_slow [OF spec i] by simp
next
  case clock
  then show ?thesis by (intro sv_inv_shared [OF i]) simp_all
next
  case (estimate m)
  then show ?thesis by (intro sv_inv_shared [OF i]) simp_all
qed

text \<open>
  A system whose \<open>unpark_filter\<close> does not behave as documented makes no steps here: so the step
  relation below has no further hypothesis.
\<close>

interpretation sv: protocol sv_init "\<lambda>s s'. unpark_filter_spec uf \<and> sv_step uf s s'" sv_inv for uf
  by unfold_locales (auto intro: sv_inv_init sv_inv_step)

lemma sv_reach_inv:
  assumes "unpark_filter_spec uf" and "reach sv_init (sv_step uf) s"
  shows "sv_inv s"
proof (rule sv.inv_reach)
  show "reach sv_init (\<lambda>s s'. unpark_filter_spec uf \<and> sv_step uf s s') s"
    using assms(2) by (induction rule: reach.induct) (auto intro: reach.intros assms(1))
qed

section \<open>What the commits rely on\<close>

text \<open>
  Property C16: the starvation lock excludes and never strands. In every interleaving, for every
  \<open>unpark_filter\<close> of the documented behaviour: at most one thread is a starver; the byte is non-zero
  exactly while there is one; while the byte is zero nobody sleeps; a thread sleeps only
  while some other thread is the starver and is awake; and the parked bit is set while anybody sleeps.
\<close>

theorem starvation_lock_never_strands:
  assumes "unpark_filter_spec uf" and "reach sv_init (sv_step uf) s"
  shows "(\<forall>t u. owner s t \<longrightarrow> owner s u \<longrightarrow> t = u) \<and>
    (sv_state s \<noteq> 0 \<longleftrightarrow> (\<exists>t. owner s t)) \<and>
    (\<forall>t r. sv_pc s t = Asleep r \<longrightarrow> t \<in> set (sv_queue s) \<and> sv_state s AND PARKED_BIT \<noteq> 0 \<and>
       (\<exists>u. u \<noteq> t \<and> owner s u \<and> (\<forall>r'. sv_pc s u \<noteq> Asleep r')))"
proof (intro conjI allI impI)
  have i: "sv_inv s" by (rule sv_reach_inv [OF assms])
  show ow: "sv_state s \<noteq> 0 \<longleftrightarrow> (\<exists>t. owner s t)" using i unfolding sv_inv_def by blast
  show "t = u" if "owner s t" "owner s u" for t u
    using i that unfolding sv_inv_def by blast
  fix t r assume a: "sv_pc s t = Asleep r"
  show q: "t \<in> set (sv_queue s)" using i a by (auto simp: sv_inv_def)
  then have three: "sv_state s = 3" using i by (auto simp: sv_inv_def)
  then show "sv_state s AND PARKED_BIT \<noteq> 0" by (simp add: bit_values)
  obtain u where u: "owner s u" using ow three by auto
  have "sv_pc s u \<noteq> Asleep r'" for r'
    using u sv_placeD [OF i, of u] by (cases r') (auto simp: owner_def)
  moreover from this have "u \<noteq> t" using a by auto
  ultimately show "\<exists>u. u \<noteq> t \<and> owner s u \<and> (\<forall>r'. sv_pc s u \<noteq> Asleep r')" using u by blast
qed

text \<open>
  Property C17: hand-off. A thread woken inside \<open>starve_lock\<close> is always woken by its own token, with the
  byte locked for it (the assertions of the code), so it never loops without need; a thread
  woken with its own token is the starver; and whoever is woken inside \<open>wait_for_starvers\<close> is not a starver that was
  passed over. An unlock wakes a prefix of the queue that ends with the first sleeper
  that is due, if any; every sleeping starver is due.
\<close>

theorem starvation_handoff:
  assumes "unpark_filter_spec uf" and "reach sv_init (sv_step uf) s"
  shows "(\<forall>t tok. sv_pc s t = Woken Starver tok \<longrightarrow> tok = Some t) \<and>
    (\<forall>t r. sv_pc s t = Woken r (Some t) \<longrightarrow> owner s t \<and> sv_state s AND LOCKED_BIT \<noteq> 0) \<and>
    (\<forall>t clock mx. sv_pc s t = Asleep Starver \<longrightarrow> should_upgrade clock mx (sv_prog s t) = Inr True) \<and>
    (\<forall>up us rs w next. starve_unlock_slow uf up (sv_state s) (sv_queue s) = (us, rs, w, next) \<longrightarrow>
       sv_queue s = us @ rs \<and> (case next of None \<Rightarrow> rs = [] \<and> (\<forall>u\<in>set us. \<not> up u)
         | Some n \<Rightarrow> n = last us \<and> up n \<and> (\<forall>u\<in>set (butlast us). \<not> up u)))"
proof (intro conjI allI impI)
  have i: "sv_inv s" by (rule sv_reach_inv [OF assms])
  show "tok = Some t" if "sv_pc s t = Woken Starver tok" for t tok
    using sv_placeD [OF i, of t] that by (simp split: if_splits)
  fix t r assume w: "sv_pc s t = Woken r (Some t)"
  then show o: "owner s t" using sv_placeD [OF i, of t] by (simp add: owner_def)
  then have "sv_state s = 1 \<or> sv_state s = 3" using i by (auto simp: sv_inv_def)
  then show "sv_state s AND LOCKED_BIT \<noteq> 0" by (auto simp: bit_values)
next
  have i: "sv_inv s" by (rule sv_reach_inv [OF assms])
  show "should_upgrade clock mx (sv_prog s t) = Inr True" if "sv_pc s t = Asleep Starver" for t clock mx
    using sv_placeD [OF i, of t] that by (simp add: due_upgrade)
  fix up us rs w "next" assume u: "starve_unlock_slow uf up (sv_state s) (sv_queue s) = (us, rs, w, next)"
  note r = unlock_slow_result [OF assms(1) u]
  show "sv_queue s = us @ rs" by (rule r(1))
  show "case next of None \<Rightarrow> rs = [] \<and> (\<forall>u\<in>set us. \<not> up u)
         | Some n \<Rightarrow> n = last us \<and> up n \<and> (\<forall>u\<in>set (butlast us). \<not> up u)"
    using r(2,3) by (auto split: option.split)
qed


section \<open>How long until a thread starves\<close>

text \<open>Failures in a row: what is left of the progress, or \<open>None\<close> once the thread goes for the lock.\<close>

fun failures :: "usize \<Rightarrow> quiesce_epoch list \<Rightarrow> progress \<Rightarrow> progress option" where
  "failures mx [] p = Some p"
| "failures mx (e # es) p =
     (case snd (failed_to_progress mx e p) of None \<Rightarrow> None | Some p' \<Rightarrow> failures mx es p')"

lemma failures_bound:
  "prog_ok p \<Longrightarrow> p \<noteq> Starving \<Longrightarrow> failures mx es p = Some p' \<Longrightarrow>
     p' \<noteq> Starving \<and> prog_ok p' \<and> length es + backoff p \<le> backoff p'"
proof (induction es arbitrary: p)
  case Nil
  then show ?case by simp
next
  case (Cons e es)
  obtain w r where f: "failed_to_progress mx e p = (w, r)" by fastforce
  then obtain q where q: "r = Some q" "failures mx es q = Some p'"
    using Cons.prems(3) by (auto split: option.splits)
  have "prog_ok q \<and> q \<noteq> Starving" using failed_place [OF f Cons.prems(1)] q(1) Cons.prems(2) by simp
  moreover have "backoff p < backoff q"
    using f q(1) Cons.prems(1,2) by (cases p) (auto simp: Let_def split: if_splits)
  ultimately show ?case using Cons.IH [OF _ _ q(2)] by simp
qed

lemma backoff_steps:
  assumes "\<And>e. e \<in> set es \<Longrightarrow> qget e - qget f < mx" and "length es + b \<le> YIELD_LIMIT + 1"
  shows "failures mx es (NotStarving (Some f) b) = Some (NotStarving (Some f) (length es + b))"
  using assms
proof (induction es arbitrary: b)
  case Nil
  then show ?case by simp
next
  case (Cons e es)
  have "\<not> mx \<le> qget e - qget f" using Cons.prems(1) [of e] by (simp add: not_le)
  moreover have "b \<le> YIELD_LIMIT" using Cons.prems(2) by simp
  ultimately show ?case using Cons.IH [of "Suc b"] Cons.prems by (auto simp: Let_def)
qed

text \<open>
  Backing off is bounded. A thread that keeps failing goes for the starvation lock at the latest
  at its 12th failure in a row, whatever the epochs; exactly then if no transaction of it takes
  longer than the estimate allows; and a single failure spins at most 64 times.
\<close>

theorem starving_after_bounded_failures:
  "(length es \<ge> YIELD_LIMIT + 2 \<longrightarrow> failures mx es progress_new = None) \<and>
   (length es = YIELD_LIMIT + 1 \<and> 0 < mx \<and> (\<forall>e\<in>set es. qget e - qget (hd es) < mx) \<longrightarrow>
      (\<exists>p. failures mx es progress_new = Some p \<and> due p)) \<and>
   (\<forall>p n r. prog_ok p \<longrightarrow> failed_to_progress mx e p = (SpinLoop n, r) \<longrightarrow> n \<le> 64)"
proof (intro conjI impI allI)
  have new: "prog_ok progress_new" "progress_new \<noteq> Starving" by (simp_all add: progress_new_def)
  show "failures mx es progress_new = None" if l: "length es \<ge> YIELD_LIMIT + 2"
  proof (rule ccontr)
    assume "failures mx es progress_new \<noteq> None"
    then obtain p where "failures mx es progress_new = Some p" by auto
    from failures_bound [OF new this] l show False by (cases p) auto
  qed
  show "\<exists>p. failures mx es progress_new = Some p \<and> due p"
    if a: "length es = YIELD_LIMIT + 1 \<and> 0 < mx \<and> (\<forall>e\<in>set es. qget e - qget (hd es) < mx)"
  proof -
    obtain f es' where es: "es = f # es'" using a by (cases es) auto
    have "failures mx es' (NotStarving (Some f) 1) = Some (NotStarving (Some f) (length es' + 1))"
      by (rule backoff_steps) (use a es in auto)
    moreover have "\<not> mx \<le> 0" using a by (auto simp: word_gt_0)
    ultimately show ?thesis using a es by (simp add: progress_new_def due.simps)
  qed
  fix p n r assume p: "prog_ok p" and f: "failed_to_progress mx e p = (SpinLoop n, r)"
  obtain first b where pb: "p = NotStarving first b" using f by (cases p) auto
  with f have "n = 2 ^ b" "b \<le> 6" by (auto simp: SPIN_LIMIT_def Let_def split: if_splits)
  then have "n \<le> 2 ^ 6" by (simp add: power_increasing del: power_numeral)
  then show "n \<le> 64" by simp
qed

section \<open>Witnesses\<close>

text \<open>
  Thread 0 fails until it holds the lock, with thread 2 asleep before its commit.
\<close>

definition sv_ex :: "u8 \<Rightarrow> tid list \<Rightarrow> progress \<Rightarrow> sv_pc \<Rightarrow> sv_pc \<Rightarrow> sv" where
  "sv_ex w q p a b = \<lparr>sv_state = w, sv_queue = q, sv_max = 0, sv_clock = epoch_clock_new,
     sv_prog = (\<lambda>_. progress_new)(0 := p), sv_pc = (\<lambda>_. Out)(0 := a, 2 := b)\<rparr>"

abbreviation ex_prog :: "nat \<Rightarrow> progress" where
  "ex_prog \<equiv> NotStarving (Some (QuiesceEpoch 3))"

lemma ex_fail: "6 < b \<Longrightarrow> b \<le> YIELD_LIMIT \<Longrightarrow> sv_step uf (sv_ex 0 [] (ex_prog b) Out Out) (sv_ex 0 [] (ex_prog (Suc b)) Out Out)"
  using sv_step.failed_backoff [of "sv_ex 0 [] (ex_prog b) Out Out" 0 "QuiesceEpoch 3" YieldNow "ex_prog (Suc b)" uf]
  by (simp add: sv_ex_def SPIN_LIMIT_def)

lemma ex_fail_first: "sv_step uf (sv_ex 0 [] progress_new Out Out) (sv_ex 0 [] (ex_prog 7) Out Out)"
  using sv_step.failed_backoff [of "sv_ex 0 [] progress_new Out Out" 0 "QuiesceEpoch 3" YieldNow "ex_prog 7" uf]
  by (simp add: sv_ex_def progress_new_def SPIN_LIMIT_def)

lemma ex_goto:
  "goto (sv_ex w q p a b) 0 c = sv_ex w q p c b" "goto (sv_ex w q p a b) 2 c = sv_ex w q p a c"
  by (auto simp: sv_ex_def)

lemma ex_sel [simp]:
  "sv_state (sv_ex w q p a b) = w" "sv_queue (sv_ex w q p a b) = q" "sv_pc (sv_ex w q p a b) 0 = a"
  "sv_pc (sv_ex w q p a b) 2 = b" "sv_prog (sv_ex w q p a b) 0 = p" "sv_prog (sv_ex w q p a b) 2 = progress_new"
  "(sv_ex w q p a b)\<lparr>sv_state := w'\<rparr> = sv_ex w' q p a b" "(sv_ex w q p a b)\<lparr>sv_queue := q'\<rparr> = sv_ex w q' p a b"
  "set_prog (sv_ex w q p a b) 0 p' = sv_ex w q p' a b" "sv_max (sv_ex w q p a b) = 0"
  by (simp_all add: sv_ex_def)

lemma ex_run: "reach sv_init (sv_step uf) (sv_ex 3 [2] Starving Out (Asleep Waiter))"
proof -
  let ?R = "reach sv_init (sv_step uf)"
  note ext = reach.extend [where step = "sv_step uf"]
  have "?R (sv_ex 0 [] progress_new Out Out)"
    by (rule reach.start) (auto simp: sv_init_def sv_ex_def)
  then have "?R (sv_ex 0 [] (ex_prog 7) Out Out)" by (rule ext) (rule ex_fail_first)
  then have "?R (sv_ex 0 [] (ex_prog 8) Out Out)" by (rule ext) (use ex_fail [of 7] in \<open>simp add: YIELD_LIMIT_def\<close>)
  then have "?R (sv_ex 0 [] (ex_prog 9) Out Out)" by (rule ext) (use ex_fail [of 8] in \<open>simp add: YIELD_LIMIT_def\<close>)
  then have "?R (sv_ex 0 [] (ex_prog 10) Out Out)" by (rule ext) (use ex_fail [of 9] in \<open>simp add: YIELD_LIMIT_def\<close>)
  then have "?R (sv_ex 0 [] (ex_prog 11) Out Out)" by (rule ext) (use ex_fail [of 10] in \<open>simp add: YIELD_LIMIT_def\<close>)
  then have "?R (sv_ex 0 [] (ex_prog 11) LockFast Out)"
    by (rule ext) (use sv_step.failed_starving [of "sv_ex 0 [] (ex_prog 11) Out Out" 0 "QuiesceEpoch 3" YieldNow uf]
      in \<open>simp add: ex_goto YIELD_LIMIT_def\<close>)
  then have "?R (sv_ex LOCKED_BIT [] (ex_prog 11) Acquired Out)"
    by (rule ext) (use sv_step.lock_fast [of "sv_ex 0 [] (ex_prog 11) LockFast Out" 0 uf] in \<open>simp add: ex_goto\<close>)
  then have "?R (sv_ex LOCKED_BIT [] Starving Out Out)"
    by (rule ext) (use sv_step.acquired [of "sv_ex LOCKED_BIT [] (ex_prog 11) Acquired Out" 0 uf] in \<open>simp add: ex_goto\<close>)
  then have "?R (sv_ex LOCKED_BIT [] Starving Out WaitFast)"
    by (rule ext) (use sv_step.wait_call [of "sv_ex LOCKED_BIT [] Starving Out Out" 2 uf] in \<open>simp add: ex_goto progress_new_def\<close>)
  then have "?R (sv_ex LOCKED_BIT [] Starving Out (Load Waiter))"
    by (rule ext) (use sv_step.wait_slow [of "sv_ex LOCKED_BIT [] Starving Out WaitFast" 2 uf] in \<open>simp add: ex_goto bit_values\<close>)
  then have "?R (sv_ex LOCKED_BIT [] Starving Out (Loop Waiter LOCKED_BIT))"
    by (rule ext) (use sv_step.load [of "sv_ex LOCKED_BIT [] Starving Out (Load Waiter)" 2 Waiter uf] in \<open>simp add: ex_goto\<close>)
  then have "?R (sv_ex 3 [] Starving Out (Park Waiter))"
    by (rule ext) (use sv_step.loop_set [of "sv_ex LOCKED_BIT [] Starving Out (Loop Waiter LOCKED_BIT)" 2 Waiter LOCKED_BIT uf]
      in \<open>simp add: ex_goto bit_values\<close>)
  then show ?thesis
    by (rule ext) (use sv_step.park_sleep [of "sv_ex 3 [] Starving Out (Park Waiter)" 2 Waiter uf]
      in \<open>simp add: ex_goto bit_values\<close>)
qed

lemma starvation_lock_never_strands_witness:
  "sv_state (sv_ex 3 [2] Starving Out (Asleep Waiter)) AND PARKED_BIT \<noteq> 0 \<and>
     (\<exists>u. u \<noteq> 2 \<and> owner (sv_ex 3 [2] Starving Out (Asleep Waiter)) u)"
  using starvation_lock_never_strands [OF unpark_scan_spec ex_run] ex_sel(4) by blast

lemma starvation_handoff_witness:
  "\<exists>us rs w next. starve_unlock_slow unpark_scan (\<lambda>_. False) 3 [2 :: tid] = (us, rs, w, next) \<and> rs = [] \<and> next = None"
proof -
  obtain us rs w "next" where u: "starve_unlock_slow unpark_scan (\<lambda>_. False) 3 [2 :: tid] = (us, rs, w, next)"
    by (metis prod_cases4)
  note h = starvation_handoff [OF unpark_scan_spec ex_run, THEN conjunct2, THEN conjunct2, THEN conjunct2, simplified, rule_format, OF u]
  then show ?thesis using u by (cases "next") auto
qed

lemma starving_after_bounded_failures_witness:
  "failures 4 (replicate 12 (QuiesceEpoch 3)) progress_new = None \<and>
   (\<exists>p. failures 4 (replicate 11 (QuiesceEpoch 3)) progress_new = Some p \<and> due p)"
proof (intro conjI)
  show "failures 4 (replicate 12 (QuiesceEpoch 3)) progress_new = None"
    using starving_after_bounded_failures [of "replicate 12 (QuiesceEpoch 3)" 4] by (simp add: YIELD_LIMIT_def del: replicate.simps)
  show "\<exists>p. failures 4 (replicate 11 (QuiesceEpoch 3)) progress_new = Some p \<and> due p"
    using starving_after_bounded_failures [of "replicate 11 (QuiesceEpoch 3)" 4] by (simp add: YIELD_LIMIT_def)
qed

end
