(* ===== verification/Parking.thy ===== *)
theory Parking
  imports Commit Parking_Lot
begin

text \<open>
  \<open>src/internal/parking.rs\<close> with \<open>ParkPinMutRef\<close> of \<open>src/internal/thread.rs\<close>: a transaction that returned
  \<open>AWAIT_RETRY\<close> clears the unpark bit of every cell it has in its logs and sleeps until a commit to one
  of them wakes it; a commit that met a cleared bit passes over all sleepers and wakes those
  whose logs are no longer valid. The functions here run without other threads in between; theory \<open>Wakeup\<close> interleaves them.
\<close>

section \<open>The logs of a parked thread\<close>

record park_pin =
  pp_logs :: logs
  pp_pin_epoch :: quiesce_epoch
  pp_synch :: thread_epoch

text \<open>
  \<open>ParkPinMutRef::new\<close>: the trash is leaked and the pending values are dropped, but the entries stay: their
  lock words are still needed. The thread is unpinned. The second component is what was dropped.
\<close>

definition park_pin_new :: "(usize \<Rightarrow> nat) \<Rightarrow> logs \<Rightarrow> thread_epoch \<Rightarrow> (park_pin \<times> dyn_elem list) outcome" where
  "park_pin_new vts lg synch =
     (let pin_epoch = thread_epoch_get synch;
          lg' = lg\<lparr>log_garbage := abort_speculative_garbage (log_garbage lg)\<rparr>
      in map_sum id
           (\<lambda>dropped. (\<lparr>pp_logs = lg', pp_pin_epoch = pin_epoch, pp_synch = thread_epoch_unpin synch\<rparr>, dropped))
           (wl_drop_writes vts (log_writes lg')))"

text \<open>\<open>Drop for ParkPinMutRef\<close>: the logs are forgotten and the thread is pinned again.\<close>

definition park_pin_drop :: "park_pin \<Rightarrow> epoch_clock \<Rightarrow> (logs \<times> thread_epoch) outcome" where
  "park_pin_drop pp clk =
     (let lg = pp_logs pp;
          lg' = lg\<lparr>log_reads := rl_clear (log_reads lg), log_writes := wl_clear_no_drop (log_writes lg)\<rparr>
      in case clock_now clk of
           Some now \<Rightarrow> Inr (lg', thread_epoch_pin now (pp_synch pp))
         | None \<Rightarrow> Inl Abort)"

definition parkable :: "logs \<Rightarrow> bool" where
  "parkable lg \<longleftrightarrow> \<not> rl_is_empty (log_reads lg) \<or> \<not> wl_is_empty (log_writes lg)"

text \<open>\<open>read_log.epoch_locks().chain(write_log.epoch_locks())\<close>\<close>

definition park_cells :: "(usize \<Rightarrow> nat) \<Rightarrow> logs \<Rightarrow> cell list outcome" where
  "park_cells vts lg = map_sum id (\<lambda>ws. rl_epoch_locks (log_reads lg) @ ws) (wl_epoch_locks vts (log_writes lg))"

section \<open>Going to sleep\<close>

definition PARK_MAX_HTX_RETRIES :: "8 word" where
  "PARK_MAX_HTX_RETRIES = 10"

definition begin_htx_park ::
  "bool \<Rightarrow> (nat \<Rightarrow> begin_code) \<Rightarrow> logs \<Rightarrow> (8 word \<times> (bounded_htx_err + unit)) outcome" where
  "begin_htx_park htm_supported codes lg =
     (if htm_supported \<and> rl_len (log_reads lg) \<ge> 3 then
        (case bounded PARK_MAX_HTX_RETRIES (map codes [0..<Suc (unat PARK_MAX_HTX_RETRIES)]) 0 of
           Some r \<Rightarrow> Inr r
         | None \<Rightarrow> Inl Undefined)
      else Inr (0, Inl SoftwareFallback))"

text \<open>The body of the hardware transaction (\<open>None\<close>: it aborts), and the loop in software.\<close>

fun clear_htm_loop :: "quiesce_epoch \<Rightarrow> (cell \<Rightarrow> epoch_lock) \<Rightarrow> cell list \<Rightarrow> (cell \<Rightarrow> epoch_lock) option" where
  "clear_htm_loop p ls [] = Some ls"
| "clear_htm_loop p ls (c # cs) =
     (case clear_unpark_bit_htm p (ls c) of
        None \<Rightarrow> None
      | Some w \<Rightarrow> clear_htm_loop p (ls(c := w)) cs)"

fun clear_loop ::
  "quiesce_epoch \<Rightarrow> (cell \<Rightarrow> epoch_lock) \<Rightarrow> park_status list \<Rightarrow> cell list \<Rightarrow>
     (cell \<Rightarrow> epoch_lock) \<times> park_status list \<times> bool" where
  "clear_loop p ls park_statuses [] = (ls, park_statuses, True)"
| "clear_loop p ls park_statuses (c # cs) =
     (case try_clear_unpark_bit p (ls c) (ls c) of
        (Some status, w) \<Rightarrow> clear_loop p (ls(c := w)) (park_statuses @ [status]) cs
      | (None, w) \<Rightarrow> (ls(c := w), park_statuses, False))"

definition park_failure_cleanup ::
  "(cell \<Rightarrow> epoch_lock) \<Rightarrow> cell list \<Rightarrow> park_status list \<Rightarrow> (cell \<Rightarrow> epoch_lock)" where
  "park_failure_cleanup ls cells park_statuses =
     fold (\<lambda>c l. l(c := set_unpark_bit (l c)))
       (List.map_filter (\<lambda>(c, status). if status = NoParked then Some c else None) (zip cells park_statuses)) ls"

definition try_clear_unpark_bits ::
  "(usize \<Rightarrow> nat) \<Rightarrow> bool \<Rightarrow> (nat \<Rightarrow> begin_code) \<Rightarrow> (cell \<Rightarrow> epoch_lock) \<Rightarrow> logs \<Rightarrow> quiesce_epoch \<Rightarrow>
     (bool \<times> (cell \<Rightarrow> epoch_lock)) outcome" where
  "try_clear_unpark_bits vts htm_supported codes ls lg pin_epoch =
     (case begin_htx_park htm_supported codes lg of
        Inl s \<Rightarrow> Inl s
      | Inr (retry_count, htx) \<Rightarrow>
          (case park_cells vts lg of
             Inl s \<Rightarrow> Inl s
           | Inr cells \<Rightarrow>
               (case htx of
                  Inr u \<Rightarrow>
                    (case clear_htm_loop pin_epoch ls cells of
                       Some ls' \<Rightarrow> Inr (True, ls')
                     | None \<Rightarrow> Inr (False, ls))
                | Inl SoftwareFallback \<Rightarrow>
                    (case clear_loop pin_epoch ls [] cells of
                       (ls', park_statuses, True) \<Rightarrow> Inr (True, ls')
                     | (ls', park_statuses, False) \<Rightarrow> Inr (False, park_failure_cleanup ls' cells park_statuses))
                | Inl AbortOrConflict \<Rightarrow> Inr (False, ls))))"

section \<open>Waking up\<close>

text \<open>
  The filter of \<open>unpark\<close>; it counts the sleepers it leaves alone. The closure is a \<open>move\<close> closure, so
  it counts in its own copy of \<open>not_unparked_count\<close>: what is reported afterwards is the variable of
  \<open>unpark\<close>, which is still 0.
\<close>

definition should_unpark ::
  "(usize \<Rightarrow> nat) \<Rightarrow> (cell \<Rightarrow> epoch_lock) \<Rightarrow> nat outcome \<Rightarrow> park_pin \<Rightarrow> filter_op \<times> nat outcome" where
  "should_unpark vts ls acc pp =
     (case acc of
        Inl s \<Rightarrow> (Stop, Inl s)
      | Inr not_unparked_count \<Rightarrow>
          if \<not> validate_reads (log_reads (pp_logs pp)) (pp_pin_epoch pp) ls then (Unpark, Inr not_unparked_count)
          else (case validate_writes vts (log_writes (pp_logs pp)) (pp_pin_epoch pp) ls of
                  Inl s \<Rightarrow> (Stop, Inl s)
                | Inr False \<Rightarrow> (Unpark, Inr not_unparked_count)
                | Inr True \<Rightarrow> (Skip, Inr (Suc not_unparked_count))))"

text \<open>The threads woken, those left in the queue, and the two statistics.\<close>

definition unpark ::
  "(park_pin, nat outcome) unpark_filter \<Rightarrow> (usize \<Rightarrow> nat) \<Rightarrow> (cell \<Rightarrow> epoch_lock) \<Rightarrow> park_pin list \<Rightarrow>
     (park_pin list \<times> park_pin list \<times> nat \<times> nat) outcome" where
  "unpark uf vts ls queue =
     (let not_unparked_count = 0 in
      case uf (should_unpark vts ls) (Inr not_unparked_count) queue of
        (us, rs, mo, Inl s) \<Rightarrow> Inl s
      | (us, rs, mo, Inr n) \<Rightarrow> Inr (us, rs, length us, not_unparked_count))"

section \<open>Lemmas\<close>

lemma clear_unpark_unset: "\<not> unpark_bit_set w \<Longrightarrow> clear_unpark_bit w = w"
proof -
  assume "\<not> unpark_bit_set w"
  then have "\<not> bit w 0"
    by (simp only: unpark_bit_set_def UNPARK_BIT_def bit_iff_and_push_bit_not_eq_0 simp_thms)
  then show ?thesis
    by (intro bit_word_eqI)
      (auto simp: clear_unpark_bit_def bit_and_iff bit_not_iff bit_UNPARK_BIT possible_bit_word intro!: gr0I)
qed

lemma set_clear_unpark: "unpark_bit_set w \<Longrightarrow> set_unpark_bit (clear_unpark_bit w) = w"
proof -
  assume "unpark_bit_set w"
  then have "bit w 0"
    by (simp only: unpark_bit_set_def UNPARK_BIT_def bit_iff_and_push_bit_not_eq_0 simp_thms)
  then show ?thesis
    by (intro bit_word_eqI)
      (auto simp: set_unpark_bit_def clear_unpark_bit_def bit_and_iff bit_or_iff bit_not_iff bit_UNPARK_BIT possible_bit_word)
qed

text \<open>The lock words with the unpark bits of some cells cleared.\<close>

definition cleared :: "(cell \<Rightarrow> epoch_lock) \<Rightarrow> cell set \<Rightarrow> cell \<Rightarrow> epoch_lock" where
  "cleared ls C c = (if c \<in> C then clear_unpark_bit (ls c) else ls c)"

lemma clear_clear [simp]: "clear_unpark_bit (clear_unpark_bit w) = clear_unpark_bit w"
  by (rule clear_unpark_unset) simp

lemma cleared_insert: "cleared (ls(c := clear_unpark_bit (ls c))) C = cleared ls (insert c C)"
  by (auto simp: cleared_def fun_eq_iff)

lemma try_clear_now:
  assumes "time_ok p"
  shows "try_clear_unpark_bit p w w = (if \<not> is_locked w \<and> ver w \<le> ver (qget p)
    then (Some (park_status_of w), clear_unpark_bit w) else (None, w))"
  using assms clear_unpark_unset [of w]
  by (simp add: try_clear_unpark_bit_def read_write_valid_iff is_locked_def compare_exchange_def park_status_of_def)

lemma clear_loop_acc:
  "clear_loop p ls sts cs = (case clear_loop p ls [] cs of (l, s, b) \<Rightarrow> (l, sts @ s, b))"
proof (induction cs arbitrary: ls sts)
  case Nil
  then show ?case by simp
next
  case (Cons c cs)
  obtain r w where t: "try_clear_unpark_bit p (ls c) (ls c) = (r, w)" by fastforce
  show ?case
  proof (cases r)
    case None
    with t show ?thesis by simp
  next
    case (Some st)
    obtain l s b where r: "clear_loop p (ls(c := w)) [] cs = (l, s, b)" by (metis prod_cases3)
    have "clear_loop p (ls(c := w)) x cs = (l, x @ s, b)" for x
      by (subst Cons.IH) (simp only: r prod.case)
    with t Some show ?thesis by simp
  qed
qed

lemma cleanup_eq:
  "park_failure_cleanup l cells sts =
     (\<lambda>d. if (d, NoParked) \<in> set (zip cells sts) then set_unpark_bit (l d) else l d)"
proof -
  have f: "fold (\<lambda>c l. l(c := set_unpark_bit (l c))) xs l = (\<lambda>d. if d \<in> set xs then set_unpark_bit (l d) else l d)" for xs
  proof (induction xs arbitrary: l)
    case (Cons a xs)
    have "set_unpark_bit (set_unpark_bit w) = set_unpark_bit w" for w :: epoch_lock
      by (simp add: set_unpark_bit_def or.assoc)
    with Cons show ?case by (auto simp: fun_eq_iff)
  qed simp
  have "set (List.map_filter (\<lambda>(c, status). if status = NoParked then Some c else None) (zip cells sts)) =
      {c. (c, NoParked) \<in> set (zip cells sts)}"
    by (auto simp: map_filter_def image_iff split: if_splits)
  then show ?thesis by (simp add: park_failure_cleanup_def f)
qed

lemma clear_loop_result:
  assumes p: "time_ok p"
  shows "clear_loop p ls [] cs = (ls', sts, b) \<Longrightarrow>
    b = cells_valid p ls (set cs) \<and> (b \<longrightarrow> ls' = cleared ls (set cs)) \<and>
    (\<not> b \<longrightarrow> park_failure_cleanup ls' cs sts = ls)"
proof (induction cs arbitrary: ls ls' sts)
  case Nil
  then show ?case by (simp add: cells_valid_def cleared_def fun_eq_iff)
next
  case (Cons c cs)
  show ?case
  proof (cases "\<not> is_locked (ls c) \<and> ver (ls c) \<le> ver (qget p)")
    case False
    with Cons.prems have "ls' = ls" "sts = []" "\<not> b" by (auto simp: try_clear_now [OF p])
    with False show ?thesis by (auto simp: cells_valid_insert cleanup_eq)
  next
    case True
    let ?w = "clear_unpark_bit (ls c)" and ?st = "park_status_of (ls c)"
    obtain s where r: "clear_loop p (ls(c := ?w)) [] cs = (ls', s, b)" and sts: "sts = ?st # s"
      using Cons.prems True by (auto simp: try_clear_now [OF p] clear_loop_acc [of p _ "[_]"] split: prod.splits)
    note IH = Cons.IH [OF r]
    have b: "b = cells_valid p ls (set (c # cs))"
      using IH True by (auto simp: cells_valid_def is_locked_def split: if_splits)
    have "park_failure_cleanup ls' (c # cs) sts = ls" if "\<not> b"
    proof -
      have eq: "(if (d, NoParked) \<in> set (zip cs s) then set_unpark_bit (ls' d) else ls' d) = (ls(c := ?w)) d" for d
        using IH that by (auto simp: cleanup_eq fun_eq_iff)
      have "\<not> unpark_bit_set ?w" by simp
      moreover have "unpark_bit_set (set_unpark_bit v)" for v :: epoch_lock by (simp add: set_unpark_bit_def)
      ultimately have c: "(c, NoParked) \<notin> set (zip cs s) \<and> ls' c = ?w"
        using eq [of c] by (metis fun_upd_same)
      show ?thesis
        unfolding cleanup_eq sts
      proof
        fix d
        show "(if (d, NoParked) \<in> set (zip (c # cs) (?st # s)) then set_unpark_bit (ls' d) else ls' d) = ls d"
          using eq [of d] c set_clear_unpark [of "ls c"] clear_unpark_unset [of "ls c"]
          by (cases "d = c") (auto simp: park_status_of_def split: if_splits)
      qed
    qed
    moreover have "b \<longrightarrow> ls' = cleared ls (set (c # cs))"
      using IH unfolding cleared_insert list.set by blast
    ultimately show ?thesis using b by blast
  qed
qed

lemma clear_htm_loop_eq:
  assumes "time_ok p"
  shows "clear_htm_loop p ls cs = (if cells_valid p ls (set cs) then Some (cleared ls (set cs)) else None)"
proof (induction cs arbitrary: ls)
  case Nil
  then show ?case by (simp add: cells_valid_def cleared_def fun_eq_iff)
next
  case (Cons c cs)
  have "clear_unpark_bit_htm p (ls c) =
      (if \<not> is_locked (ls c) \<and> ver (ls c) \<le> ver (qget p) then Some (clear_unpark_bit (ls c)) else None)"
    using assms clear_unpark_unset [of "ls c"] by (simp add: clear_unpark_bit_htm_def read_write_valid_iff is_locked_def)
  moreover have "cells_valid p (ls(c := clear_unpark_bit (ls c))) (set cs) = cells_valid p ls (set cs)"
    if "\<not> is_locked (ls c)" "ver (ls c) \<le> ver (qget p)"
    using that by (auto simp: cells_valid_def is_locked_def)
  moreover have "clear_htm_loop p (ls(c := w)) cs = (if cells_valid p (ls(c := w)) (set cs)
      then Some (cleared (ls(c := w)) (set cs)) else None)" for w by (rule Cons)
  ultimately show ?case by (simp add: cells_valid_insert cleared_insert del: fun_upd_apply)
qed


text \<open>A sleeper is stale if one of its cells is locked or newer than its pin.\<close>

definition pp_stale :: "(usize \<Rightarrow> nat) \<Rightarrow> (cell \<Rightarrow> epoch_lock) \<Rightarrow> park_pin \<Rightarrow> bool" where
  "pp_stale vts ls pp =
     (case park_cells vts (pp_logs pp) of
        Inl s \<Rightarrow> False
      | Inr cells \<Rightarrow> \<not> cells_valid (pp_pin_epoch pp) ls (set cells))"

definition pp_ok :: "(usize \<Rightarrow> nat) \<Rightarrow> (cell \<Rightarrow> nat) \<Rightarrow> park_pin \<Rightarrow> bool" where
  "pp_ok vts csz pp \<longleftrightarrow> time_ok (pp_pin_epoch pp) \<and>
     (\<exists>rs es. rl_full (log_reads (pp_logs pp)) rs \<and> wl_holds vts csz (log_writes (pp_logs pp)) es)"

lemma park_cells_holds:
  "rl_full (log_reads lg) rs \<Longrightarrow> wl_holds vts csz (log_writes lg) es \<Longrightarrow> park_cells vts lg = Inr (rs @ live es)"
  by (simp add: park_cells_def log_facts)

lemma should_unpark_eq:
  assumes "pp_ok vts csz pp"
  shows "should_unpark vts ls (Inr n) pp = (if pp_stale vts ls pp then (Unpark, Inr n) else (Skip, Inr (Suc n)))"
proof -
  obtain rs es where p: "time_ok (pp_pin_epoch pp)" and r: "rl_full (log_reads (pp_logs pp)) rs"
    and w: "wl_holds vts csz (log_writes (pp_logs pp)) es"
    using assms by (auto simp: pp_ok_def)
  have "validate_reads (log_reads (pp_logs pp)) (pp_pin_epoch pp) ls = cells_valid (pp_pin_epoch pp) ls (set rs)"
    using p by (simp add: validate_reads_def rl_epoch_locks_full [OF r] validate_loop_iff valid_lockable_iff cells_valid_def is_locked_def)
  moreover have "validate_writes vts (log_writes (pp_logs pp)) (pp_pin_epoch pp) ls =
      Inr (cells_valid (pp_pin_epoch pp) ls (set (live es)))"
    using p by (simp add: validate_writes_def wl_epoch_locks_holds [OF w] validate_loop_iff valid_lockable_iff cells_valid_def is_locked_def)
  moreover have "cells_valid (pp_pin_epoch pp) ls (set rs \<union> set (live es)) \<longleftrightarrow>
      cells_valid (pp_pin_epoch pp) ls (set rs) \<and> cells_valid (pp_pin_epoch pp) ls (set (live es))"
    by (auto simp: cells_valid_def)
  ultimately show ?thesis
    by (simp add: should_unpark_def pp_stale_def park_cells_holds [OF r w])
qed

lemma unpark_pass:
  "\<forall>pp\<in>set q. pp_ok vts csz pp \<Longrightarrow>
     unpark_scan (should_unpark vts ls) (Inr n) q =
       (filter (pp_stale vts ls) q, filter (\<lambda>pp. \<not> pp_stale vts ls pp) q, \<exists>pp\<in>set q. \<not> pp_stale vts ls pp,
        Inr (n + length (filter (\<lambda>pp. \<not> pp_stale vts ls pp) q)))"
  by (induction q arbitrary: n) (simp_all add: should_unpark_eq [where csz = csz])

lemma park_attempt_eq:
  assumes "tx_holds vts csz lg rs es spec seals" and "time_ok pin"
  shows "\<exists>b ls'. try_clear_unpark_bits vts htm codes ls lg pin = Inr (b, ls') \<and>
    (b \<longrightarrow> cells_valid pin ls (set rs \<union> set (live es)) \<and>
       ls' = (\<lambda>c. if c \<in> set rs \<union> set (live es) then clear_unpark_bit (ls c) else ls c)) \<and>
    (\<not> b \<longrightarrow> ls' = ls) \<and>
    (\<not> htm \<longrightarrow> b = cells_valid pin ls (set rs \<union> set (live es)))"
proof -
  have cells: "park_cells vts lg = Inr (rs @ live es)"
    using assms(1) park_cells_holds [of lg rs vts csz es] by (simp add: tx_holds_def)
  have cl: "cleared ls C = (\<lambda>c. if c \<in> C then clear_unpark_bit (ls c) else ls c)" for C
    by (simp add: cleared_def fun_eq_iff)
  obtain n htx where h: "begin_htx_park htm codes lg = Inr (n, htx)" and hs: "\<not> htm \<Longrightarrow> htx = Inl SoftwareFallback"
  proof -
    have "bounded PARK_MAX_HTX_RETRIES (map codes [0..<Suc (unat PARK_MAX_HTX_RETRIES)]) 0 \<noteq> None"
      by (rule bounded_total) simp
    then obtain r where r: "bounded PARK_MAX_HTX_RETRIES (map codes [0..<Suc (unat PARK_MAX_HTX_RETRIES)]) 0 = Some r"
      by blast
    show thesis
    proof (cases "htm \<and> 3 \<le> rl_len (log_reads lg)")
      case True
      then show ?thesis using r by (intro that [of "fst r" "snd r"]) (simp_all add: begin_htx_park_def del: upt_Suc)
    next
      case False
      then show ?thesis by (intro that [of 0 "Inl SoftwareFallback"]) (auto simp: begin_htx_park_def)
    qed
  qed
  let ?C = "set rs \<union> set (live es)"
  consider "htx = Inr ()" | "htx = Inl SoftwareFallback" | "htx = Inl AbortOrConflict"
    by (metis bounded_htx_err.exhaust old.sum.exhaust old.unit.exhaust)
  then show ?thesis
  proof cases
    case 1
    then show ?thesis using h hs cells cl [of ?C]
      by (auto simp: try_clear_unpark_bits_def clear_htm_loop_eq [OF assms(2)])
  next
    case 2
    obtain ls' sts b where l: "clear_loop pin ls [] (rs @ live es) = (ls', sts, b)" by (metis prod_cases3)
    have r: "b = cells_valid pin ls ?C" "b \<Longrightarrow> ls' = cleared ls ?C" "\<not> b \<Longrightarrow> park_failure_cleanup ls' (rs @ live es) sts = ls"
      using clear_loop_result [OF assms(2) l] by simp_all
    show ?thesis
      using 2 h cells l r cl [of ?C] by (cases b) (auto simp: try_clear_unpark_bits_def)
  next
    case 3
    then show ?thesis using h hs cells by (auto simp: try_clear_unpark_bits_def)
  qed
qed

lemma park_pin_cycle:
  assumes "tx_holds vts csz lg rs es spec seals"
  shows "\<exists>pp. park_pin_new vts lg synch = Inr (pp, es) \<and> pp_pin_epoch pp = thread_epoch_get synch \<and>
    pp_synch pp = INACTIVE_EPOCH \<and> park_cells vts (pp_logs pp) = park_cells vts lg \<and>
    tx_holds vts csz (pp_logs pp) rs es [] seals \<and> (\<exists>lg'. park_pin_drop pp clk = Inr (lg', clk) \<and> tx_holds vts csz lg' [] [] [] seals \<and> validate_start_state lg')"
proof -
  let ?lg = "lg\<lparr>log_garbage := abort_speculative_garbage (log_garbage lg)\<rparr>"
  let ?pp = "\<lparr>pp_logs = ?lg, pp_pin_epoch = thread_epoch_get synch, pp_synch = thread_epoch_unpin synch\<rparr>"
  from assms have w: "wl_holds vts csz (log_writes lg) es" and g: "tg_ready vts (log_garbage lg) spec seals"
    by (simp_all add: tx_holds_def)
  have new: "park_pin_new vts lg synch = Inr (?pp, es)"
    using wl_entries_holds [OF w] by (simp add: park_pin_new_def wl_drop_writes_def wl_entries_def)
  let ?lg' = "?lg\<lparr>log_reads := rl_clear (log_reads lg), log_writes := wl_clear_no_drop (log_writes lg)\<rparr>"
  have "park_pin_drop ?pp clk = Inr (?lg', clk)"
    by (simp add: park_pin_drop_def clock_now_Some thread_epoch_pin_def thread_epoch_set_def)
  moreover have "tx_holds vts csz ?lg' [] [] [] seals"
    using abort_ready [OF g] by (simp add: tx_holds_def rl_full_clear wl_holds_clear_no_drop [OF w])
  moreover have "tx_holds vts csz (pp_logs ?pp) rs es [] seals"
    using assms abort_ready [OF g] by (simp add: tx_holds_def)
  ultimately show ?thesis
    using new tx_holds_start by (intro exI [of _ ?pp]) (auto simp: thread_epoch_unpin_inactive park_cells_def)
qed

section \<open>Properties\<close>

text \<open>
  Property C18: trying to park is all or nothing. The attempt never panics; if it succeeds, every cell read or
  written is free and not newer than the pin, and exactly their unpark bits are cleared; if
  it fails, every lock word is, bit for bit, the one before, in hardware and in software, also
  where a cell occurs twice in the logs; and in software it succeeds exactly if all cells are valid.
\<close>

theorem park_attempt_all_or_nothing:
  assumes "tx_holds vts csz lg rs es spec seals" and "time_ok pin"
  shows "\<exists>b ls'. try_clear_unpark_bits vts htm codes ls lg pin = Inr (b, ls') \<and>
    (b \<longrightarrow> cells_valid pin ls (set rs \<union> set (live es)) \<and>
       ls' = (\<lambda>c. if c \<in> set rs \<union> set (live es) then clear_unpark_bit (ls c) else ls c)) \<and>
    (\<not> b \<longrightarrow> ls' = ls) \<and>
    (\<not> htm \<longrightarrow> b = cells_valid pin ls (set rs \<union> set (live es)))"
  by (rule park_attempt_eq [OF assms])

text \<open>
  Property C19: a pass of \<open>unpark\<close> wakes exactly the sleepers one of whose cells is locked or newer than
  their pin, in the order they went to sleep, and leaves the others in theirs. The count of
  those it left alone that it reports is 0, however many there are: the closure counts in a copy.
\<close>

theorem unpark_wakes_the_stale:
  assumes "unpark_filter_spec uf" and "\<forall>pp\<in>set queue. pp_ok vts csz pp"
  shows "unpark uf vts ls queue =
    Inr (filter (pp_stale vts ls) queue, filter (\<lambda>pp. \<not> pp_stale vts ls pp) queue,
         length (filter (pp_stale vts ls) queue), 0)"
proof -
  show ?thesis
    by (simp add: unpark_def unpark_filter_unique [OF assms(1)] unpark_pass [OF assms(2)])
qed

text \<open>
  A transaction that parks drops each of its pending values once and forgets its trash,
  while the lock words it waits on stay those of its logs; waking up leaves empty
  logs, drops nothing, and pins the thread at the current time.
\<close>

theorem parking_drops_values_once:
  assumes "tx_holds vts csz lg rs es spec seals"
  shows "\<exists>pp. park_pin_new vts lg synch = Inr (pp, es) \<and> pp_pin_epoch pp = thread_epoch_get synch \<and>
    pp_synch pp = INACTIVE_EPOCH \<and> park_cells vts (pp_logs pp) = park_cells vts lg \<and>
    (\<exists>lg'. park_pin_drop pp clk = Inr (lg', clk) \<and> tx_holds vts csz lg' [] [] [] seals \<and> validate_start_state lg')"
  using park_pin_cycle [OF assms, of synch clk] by blast

section \<open>Witnesses\<close>

lemma park_time_ok: "time_ok (QuiesceEpoch 5)"
  by (simp add: time_ok_def lock_bit_set_iff unpark_bit_set_iff_odd word_le_nat_alt unat_FIRST)

lemma park_attempt_all_or_nothing_witness:
  "\<exists>lg es ls'. live es \<noteq> [] \<and>
     try_clear_unpark_bits (\<lambda>_. 2) False (\<lambda>_. 0) (\<lambda>_. 3) lg (QuiesceEpoch 5) = Inr (True, ls') \<and>
     ls' = (\<lambda>c. if c \<in> set (live es) then clear_unpark_bit 3 else 3)"
proof -
  obtain lg es where h: "tx_holds (\<lambda>_. 2) (\<lambda>_. 1) lg [] es [] []" "live es \<noteq> []"
    using one_write_holds by blast
  have "cells_valid (QuiesceEpoch 5) (\<lambda>_. 3) C" for C
    by (simp add: cells_valid_def is_locked_def lock_bit_set_iff ver_eq)
  then obtain ls' where "try_clear_unpark_bits (\<lambda>_. 2) False (\<lambda>_. 0) (\<lambda>_. 3) lg (QuiesceEpoch 5) = Inr (True, ls')"
    "ls' = (\<lambda>c. if c \<in> set (live es) then clear_unpark_bit 3 else 3)"
    using park_attempt_all_or_nothing [OF h(1) park_time_ok, of False "\<lambda>_. 0" "\<lambda>_. 3"] by auto
  with h(2) show ?thesis by blast
qed

lemma unpark_wakes_the_stale_witness:
  "\<exists>pp. unpark unpark_scan (\<lambda>_. 2) (\<lambda>_. 7) [pp] = Inr ([pp], [], 1, 0) \<and>
        unpark unpark_scan (\<lambda>_. 2) (\<lambda>_. 3) [pp] = Inr ([], [pp], 0, 0)"
proof -
  obtain lg es where h: "tx_holds (\<lambda>_. 2) (\<lambda>_. 1) lg [] es [] []" "live es \<noteq> []"
    using one_write_holds by blast
  let ?pp = "\<lparr>pp_logs = lg, pp_pin_epoch = QuiesceEpoch 5, pp_synch = INACTIVE_EPOCH\<rparr>"
  have r: "rl_full (log_reads lg) []" and w: "wl_holds (\<lambda>_. 2) (\<lambda>_. 1) (log_writes lg) es"
    using h(1) by (simp_all add: tx_holds_def)
  then have ok: "\<forall>pp\<in>set [?pp]. pp_ok (\<lambda>_. 2) (\<lambda>_. 1) pp"
    using park_time_ok by (auto simp: pp_ok_def)
  have "park_cells (\<lambda>_. 2) lg = Inr (live es)" using park_cells_holds [OF r w] by simp
  then have "pp_stale (\<lambda>_. 2) (\<lambda>_. 7) ?pp" "\<not> pp_stale (\<lambda>_. 2) (\<lambda>_. 3) ?pp"
    using h(2) by (simp_all add: pp_stale_def cells_valid_def is_locked_def lock_bit_set_iff ver_eq)
  then show ?thesis
    using unpark_wakes_the_stale [OF unpark_scan_spec ok] by (intro exI [of _ ?pp]) simp
qed

lemma parking_drops_values_once_witness:
  "\<exists>lg es pp. live es \<noteq> [] \<and> park_pin_new (\<lambda>_. 2) lg 5 = Inr (pp, es)"
proof -
  obtain lg es where h: "tx_holds (\<lambda>_. 2) (\<lambda>_. 1) lg [] es [] []" "live es \<noteq> []"
    using one_write_holds by blast
  with parking_drops_values_once [OF h(1)] show ?thesis by blast
qed

end
