(* ===== verification/Synch.thy ===== *)
theory Synch
  imports Epoch Alloc "HOL-Library.Multiset"
begin

text \<open>
  \<open>src/internal/gc/quiesce/synch_list.rs\<close>: the list of the threads that take part in the
  transactional memory, as the collector walks it. A \<open>Synch\<close> is its address, which identifies
  its thread. The list is changed under the write guard of \<open>gc/quiesce/global.rs\<close>, which takes
  the lock of every thread, and walked under the lock of the walking thread; theory \<open>Global_List\<close>
  shows that the two exclude each other.
\<close>

type_synonym synch_list = "nat fvec"

definition synch_list_new :: synch_list where
  "synch_list_new = fvec_new"

definition register :: "synch_list \<Rightarrow> nat \<Rightarrow> synch_list" where
  "register l to_add = fvec_push l to_add"

definition unregister :: "synch_list \<Rightarrow> nat \<Rightarrow> synch_list \<times> bool" where
  "unregister l to_remove =
     (case position (\<lambda>synch. synch = to_remove) (fdata l) of
        Some i \<Rightarrow> (l\<lparr>fdata := swap_remove i (fdata l)\<rparr>, True)
      | None \<Rightarrow> (l, False))"

definition synch_iter :: "synch_list \<Rightarrow> nat list" where
  "synch_iter l = fdata l"

lemma synch_iter_simps [simp]:
  "synch_iter synch_list_new = []" "synch_iter (register l t) = synch_iter l @ [t]"
  by (simp_all add: synch_iter_def synch_list_new_def register_def fvec_new_def vec_facts)

lemma mset_swap_remove:
  assumes "i < length xs"
  shows "mset (swap_remove i xs) = mset xs - {#xs ! i#}"
proof -
  obtain ys y where xs: "xs = ys @ [y]" using assms by (cases xs rule: rev_cases) auto
  show ?thesis
  proof (cases "i < length ys")
    case True
    then have "swap_remove i xs = ys[i := y]"
      by (simp add: xs swap_remove_def list_update_append1)
    with True show ?thesis by (simp add: xs nth_append mset_update)
  next
    case False
    with assms have "i = length ys" by (simp add: xs)
    then show ?thesis by (simp add: xs swap_remove_def)
  qed
qed

text \<open>Unregistering takes one occurrence out, says whether there was one, and may reorder the rest.\<close>

lemma unregister_mset:
  "mset (synch_iter (fst (unregister l t))) = mset (synch_iter l) - {#t#}"
  "snd (unregister l t) \<longleftrightarrow> t \<in> set (synch_iter l)"
proof -
  have "mset (synch_iter (fst (unregister l t))) = mset (synch_iter l) - {#t#} \<and>
      (snd (unregister l t) \<longleftrightarrow> t \<in> set (synch_iter l))"
  proof (cases "position (\<lambda>synch. synch = t) (fdata l)")
    case None
    then have "t \<notin> set (fdata l)" by (auto simp: position_None)
    with None show ?thesis by (simp add: unregister_def synch_iter_def diff_single_trivial)
  next
    case (Some i)
    then have "i < length (fdata l)" "fdata l ! i = t" by (auto dest: position_Some)
    with Some show ?thesis by (auto simp: unregister_def synch_iter_def mset_swap_remove)
  qed
  then show "mset (synch_iter (fst (unregister l t))) = mset (synch_iter l) - {#t#}"
    and "snd (unregister l t) \<longleftrightarrow> t \<in> set (synch_iter l)" by simp_all
qed

lemma set_unregister:
  assumes "distinct (synch_iter l)"
  shows "distinct (synch_iter (fst (unregister l t)))"
    and "set (synch_iter (fst (unregister l t))) = set (synch_iter l) - {t}"
proof -
  have m: "mset (synch_iter (fst (unregister l t))) = mset (remove1 t (synch_iter l))"
    by (simp add: unregister_mset)
  show "distinct (synch_iter (fst (unregister l t)))"
    using mset_eq_imp_distinct_iff [OF m] assms by simp
  show "set (synch_iter (fst (unregister l t))) = set (synch_iter l) - {t}"
    using mset_eq_setD [OF m] assms by simp
qed

end
