(* ===== verification/Thread.thy ===== *)
theory Thread
  imports Parking Starvation Synch
begin

text \<open>
  The run loops of \<open>src/internal/thread.rs\<close> and the entry points of \<open>src/thread_key.rs\<close>: a thread is
  pinned, the user's function is run over empty logs, and its result decides between
  committing, parking and trying again with a later pin.

  What other threads do between the steps of this one is an argument: every attempt brings the looks
  that its operations take, the shared state its commit or its parking meets, and the readings of the
  clock. The user's function passes the error of a failed operation up; otherwise it is a function of
  the results of its operations. The loops run over a finite list of attempts; a loop that
  has used all of them is still running.
\<close>

record thread =
  th_logs :: logs
  th_synch :: thread_epoch
  th_progress :: progress

definition thread_new :: "thread outcome" where
  "thread_new =
     map_sum id (\<lambda>lg. \<lparr>th_logs = lg, th_synch = thread_epoch_inactive, th_progress = progress_new\<rparr>) new_logs"

definition is_pinned :: "thread \<Rightarrow> bool" where
  "is_pinned th \<longleftrightarrow> is_active (thread_epoch_get (th_synch th))"

section \<open>Pinning\<close>

text \<open>\<open>progressed\<close>, for the thread itself; releasing the starvation lock is in theory \<open>Starvation\<close>.\<close>

fun progressed :: "progress \<Rightarrow> progress" where
  "progressed (NotStarving None b) = NotStarving None b"
| "progressed p = progress_new"

definition try_pin :: "epoch_clock \<Rightarrow> thread \<Rightarrow> thread option outcome" where
  "try_pin clk th =
     (if \<not> is_pinned th then
        (case clock_now clk of
           Some now \<Rightarrow> Inr (Some (th\<lparr>th_synch := thread_epoch_pin now (th_synch th)\<rparr>))
         | None \<Rightarrow> Inl Abort)
      else Inr None)"

definition pin_drop :: "thread \<Rightarrow> thread" where
  "pin_drop th =
     th\<lparr>th_synch := thread_epoch_unpin (th_synch th), th_progress := progressed (th_progress th)\<rparr>"

definition pin_epoch :: "thread \<Rightarrow> quiesce_epoch outcome" where
  "pin_epoch th =
     (let e = thread_epoch_get (th_synch th) in if is_active e then Inr e else Inl Undefined)"

definition repin :: "epoch_clock \<Rightarrow> thread \<Rightarrow> thread outcome" where
  "repin clk th =
     (case clock_now clk of
        Some now \<Rightarrow> Inr (th\<lparr>th_synch := thread_epoch_repin now (th_synch th)\<rparr>)
      | None \<Rightarrow> Inl Abort)"

text \<open>A thread whose backing off ends in \<open>starve_lock\<close> comes back holding the lock.\<close>

definition snooze_repin :: "usize \<Rightarrow> epoch_clock \<Rightarrow> thread \<Rightarrow> thread outcome" where
  "snooze_repin max_elapsed clk th =
     (case pin_epoch th of
        Inl s \<Rightarrow> Inl s
      | Inr e \<Rightarrow>
          repin clk (th\<lparr>th_progress :=
            (case snd (failed_to_progress max_elapsed e (th_progress th)) of Some p \<Rightarrow> p | None \<Rightarrow> Starving)\<rparr>))"

definition unpin_without_progress :: "thread \<Rightarrow> thread" where
  "unpin_without_progress th = th\<lparr>th_synch := thread_epoch_unpin (th_synch th)\<rparr>"

section \<open>A thread's life\<close>

text \<open>
  \<open>subscribe\<close> and \<open>unsubscribe\<close>, the hooks of \<open>src/internal/phoenix_tls.rs\<close> on a thread: what all threads share is the list of
  threads and the estimate of their number. The write guard of the list is in theory \<open>Global_List\<close>. A thread that ends collects
  everything first; the last component of the result is what was dropped.
\<close>

record registry =
  reg_list :: synch_list
  reg_estimate :: usize

definition thread_subscribe :: "nat \<Rightarrow> registry \<Rightarrow> registry" where
  "thread_subscribe t reg =
     reg\<lparr>reg_estimate := inc_thread_estimate (reg_estimate reg), reg_list := register (reg_list reg) t\<rparr>"

definition thread_unsubscribe ::
  "(usize \<Rightarrow> nat) \<Rightarrow> nat \<Rightarrow> quiesce_epoch list \<Rightarrow> thread \<Rightarrow> registry \<Rightarrow> (thread \<times> registry \<times> dyn_elem list) outcome" where
  "thread_unsubscribe vts t obs th reg =
     (case synch_and_collect_all vts (log_garbage (th_logs th)) (th_synch th) obs of
        Inl s \<Rightarrow> Inl s
      | Inr (g, synch, d) \<Rightarrow>
          (case unregister (reg_list reg) t of
             (l, did_remove) \<Rightarrow>
               if \<not> did_remove then Inl Undefined
               else Inr (th\<lparr>th_logs := (th_logs th)\<lparr>log_garbage := g\<rparr>, th_synch := synch\<rparr>,
                 reg\<lparr>reg_list := l, reg_estimate := dec_thread_estimate (reg_estimate reg)\<rparr>, d)))"

section \<open>Read only transactions\<close>

fun read_looks :: "quiesce_epoch \<Rightarrow> (nat \<times> look) list \<Rightarrow> error + usize list list" where
  "read_looks p [] = Inr []"
| "read_looks p ((size_of, l) # ls) =
     (case read_tx_borrow size_of p l of
        Inl e \<Rightarrow> Inl e
      | Inr v \<Rightarrow> map_sum id (Cons v) (read_looks p ls))"

fun run_read ::
  "usize \<Rightarrow> (usize list list \<Rightarrow> 'o) \<Rightarrow> ((nat \<times> look) list \<times> epoch_clock) list \<Rightarrow> thread \<Rightarrow> nat \<Rightarrow>
     (thread \<times> ('o \<times> nat) option) outcome" where
  "run_read max_elapsed f [] th conflicts = Inr (th, None)"
| "run_read max_elapsed f ((looks, clk) # as) th conflicts =
     (case read_looks (thread_epoch_get (th_synch th)) looks of
        Inr vs \<Rightarrow> Inr (pin_drop th, Some (f vs, conflicts))
      | Inl CONFLICT \<Rightarrow>
          (case snooze_repin max_elapsed clk th of
             Inl s \<Rightarrow> Inl s
           | Inr th' \<Rightarrow> run_read max_elapsed f as th' (Suc conflicts)))"

section \<open>Read-write transactions\<close>

datatype status = Error error | AWAIT_RETRY

record attempt =
  at_ops :: "tx_op list"
  at_shared :: shared
  at_codes :: "nat \<Rightarrow> begin_code"
  at_obs :: "quiesce_epoch list"
  at_wake :: epoch_clock
  at_clock :: epoch_clock

type_synonym 'o tx_fn = "tx_result list \<Rightarrow> status + 'o"

definition fn_result :: "'o tx_fn \<Rightarrow> tx_result list \<Rightarrow> status + 'o" where
  "fn_result f rs = (if list_all (\<lambda>r. \<not> is_conflict r) rs then f rs else Inl (Error CONFLICT))"

text \<open>
  \<open>park\<close> of \<open>src/internal/parking.rs\<close>, from the parked pin to its drop: whether the thread slept, what
  was dropped, and the shared state with the unpark bits cleared. How it is woken is in theories
  \<open>Parking\<close> and \<open>Wakeup\<close>.
\<close>

definition park ::
  "(usize \<Rightarrow> nat) \<Rightarrow> bool \<Rightarrow> (nat \<Rightarrow> begin_code) \<Rightarrow> shared \<Rightarrow> epoch_clock \<Rightarrow> thread \<Rightarrow>
     (thread \<times> shared \<times> bool \<times> dyn_elem list) outcome" where
  "park vts htm_supported codes sh clk th =
     (if \<not> parkable (th_logs th) then Inl Undefined
      else case park_pin_new vts (th_logs th) (th_synch th) of
        Inl s \<Rightarrow> Inl s
      | Inr (pp, dropped) \<Rightarrow>
          (case try_clear_unpark_bits vts htm_supported codes (locks sh) (pp_logs pp) (pp_pin_epoch pp) of
             Inl s \<Rightarrow> Inl s
           | Inr (slept, ls) \<Rightarrow>
               (case park_pin_drop pp clk of
                  Inl s \<Rightarrow> Inl s
                | Inr (lg, synch) \<Rightarrow>
                    Inr (\<lparr>th_logs = lg, th_synch = synch, th_progress = progressed (th_progress th)\<rparr>,
                      sh\<lparr>locks := ls\<rparr>, slept, dropped))))"

datatype 'o attempt_end = Committed 'o | Commit_Conflict | Eager_Conflict | Parked bool

text \<open>One turn of the loop of \<open>run_rw\<close>, up to the decision: thread, shared state, end, and what was dropped.\<close>

definition rw_attempt ::
  "(usize \<Rightarrow> nat) \<Rightarrow> (cell \<Rightarrow> nat) \<Rightarrow> bool \<Rightarrow> 'o tx_fn \<Rightarrow> attempt \<Rightarrow> thread \<Rightarrow>
     (thread \<times> shared \<times> 'o attempt_end \<times> dyn_elem list) outcome" where
  "rw_attempt vts csz htm_supported f a th =
     (if \<not> validate_start_state (th_logs th) then Inl Undefined
      else case tx_ops_apply vts csz (thread_epoch_get (th_synch th)) (at_ops a) (th_logs th) of
        Inl s \<Rightarrow> Inl s
      | Inr (lg, rs, d) \<Rightarrow>
          (case fn_result f rs of
             Inr v \<Rightarrow>
               (case commit vts htm_supported (at_codes a) (at_shared a) lg (th_synch th) (at_obs a) of
                  Inl s \<Rightarrow> Inl s
                | Inr r \<Rightarrow>
                    if committed r then
                      if validate_start_state (cr_logs r) then
                        Inr (\<lparr>th_logs = cr_logs r, th_synch = cr_synch r, th_progress = progressed (th_progress th)\<rparr>,
                          cr_shared r, Committed v, d @ cr_dropped r)
                      else Inl Undefined
                    else Inr (th\<lparr>th_logs := cr_logs r, th_synch := cr_synch r\<rparr>, cr_shared r, Commit_Conflict,
                      d @ cr_dropped r))
           | Inl (Error CONFLICT) \<Rightarrow>
               map_sum id (\<lambda>(lg', dropped). (th\<lparr>th_logs := lg'\<rparr>, at_shared a, Eager_Conflict, d @ dropped))
                 (pin_rw_drop vts lg)
           | Inl AWAIT_RETRY \<Rightarrow>
               map_sum id (\<lambda>(th', sh', slept, dropped). (th', sh', Parked slept, d @ dropped))
                 (park vts htm_supported (at_codes a) (at_shared a) (at_wake a) (th\<lparr>th_logs := lg\<rparr>))))"

text \<open>The loop: the thread, the result with the two counts of conflicts, and for each attempt the shared
  state after it and how it ended.\<close>

fun run_rw ::
  "(usize \<Rightarrow> nat) \<Rightarrow> (cell \<Rightarrow> nat) \<Rightarrow> bool \<Rightarrow> usize \<Rightarrow> 'o tx_fn \<Rightarrow> attempt list \<Rightarrow> thread \<Rightarrow> nat \<Rightarrow> nat \<Rightarrow>
     (thread \<times> ('o \<times> nat \<times> nat) option \<times> (shared \<times> 'o attempt_end) list) outcome" where
  "run_rw vts csz htm max_elapsed f [] th eager_conflicts commit_conflicts = Inr (th, None, [])"
| "run_rw vts csz htm max_elapsed f (a # as) th eager_conflicts commit_conflicts =
     (case rw_attempt vts csz htm f a th of
        Inl s \<Rightarrow> Inl s
      | Inr (th1, sh, e, d) \<Rightarrow>
          (case e of
             Committed v \<Rightarrow> Inr (unpin_without_progress th1, Some (v, eager_conflicts, commit_conflicts), [(sh, e)])
           | Parked slept \<Rightarrow>
               (case repin (at_clock a) th1 of
                  Inl s \<Rightarrow> Inl s
                | Inr th2 \<Rightarrow> map_sum id (map_prod id (map_prod id (Cons (sh, e))))
                    (run_rw vts csz htm max_elapsed f as th2 eager_conflicts commit_conflicts))
           | Eager_Conflict \<Rightarrow>
               (case snooze_repin max_elapsed (at_clock a) th1 of
                  Inl s \<Rightarrow> Inl s
                | Inr th2 \<Rightarrow> map_sum id (map_prod id (map_prod id (Cons (sh, e))))
                    (run_rw vts csz htm max_elapsed f as th2 (Suc eager_conflicts) commit_conflicts))
           | Commit_Conflict \<Rightarrow>
               (case snooze_repin max_elapsed (at_clock a) th1 of
                  Inl s \<Rightarrow> Inl s
                | Inr th2 \<Rightarrow> map_sum id (map_prod id (map_prod id (Cons (sh, e))))
                    (run_rw vts csz htm max_elapsed f as th2 eager_conflicts (Suc commit_conflicts)))))"

section \<open>Entry points\<close>

datatype try_err = TryErr

definition try_read ::
  "usize \<Rightarrow> (usize list list \<Rightarrow> 'o) \<Rightarrow> ((nat \<times> look) list \<times> epoch_clock) list \<Rightarrow> epoch_clock \<Rightarrow> thread \<Rightarrow>
     (try_err + (thread \<times> ('o \<times> nat) option)) outcome" where
  "try_read max_elapsed f as clk th =
     (case try_pin clk th of
        Inl s \<Rightarrow> Inl s
      | Inr None \<Rightarrow> Inr (Inl TryErr)
      | Inr (Some pin) \<Rightarrow> map_sum id Inr (run_read max_elapsed f as pin 0))"

definition try_rw ::
  "(usize \<Rightarrow> nat) \<Rightarrow> (cell \<Rightarrow> nat) \<Rightarrow> bool \<Rightarrow> usize \<Rightarrow> 'o tx_fn \<Rightarrow> attempt list \<Rightarrow> epoch_clock \<Rightarrow> thread \<Rightarrow>
     (try_err + (thread \<times> ('o \<times> nat \<times> nat) option \<times> (shared \<times> 'o attempt_end) list)) outcome" where
  "try_rw vts csz htm max_elapsed f as clk th =
     (case try_pin clk th of
        Inl s \<Rightarrow> Inl s
      | Inr None \<Rightarrow> Inr (Inl TryErr)
      | Inr (Some pin) \<Rightarrow> map_sum id Inr (run_rw vts csz htm max_elapsed f as pin 0 0))"

text \<open>\<open>expect("nested transactions are not yet supported")\<close>\<close>

definition expect :: "(try_err + 'a) outcome \<Rightarrow> 'a outcome" where
  "expect r = (case r of Inl s \<Rightarrow> Inl s | Inr (Inl e) \<Rightarrow> Inl Panic | Inr (Inr x) \<Rightarrow> Inr x)"

definition thread_key_read ::
  "usize \<Rightarrow> (usize list list \<Rightarrow> 'o) \<Rightarrow> ((nat \<times> look) list \<times> epoch_clock) list \<Rightarrow> epoch_clock \<Rightarrow> thread \<Rightarrow>
     (thread \<times> ('o \<times> nat) option) outcome" where
  "thread_key_read max_elapsed f as clk th = expect (try_read max_elapsed f as clk th)"

definition thread_key_rw ::
  "(usize \<Rightarrow> nat) \<Rightarrow> (cell \<Rightarrow> nat) \<Rightarrow> bool \<Rightarrow> usize \<Rightarrow> 'o tx_fn \<Rightarrow> attempt list \<Rightarrow> epoch_clock \<Rightarrow> thread \<Rightarrow>
     (thread \<times> ('o \<times> nat \<times> nat) option \<times> (shared \<times> 'o attempt_end) list) outcome" where
  "thread_key_rw vts csz htm max_elapsed f as clk th = expect (try_rw vts csz htm max_elapsed f as clk th)"

end
