(* ===== verification/Thread_Proofs.thy ===== *)
theory Thread_Proofs
  imports Thread
begin

text \<open>
  What the run loops of theory \<open>Thread\<close> guarantee: a refinement of every attempt to the map
  specification of theory \<open>Rw_Tx\<close>, and, around it, the invariant that every attempt starts from
  empty logs under a fresh pin.
\<close>

section \<open>Failed operations leave logs that can be dropped\<close>

definition droppable ::
  "(usize \<Rightarrow> nat) \<Rightarrow> logs \<Rightarrow> dyn_elem list \<Rightarrow> dyn_elem list \<Rightarrow> (quiesce_epoch \<times> dyn_elem list) list \<Rightarrow> bool" where
  "droppable vts lg es spec seals \<longleftrightarrow>
     elems_of_words vts (wl_data (log_writes lg)) es \<and>
     (\<not> has_overflowed (wl_bloom (log_writes lg)) \<longrightarrow> overflow_map (wl_bloom (log_writes lg)) = Map.empty) \<and>
     tg_ready vts (log_garbage lg) spec seals"

lemma holds_droppable: "tx_holds vts csz lg rs es spec seals \<Longrightarrow> droppable vts lg es spec seals"
  by (auto simp: tx_holds_def droppable_def wl_holds_def split: if_splits)

lemma droppable_drop:
  assumes "droppable vts lg es spec seals"
  obtains lg' where "pin_rw_drop vts lg = Inr (lg', es)" and "tx_holds vts csz lg' [] [] [] seals"
proof -
  from assms have e: "elems_of_words vts (wl_data (log_writes lg)) es" and g: "tg_ready vts (log_garbage lg) spec seals"
    and b: "bloom_clear (wl_bloom (log_writes lg)) = bloom_new"
    by (auto simp: droppable_def intro: clear_new)
  let ?lg = "\<lparr>log_reads = rl_clear (log_reads lg), log_writes = wl_clear_no_drop (log_writes lg),
    log_garbage = abort_speculative_garbage (log_garbage lg)\<rparr>"
  have "wl_holds vts csz (wl_clear_no_drop (log_writes lg)) []"
    using e b by (simp add: wl_holds_def wl_clear_no_drop_def dyn_clear_no_drop_def elems_of_words_def
        vec_facts bloom_new_def has_overflowed_def OVERFLOWED_def)
  moreover have "rl_full (rl_clear (log_reads lg)) []"
    by (simp add: rl_full_def rl_clear_def vec_facts)
  ultimately have "tx_holds vts csz ?lg [] [] [] seals"
    using abort_ready [OF g] by (simp add: tx_holds_def)
  moreover have "wl_clear vts (log_writes lg) = Inr (wl_clear_no_drop (log_writes lg), es)"
    using e by (simp add: wl_clear_def dyn_clear_def dyn_drain_def elems_of_words_def
      dyn_iter_words wl_clear_no_drop_def dyn_clear_no_drop_def)
  then have "pin_rw_drop vts lg = Inr (?lg, es)"
    by (simp add: pin_rw_drop_def Let_def)
  ultimately show thesis by (intro that)
qed

lemma tx_op_conflict:
  assumes h: "tx_holds vts csz lg rs es spec seals" and ok: "tx_op_ok vts csz op"
    and run: "tx_op_apply vts csz p op lg = Inr (lg', r, d)" and r: "is_conflict r"
  shows "droppable vts lg' es spec seals"
proof (cases op)
  case (Borrow mo c l1 l2)
  with ok have c: "csz c \<noteq> 0" by simp
  show ?thesis
  proof (cases "mo = ReadWrite")
    case True
    obtain lg1 r1 rs1 where "borrow_impl vts (csz c) p lg c l1 l2 = Inr (lg1, r1)"
      and "tx_holds vts csz lg1 rs1 es spec seals"
      using borrow_impl_holds [where p = p and ?l1.0 = l1 and ?l2.0 = l2, OF h c] by blast
    with Borrow True c run show ?thesis by (auto simp: rw_borrow_def intro: holds_droppable)
  next
    case False
    obtain lg1 r1 where "borrow_unlogged_impl vts (csz c) p lg c l1 l2 = Inr (lg1, r1)"
      and "tx_holds vts csz lg1 rs es spec seals"
      using borrow_unlogged_holds [where p = p and ?l1.0 = l1 and ?l2.0 = l2, OF h c] by blast
    with Borrow False c run show ?thesis
      by (cases mo) (auto simp: rw_borrow_def intro: holds_droppable)
  qed
next
  case (Set c a l1 l2)
  with ok have a: "set_arg_ok vts csz c a" and l: "length (fst l1) = csz c" "length (fst l2) = csz c"
    by simp_all
  obtain lg1 r1 d1 where run1: "set_impl vts p lg c a l1 l2 = Inr (lg1, r1, d1)"
    and post: "case r1 of
       Inr u \<Rightarrow> \<exists>es' spec'. tx_holds vts csz lg1 rs es' spec' seals \<and> set_ok p c a l1 l2 es spec d1 es' spec'
     | Inl ev \<Rightarrow> ev = (CONFLICT, value_words a) \<and> d1 = [] \<and> set_failed p c a l2 es lg lg1"
    using set_impl_holds [OF h a l, of p] by blast
  with Set run a have eq: "lg' = lg1" "r = (case r1 of Inr u \<Rightarrow> Unit | Inl (e, v) \<Rightarrow> Conflict (Some v))"
    by (auto simp: rw_set_def set_arg_ok_def)
  with r obtain ev where "r1 = Inl ev" by (cases r1) auto
  with post h eq(1) show ?thesis
    by (auto simp: droppable_def set_failed_def tx_holds_def wl_holds_def)
qed

lemma tx_ops_droppable:
  assumes "tx_holds vts csz lg rs es spec seals" and "list_all (tx_op_ok vts csz) ops"
    and "tx_ops_apply vts csz p ops lg = Inr (lg', res, d)"
  shows "\<exists>es' spec'. droppable vts lg' es' spec' seals"
  using assms
proof (induction ops arbitrary: lg rs es spec lg' res d)
  case Nil
  then show ?case by (auto intro: holds_droppable)
next
  case (Cons op ops)
  from Cons.prems have ok: "tx_op_ok vts csz op" "list_all (tx_op_ok vts csz) ops" by simp_all
  from tx_op_refines [OF Cons.prems(1) ok(1), of p] obtain lg1 r d1 rs1 m1 spec1
    where run: "tx_op_apply vts csz p op lg = Inr (lg1, r, d1)"
      and post: "\<not> is_conflict r \<longrightarrow> (\<exists>es'. tx_holds vts csz lg1 rs1 es' spec1 seals \<and> pending es' = m1 \<and>
       values_of es' + values_of d1 = values_of es + op_value op r)" by blast
  show ?case
  proof (cases "is_conflict r")
    case True
    with run Cons.prems(3) tx_op_conflict [OF Cons.prems(1) ok(1) run] show ?thesis by auto
  next
    case False
    with post obtain es1 where h1: "tx_holds vts csz lg1 rs1 es1 spec1 seals" by blast
    from Cons.prems(3) run False obtain res1 d2 where "tx_ops_apply vts csz p ops lg1 = Inr (lg', res1, d2)"
      by (cases "tx_ops_apply vts csz p ops lg1") auto
    with Cons.IH [OF h1 ok(2)] show ?thesis by blast
  qed
qed


section \<open>What a transaction has logged\<close>

fun op_cell :: "tx_op \<Rightarrow> cell" where
  "op_cell (Borrow mo c l1 l2) = c"
| "op_cell (Set c a l1 l2) = c"

fun op_logs :: "tx_op \<Rightarrow> bool" where
  "op_logs (Borrow mo c l1 l2) = (mo = ReadWrite)"
| "op_logs (Set c a l1 l2) = True"

fun op_fresh :: "quiesce_epoch \<Rightarrow> tx_op \<Rightarrow> bool" where
  "op_fresh p (Borrow mo c l1 l2) = rw_valid p l2"
| "op_fresh p (Set c a l1 l2) = rw_valid p l2"

lemma tx_op_spec_elim:
  assumes "tx_op_spec p op (rs, m, t) r s'"
  obtains
    (read) mo c l1 l2 v where "op = Borrow mo c l1 l2" and "r = Value v"
      and "s' = (rs @ (if mo = ReadWrite \<and> m c = None then [c] else []), m, t)"
  | (written) c a l1 l2 t' where "op = Set c a l1 l2" and "r = Unit" and "s' = (rs, m(c \<mapsto> value_words a), t @ t')"
  | (failed) "is_conflict r" and "s' = (rs, m, t)" and "\<not> op_fresh p op"
proof (cases op)
  case (Borrow mo c l1 l2)
  show thesis
  proof (cases r)
    case (Value v)
    with Borrow assms show thesis by (intro read) auto
  next
    case Unit
    with Borrow assms show thesis by simp
  next
    case (Conflict v)
    with Borrow assms show thesis by (cases v) (auto intro: failed)
  qed
next
  case (Set c a l1 l2)
  show thesis
  proof (cases r)
    case (Value v)
    with Set assms show thesis by simp
  next
    case Unit
    with Set assms have "\<exists>t'. s' = (rs, m(c \<mapsto> value_words a), t @ t')"
      by (auto split: if_splits intro: exI [of _ "[]"])
    then obtain t' where "s' = (rs, m(c \<mapsto> value_words a), t @ t')" ..
    with Set Unit show thesis by (intro written)
  next
    case (Conflict v)
    with Set assms show thesis by (cases v) (auto intro: failed)
  qed
qed

text \<open>
  The state of the specification between two operations: trash only where there are writes, and
  nothing logged but the cells of the operations.
\<close>

definition tx_logged :: "tx_op list \<Rightarrow> tx_abs \<Rightarrow> bool" where
  "tx_logged ops s \<longleftrightarrow>
     (case s of (rs, m, t) \<Rightarrow>
        (t \<noteq> [] \<longrightarrow> m \<noteq> Map.empty) \<and> set rs \<union> dom m \<subseteq> op_cell ` set ops \<and>
        (\<forall>c\<in>dom m. \<exists>a l1 l2. Set c a l1 l2 \<in> set ops))"

lemma tx_logged_step:
  assumes "tx_op_spec p op s r s'" and "tx_logged ops s" and "op \<in> set ops"
  shows "tx_logged ops s'"
proof -
  obtain rs m t where s: "s = (rs, m, t)" by (cases s)
  from assms(1) [unfolded s] show ?thesis
  proof (cases rule: tx_op_spec_elim)
    case (read mo c l1 l2 v)
    then have "c \<in> op_cell ` set ops"
      using assms(3) by (auto intro: image_eqI [of _ _ op])
    with assms(2) show ?thesis by (auto simp: s read(3) tx_logged_def)
  next
    case (written c a l1 l2 t')
    then have "c \<in> op_cell ` set ops"
      using assms(3) by (auto intro: image_eqI [of _ _ op])
    moreover have "\<exists>a l1 l2. Set c a l1 l2 \<in> set ops"
      using written(1) assms(3) by blast
    ultimately show ?thesis
      using assms(2) unfolding s written(3) tx_logged_def by (simp add: dom_def) blast
  next
    case failed
    with assms(2) show ?thesis by (simp add: s)
  qed
qed

lemma tx_logged_run: "tx_ops_spec p ops s res s' \<Longrightarrow> tx_logged all s \<Longrightarrow> set ops \<subseteq> set all \<Longrightarrow> tx_logged all s'"
proof (induction rule: tx_ops_spec.induct)
  case (returned s)
  then show ?case by simp
next
  case (failed op s r s' ops)
  then show ?case using tx_logged_step [OF failed(1,3)] by simp
next
  case (next_op op s r s' ops rs s'')
  then show ?case using tx_logged_step [OF next_op(1,5)] by simp
qed

definition tx_empty :: "tx_abs \<Rightarrow> bool" where
  "tx_empty s \<longleftrightarrow> fst s = [] \<and> fst (snd s) = Map.empty"

lemma tx_empty_step:
  assumes "tx_op_spec p op s r s'"
  shows "\<not> tx_empty s \<Longrightarrow> \<not> tx_empty s'" and "op_logs op \<Longrightarrow> \<not> is_conflict r \<Longrightarrow> \<not> tx_empty s'"
    and "op_fresh p op \<Longrightarrow> \<not> is_conflict r"
proof -
  obtain rs m t where s: "s = (rs, m, t)" by (cases s)
  from assms [unfolded s]
  show "\<not> tx_empty s \<Longrightarrow> \<not> tx_empty s'" "op_logs op \<Longrightarrow> \<not> is_conflict r \<Longrightarrow> \<not> tx_empty s'"
    "op_fresh p op \<Longrightarrow> \<not> is_conflict r"
    by (cases rule: tx_op_spec_elim; auto simp: s tx_empty_def)+
qed

lemma tx_not_empty_run: "tx_ops_spec p ops s res s' \<Longrightarrow> \<not> tx_empty s \<Longrightarrow> \<not> tx_empty s'"
  by (induction rule: tx_ops_spec.induct) (auto dest: tx_empty_step(1))

lemma tx_logs_run:
  "tx_ops_spec p ops s res s' \<Longrightarrow> list_ex op_logs ops \<Longrightarrow> list_all (\<lambda>r. \<not> is_conflict r) res \<Longrightarrow> \<not> tx_empty s'"
proof (induction rule: tx_ops_spec.induct)
  case (next_op op s r s' ops rs s'')
  show ?case
  proof (cases "op_logs op")
    case True
    then show ?thesis
      using tx_not_empty_run [OF next_op(3)] tx_empty_step(2) [OF next_op(1)] next_op(2) by blast
  next
    case False
    with next_op show ?thesis by simp
  qed
qed auto

lemma tx_fresh_run:
  "tx_ops_spec p ops s res s' \<Longrightarrow> list_all (op_fresh p) ops \<Longrightarrow> list_all (\<lambda>r. \<not> is_conflict r) res"
  by (induction rule: tx_ops_spec.induct) (auto dest: tx_empty_step(3))

lemma tx_writes_step:
  assumes "tx_op_spec p op s r s'"
  shows "fst (snd s) \<noteq> Map.empty \<Longrightarrow> fst (snd s') \<noteq> Map.empty"
    and "op_value op r \<noteq> {#} \<Longrightarrow> fst (snd s') \<noteq> Map.empty"
proof -
  obtain rs m t where s: "s = (rs, m, t)" by (cases s)
  from assms [unfolded s]
  show "fst (snd s) \<noteq> Map.empty \<Longrightarrow> fst (snd s') \<noteq> Map.empty" "op_value op r \<noteq> {#} \<Longrightarrow> fst (snd s') \<noteq> Map.empty"
    by (cases rule: tx_op_spec_elim; cases "(op, r)" rule: op_value.cases; auto simp: s)+
qed

lemma tx_writes_run:
  "tx_ops_spec p ops s res s' \<Longrightarrow> fst (snd s') = Map.empty \<Longrightarrow>
     fst (snd s) = Map.empty \<and> sum_list (map2 op_value ops res) = {#}"
proof (induction rule: tx_ops_spec.induct)
  case (failed op s r s' ops)
  then show ?case using tx_writes_step [OF failed(1)] by auto
next
  case (next_op op s r s' ops rs s'')
  then show ?case using tx_writes_step [OF next_op(1)] by auto
qed simp

section \<open>One attempt\<close>

definition published :: "shared \<Rightarrow> (cell \<rightharpoonup> usize list) \<Rightarrow> shared" where
  "published sh m =
     \<lparr>locks = (\<lambda>c. if c \<in> dom m then clock sh + TICK_SIZE else locks sh c),
      mem = (\<lambda>c. case m c of Some v \<Rightarrow> v | None \<Rightarrow> mem sh c), clock = clock sh + TICK_SIZE\<rparr>"

lemma after_commit_published: "after_commit sh es = published sh (pending es)"
proof -
  have "written (mem sh) es = (\<lambda>c. case pending es c of Some v \<Rightarrow> v | None \<Rightarrow> mem sh c)"
    by (simp add: written_def fun_eq_iff)
  then show ?thesis by (simp add: after_commit_def published_def dom_writes_of)
qed

text \<open>
  An attempt makes sense if its operations do, the clock is valid where it is read and has not run
  into the lock bit, and the function asks to be parked only after it has logged something (what the
  assertion \<open>parkable\<close> demands).
\<close>

definition attempt_ok :: "(usize \<Rightarrow> nat) \<Rightarrow> (cell \<Rightarrow> nat) \<Rightarrow> 'o tx_fn \<Rightarrow> attempt \<Rightarrow> bool" where
  "attempt_ok vts csz f a \<longleftrightarrow>
     list_all (tx_op_ok vts csz) (at_ops a) \<and> clock_ok (clock (at_shared a)) \<and>
     \<not> lock_bit_set (clock (at_shared a) + TICK_SIZE) \<and> clock_ok (at_clock a) \<and>
     ((\<exists>res. f res = Inl AWAIT_RETRY) \<longrightarrow> list_ex op_logs (at_ops a))"

text \<open>What an attempt does, in terms of the map specification.\<close>

definition attempt_spec ::
  "'o tx_fn \<Rightarrow> quiesce_epoch \<Rightarrow> attempt \<Rightarrow> shared \<Rightarrow> 'o attempt_end \<Rightarrow> bool" where
  "attempt_spec f p a sh e \<longleftrightarrow>
     (case e of
        Committed v \<Rightarrow>
          \<exists>res rs m t. tx_ops_spec p (at_ops a) ([], Map.empty, []) res (rs, m, t) \<and>
            list_all (\<lambda>r. \<not> is_conflict r) res \<and> f res = Inr v \<and>
            (if m = Map.empty then sh = at_shared a
             else cells_valid p (locks (at_shared a)) (set rs \<union> dom m) \<and> sh = published (at_shared a) m)
      | Parked slept \<Rightarrow>
          \<exists>res rs m t. tx_ops_spec p (at_ops a) ([], Map.empty, []) res (rs, m, t) \<and>
            list_all (\<lambda>r. \<not> is_conflict r) res \<and> f res = Inl AWAIT_RETRY \<and>
            (if slept
             then cells_valid p (locks (at_shared a)) (set rs \<union> dom m) \<and>
               sh = (at_shared a)\<lparr>locks := \<lambda>c. if c \<in> set rs \<union> dom m
                 then clear_unpark_bit (locks (at_shared a) c) else locks (at_shared a) c\<rparr>
             else sh = at_shared a)
      | _ \<Rightarrow> sh = at_shared a)"

text \<open>
  An attempt that nobody gets in the way of: its looks and, at its end, its cells are valid at its pin, and
  the function returns a value.
\<close>

definition attempt_good :: "'o tx_fn \<Rightarrow> quiesce_epoch \<Rightarrow> attempt \<Rightarrow> bool" where
  "attempt_good f p a \<longleftrightarrow>
     list_all (op_fresh p) (at_ops a) \<and> cells_valid p (locks (at_shared a)) (op_cell ` set (at_ops a)) \<and>
     (\<forall>res. \<not> isl (f res))"

lemma cells_valid_mono: "cells_valid p ls D \<Longrightarrow> C \<subseteq> D \<Longrightarrow> cells_valid p ls C"
  by (auto simp: cells_valid_def)

lemma attempt_spec_committed:
  assumes "tx_ops_spec p (at_ops a) ([], Map.empty, []) res (rs, m, t)" and "list_all (\<lambda>r. \<not> is_conflict r) res"
    and "f res = Inr v"
    and "if m = Map.empty then sh = at_shared a
         else cells_valid p (locks (at_shared a)) (set rs \<union> dom m) \<and> sh = published (at_shared a) m"
  shows "attempt_spec f p a sh (Committed v)"
  unfolding attempt_spec_def attempt_end.case using assms by blast

lemma attempt_spec_parked:
  assumes "tx_ops_spec p (at_ops a) ([], Map.empty, []) res (rs, m, t)" and "list_all (\<lambda>r. \<not> is_conflict r) res"
    and "f res = Inl AWAIT_RETRY"
    and "if slept
         then cells_valid p (locks (at_shared a)) (set rs \<union> dom m) \<and>
           sh = (at_shared a)\<lparr>locks := \<lambda>c. if c \<in> set rs \<union> dom m
             then clear_unpark_bit (locks (at_shared a) c) else locks (at_shared a) c\<rparr>
         else sh = at_shared a"
  shows "attempt_spec f p a sh (Parked slept)"
  unfolding attempt_spec_def attempt_end.case using assms by blast

lemma map_sum_Inr_iff: "map_sum id g x = Inr y \<longleftrightarrow> (\<exists>z. x = Inr z \<and> y = g z)"
  by (cases x) auto

lemma commit_failed_synch:
  assumes "commit vts htm codes sh lg synch obs = Inr r" and "\<not> committed r"
  shows "cr_synch r = synch"
proof -
  have f: "commit_failed vts sh' lg' synch = Inr r \<Longrightarrow> cr_synch r = synch" for sh' lg'
    by (auto simp: commit_failed_def map_sum_Inr_iff)
  have p: "publish_and_seal vts sh' lg' synch obs st = Inr r \<Longrightarrow> committed r" for sh' lg' st
    by (auto simp: publish_and_seal_def map_sum_Inr_iff Let_def split: prod.splits sum.splits)
  have soft: "commit_soft vts sh lg synch obs = Inr r \<Longrightarrow> cr_synch r = synch"
    using assms(2)
    by (auto simp: commit_soft_def write_log_lock_failure_def write_log_lock_success_def validation_failure_def
        validation_success_def intro: f dest: p split: prod.splits sum.splits if_splits)
  have hard: "commit_hard vts sh lg synch obs = Inr (Some r) \<Longrightarrow> committed r"
    by (auto simp: commit_hard_def map_sum_Inr_iff Let_def dest: p split: prod.splits sum.splits if_splits option.splits bool.splits)
  from assms show ?thesis
    by (auto simp: commit_def commit_slow_def commit_empty_write_log_def intro: f soft dest: hard
        split: prod.splits sum.splits if_splits option.splits bounded_htx_err.splits)
qed

lemma run_attempt_ops:
  assumes h: "tx_holds vts csz (th_logs th) [] [] [] seals" and a: "list_all (tx_op_ok vts csz) (at_ops a)"
  obtains lg res d rs m t where
    "tx_ops_apply vts csz p (at_ops a) (th_logs th) = Inr (lg, res, d)"
    and "tx_ops_spec p (at_ops a) ([], Map.empty, []) res (rs, m, t)"
    and "tx_logged (at_ops a) (rs, m, t)"
    and "list_all (\<lambda>r. \<not> is_conflict r) res \<longrightarrow> (\<exists>es. tx_holds vts csz lg rs es t seals \<and> pending es = m \<and> (m = Map.empty \<longrightarrow> es = []))"
    and "\<exists>es spec. droppable vts lg es spec seals"
proof -
  obtain lg res d rs m t where run: "tx_ops_apply vts csz p (at_ops a) (th_logs th) = Inr (lg, res, d)"
    and spec: "tx_ops_spec p (at_ops a) ([], Map.empty, []) res (rs, m, t)"
    and good: "list_all (\<lambda>r. \<not> is_conflict r) res \<longrightarrow> (\<exists>es'. tx_holds vts csz lg rs es' t seals \<and> pending es' = m \<and>
       values_of es' + values_of d = values_of [] + sum_list (map2 op_value (at_ops a) res))"
    using tx_ops_refine [OF h a, of p] unfolding writes_of_simps map_of.simps by blast
  have "tx_logged (at_ops a) (rs, m, t)"
    using tx_logged_run [OF spec, of "at_ops a"] by (simp add: tx_logged_def)
  moreover have "es = []" if "values_of es + values_of d = values_of [] + sum_list (map2 op_value (at_ops a) res)"
    and "m = Map.empty" for es
    using that tx_writes_run [OF spec] by (simp add: values_of_def)
  ultimately show thesis
    using that [OF run spec] good tx_ops_droppable [OF h a run] by blast
qed

lemma is_pinned_simp [simp]: "is_pinned (th\<lparr>th_logs := lg\<rparr>) = is_pinned th"
  by (simp add: is_pinned_def)

lemma rw_attempt_refines:
  assumes h: "tx_holds vts csz (th_logs th) [] [] [] seals" and a: "attempt_ok vts csz f a"
    and p: "p = thread_epoch_get (th_synch th)" "time_ok p"
  shows "\<exists>th' sh e d. rw_attempt vts csz htm f a th = Inr (th', sh, e, d) \<and> attempt_spec f p a sh e \<and>
    (\<exists>seals'. tx_holds vts csz (th_logs th') [] [] [] seals') \<and>
    (e = Commit_Conflict \<or> e = Eager_Conflict \<longrightarrow> is_pinned th') \<and>
    (\<not> htm \<and> attempt_good f p a \<longrightarrow> (\<exists>v. e = Committed v))"
proof -
  from a have ops: "list_all (tx_op_ok vts csz) (at_ops a)" by (simp add: attempt_ok_def)
  obtain lg res d rs m t where run: "tx_ops_apply vts csz p (at_ops a) (th_logs th) = Inr (lg, res, d)"
    and spec: "tx_ops_spec p (at_ops a) ([], Map.empty, []) res (rs, m, t)"
    and logged: "tx_logged (at_ops a) (rs, m, t)"
    and good: "list_all (\<lambda>r. \<not> is_conflict r) res \<longrightarrow> (\<exists>es. tx_holds vts csz lg rs es t seals \<and> pending es = m \<and> (m = Map.empty \<longrightarrow> es = []))"
    and drop: "\<exists>es spec. droppable vts lg es spec seals"
    by (rule run_attempt_ops [where p = p, OF h ops])
  have start: "validate_start_state (th_logs th)" using tx_holds_start [OF h] .
  have pinned: "is_pinned th" using p time_ok_active by (simp add: is_pinned_def)
  show ?thesis
  proof (cases "fn_result f res")
    case (Inl st)
    have bad: "\<not> attempt_good f p a"
    proof
      assume g: "attempt_good f p a"
      then have "list_all (\<lambda>r. \<not> is_conflict r) res" using tx_fresh_run [OF spec] by (simp add: attempt_good_def)
      with Inl have "isl (f res)" by (simp add: fn_result_def)
      with g show False by (simp add: attempt_good_def)
    qed
    show ?thesis
    proof (cases st)
      case (Error er)
      then have er: "fn_result f res = Inl (Error CONFLICT)" using Inl by (cases er) simp
      obtain lg' es where "pin_rw_drop vts lg = Inr (lg', es)" "tx_holds vts csz lg' [] [] [] seals"
        using drop droppable_drop [where csz = csz] by metis
      then show ?thesis
        using start run er pinned p(1) bad by (auto simp: rw_attempt_def attempt_spec_def)
    next
      case AWAIT_RETRY
      with Inl have nc: "list_all (\<lambda>r. \<not> is_conflict r) res" and f: "f res = Inl AWAIT_RETRY"
        by (auto simp: fn_result_def split: if_splits)
      from good nc obtain es where es: "tx_holds vts csz lg rs es t seals" "pending es = m"
      and emp: "m = Map.empty \<longrightarrow> es = []" by blast
      obtain pp lg1 where new: "park_pin_new vts lg (th_synch th) = Inr (pp, es)"
        and pp: "tx_holds vts csz (pp_logs pp) rs es [] seals" "pp_pin_epoch pp = p"
        and dropped: "park_pin_drop pp (at_wake a) = Inr (lg1, at_wake a)" "tx_holds vts csz lg1 [] [] [] seals"
        using park_pin_cycle [OF es(1), of "th_synch th" "at_wake a"] p(1) by blast
      obtain b ls where clear: "try_clear_unpark_bits vts htm (at_codes a) (locks (at_shared a)) (pp_logs pp) p = Inr (b, ls)"
        and b: "b \<Longrightarrow> cells_valid p (locks (at_shared a)) (set rs \<union> dom m)"
          "b \<Longrightarrow> ls = (\<lambda>c. if c \<in> set rs \<union> dom m then clear_unpark_bit (locks (at_shared a) c) else locks (at_shared a) c)"
          "\<not> b \<Longrightarrow> ls = locks (at_shared a)"
        using park_attempt_eq [OF pp(1) p(2), of htm "at_codes a" "locks (at_shared a)"] es(2)
        unfolding dom_writes_of [symmetric] by blast
      have "list_ex op_logs (at_ops a)" using a f by (auto simp: attempt_ok_def)
      from tx_logs_run [OF spec this nc] have "rs \<noteq> [] \<or> m \<noteq> Map.empty" by (auto simp: tx_empty_def)
      then have "parkable lg"
        using es by (auto simp: parkable_def tx_holds_def rl_full_def rl_is_empty_def wl_is_empty_def wl_holds_def
            elems_of_words_def)
      then have "rw_attempt vts csz htm f a th = Inr (\<lparr>th_logs = lg1, th_synch = at_wake a,
          th_progress = progressed (th_progress th)\<rparr>, (at_shared a)\<lparr>locks := ls\<rparr>, Parked b, d @ es)"
        using start run Inl AWAIT_RETRY new dropped(1) clear pp(2) p(1) by (simp add: rw_attempt_def park_def)
      moreover have "attempt_spec f p a ((at_shared a)\<lparr>locks := ls\<rparr>) (Parked b)"
        by (rule attempt_spec_parked [where f = f, OF spec nc f]) (use b in simp)
      moreover have "tx_holds vts csz (th_logs \<lparr>th_logs = lg1, th_synch = at_wake a,
          th_progress = progressed (th_progress th)\<rparr>) [] [] [] seals"
        using dropped(2) by simp
      ultimately show ?thesis using bad by blast
    qed
  next
    case (Inr v)
    then have nc: "list_all (\<lambda>r. \<not> is_conflict r) res" and f: "f res = Inr v"
      by (auto simp: fn_result_def split: if_splits)
    from good nc obtain es where es: "tx_holds vts csz lg rs es t seals" "pending es = m"
      and emp: "m = Map.empty \<longrightarrow> es = []" by blast
    have pend: "dom m = set (live es)" using es(2) by (simp flip: dom_writes_of)
    have "\<forall>c\<in>dom m. csz c \<noteq> 0"
    proof
      fix c
      assume "c \<in> dom m"
      then obtain x l1 l2 where "Set c x l1 l2 \<in> set (at_ops a)"
        using logged unfolding tx_logged_def prod.case by blast
      with ops have "tx_op_ok vts csz (Set c x l1 l2)" unfolding list_all_iff by blast
      then show "csz c \<noteq> 0" by (simp add: set_arg_ok_def)
    qed
    then have pre: "commit_pre vts csz (at_shared a) lg (th_synch th) rs es t seals"
      using a es p pend by (simp add: commit_pre_def attempt_ok_def)
    show ?thesis
    proof (cases "es = []")
      case True
      then have m: "m = Map.empty" using es(2) by simp
      then have t: "t = []" using logged by (auto simp: tx_logged_def)
      let ?lg = "lg\<lparr>log_reads := rl_clear (log_reads lg)\<rparr>"
      have "wl_is_empty (log_writes lg)"
        using es(1) True by (simp add: tx_holds_def wl_holds_def elems_of_words_def wl_is_empty_def)
      then have c: "commit vts htm (at_codes a) (at_shared a) lg (th_synch th) (at_obs a) =
          Inr (commit_empty_write_log (at_shared a) lg (th_synch th))" by (simp add: commit_def)
      have "tx_holds vts csz ?lg [] [] [] seals"
        using es(1) True t by (simp add: tx_holds_def rl_full_clear)
      moreover from this have "rw_attempt vts csz htm f a th = Inr (\<lparr>th_logs = ?lg, th_synch = th_synch th,
          th_progress = progressed (th_progress th)\<rparr>, at_shared a, Committed v, d)"
        using start run Inr c p(1) tx_holds_start by (simp add: rw_attempt_def commit_empty_write_log_def)
      moreover have "attempt_spec f p a (at_shared a) (Committed v)"
        by (rule attempt_spec_committed [where f = f, OF spec nc f]) (simp add: m)
      ultimately show ?thesis by auto
    next
      case False
      then have ne: "m \<noteq> Map.empty" using emp by blast
      obtain r where r: "commit vts htm (at_codes a) (at_shared a) lg (th_synch th) (at_obs a) = Inr r"
        and yes: "committed r \<longrightarrow> can_commit (at_shared a) (th_synch th) rs es \<and>
          commit_succeeds vts csz (at_shared a) es t seals r"
        and no: "\<not> committed r \<longrightarrow> commit_fails vts csz (at_shared a) es seals r"
        and soft: "\<not> htm \<longrightarrow> committed r = can_commit (at_shared a) (th_synch th) rs es"
        using commit_cases [OF pre False, of htm "at_codes a" "at_obs a"] by blast
      show ?thesis
      proof (cases "committed r")
        case True
        then obtain rest where rest: "tx_holds vts csz (cr_logs r) [] [] [] rest"
          and sh: "cr_shared r = published (at_shared a) m"
          using yes es(2) by (auto simp: commit_succeeds_def after_commit_published)
        have "rw_attempt vts csz htm f a th = Inr (\<lparr>th_logs = cr_logs r, th_synch = cr_synch r,
            th_progress = progressed (th_progress th)\<rparr>, cr_shared r, Committed v, d @ cr_dropped r)"
          using start run Inr r p(1) True tx_holds_start [OF rest] by (simp add: rw_attempt_def)
        moreover have "attempt_spec f p a (cr_shared r) (Committed v)"
          by (rule attempt_spec_committed [where f = f, OF spec nc f])
            (use ne sh yes True p(1) pend in \<open>simp add: can_commit_def\<close>)
        ultimately show ?thesis using rest by auto
      next
        case False
        then have fails: "cr_shared r = at_shared a" "tx_holds vts csz (cr_logs r) [] [] [] seals"
          using no by (auto simp: commit_fails_def)
        have "rw_attempt vts csz htm f a th = Inr (th\<lparr>th_logs := cr_logs r, th_synch := cr_synch r\<rparr>, cr_shared r,
            Commit_Conflict, d @ cr_dropped r)"
          using start run Inr r p(1) False by (simp add: rw_attempt_def)
        moreover have "htm \<or> \<not> attempt_good f p a"
          using False soft logged cells_valid_mono [of p "locks (at_shared a)" "op_cell ` set (at_ops a)" "set rs \<union> dom m"]
          by (auto simp: can_commit_def attempt_good_def tx_logged_def pend p(1))
        ultimately show ?thesis
          using fails pinned commit_failed_synch [OF r False]
          by (auto simp: attempt_spec_def is_pinned_def)
      qed
    qed
  qed
qed

section \<open>The loop\<close>

lemma repin_eq: "repin clk th = Inr (th\<lparr>th_synch := clk\<rparr>)"
  by (simp add: repin_def clock_now_Some thread_epoch_repin_def thread_epoch_set_def)

lemma snooze_repin_eq:
  assumes "is_pinned th"
  shows "\<exists>pr. snooze_repin mx clk th = Inr (th\<lparr>th_synch := clk, th_progress := pr\<rparr>)"
proof -
  let ?pr = "case snd (failed_to_progress mx (thread_epoch_get (th_synch th)) (th_progress th)) of
    Some p \<Rightarrow> p | None \<Rightarrow> Starving"
  have "snooze_repin mx clk th = Inr (th\<lparr>th_synch := clk, th_progress := ?pr\<rparr>)"
    using assms by (cases th) (simp add: snooze_repin_def pin_epoch_def Let_def is_pinned_def repin_eq)
  then show ?thesis by blast
qed

text \<open>The specification of the loop: who runs under which pin, and what is counted.\<close>

fun attempts_spec ::
  "'o tx_fn \<Rightarrow> quiesce_epoch \<Rightarrow> attempt list \<Rightarrow> (shared \<times> 'o attempt_end) list \<Rightarrow> nat \<Rightarrow> nat \<Rightarrow>
     ('o \<times> nat \<times> nat) option \<Rightarrow> bool" where
  "attempts_spec f p [] tr ec cc res \<longleftrightarrow> tr = [] \<and> res = None"
| "attempts_spec f p (a # as) [] ec cc res \<longleftrightarrow> False"
| "attempts_spec f p (a # as) ((sh, e) # tr) ec cc res \<longleftrightarrow>
     attempt_spec f p a sh e \<and>
     (case e of
        Committed v \<Rightarrow> tr = [] \<and> res = Some (v, ec, cc)
      | Eager_Conflict \<Rightarrow> attempts_spec f (QuiesceEpoch (at_clock a)) as tr (Suc ec) cc res
      | Commit_Conflict \<Rightarrow> attempts_spec f (QuiesceEpoch (at_clock a)) as tr ec (Suc cc) res
      | Parked slept \<Rightarrow> attempts_spec f (QuiesceEpoch (at_clock a)) as tr ec cc res)"

lemma run_rw_spec:
  assumes "tx_holds vts csz (th_logs th) [] [] [] seals" and "time_ok (thread_epoch_get (th_synch th))"
    and "list_all (attempt_ok vts csz f) as"
  shows "\<exists>th' res tr. run_rw vts csz htm mx f as th ec cc = Inr (th', res, tr) \<and>
    attempts_spec f (thread_epoch_get (th_synch th)) as tr ec cc res \<and>
    (\<exists>seals'. tx_holds vts csz (th_logs th') [] [] [] seals') \<and> is_pinned th' = (res = None)"
  using assms
proof (induction as arbitrary: th seals ec cc)
  case Nil
  then show ?case by (auto simp: is_pinned_def time_ok_active)
next
  case (Cons a as)
  let ?p = "thread_epoch_get (th_synch th)"
  from Cons.prems have a: "attempt_ok vts csz f a" and as: "list_all (attempt_ok vts csz f) as" by simp_all
  obtain th1 sh e d seals' where run: "rw_attempt vts csz htm f a th = Inr (th1, sh, e, d)"
    and spec: "attempt_spec f ?p a sh e" and h1: "tx_holds vts csz (th_logs th1) [] [] [] seals'"
    and pinned: "e = Commit_Conflict \<or> e = Eager_Conflict \<longrightarrow> is_pinned th1"
    using rw_attempt_refines [OF Cons.prems(1) a refl Cons.prems(2), of htm] by blast
  have clk: "thread_epoch_get (at_clock a) = QuiesceEpoch (at_clock a)"
    by (simp add: thread_epoch_get_def new_unchecked_def)
  have ok: "time_ok (thread_epoch_get (at_clock a))"
    using a by (simp add: attempt_ok_def clock_ok_def clk)
  have again: "\<exists>th' res tr. run_rw vts csz htm mx f as (th1\<lparr>th_synch := at_clock a, th_progress := pr\<rparr>) ec' cc' =
        Inr (th', res, tr) \<and>
      attempts_spec f (QuiesceEpoch (at_clock a)) as tr ec' cc' res \<and>
      (\<exists>seals'. tx_holds vts csz (th_logs th') [] [] [] seals') \<and> is_pinned th' = (res = None)" for pr ec' cc'
    using Cons.IH [of "th1\<lparr>th_synch := at_clock a, th_progress := pr\<rparr>" seals' ec' cc'] h1 ok as
    by (simp add: clk)
  show ?case
  proof (cases e)
    case (Committed v)
    then show ?thesis
      using run spec h1
      by (intro exI [of _ "unpin_without_progress th1"] exI [of _ "Some (v, ec, cc)"] exI [of _ "[(sh, e)]"])
        (auto simp: unpin_without_progress_def is_pinned_def thread_epoch_unpin_inactive thread_epoch_get_def
          new_unchecked_def is_active_def)
  next
    case Commit_Conflict
    with pinned snooze_repin_eq [of th1 mx "at_clock a"] obtain pr
      where "snooze_repin mx (at_clock a) th1 = Inr (th1\<lparr>th_synch := at_clock a, th_progress := pr\<rparr>)" by blast
    with again [of pr ec "Suc cc"] run spec Commit_Conflict show ?thesis by fastforce
  next
    case Eager_Conflict
    with pinned snooze_repin_eq [of th1 mx "at_clock a"] obtain pr
      where "snooze_repin mx (at_clock a) th1 = Inr (th1\<lparr>th_synch := at_clock a, th_progress := pr\<rparr>)" by blast
    with again [of pr "Suc ec" cc] run spec Eager_Conflict show ?thesis by fastforce
  next
    case (Parked slept)
    have "repin (at_clock a) th1 = Inr (th1\<lparr>th_synch := at_clock a, th_progress := th_progress th1\<rparr>)"
      by (simp add: repin_eq)
    with again [of "th_progress th1" ec cc] run spec Parked show ?thesis by fastforce
  qed
qed

lemma try_pin_eq:
  "try_pin clk th = Inr (if is_pinned th then None else Some (th\<lparr>th_synch := clk\<rparr>))"
  by (simp add: try_pin_def clock_now_Some thread_epoch_pin_def thread_epoch_set_def)

text \<open>Which attempts are good under the pins that the loop gives them.\<close>

fun some_good :: "'o tx_fn \<Rightarrow> quiesce_epoch \<Rightarrow> attempt list \<Rightarrow> bool" where
  "some_good f p [] \<longleftrightarrow> False"
| "some_good f p (a # as) \<longleftrightarrow> attempt_good f p a \<or> some_good f (QuiesceEpoch (at_clock a)) as"

lemma run_rw_good:
  assumes "tx_holds vts csz (th_logs th) [] [] [] seals" and "time_ok (thread_epoch_get (th_synch th))"
    and "list_all (attempt_ok vts csz f) as" and "some_good f (thread_epoch_get (th_synch th)) as"
  shows "\<exists>th' r tr. run_rw vts csz False mx f as th ec cc = Inr (th', Some r, tr)"
  using assms
proof (induction as arbitrary: th seals ec cc)
  case Nil
  then show ?case by simp
next
  case (Cons a as)
  let ?p = "thread_epoch_get (th_synch th)"
  from Cons.prems have a: "attempt_ok vts csz f a" and as: "list_all (attempt_ok vts csz f) as" by simp_all
  obtain th1 sh e d seals' where run: "rw_attempt vts csz False f a th = Inr (th1, sh, e, d)"
    and h1: "tx_holds vts csz (th_logs th1) [] [] [] seals'"
    and pinned: "e = Commit_Conflict \<or> e = Eager_Conflict \<longrightarrow> is_pinned th1"
    and good: "attempt_good f ?p a \<longrightarrow> (\<exists>v. e = Committed v)"
    using rw_attempt_refines [OF Cons.prems(1) a refl Cons.prems(2), of False] by blast
  have clk: "thread_epoch_get (at_clock a) = QuiesceEpoch (at_clock a)"
    by (simp add: thread_epoch_get_def new_unchecked_def)
  have ok: "time_ok (thread_epoch_get (at_clock a))"
    using a by (simp add: attempt_ok_def clock_ok_def clk)
  have again: "\<exists>th' r tr. run_rw vts csz False mx f as (th1\<lparr>th_synch := at_clock a, th_progress := pr\<rparr>) ec' cc' =
        Inr (th', Some r, tr)" if "\<nexists>v. e = Committed v" for pr ec' cc'
    using Cons.IH [of "th1\<lparr>th_synch := at_clock a, th_progress := pr\<rparr>" seals' ec' cc'] h1 ok as
      Cons.prems(4) good that by (auto simp: clk)
  show ?case
  proof (cases e)
    case (Committed v)
    then show ?thesis using run by simp
  next
    case Commit_Conflict
    with pinned snooze_repin_eq [of th1 mx "at_clock a"] obtain pr
      where "snooze_repin mx (at_clock a) th1 = Inr (th1\<lparr>th_synch := at_clock a, th_progress := pr\<rparr>)" by blast
    with again [of pr ec "Suc cc"] run Commit_Conflict show ?thesis by fastforce
  next
    case Eager_Conflict
    with pinned snooze_repin_eq [of th1 mx "at_clock a"] obtain pr
      where "snooze_repin mx (at_clock a) th1 = Inr (th1\<lparr>th_synch := at_clock a, th_progress := pr\<rparr>)" by blast
    with again [of pr "Suc ec" cc] run Eager_Conflict show ?thesis by fastforce
  next
    case (Parked slept)
    have "repin (at_clock a) th1 = Inr (th1\<lparr>th_synch := at_clock a, th_progress := th_progress th1\<rparr>)"
      by (simp add: repin_eq)
    with again [of "th_progress th1" ec cc] run Parked show ?thesis by fastforce
  qed
qed

section \<open>Read only runs\<close>

definition look_value :: "nat \<times> look \<Rightarrow> usize list" where
  "look_value x = (if fst x = 0 then [] else fst (snd x))"

definition looks_valid :: "quiesce_epoch \<Rightarrow> (nat \<times> look) list \<Rightarrow> bool" where
  "looks_valid p looks \<longleftrightarrow> (\<forall>(size_of, l)\<in>set looks. size_of \<noteq> 0 \<longrightarrow> rw_valid p l)"

lemma read_looks_eq:
  "read_looks p looks = (if looks_valid p looks then Inr (map look_value looks) else Inl CONFLICT)"
proof (induction looks)
  case (Cons x looks)
  obtain n l where x: "x = (n, l)" by (cases x)
  with Cons show ?case
    by (auto simp: looks_valid_def read_tx_borrow_def look_value_def)
qed (simp add: looks_valid_def)

fun reads_spec ::
  "(usize list list \<Rightarrow> 'o) \<Rightarrow> quiesce_epoch \<Rightarrow> ((nat \<times> look) list \<times> epoch_clock) list \<Rightarrow> nat \<Rightarrow>
     ('o \<times> nat) option" where
  "reads_spec f p [] n = None"
| "reads_spec f p ((looks, clk) # as) n =
     (if looks_valid p looks then Some (f (map look_value looks), n) else reads_spec f (QuiesceEpoch clk) as (Suc n))"

lemma run_read_spec:
  assumes "is_pinned th" and "\<forall>(looks, clk)\<in>set as. clock_ok clk"
  shows "\<exists>th'. run_read mx f as th n = Inr (th', reads_spec f (thread_epoch_get (th_synch th)) as n) \<and>
    th_logs th' = th_logs th \<and> is_pinned th' = (reads_spec f (thread_epoch_get (th_synch th)) as n = None)"
  using assms
proof (induction as arbitrary: th n)
  case Nil
  then show ?case by simp
next
  case (Cons a as)
  obtain looks clk where a: "a = (looks, clk)" by (cases a)
  with Cons.prems have clk: "clock_ok clk" and as: "\<forall>(looks, clk)\<in>set as. clock_ok clk" by auto
  have get: "thread_epoch_get clk = QuiesceEpoch clk" by (simp add: thread_epoch_get_def new_unchecked_def)
  show ?case
  proof (cases "looks_valid (thread_epoch_get (th_synch th)) looks")
    case True
    then show ?thesis
      by (auto simp: a read_looks_eq pin_drop_def is_pinned_def thread_epoch_unpin_inactive thread_epoch_get_def
          new_unchecked_def is_active_def)
  next
    case False
    obtain pr where s: "snooze_repin mx clk th = Inr (th\<lparr>th_synch := clk, th_progress := pr\<rparr>)"
      using snooze_repin_eq [OF Cons.prems(1)] by blast
    have "is_pinned (th\<lparr>th_synch := clk, th_progress := pr\<rparr>)"
      using clk by (simp add: is_pinned_def get clock_ok_def time_ok_active)
    from Cons.IH [OF this as, of "Suc n"] False s show ?thesis
      by (auto simp: a read_looks_eq get)
  qed
qed

section \<open>Properties\<close>

text \<open>
  Property C9: a read-write run refines its specification. From a thread with empty logs and
  for any attempts, whatever their looks at shared cells, the answers of the processor and the states met at
  commit, \<open>try_rw\<close> never panics, aborts, or violates an assertion or an unchecked precondition. Every
  attempt starts from empty logs under the pin taken before it, and does what the map specification
  says: the one that commits publishes exactly its writes if all cells it read or wrote were
  valid at its pin, and its value is the function's value on its results; all others leave memory and clock
  alone. The two counts are those of the attempts that ended in each conflict. Afterwards the logs are
  empty again, and the thread is unpinned if the run has ended.
\<close>

theorem rw_run_refines:
  assumes "tx_holds vts csz (th_logs th) [] [] [] seals" and "\<not> is_pinned th" and "clock_ok clk"
    and "list_all (attempt_ok vts csz f) as"
  shows "\<exists>th' res tr. try_rw vts csz htm mx f as clk th = Inr (Inr (th', res, tr)) \<and>
    attempts_spec f (QuiesceEpoch clk) as tr 0 0 res \<and>
    (\<exists>seals'. tx_holds vts csz (th_logs th') [] [] [] seals') \<and> validate_start_state (th_logs th') \<and>
    is_pinned th' = (res = None)"
proof -
  have clk: "thread_epoch_get clk = QuiesceEpoch clk" by (simp add: thread_epoch_get_def new_unchecked_def)
  obtain th' res tr seals' where "run_rw vts csz htm mx f as (th\<lparr>th_synch := clk\<rparr>) 0 0 = Inr (th', res, tr)"
    "attempts_spec f (QuiesceEpoch clk) as tr 0 0 res" "tx_holds vts csz (th_logs th') [] [] [] seals'"
    "is_pinned th' = (res = None)"
    using run_rw_spec [of vts csz "th\<lparr>th_synch := clk\<rparr>" seals f as htm mx 0 0] assms
    by (auto simp: clk clock_ok_def)
  then show ?thesis
    using assms(2) tx_holds_start by (intro exI [of _ th'] exI [of _ res] exI [of _ tr]) (auto simp: try_rw_def try_pin_eq)
qed

text \<open>
  Property C20: a read-write run ends. Without hardware transactions, the run returns as soon as one
  attempt is good: its looks are valid at its pin, the cells it names are still valid when it commits, and
  the function returns a value. No sequence of earlier conflicts or parkings prevents that.
\<close>

theorem rw_run_ends:
  assumes "tx_holds vts csz (th_logs th) [] [] [] seals" and "\<not> is_pinned th" and "clock_ok clk"
    and "list_all (attempt_ok vts csz f) as" and "some_good f (QuiesceEpoch clk) as"
  shows "\<exists>th' r tr. thread_key_rw vts csz False mx f as clk th = Inr (th', Some r, tr)"
proof -
  have clk: "thread_epoch_get clk = QuiesceEpoch clk" by (simp add: thread_epoch_get_def new_unchecked_def)
  obtain th' r tr where "run_rw vts csz False mx f as (th\<lparr>th_synch := clk\<rparr>) 0 0 = Inr (th', Some r, tr)"
    using run_rw_good [of vts csz "th\<lparr>th_synch := clk\<rparr>" seals f as mx 0 0] assms
    by (auto simp: clk clock_ok_def)
  then show ?thesis
    using assms(2) by (cases r) (simp add: thread_key_rw_def expect_def try_rw_def try_pin_eq)
qed

text \<open>
  Property C21: a read only run returns a snapshot. It never panics, never touches the logs, and
  returns the function's value on the looks of the first attempt all of whose looks were valid at its
  pin, with the number of attempts before it; until there is one it goes on.
\<close>

theorem read_run_returns_snapshot:
  assumes "\<not> is_pinned th" and "clock_ok clk" and "\<forall>(looks, c)\<in>set as. clock_ok c"
  shows "\<exists>th'. try_read mx f as clk th = Inr (Inr (th', reads_spec f (QuiesceEpoch clk) as 0)) \<and>
    th_logs th' = th_logs th \<and> is_pinned th' = (reads_spec f (QuiesceEpoch clk) as 0 = None)"
proof -
  have clk: "thread_epoch_get clk = QuiesceEpoch clk" by (simp add: thread_epoch_get_def new_unchecked_def)
  have "is_pinned (th\<lparr>th_synch := clk\<rparr>)"
    using assms(2) by (simp add: is_pinned_def clk clock_ok_def time_ok_active)
  from run_read_spec [OF this assms(3), of mx f 0] assms(1) show ?thesis
    by (auto simp: try_read_def try_pin_eq clk)
qed

text \<open>
  Nested transactions are refused. On a thread that is pinned, all entry points
  fail: the \<open>try_\<close> forms with the error, the others with a panic; on a thread that is not, the error is
  never returned.
\<close>

theorem nested_transactions_refused:
  "(try_rw vts csz htm mx f as clk th = Inr (Inl TryErr)) = is_pinned th \<and>
   (try_read mx g rs clk th = Inr (Inl TryErr)) = is_pinned th \<and>
   (is_pinned th \<longrightarrow> thread_key_rw vts csz htm mx f as clk th = Inl Panic \<and>
      thread_key_read mx g rs clk th = Inl Panic)"
  by (auto simp: try_rw_def try_read_def try_pin_eq thread_key_rw_def thread_key_read_def expect_def map_sum_Inr_iff)

section \<open>Witnesses\<close>

text \<open>One attempt that meets a conflict, one that reads a cell and writes it.\<close>

definition example_attempt :: "epoch_lock \<Rightarrow> attempt" where
  "example_attempt w = \<lparr>at_ops = [Borrow ReadWrite 8 ([1], w) ([1], w),
       Set 8 \<lparr>entry_vt = 1, value_words = [2], lifetime = False, needs_drop = False, trash_vt = 0\<rparr> ([1], w) ([1], w)],
     at_shared = \<lparr>locks = \<lambda>_. 3, mem = \<lambda>_. [1], clock = 5\<rparr>, at_codes = \<lambda>_. 0, at_obs = [], at_wake = 5,
     at_clock = 5\<rparr>"

lemma example_attempt_ok: "attempt_ok (\<lambda>_. 2) (\<lambda>_. 1) (\<lambda>_. Inr ()) (example_attempt w)"
  by (simp add: attempt_ok_def example_attempt_def set_arg_ok_def clock_ok_def time_ok_def lock_bit_set_iff
      unpark_bit_set_iff_odd word_le_nat_alt unat_FIRST TICK_SIZE_def)

lemma example_clock: "clock_ok 5"
  by (simp add: clock_ok_def time_ok_def lock_bit_set_iff unpark_bit_set_iff_odd word_le_nat_alt unat_FIRST)

lemma example_good: "some_good (\<lambda>_. Inr ()) (QuiesceEpoch 5) [example_attempt 7, example_attempt 3]"
  by (simp add: attempt_good_def example_attempt_def cells_valid_def rw_valid_def read_write_valid_lockable_def
      read_write_valid_def read_write_valid_raw_def is_locked_def lock_bit_set_iff ver_eq)

lemma example_thread:
  obtains th where "thread_new = Inr th" and "tx_holds vts csz (th_logs th) [] [] [] []" and "\<not> is_pinned th"
proof -
  obtain lg where lg: "new_logs = Inr lg" "tx_holds vts csz lg [] [] [] []" using new_logs_holds .
  show thesis
    by (rule that [of "\<lparr>th_logs = lg, th_synch = thread_epoch_inactive, th_progress = progress_new\<rparr>"])
      (simp_all add: thread_new_def lg is_pinned_def thread_epoch_inactive_def thread_epoch_get_def
        new_unchecked_def is_active_def)
qed

lemma rw_run_refines_witness:
  "\<exists>th th' res tr. thread_new = Inr th \<and>
    try_rw (\<lambda>_. 2) (\<lambda>_. 1) False 4 (\<lambda>_. Inr ()) [example_attempt 7, example_attempt 3] 5 th = Inr (Inr (th', res, tr))"
proof -
  obtain th where th: "thread_new = Inr th" "tx_holds (\<lambda>_. 2) (\<lambda>_. 1) (th_logs th) [] [] [] []" "\<not> is_pinned th"
    by (rule example_thread)
  have "list_all (attempt_ok (\<lambda>_. 2) (\<lambda>_. 1) (\<lambda>_. Inr ())) [example_attempt 7, example_attempt 3]"
    by (simp add: example_attempt_ok del: One_nat_def)
  from rw_run_refines [OF th(2,3) example_clock this, of False 4] th(1) show ?thesis by blast
qed

lemma rw_run_ends_witness:
  "\<exists>th th' r tr. thread_new = Inr th \<and>
    thread_key_rw (\<lambda>_. 2) (\<lambda>_. 1) False 4 (\<lambda>_. Inr ()) [example_attempt 7, example_attempt 3] 5 th = Inr (th', Some r, tr)"
proof -
  obtain th where th: "thread_new = Inr th" "tx_holds (\<lambda>_. 2) (\<lambda>_. 1) (th_logs th) [] [] [] []" "\<not> is_pinned th"
    by (rule example_thread)
  have "list_all (attempt_ok (\<lambda>_. 2) (\<lambda>_. 1) (\<lambda>_. Inr ())) [example_attempt 7, example_attempt 3]"
    by (simp add: example_attempt_ok del: One_nat_def)
  from rw_run_ends [OF th(2,3) example_clock this example_good, of 4] th(1) show ?thesis by blast
qed

lemma read_run_returns_snapshot_witness:
  "\<exists>th th'. thread_new = Inr th \<and>
    try_read 4 id [([(1, [9], 7)], 5), ([(1, [8], 3)], 5)] 5 th = Inr (Inr (th', Some ([[8]], 1)))"
proof -
  obtain th where th: "thread_new = Inr th" "\<not> is_pinned th" by (rule example_thread)
  have "reads_spec id (QuiesceEpoch 5) [([(1, [9], 7)], 5), ([(1, [8], 3)], 5)] 0 = Some ([[8]], 1)"
    by (simp add: looks_valid_def look_value_def rw_valid_def read_write_valid_lockable_def
        read_write_valid_def read_write_valid_raw_def)
  with read_run_returns_snapshot [OF th(2) example_clock, of "[([(1, [9], 7)], 5), ([(1, [8], 3)], 5)]" 4 id]
    example_clock th(1) show ?thesis by auto
qed

lemma nested_transactions_refused_witness:
  "\<exists>th. thread_key_rw (\<lambda>_. 2) (\<lambda>_. 1) False 4 (\<lambda>_. Inr ()) [] 5 th = Inl Panic"
proof -
  obtain th where "thread_new = Inr th" by (rule example_thread)
  have "is_pinned (th\<lparr>th_synch := 5\<rparr>)"
    by (simp add: is_pinned_def thread_epoch_get_def new_unchecked_def is_active_def INACTIVE_EPOCH_def)
  with nested_transactions_refused [of "\<lambda>_. 2" "\<lambda>_. 1" False 4 "\<lambda>_. Inr ()" "[]" 5 "th\<lparr>th_synch := 5\<rparr>" id "[]"]
  show ?thesis by blast
qed

end
