(* ===== verification/Rb_Store.thy ===== *)
theory Rb_Store
  imports Prelude
begin

text \<open>
  The memory of \<open>swym-rbtree\<close> (\<open>swym-rbtree/src/base.rs\<close>): references to nodes, the packed parent
  pointer and colour, and the cells of all nodes. Every access through a transaction can end in
  \<open>Error::CONFLICT\<close>, which the code passes up with \<open>?\<close>; when that happens is an oracle that runs with the
  state: \<open>Some n\<close> lets \<open>n\<close> accesses succeed, \<open>None\<close> lets all of them.
\<close>

section \<open>References and packed words\<close>

datatype color = Black | Red

text \<open>\<open>&RBNode\<close>: a node lives at a non-null address whose lowest bit is clear.\<close>

typedef node_ptr = "{p :: usize. p \<noteq> 0 \<and> p AND 1 = 0}"
  morphisms node_addr Node_ptr
  by (rule exI [of _ 2]) simp

datatype rbref = Valid node_ptr | Null

text \<open>\<open>RBRef::_as_ptr\<close> and back (the null check of \<open>as_ref\<close>).\<close>

fun as_ptr :: "rbref \<Rightarrow> usize" where
  "as_ptr (Valid x) = node_addr x"
| "as_ptr Null = 0"

definition ref_of_ptr :: "usize \<Rightarrow> rbref" where
  "ref_of_ptr w = (if w = 0 then Null else Valid (Node_ptr w))"

fun color_bits :: "color \<Rightarrow> usize" where
  "color_bits Black = 0"
| "color_bits Red = 1"

text \<open>What \<open>RBPtrColor::set\<close> stores, and how \<open>PtrColor\<close> takes it apart.\<close>

definition pack :: "rbref \<Rightarrow> color \<Rightarrow> usize" where
  "pack value color = as_ptr value OR color_bits color"

text \<open>\<open>RBPtrColor::null_black\<close>\<close>

definition null_black :: usize where
  "null_black = color_bits Black"

definition ptr_color :: "usize \<Rightarrow> color" where
  "ptr_color raw = (if raw AND 1 \<noteq> color_bits Black then Red else Black)"

definition ptr_ptr :: "usize \<Rightarrow> usize" where
  "ptr_ptr raw = raw AND NOT 1"

definition as_ref_color_word :: "usize \<Rightarrow> rbref \<times> color" where
  "as_ref_color_word raw = (ref_of_ptr (ptr_ptr raw), ptr_color raw)"

lemma node_addr_props: "node_addr p \<noteq> 0" "node_addr p AND 1 = 0"
  using node_addr [of p] by simp_all

lemma ref_of_as_ptr: "ref_of_ptr (as_ptr r) = r"
  by (cases r) (simp_all add: ref_of_ptr_def node_addr_props node_addr_inverse)

lemma as_ptr_even: "as_ptr r AND 1 = 0"
  by (cases r) (simp_all add: node_addr_props)

lemma ptr_color_pack [simp]: "ptr_color (pack r c) = c"
proof -
  have "pack r c AND 1 = color_bits c"
    using as_ptr_even [of r] by (cases c) (simp_all add: pack_def bit.conj_disj_distrib2)
  then show ?thesis by (cases c) (simp_all add: ptr_color_def)
qed

lemma ptr_ptr_pack: "ptr_ptr (pack r c) = as_ptr r"
proof -
  have "as_ptr r AND NOT 1 = as_ptr r"
    using as_ptr_even [of r] by (simp add: bit_eq_iff bit_simps) (metis bit_0 bit_1_iff)
  then show ?thesis
    by (cases c) (simp_all add: ptr_ptr_def pack_def bit.conj_disj_distrib2)
qed

lemma as_ref_color_pack [simp]: "as_ref_color_word (pack r c) = (r, c)"
  by (simp add: as_ref_color_word_def ptr_ptr_pack ref_of_as_ptr)

section \<open>Nodes and the root\<close>

text \<open>
  The fields of every node, by address, and the root cell. Keys never change; the value of a node is a cell
  of its own. Removed nodes are privatized: they are freed by the collector later.
\<close>

record ('k, 'v) rb_store =
  root_cell :: rbref
  lefts :: "node_ptr \<Rightarrow> rbref"
  rights :: "node_ptr \<Rightarrow> rbref"
  parent_colors :: "node_ptr \<Rightarrow> usize"
  rb_key :: "node_ptr \<Rightarrow> 'k"
  rb_val :: "node_ptr \<Rightarrow> 'v"
  privatized :: "node_ptr list"

text \<open>The cells, and what a transaction does to them: a read is checked at commit if its ordering says so.\<close>

datatype rb_cell =
  Root_Cell | Left_Cell node_ptr | Right_Cell node_ptr | Parent_Color_Cell node_ptr | Value_Cell node_ptr

datatype access = Read_Access ordering rb_cell | Write_Access rb_cell

text \<open>\<open>Ordering::default()\<close>\<close>

definition default_ordering :: ordering where
  "default_ordering = ReadWrite"

datatype rb_stop = Err error | Unreachable | No_Fuel

text \<open>
  An operation: from the cells and the oracle, a stop or the result, the cells, the oracle, and the accesses
  made.
\<close>

type_synonym ('k, 'v, 'a) rb =
  "('k, 'v) rb_store \<times> nat option \<Rightarrow> rb_stop + 'a \<times> ('k, 'v) rb_store \<times> nat option \<times> access list"

text \<open>\<open>Ok(x)\<close>, the operator \<open>?\<close>, and a failed \<open>debug_assert\<close> or an \<open>unreachable\<close>.\<close>

definition ok :: "'a \<Rightarrow> ('k, 'v, 'a) rb" where
  "ok x = (\<lambda>(s, n). Inr (x, s, n, []))"

definition and_then :: "('k, 'v, 'a) rb \<Rightarrow> ('a \<Rightarrow> ('k, 'v, 'b) rb) \<Rightarrow> ('k, 'v, 'b) rb" where
  "and_then m f = (\<lambda>sn.
     case m sn of
       Inl e \<Rightarrow> Inl e
     | Inr (x, s', n', w) \<Rightarrow>
         (case f x (s', n') of Inl e \<Rightarrow> Inl e | Inr (y, s'', n'', w') \<Rightarrow> Inr (y, s'', n'', w @ w')))"

definition stuck :: "rb_stop \<Rightarrow> ('k, 'v, 'a) rb" where
  "stuck e = (\<lambda>_. Inl e)"

definition debug_assert :: "bool \<Rightarrow> ('k, 'v, unit) rb" where
  "debug_assert b = (if b then ok () else stuck Unreachable)"

text \<open>An access through the transaction, and one through \<open>&mut\<close>, which cannot fail.\<close>

definition tx_access :: "access \<Rightarrow> (('k, 'v) rb_store \<Rightarrow> 'a \<times> ('k, 'v) rb_store) \<Rightarrow> ('k, 'v, 'a) rb" where
  "tx_access acc f = (\<lambda>(s, n).
     if n = Some 0 then Inl (Err CONFLICT)
     else case f s of (x, s') \<Rightarrow> Inr (x, s', map_option (\<lambda>k. k - 1) n, [acc]))"

definition mut_access :: "(('k, 'v) rb_store \<Rightarrow> ('k, 'v) rb_store) \<Rightarrow> ('k, 'v, unit) rb" where
  "mut_access f = (\<lambda>(s, n). Inr ((), f s, n, []))"

definition unwrap :: "rbref \<Rightarrow> ('k, 'v, node_ptr) rb" where
  "unwrap r = (case r of Valid x \<Rightarrow> ok x | Null \<Rightarrow> stuck Unreachable)"

section \<open>The cells of a node\<close>

definition get_root :: "ordering \<Rightarrow> ('k, 'v, rbref) rb" where
  "get_root ord = tx_access (Read_Access ord Root_Cell) (\<lambda>s. (root_cell s, s))"

definition set_root :: "rbref \<Rightarrow> ('k, 'v, unit) rb" where
  "set_root v = tx_access (Write_Access Root_Cell) (\<lambda>s. ((), s\<lparr>root_cell := v\<rparr>))"

definition get_left :: "ordering \<Rightarrow> node_ptr \<Rightarrow> ('k, 'v, rbref) rb" where
  "get_left ord a = tx_access (Read_Access ord (Left_Cell a)) (\<lambda>s. (lefts s a, s))"

definition get_right :: "ordering \<Rightarrow> node_ptr \<Rightarrow> ('k, 'v, rbref) rb" where
  "get_right ord a = tx_access (Read_Access ord (Right_Cell a)) (\<lambda>s. (rights s a, s))"

definition set_left :: "node_ptr \<Rightarrow> rbref \<Rightarrow> ('k, 'v, unit) rb" where
  "set_left a v = tx_access (Write_Access (Left_Cell a)) (\<lambda>s. ((), s\<lparr>lefts := (lefts s)(a := v)\<rparr>))"

definition set_right :: "node_ptr \<Rightarrow> rbref \<Rightarrow> ('k, 'v, unit) rb" where
  "set_right a v = tx_access (Write_Access (Right_Cell a)) (\<lambda>s. ((), s\<lparr>rights := (rights s)(a := v)\<rparr>))"

text \<open>\<open>publish_box\<close>: the cell gets the address of the box, which from then on belongs to the tree.\<close>

definition publish_left :: "node_ptr \<Rightarrow> node_ptr \<Rightarrow> ('k, 'v, unit) rb" where
  "publish_left a box = set_left a (Valid box)"

definition publish_right :: "node_ptr \<Rightarrow> node_ptr \<Rightarrow> ('k, 'v, unit) rb" where
  "publish_right a box = set_right a (Valid box)"

definition publish_root :: "node_ptr \<Rightarrow> ('k, 'v, unit) rb" where
  "publish_root box = set_root (Valid box)"

definition as_ref_color :: "ordering \<Rightarrow> node_ptr \<Rightarrow> ('k, 'v, rbref \<times> color) rb" where
  "as_ref_color ord a =
     tx_access (Read_Access ord (Parent_Color_Cell a)) (\<lambda>s. (as_ref_color_word (parent_colors s a), s))"

definition get_color :: "ordering \<Rightarrow> node_ptr \<Rightarrow> ('k, 'v, color) rb" where
  "get_color ord a =
     tx_access (Read_Access ord (Parent_Color_Cell a)) (\<lambda>s. (ptr_color (parent_colors s a), s))"

definition black_parent :: "ordering \<Rightarrow> node_ptr \<Rightarrow> ('k, 'v, rbref) rb" where
  "black_parent ord a =
     and_then (tx_access (Read_Access ord (Parent_Color_Cell a)) (\<lambda>s. (parent_colors s a, s))) (\<lambda>w.
     and_then (debug_assert (w AND 1 = color_bits Black)) (\<lambda>_.
     ok (ref_of_ptr (w XOR color_bits Black))))"

definition set_parent_color :: "node_ptr \<Rightarrow> rbref \<Rightarrow> color \<Rightarrow> ('k, 'v, unit) rb" where
  "set_parent_color a value color =
     tx_access (Write_Access (Parent_Color_Cell a))
       (\<lambda>s. ((), s\<lparr>parent_colors := (parent_colors s)(a := pack value color)\<rparr>))"

text \<open>The value of a node, and \<open>TCell::replace\<close> on it.\<close>

definition get_value :: "ordering \<Rightarrow> node_ptr \<Rightarrow> ('k, 'v, 'v) rb" where
  "get_value ord a = tx_access (Read_Access ord (Value_Cell a)) (\<lambda>s. (rb_val s a, s))"

definition set_value :: "node_ptr \<Rightarrow> 'v \<Rightarrow> ('k, 'v, unit) rb" where
  "set_value a v = tx_access (Write_Access (Value_Cell a)) (\<lambda>s. ((), s\<lparr>rb_val := (rb_val s)(a := v)\<rparr>))"

definition replace_value :: "node_ptr \<Rightarrow> 'v \<Rightarrow> ('k, 'v, 'v) rb" where
  "replace_value a v =
     and_then (get_value Read a) (\<lambda>prev. and_then (set_value a v) (\<lambda>_. ok prev))"

text \<open>
  \<open>Box::new\<close> of a node at an address of the allocator's choice, the \<open>_mut\<close> accessors that the code uses
  on a box that is not yet published, and \<open>TPtr::privatize_as_box\<close>.
\<close>

definition new_node :: "node_ptr \<Rightarrow> 'k \<Rightarrow> 'v \<Rightarrow> ('k, 'v, unit) rb" where
  "new_node a key value =
     mut_access (\<lambda>s. s\<lparr>lefts := (lefts s)(a := Null), rights := (rights s)(a := Null),
       parent_colors := (parent_colors s)(a := null_black), rb_key := (rb_key s)(a := key),
       rb_val := (rb_val s)(a := value)\<rparr>)"

definition privatize_as_box :: "node_ptr \<Rightarrow> ('k, 'v, unit) rb" where
  "privatize_as_box a = mut_access (\<lambda>s. s\<lparr>privatized := privatized s @ [a]\<rparr>)"

definition set_mut :: "node_ptr \<Rightarrow> node_ptr \<Rightarrow> color \<Rightarrow> ('k, 'v, unit) rb" where
  "set_mut a parent color =
     mut_access (\<lambda>s. s\<lparr>parent_colors := (parent_colors s)(a := node_addr parent OR color_bits color)\<rparr>)"

definition set_red_parent_mut :: "node_ptr \<Rightarrow> node_ptr \<Rightarrow> ('k, 'v, unit) rb" where
  "set_red_parent_mut a parent = set_mut a parent Red"

definition set_black_parent_mut :: "node_ptr \<Rightarrow> node_ptr \<Rightarrow> ('k, 'v, unit) rb" where
  "set_black_parent_mut a parent = set_mut a parent Black"

definition set_left_mut :: "node_ptr \<Rightarrow> node_ptr \<Rightarrow> ('k, 'v, unit) rb" where
  "set_left_mut a v = mut_access (\<lambda>s. s\<lparr>lefts := (lefts s)(a := Valid v)\<rparr>)"

definition set_right_mut :: "node_ptr \<Rightarrow> node_ptr \<Rightarrow> ('k, 'v, unit) rb" where
  "set_right_mut a v = mut_access (\<lambda>s. s\<lparr>rights := (rights s)(a := Valid v)\<rparr>)"

text \<open>Keys are plain fields: they are compared without the transaction.\<close>

definition get_key :: "node_ptr \<Rightarrow> ('k, 'v, 'k) rb" where
  "get_key a = (\<lambda>(s, n). Inr (rb_key s a, s, n, []))"

definition key_less :: "node_ptr \<Rightarrow> node_ptr \<Rightarrow> ('k :: linorder, 'v, bool) rb" where
  "key_less a b = and_then (get_key a) (\<lambda>k. and_then (get_key b) (\<lambda>k'. ok (k < k')))"

section \<open>Reasoning\<close>

text \<open>
  \<open>wp m Q s\<close>: from \<open>s\<close>, the only way for \<open>m\<close> not to return is a conflict the oracle asks for, and whatever it
  returns satisfies \<open>Q\<close>. Symbolic execution is rewriting with the following equations.
\<close>

definition wp :: "('k, 'v, 'a) rb \<Rightarrow> ('a \<Rightarrow> ('k, 'v) rb_store \<Rightarrow> bool) \<Rightarrow> ('k, 'v) rb_store \<Rightarrow> bool" where
  "wp m Q s \<longleftrightarrow>
     (\<forall>n. case m (s, n) of
        Inl e \<Rightarrow> e = Err CONFLICT \<and> n \<noteq> None
      | Inr (x, s', n', w) \<Rightarrow> Q x s' \<and> (n = None \<longrightarrow> n' = None))"

named_theorems wp_rules

lemma wp_ok [wp_rules]: "wp (ok x) Q s = Q x s"
  by (simp add: wp_def ok_def)

lemma wp_stuck [wp_rules]: "wp (stuck e) Q s = False"
  by (auto simp: wp_def stuck_def)

lemma and_then_assoc [wp_rules]: "and_then (and_then m f) g = and_then m (\<lambda>x. and_then (f x) g)"
  by (auto simp: and_then_def fun_eq_iff split: sum.splits)

lemma and_then_ok [wp_rules]: "and_then (ok x) f = f x"
  by (auto simp: and_then_def ok_def fun_eq_iff split: sum.splits)

lemma and_then_stuck [wp_rules]: "and_then (stuck e) f = stuck e"
  by (simp add: and_then_def stuck_def)

lemma and_then_if [wp_rules]: "and_then (if b then m else m') f = (if b then and_then m f else and_then m' f)"
  by simp

lemma wp_access_then [wp_rules]: "wp (and_then (tx_access acc f) g) Q s = wp (g (fst (f s))) Q (snd (f s))"
proof
  assume l: "wp (and_then (tx_access acc f) g) Q s"
  show "wp (g (fst (f s))) Q (snd (f s))"
    unfolding wp_def
  proof
    fix n
    from l [unfolded wp_def, rule_format, of "map_option Suc n"]
    show "case g (fst (f s)) (snd (f s), n) of
        Inl e \<Rightarrow> e = Err CONFLICT \<and> n \<noteq> None
      | Inr (x, s', n', w) \<Rightarrow> Q x s' \<and> (n = None \<longrightarrow> n' = None)"
      by (cases n) (auto simp: and_then_def tx_access_def split: prod.splits sum.splits)
  qed
next
  assume r: "wp (g (fst (f s))) Q (snd (f s))"
  show "wp (and_then (tx_access acc f) g) Q s"
    unfolding wp_def
  proof
    fix n
    from r [unfolded wp_def, rule_format, of "map_option (\<lambda>k. k - 1) n"]
    show "case and_then (tx_access acc f) g (s, n) of
        Inl e \<Rightarrow> e = Err CONFLICT \<and> n \<noteq> None
      | Inr (x, s', n', w) \<Rightarrow> Q x s' \<and> (n = None \<longrightarrow> n' = None)"
      by (cases n) (auto simp: and_then_def tx_access_def split: prod.splits sum.splits)
  qed
qed

lemma and_then_ok_right: "and_then m ok = m"
  by (auto simp: fun_eq_iff and_then_def ok_def split: prod.splits sum.splits)

lemma wp_access [wp_rules]: "wp (tx_access acc f) Q s = Q (fst (f s)) (snd (f s))"
  using wp_access_then [of acc f ok Q s] by (simp add: wp_ok and_then_ok_right)

lemma wp_mut_then [wp_rules]: "wp (and_then (mut_access f) g) Q s = wp (g ()) Q (f s)"
  unfolding wp_def mut_access_def and_then_def by (auto split: sum.splits prod.splits)

lemma wp_mut [wp_rules]: "wp (mut_access f) Q s = Q () (f s)"
  using wp_mut_then [of f ok Q s] by (simp add: wp_ok and_then_ok_right)

lemma wp_get_key [wp_rules]: "wp (and_then (get_key a) g) Q s = wp (g (rb_key s a)) Q s"
  unfolding wp_def get_key_def and_then_def by (auto split: sum.splits prod.splits)

lemma debug_assert_simps [wp_rules]: "debug_assert True = ok ()" "debug_assert False = stuck Unreachable"
  by (simp_all add: debug_assert_def)

lemma unwrap_simps [wp_rules]: "unwrap (Valid x) = ok x" "unwrap Null = stuck Unreachable"
  by (simp_all add: unwrap_def)

lemmas cell_defs = get_root_def set_root_def get_left_def get_right_def set_left_def set_right_def
  publish_left_def publish_right_def publish_root_def as_ref_color_def get_color_def set_parent_color_def
  set_red_parent_mut_def set_black_parent_mut_def set_left_mut_def set_right_mut_def
  get_value_def set_value_def replace_value_def new_node_def privatize_as_box_def key_less_def

declare cell_defs [wp_rules]

lemma ref_of_pack [wp_rules]: "pack r c AND 1 = color_bits c" "ref_of_ptr (pack r Black) = r"
  using as_ptr_even [of r] by (cases c) (simp_all add: pack_def bit.conj_disj_distrib2 ref_of_as_ptr)

lemma wp_black_parent [wp_rules]:
  "wp (and_then (black_parent ord a) g) Q s \<longleftrightarrow>
     parent_colors s a AND 1 = 0 \<and> wp (g (ref_of_ptr (parent_colors s a))) Q s"
  by (cases "parent_colors s a AND 1 = 0")
    (simp_all add: black_parent_def and_then_assoc wp_access_then debug_assert_def and_then_ok and_then_stuck wp_stuck)

lemma set_mut_pack [wp_rules]:
  "set_mut a p c = mut_access (\<lambda>s. s\<lparr>parent_colors := (parent_colors s)(a := pack (Valid p) c)\<rparr>)"
  by (simp add: set_mut_def pack_def)

lemma null_black_pack [wp_rules]: "null_black = pack Null Black"
  by (simp add: null_black_def pack_def)

lemma wp_conseq: "wp m Q s \<Longrightarrow> (\<And>x s'. Q x s' \<Longrightarrow> Q' x s') \<Longrightarrow> wp m Q' s"
  unfolding wp_def by (fastforce split: sum.splits prod.splits)

lemma wp_and_then: "wp m (\<lambda>x. wp (f x) Q) s \<Longrightarrow> wp (and_then m f) Q s"
  unfolding wp_def [of "and_then m f"]
proof
  fix n
  assume l: "wp m (\<lambda>x. wp (f x) Q) s"
  show "case and_then m f (s, n) of Inl e \<Rightarrow> e = Err CONFLICT \<and> n \<noteq> None
    | Inr (x, s', n', w) \<Rightarrow> Q x s' \<and> (n = None \<longrightarrow> n' = None)"
  proof (cases "m (s, n)")
    case (Inl e)
    with l [unfolded wp_def, rule_format, of n] show ?thesis by (simp add: and_then_def)
  next
    case (Inr y)
    obtain x s' n' w where y: "y = (x, s', n', w)" by (cases y)
    from l [unfolded wp_def [of m], rule_format, of n] Inr y
    have f: "wp (f x) Q s'" and n: "n = None \<longrightarrow> n' = None"
      by simp_all
    from f [unfolded wp_def, rule_format, of n'] n Inr y show ?thesis
      by (auto simp: and_then_def split: sum.splits prod.splits)
  qed
qed

end
