(* ===== verification/Rb_Base.thy ===== *)
theory Rb_Base
  imports Rb_Store
begin

text \<open>
  The algorithms of \<open>swym-rbtree/src/base.rs\<close>: searching, insertion and removal with their repairs
  along parent pointers, the checks of \<open>verify\<close>, and dropping a tree; and the operations of the map in
  \<open>swym-rbtree/src/lib.rs\<close>. A loop that follows pointers takes fuel; that the height of the tree is
  enough is proved with each of them.
\<close>

section \<open>Searching\<close>

datatype vacant_location = At_Root | Left_Of node_ptr | Right_Of node_ptr

datatype location = Vacant_At vacant_location | Occupied_By node_ptr

fun find_impl :: "nat \<Rightarrow> ordering \<Rightarrow> 'k :: linorder \<Rightarrow> node_ptr \<Rightarrow> ('k, 'v, location) rb" where
  "find_impl 0 ord key this = stuck No_Fuel"
| "find_impl (Suc fuel) ord key this =
     and_then (get_key this) (\<lambda>k.
     if key < k then
       and_then (get_left ord this) (\<lambda>l.
       case l of
         Valid left \<Rightarrow> find_impl fuel ord key left
       | Null \<Rightarrow> ok (Vacant_At (Left_Of this)))
     else if key > k then
       and_then (get_right ord this) (\<lambda>r.
       case r of
         Valid right \<Rightarrow> find_impl fuel ord key right
       | Null \<Rightarrow> ok (Vacant_At (Right_Of this)))
     else ok (Occupied_By this))"

definition location_with :: "nat \<Rightarrow> ordering \<Rightarrow> 'k :: linorder \<Rightarrow> ('k, 'v, location) rb" where
  "location_with fuel ord key =
     and_then (get_root default_ordering) (\<lambda>root.
     case root of
       Valid root \<Rightarrow> find_impl fuel ord key root
     | Null \<Rightarrow> ok (Vacant_At At_Root))"

definition location_read :: "nat \<Rightarrow> 'k :: linorder \<Rightarrow> ('k, 'v, location) rb" where
  "location_read fuel key = location_with fuel Read key"

definition location_readwrite :: "nat \<Rightarrow> 'k :: linorder \<Rightarrow> ('k, 'v, location) rb" where
  "location_readwrite fuel key = location_with fuel default_ordering key"

definition rb_location :: "nat \<Rightarrow> 'k :: linorder \<Rightarrow> ordering \<Rightarrow> ('k, 'v, location) rb" where
  "rb_location fuel key ord =
     (case ord of
        Read \<Rightarrow> location_read fuel key
      | ReadWrite \<Rightarrow> location_readwrite fuel key
      | NonExhaustive \<Rightarrow> stuck Unreachable)"

definition rb_contains_key :: "nat \<Rightarrow> 'k :: linorder \<Rightarrow> ('k, 'v, bool) rb" where
  "rb_contains_key fuel key =
     and_then (rb_location fuel key default_ordering) (\<lambda>loc.
     ok (case loc of Vacant_At v \<Rightarrow> False | Occupied_By node \<Rightarrow> True))"

section \<open>Rotations\<close>

definition partial_rotate_right_red_helper ::
  "node_ptr \<Rightarrow> node_ptr \<Rightarrow> node_ptr \<Rightarrow> ('k, 'v, unit) rb" where
  "partial_rotate_right_red_helper self left left_right =
     and_then (set_left self (Valid left_right)) (\<lambda>_.
     and_then (set_parent_color self (Valid left) Red) (\<lambda>_.
     and_then (set_right left (Valid self)) (\<lambda>_.
     set_parent_color left_right (Valid self) Black)))"

definition partial_rotate_left_red_helper ::
  "node_ptr \<Rightarrow> node_ptr \<Rightarrow> node_ptr \<Rightarrow> ('k, 'v, unit) rb" where
  "partial_rotate_left_red_helper self right right_left =
     and_then (set_right self (Valid right_left)) (\<lambda>_.
     and_then (set_parent_color self (Valid right) Red) (\<lambda>_.
     and_then (set_left right (Valid self)) (\<lambda>_.
     set_parent_color right_left (Valid self) Black)))"

text \<open>The link of a parent that leads to a node, chosen by comparing keys.\<close>

definition set_link :: "bool \<Rightarrow> node_ptr \<Rightarrow> rbref \<Rightarrow> ('k, 'v, unit) rb" where
  "set_link on_left parent v = (if on_left then set_left parent v else set_right parent v)"

text \<open>\<open>if let Valid(p) = parent { if self.key < p.key { &p.left } else { &p.right }.set(tx, v) }\<close>\<close>

definition set_parent_link :: "node_ptr \<Rightarrow> rbref \<Rightarrow> rbref \<Rightarrow> ('k :: linorder, 'v, unit) rb" where
  "set_parent_link self parent v =
     (case parent of
        Valid p \<Rightarrow> and_then (key_less self p) (\<lambda>on_left. set_link on_left p v)
      | Null \<Rightarrow> ok ())"

text \<open>\<open>if let Valid(x) = r { x.parent_color.set(tx, v, c) }\<close>\<close>

definition set_parent_color_if :: "rbref \<Rightarrow> rbref \<Rightarrow> color \<Rightarrow> ('k, 'v, unit) rb" where
  "set_parent_color_if r v c = (case r of Valid x \<Rightarrow> set_parent_color x v c | Null \<Rightarrow> ok ())"

definition rotate_left_red_helper ::
  "node_ptr \<Rightarrow> node_ptr \<Rightarrow> rbref \<Rightarrow> ('k :: linorder, 'v, node_ptr option) rb" where
  "rotate_left_red_helper self right right_left =
     and_then (black_parent Read self) (\<lambda>parent.
     and_then (set_parent_color self (Valid right) Red) (\<lambda>_.
     and_then (set_right self right_left) (\<lambda>_.
     and_then (set_left right (Valid self)) (\<lambda>_.
     and_then (set_parent_color right parent Black) (\<lambda>_.
     and_then (set_parent_color_if right_left (Valid self) Black) (\<lambda>_.
     and_then (set_parent_link self parent (Valid right)) (\<lambda>_.
     ok (if parent = Null then Some right else None))))))))"

definition rotate_right_red_helper ::
  "node_ptr \<Rightarrow> node_ptr \<Rightarrow> rbref \<Rightarrow> ('k :: linorder, 'v, node_ptr option) rb" where
  "rotate_right_red_helper self left left_right =
     and_then (black_parent Read self) (\<lambda>parent.
     and_then (set_parent_color self (Valid left) Red) (\<lambda>_.
     and_then (set_left self left_right) (\<lambda>_.
     and_then (set_right left (Valid self)) (\<lambda>_.
     and_then (set_parent_color left parent Black) (\<lambda>_.
     and_then (set_parent_color_if left_right (Valid self) Black) (\<lambda>_.
     and_then (set_parent_link self parent (Valid left)) (\<lambda>_.
     ok (if parent = Null then Some left else None))))))))"

section \<open>Insertion\<close>

datatype repair_result = NewRoot node_ptr | PublishRoot node_ptr | RootUnchanged

definition repair_of :: "node_ptr option \<Rightarrow> repair_result" where
  "repair_of r = (case r of Some root \<Rightarrow> NewRoot root | None \<Rightarrow> RootUnchanged)"

text \<open>
  \<open>insert_case4\<close>: the children of \<open>self\<close> are about to become black and \<open>self\<close> red under a red parent with
  a black uncle.
\<close>

definition insert_case4 ::
  "node_ptr \<Rightarrow> node_ptr \<Rightarrow> node_ptr \<Rightarrow> bool \<Rightarrow> node_ptr \<Rightarrow> node_ptr \<Rightarrow> ('k :: linorder, 'v, node_ptr option) rb"
  where
  "insert_case4 self parent gp uncle_on_left left right =
     (if uncle_on_left then
        and_then (get_left Read parent) (\<lambda>parent_left.
        and_then
          (if parent_left = Valid self then
             and_then (partial_rotate_right_red_helper parent self right) (\<lambda>_. ok (self, Valid left))
           else
             and_then (set_parent_color left (Valid self) Black) (\<lambda>_.
             and_then (set_parent_color right (Valid self) Black) (\<lambda>_.
             and_then (set_parent_color self (Valid parent) Red) (\<lambda>_. ok (parent, parent_left)))))
          (\<lambda>(right, right_left). rotate_left_red_helper gp right right_left))
      else
        and_then (get_right Read parent) (\<lambda>parent_right.
        and_then
          (if parent_right = Valid self then
             and_then (partial_rotate_left_red_helper parent self left) (\<lambda>_. ok (self, Valid right))
           else
             and_then (set_parent_color left (Valid self) Black) (\<lambda>_.
             and_then (set_parent_color right (Valid self) Black) (\<lambda>_.
             and_then (set_parent_color self (Valid parent) Red) (\<lambda>_. ok (parent, parent_right)))))
          (\<lambda>(left, left_right). rotate_right_red_helper gp left left_right)))"

text \<open>\<open>insert_case4_mut\<close>: the same for a new node that is still a box.\<close>

definition insert_case4_mut ::
  "node_ptr \<Rightarrow> node_ptr \<Rightarrow> node_ptr \<Rightarrow> bool \<Rightarrow> bool \<Rightarrow> ('k :: linorder, 'v, repair_result) rb" where
  "insert_case4_mut self parent gp uncle_on_left insert_on_left =
     (if uncle_on_left then
        if insert_on_left then
          and_then (set_right_mut self parent) (\<lambda>_.
          and_then (set_left_mut self gp) (\<lambda>_.
          and_then (set_parent_color parent (Valid self) Red) (\<lambda>_.
          and_then (black_parent Read gp) (\<lambda>parent.
          and_then (set_parent_color gp (Valid self) Red) (\<lambda>_.
          and_then (set_right gp Null) (\<lambda>_.
          case parent of
            Valid parent \<Rightarrow>
              and_then (set_black_parent_mut self parent) (\<lambda>_.
              and_then (set_parent_link gp (Valid parent) (Valid self)) (\<lambda>_.
              ok RootUnchanged))
          | Null \<Rightarrow> ok (PublishRoot self)))))))
        else
          and_then (set_red_parent_mut self parent) (\<lambda>_.
          and_then (publish_right parent self) (\<lambda>_.
          and_then (get_left Read parent) (\<lambda>parent_left.
          and_then (rotate_left_red_helper gp parent parent_left) (\<lambda>root. ok (repair_of root)))))
      else
        if \<not> insert_on_left then
          and_then (set_left_mut self parent) (\<lambda>_.
          and_then (set_right_mut self gp) (\<lambda>_.
          and_then (set_parent_color parent (Valid self) Red) (\<lambda>_.
          and_then (black_parent Read gp) (\<lambda>parent.
          and_then (set_parent_color gp (Valid self) Red) (\<lambda>_.
          and_then (set_left gp Null) (\<lambda>_.
          case parent of
            Valid parent \<Rightarrow>
              and_then (set_black_parent_mut self parent) (\<lambda>_.
              and_then (set_parent_link gp (Valid parent) (Valid self)) (\<lambda>_.
              ok RootUnchanged))
          | Null \<Rightarrow> ok (PublishRoot self)))))))
        else
          and_then (set_red_parent_mut self parent) (\<lambda>_.
          and_then (publish_left parent self) (\<lambda>_.
          and_then (get_right Read parent) (\<lambda>parent_left.
          and_then (rotate_right_red_helper gp parent parent_left) (\<lambda>root. ok (repair_of root))))))"

text \<open>The guard of the match on the uncle: there is one, and it is red.\<close>

definition red_uncle :: "rbref \<Rightarrow> ('k, 'v, node_ptr option) rb" where
  "red_uncle uncle =
     (case uncle of
        Valid u \<Rightarrow> and_then (get_color default_ordering u) (\<lambda>c. ok (if c = Red then Some u else None))
      | Null \<Rightarrow> ok None)"

text \<open>
  The loop of \<open>insert_fixup\<close>: \<open>this\<close> is to become red and its children \<open>left\<close> and \<open>right\<close> black; the
  colours are written one turn later than they are decided.
\<close>

fun insert_loop :: "nat \<Rightarrow> node_ptr \<Rightarrow> node_ptr \<Rightarrow> node_ptr \<Rightarrow> ('k :: linorder, 'v, repair_result) rb" where
  "insert_loop 0 this left right = stuck No_Fuel"
| "insert_loop (Suc fuel) this left right =
     and_then (black_parent Read this) (\<lambda>parent_ref.
     case parent_ref of
       Null \<Rightarrow>
         and_then (get_color Read this) (\<lambda>c.
         and_then (debug_assert (c = Black)) (\<lambda>_.
         and_then (set_parent_color left (Valid this) Black) (\<lambda>_.
         and_then (set_parent_color right (Valid this) Black) (\<lambda>_.
         ok RootUnchanged))))
     | Valid parent \<Rightarrow>
         and_then (as_ref_color default_ordering parent) (\<lambda>(gp, p_color).
         if p_color = Black then
           and_then (set_parent_color left (Valid this) Black) (\<lambda>_.
           and_then (set_parent_color right (Valid this) Black) (\<lambda>_.
           and_then (set_parent_color this (Valid parent) Red) (\<lambda>_.
           ok RootUnchanged)))
         else
           and_then (unwrap gp) (\<lambda>gp.
           and_then (key_less gp parent) (\<lambda>uncle_on_left.
           and_then (if uncle_on_left then get_left default_ordering gp else get_right default_ordering gp) (\<lambda>uncle.
           and_then (red_uncle uncle) (\<lambda>red.
           case red of
             Some uncle \<Rightarrow>
               and_then (set_parent_color left (Valid this) Black) (\<lambda>_.
               and_then (set_parent_color right (Valid this) Black) (\<lambda>_.
               and_then (set_parent_color this (Valid parent) Red) (\<lambda>_.
               if uncle_on_left then insert_loop fuel gp uncle parent
               else insert_loop fuel gp parent uncle)))
           | None \<Rightarrow>
               and_then (insert_case4 this parent gp uncle_on_left left right) (\<lambda>root.
               ok (repair_of root))))))))"

definition insert_fixup ::
  "nat \<Rightarrow> node_ptr \<Rightarrow> node_ptr \<Rightarrow> bool \<Rightarrow> ('k :: linorder, 'v, repair_result) rb" where
  "insert_fixup fuel self parent insert_on_left =
     and_then (as_ref_color default_ordering parent) (\<lambda>(gp, p_color).
     if p_color = Black then
       and_then (set_red_parent_mut self parent) (\<lambda>_.
       and_then (if insert_on_left then publish_left parent self else publish_right parent self) (\<lambda>_.
       ok RootUnchanged))
     else
       and_then (unwrap gp) (\<lambda>gp.
       and_then (key_less gp parent) (\<lambda>uncle_on_left.
       and_then (if uncle_on_left then get_left default_ordering gp else get_right default_ordering gp) (\<lambda>uncle.
       and_then (red_uncle uncle) (\<lambda>red.
       case red of
         Some uncle \<Rightarrow>
           and_then (set_red_parent_mut self parent) (\<lambda>_.
           and_then (if insert_on_left then publish_left parent self else publish_right parent self) (\<lambda>_.
           if uncle_on_left then insert_loop fuel gp uncle parent
           else insert_loop fuel gp parent uncle))
       | None \<Rightarrow> insert_case4_mut self parent gp uncle_on_left insert_on_left)))))"

text \<open>\<open>RBRoot::insert\<close>; \<open>n\<close> is the address of the new box.\<close>

definition rb_insert ::
  "nat \<Rightarrow> node_ptr \<Rightarrow> 'k :: linorder \<Rightarrow> 'v \<Rightarrow> vacant_location \<Rightarrow> ('k, 'v, node_ptr) rb" where
  "rb_insert fuel n key value loc =
     and_then (new_node n key value) (\<lambda>_.
     case loc of
       At_Root \<Rightarrow> and_then (publish_root n) (\<lambda>_. ok n)
     | Left_Of parent \<Rightarrow>
         and_then (insert_fixup fuel n parent True) (\<lambda>new_root.
         case new_root of
           NewRoot new_root \<Rightarrow> and_then (set_root (Valid new_root)) (\<lambda>_. ok n)
         | PublishRoot root \<Rightarrow> and_then (publish_root root) (\<lambda>_. ok n)
         | RootUnchanged \<Rightarrow> ok n)
     | Right_Of parent \<Rightarrow>
         and_then (insert_fixup fuel n parent False) (\<lambda>new_root.
         case new_root of
           NewRoot new_root \<Rightarrow> and_then (set_root (Valid new_root)) (\<lambda>_. ok n)
         | PublishRoot root \<Rightarrow> and_then (publish_root root) (\<lambda>_. ok n)
         | RootUnchanged \<Rightarrow> ok n))"

section \<open>Removal\<close>

text \<open>The inner loop that walks to the leftmost node: the last but one node and the last.\<close>

fun leftmost_loop :: "nat \<Rightarrow> node_ptr \<Rightarrow> rbref \<Rightarrow> ('k, 'v, node_ptr \<times> node_ptr) rb" where
  "leftmost_loop 0 successor node_right_left = stuck No_Fuel"
| "leftmost_loop (Suc fuel) successor node_right_left =
     and_then (unwrap node_right_left) (\<lambda>right_leftmost.
     and_then (get_left default_ordering right_leftmost) (\<lambda>next_left.
     if next_left = Null then ok (successor, right_leftmost)
     else leftmost_loop fuel right_leftmost next_left))"

definition remove_nofix :: "nat \<Rightarrow> node_ptr \<Rightarrow> ('k :: linorder, 'v, rbref option \<times> rbref) rb" where
  "remove_nofix fuel self =
     and_then (get_right default_ordering self) (\<lambda>node_right.
     and_then (get_left default_ordering self) (\<lambda>node_left.
     and_then
       (if node_left = Null then
          and_then (as_ref_color default_ordering self) (\<lambda>(parent, color).
          and_then (set_parent_link self parent node_right) (\<lambda>_.
          let new_root = (if parent = Null then Some node_right else None) in
          case node_right of
            Valid r \<Rightarrow> and_then (set_parent_color r parent color) (\<lambda>_. ok (new_root, Null))
          | Null \<Rightarrow> ok (new_root, if color = Black then parent else Null)))
        else if node_right = Null then
          and_then (unwrap node_left) (\<lambda>node_left.
          and_then (as_ref_color default_ordering self) (\<lambda>(parent, color).
          and_then (set_parent_color node_left parent color) (\<lambda>_.
          and_then (set_parent_link self parent (Valid node_left)) (\<lambda>_.
          ok (if parent = Null then Some (Valid node_left) else None, Null)))))
        else
          and_then (unwrap node_right) (\<lambda>child.
          and_then (get_left default_ordering child) (\<lambda>node_right_left.
          and_then
            (if node_right_left = Null then
               and_then (get_right default_ordering child) (\<lambda>child2. ok (child, child, child2))
             else
               and_then (leftmost_loop fuel child node_right_left) (\<lambda>(parent, successor).
               and_then (get_right default_ordering successor) (\<lambda>child2.
               and_then (set_left parent child2) (\<lambda>_.
               and_then (set_right successor (Valid child)) (\<lambda>_.
               and_then (get_color Read child) (\<lambda>child_color.
               and_then (set_parent_color child (Valid successor) child_color) (\<lambda>_.
               ok (parent, successor, child2)))))))) (\<lambda>(parent, successor, child2).
          and_then (get_left default_ordering self) (\<lambda>node_left.
          and_then (set_left successor node_left) (\<lambda>_.
          and_then (unwrap node_left) (\<lambda>node_left.
          and_then (get_color Read node_left) (\<lambda>color.
          and_then (set_parent_color node_left (Valid successor) color) (\<lambda>_.
          and_then (as_ref_color default_ordering self) (\<lambda>(pp, pcolor).
          and_then (set_parent_link self pp (Valid successor)) (\<lambda>_.
          let new_root = (if pp = Null then Some (Valid successor) else None) in
          case child2 of
            Valid c2 \<Rightarrow>
              and_then (set_parent_color successor pp pcolor) (\<lambda>_.
              and_then (set_parent_color c2 (Valid parent) Black) (\<lambda>_.
              ok (new_root, Null)))
          | Null \<Rightarrow>
              and_then (as_ref_color Read successor) (\<lambda>(_, scolor).
              and_then (set_parent_color successor pp pcolor) (\<lambda>_.
              ok (new_root, if scolor = Black then Valid parent else Null))))))))))))))
       (\<lambda>result. and_then (privatize_as_box self) (\<lambda>_. ok result))))"

text \<open>Whether there is no node or a black one.\<close>

definition ref_black :: "rbref \<Rightarrow> ('k, 'v, bool) rb" where
  "ref_black r =
     (case r of
        Valid x \<Rightarrow> and_then (get_color default_ordering x) (\<lambda>c. ok (c = Black))
      | Null \<Rightarrow> ok True)"

text \<open>\<open>if let Valid(x) = r\<close> a node gets a new parent and keeps its colour.\<close>

definition reparent_if :: "rbref \<Rightarrow> node_ptr \<Rightarrow> ('k, 'v, unit) rb" where
  "reparent_if r p =
     (case r of
        Valid x \<Rightarrow> and_then (get_color Read x) (\<lambda>color. set_parent_color x (Valid p) color)
      | Null \<Rightarrow> ok ())"

text \<open>The end of a rotation at \<open>parent\<close>: \<open>sibling\<close> takes its place and its colour.\<close>

definition take_place_of :: "node_ptr \<Rightarrow> rbref \<Rightarrow> color \<Rightarrow> node_ptr option \<Rightarrow> ('k :: linorder, 'v, node_ptr option) rb"
  where
  "take_place_of sibling gp p_color result =
     and_then (set_parent_color sibling gp p_color) (\<lambda>_.
     and_then (set_parent_link sibling gp (Valid sibling)) (\<lambda>_.
     ok (if gp = Null then Some sibling else result)))"

text \<open>The two branches of \<open>remove_fixup\<close> where its loop ends with rotations: a nephew is red.\<close>

definition fixup_rotate_left ::
  "node_ptr \<Rightarrow> node_ptr \<Rightarrow> rbref \<Rightarrow> node_ptr option \<Rightarrow> ('k :: linorder, 'v, node_ptr option) rb" where
  "fixup_rotate_left parent sibling sibling_right result =
     and_then (unwrap sibling_right) (\<lambda>sibling_right.
     and_then (get_left Read sibling) (\<lambda>sibling_left.
     and_then (set_left sibling (Valid parent)) (\<lambda>_.
     and_then (as_ref_color Read parent) (\<lambda>(gp, p_color).
     and_then (set_parent_color parent (Valid sibling) Black) (\<lambda>_.
     and_then (set_right parent sibling_left) (\<lambda>_.
     and_then (reparent_if sibling_left parent) (\<lambda>_.
     and_then (set_parent_color sibling_right (Valid sibling) Black) (\<lambda>_.
     take_place_of sibling gp p_color result))))))))"

definition fixup_rotate_right ::
  "node_ptr \<Rightarrow> node_ptr \<Rightarrow> rbref \<Rightarrow> node_ptr option \<Rightarrow> ('k :: linorder, 'v, node_ptr option) rb" where
  "fixup_rotate_right parent sibling sibling_left result =
     and_then (unwrap sibling_left) (\<lambda>sibling_left.
     and_then (get_right Read sibling) (\<lambda>sibling_right.
     and_then (set_right sibling (Valid parent)) (\<lambda>_.
     and_then (set_left parent sibling_right) (\<lambda>_.
     and_then (set_parent_color sibling_left (Valid sibling) Black) (\<lambda>_.
     and_then (reparent_if sibling_right parent) (\<lambda>_.
     and_then (as_ref_color Read parent) (\<lambda>(gp, p_color).
     and_then (set_parent_color parent (Valid sibling) Black) (\<lambda>_.
     take_place_of sibling gp p_color result))))))))"

definition or_else :: "'a option \<Rightarrow> 'a option \<Rightarrow> 'a option" where
  "or_else a b = (case a of Some x \<Rightarrow> Some x | None \<Rightarrow> b)"

fun remove_loop_rb ::
  "nat \<Rightarrow> rbref \<Rightarrow> node_ptr \<Rightarrow> node_ptr option \<Rightarrow> ('k :: linorder, 'v, node_ptr option) rb" where
  "remove_loop_rb 0 node parent result = stuck No_Fuel"
| "remove_loop_rb (Suc fuel) node parent result =
     and_then
       (if node = Null then ok ()
        else
          and_then (unwrap node) (\<lambda>x.
          and_then (as_ref_color Read x) (\<lambda>(p, c).
          debug_assert (c = Black \<and> p \<noteq> Null)))) (\<lambda>_.
     and_then (get_right default_ordering parent) (\<lambda>sibling.
     if sibling \<noteq> node then
       and_then (unwrap sibling) (\<lambda>sibling.
       and_then (get_color default_ordering sibling) (\<lambda>sibling_color.
       and_then
         (if sibling_color = Red then
            and_then (get_left Read sibling) (\<lambda>sibling_left.
            and_then (unwrap sibling_left) (\<lambda>sibling_left.
            and_then (rotate_left_red_helper parent sibling (Valid sibling_left)) (\<lambda>new_root.
            ok (sibling_left, or_else result new_root))))
          else ok (sibling, result)) (\<lambda>(sibling, result).
       and_then (get_right default_ordering sibling) (\<lambda>sibling_right.
       and_then (ref_black sibling_right) (\<lambda>sibling_right_black.
       if sibling_right_black then
         and_then (get_left default_ordering sibling) (\<lambda>sibling_left.
         and_then (ref_black sibling_left) (\<lambda>sibling_left_black.
         if sibling_left_black then
           and_then (set_parent_color sibling (Valid parent) Red) (\<lambda>_.
           and_then (as_ref_color default_ordering parent) (\<lambda>(gp, p_color).
           if p_color = Red then
             and_then (set_parent_color parent gp Black) (\<lambda>_. ok result)
           else
             (case gp of
                Valid gp \<Rightarrow> remove_loop_rb fuel (Valid parent) gp result
              | Null \<Rightarrow> ok result)))
         else
           and_then (unwrap sibling_left) (\<lambda>sibling_left.
           and_then (get_right default_ordering sibling_left) (\<lambda>sib_left_right.
           and_then (set_left sibling sib_left_right) (\<lambda>_.
           and_then (set_right sibling_left (Valid sibling)) (\<lambda>_.
           and_then (set_right parent (Valid sibling_left)) (\<lambda>_.
           and_then (set_parent_color_if sib_left_right (Valid sibling) Black) (\<lambda>_.
           fixup_rotate_left parent sibling_left (Valid sibling) result))))))))
       else fixup_rotate_left parent sibling sibling_right result)))))
     else
       and_then (get_left default_ordering parent) (\<lambda>sibling.
       and_then (unwrap sibling) (\<lambda>sibling.
       and_then (get_color default_ordering sibling) (\<lambda>sibling_color.
       and_then
         (if sibling_color = Red then
            and_then (get_right Read sibling) (\<lambda>sibling_right.
            and_then (unwrap sibling_right) (\<lambda>sibling_right.
            and_then (rotate_right_red_helper parent sibling (Valid sibling_right)) (\<lambda>new_root.
            ok (sibling_right, or_else result new_root))))
          else ok (sibling, result)) (\<lambda>(sibling, result).
       and_then (get_left default_ordering sibling) (\<lambda>sibling_left.
       and_then (ref_black sibling_left) (\<lambda>sibling_left_black.
       if sibling_left_black then
         and_then (get_right default_ordering sibling) (\<lambda>sibling_right.
         and_then (ref_black sibling_right) (\<lambda>sibling_right_black.
         if sibling_right_black then
           and_then (set_parent_color sibling (Valid parent) Red) (\<lambda>_.
           and_then (as_ref_color default_ordering parent) (\<lambda>(gp, p_color).
           if p_color = Red then
             and_then (set_parent_color parent gp Black) (\<lambda>_. ok result)
           else
             (case gp of
                Valid gp \<Rightarrow> remove_loop_rb fuel (Valid parent) gp result
              | Null \<Rightarrow> ok result)))
         else
           and_then (unwrap sibling_right) (\<lambda>sibling_right.
           and_then (get_left Read sibling_right) (\<lambda>sib_right_left.
           and_then (set_left sibling_right (Valid sibling)) (\<lambda>_.
           and_then (set_right sibling sib_right_left) (\<lambda>_.
           and_then (set_left parent (Valid sibling_right)) (\<lambda>_.
           and_then (set_parent_color_if sib_right_left (Valid sibling) Black) (\<lambda>_.
           fixup_rotate_right parent sibling_right (Valid sibling) result))))))))
       else fixup_rotate_right parent sibling sibling_left result))))))))"

definition remove_fixup :: "nat \<Rightarrow> node_ptr \<Rightarrow> ('k :: linorder, 'v, node_ptr option) rb" where
  "remove_fixup fuel self = remove_loop_rb fuel Null self None"

definition rb_remove :: "nat \<Rightarrow> node_ptr \<Rightarrow> ('k :: linorder, 'v, node_ptr) rb" where
  "rb_remove fuel node =
     and_then (remove_nofix fuel node) (\<lambda>(new_root, rebalance).
     and_then
       (case rebalance of
          Valid rebalance \<Rightarrow>
            and_then (remove_fixup fuel rebalance) (\<lambda>n. ok (or_else (map_option Valid n) new_root))
        | Null \<Rightarrow> ok new_root) (\<lambda>new_root.
     and_then (case new_root of Some r \<Rightarrow> set_root r | None \<Rightarrow> ok ()) (\<lambda>_.
     ok node)))"

section \<open>The map\<close>

text \<open>\<open>RBTreeMapRaw\<close>. The values are \<open>TCell\<close>s in the nodes.\<close>

definition map_get :: "nat \<Rightarrow> 'k :: linorder \<Rightarrow> ('k, 'v, 'v option) rb" where
  "map_get fuel key =
     and_then (rb_location fuel key default_ordering) (\<lambda>loc.
     case loc of
       Vacant_At v \<Rightarrow> ok None
     | Occupied_By node \<Rightarrow> and_then (get_value default_ordering node) (\<lambda>v. ok (Some v)))"

definition map_insert :: "nat \<Rightarrow> node_ptr \<Rightarrow> 'k :: linorder \<Rightarrow> 'v \<Rightarrow> ('k, 'v, 'v option) rb" where
  "map_insert fuel n key value =
     and_then (rb_location fuel key Read) (\<lambda>loc.
     case loc of
       Vacant_At vacant \<Rightarrow> and_then (rb_insert fuel n key value vacant) (\<lambda>_. ok None)
     | Occupied_By node \<Rightarrow> and_then (replace_value node value) (\<lambda>v. ok (Some v)))"

definition map_remove :: "nat \<Rightarrow> 'k :: linorder \<Rightarrow> ('k, 'v, 'v option) rb" where
  "map_remove fuel key =
     and_then (rb_location fuel key Read) (\<lambda>loc.
     case loc of
       Vacant_At v \<Rightarrow> ok None
     | Occupied_By node \<Rightarrow>
         and_then (rb_remove fuel node) (\<lambda>v.
         and_then (get_value default_ordering v) (\<lambda>value.
         ok (Some value))))"

text \<open>\<open>get_mut\<close> gives a view of the value's cell, here its node.\<close>

definition map_get_mut :: "nat \<Rightarrow> 'k :: linorder \<Rightarrow> ('k, 'v, node_ptr option) rb" where
  "map_get_mut fuel key =
     and_then (rb_location fuel key default_ordering) (\<lambda>loc.
     ok (case loc of Vacant_At v \<Rightarrow> None | Occupied_By node \<Rightarrow> Some node))"

section \<open>Entries\<close>

text \<open>\<open>Entry\<close>: the place for a key, found with reads that commit checks. The tree and the transaction are implicit.\<close>

datatype 'k entry = Vacant_Entry vacant_location 'k | Occupied_Entry node_ptr 'k

definition map_entry :: "nat \<Rightarrow> 'k :: linorder \<Rightarrow> ('k, 'v, 'k entry) rb" where
  "map_entry fuel key =
     and_then (rb_location fuel key default_ordering) (\<lambda>loc.
     ok (case loc of Vacant_At location \<Rightarrow> Vacant_Entry location key | Occupied_By node \<Rightarrow> Occupied_Entry node key))"

fun entry_key :: "'k entry \<Rightarrow> 'k" where
  "entry_key (Occupied_Entry node key) = key"
| "entry_key (Vacant_Entry location key) = key"

text \<open>\<open>Value\<close>: the value of a node that is still a box, by \<open>&mut\<close>, or a view of a cell.\<close>

datatype map_value = Owned node_ptr | Shared node_ptr

fun vacant_entry_insert :: "nat \<Rightarrow> node_ptr \<Rightarrow> vacant_location \<Rightarrow> 'k :: linorder \<Rightarrow> 'v \<Rightarrow> ('k, 'v, node_ptr) rb" where
  "vacant_entry_insert fuel n location key v = rb_insert fuel n key v location"

definition occupied_entry_insert :: "node_ptr \<Rightarrow> 'v \<Rightarrow> ('k, 'v, 'v) rb" where
  "occupied_entry_insert node v = replace_value node v"

definition occupied_entry_remove :: "nat \<Rightarrow> node_ptr \<Rightarrow> ('k :: linorder, 'v, 'v) rb" where
  "occupied_entry_remove fuel node =
     and_then (rb_remove fuel node) (\<lambda>v. get_value default_ordering v)"

definition or_insert_with :: "nat \<Rightarrow> node_ptr \<Rightarrow> (unit \<Rightarrow> 'v) \<Rightarrow> 'k entry \<Rightarrow> ('k :: linorder, 'v, map_value) rb" where
  "or_insert_with fuel n dflt e =
     (case e of
        Occupied_Entry node key \<Rightarrow> ok (Shared node)
      | Vacant_Entry location key \<Rightarrow>
          and_then (vacant_entry_insert fuel n location key (dflt ())) (\<lambda>v. ok (Owned v)))"

definition or_insert :: "nat \<Rightarrow> node_ptr \<Rightarrow> 'v \<Rightarrow> 'k entry \<Rightarrow> ('k :: linorder, 'v, map_value) rb" where
  "or_insert fuel n dflt e = or_insert_with fuel n (\<lambda>_. dflt) e"

definition and_modify :: "(node_ptr \<Rightarrow> ('k, 'v, unit) rb) \<Rightarrow> 'k entry \<Rightarrow> ('k, 'v, 'k entry) rb" where
  "and_modify f e =
     (case e of
        Occupied_Entry node key \<Rightarrow> and_then (f node) (\<lambda>_. ok (Occupied_Entry node key))
      | Vacant_Entry location key \<Rightarrow> ok e)"

fun map_value_set :: "map_value \<Rightarrow> 'v \<Rightarrow> ('k, 'v, unit) rb" where
  "map_value_set (Owned dest) v = mut_access (\<lambda>s. s\<lparr>rb_val := (rb_val s)(dest := v)\<rparr>)"
| "map_value_set (Shared view) v = set_value view v"

section \<open>Checking and dropping a tree\<close>

record 'k verified =
  black_depth :: nat
  min_depth :: nat
  max_depth :: nat
  min_key :: "'k option"
  max_key :: "'k option"

definition verified_leaf :: "'k verified" where
  "verified_leaf = \<lparr>black_depth = 1, min_depth = 1, max_depth = 1, min_key = None, max_key = None\<rparr>"

text \<open>The assertions at the end of both branches of \<open>verify\<close>; the black depth counts black nodes.\<close>

definition verify_join :: "color \<Rightarrow> 'k :: linorder \<Rightarrow> 'k verified \<Rightarrow> 'k verified \<Rightarrow> ('k, 'v, 'k verified) rb" where
  "verify_join color key l r =
     and_then (debug_assert (black_depth l = black_depth r)) (\<lambda>_.
     and_then (debug_assert (case max_key l of Some m \<Rightarrow> m < key | None \<Rightarrow> True)) (\<lambda>_.
     and_then (debug_assert (case min_key r of Some m \<Rightarrow> key < m | None \<Rightarrow> True)) (\<lambda>_.
     let result = \<lparr>black_depth = (if color = Red then black_depth l else black_depth l + 1),
                   min_depth = min (min_depth l) (min_depth r) + 1,
                   max_depth = max (max_depth l) (max_depth r) + 1,
                   min_key = Some (case min_key l of Some m \<Rightarrow> m | None \<Rightarrow> key),
                   max_key = Some (case max_key r of Some m \<Rightarrow> m | None \<Rightarrow> key)\<rparr>
     in and_then (debug_assert (min_depth result * 2 \<ge> max_depth result)) (\<lambda>_.
        ok result))))"

fun verify_node :: "nat \<Rightarrow> node_ptr \<Rightarrow> ('k :: linorder, 'v, 'k verified) rb" where
  "verify_node 0 self = stuck No_Fuel"
| "verify_node (Suc fuel) self =
     and_then (as_ref_color default_ordering self) (\<lambda>(_, color).
     and_then (get_left default_ordering self) (\<lambda>left.
     and_then
       (case left of
          Valid left \<Rightarrow>
            and_then (as_ref_color default_ordering left) (\<lambda>(lp, lc).
            and_then (debug_assert (color = Red \<longrightarrow> lc = Black)) (\<lambda>_.
            and_then (unwrap lp) (\<lambda>lp.
            and_then (debug_assert (lp = self)) (\<lambda>_.
            verify_node fuel left))))
        | Null \<Rightarrow> ok verified_leaf) (\<lambda>left_verify.
     and_then (get_right default_ordering self) (\<lambda>right.
     and_then
       (case right of
          Valid right \<Rightarrow>
            and_then (as_ref_color default_ordering right) (\<lambda>(rp, rc).
            and_then (debug_assert (color = Red \<longrightarrow> rc = Black)) (\<lambda>_.
            and_then (unwrap rp) (\<lambda>rp.
            and_then (debug_assert (rp = self)) (\<lambda>_.
            verify_node fuel right))))
        | Null \<Rightarrow> ok verified_leaf) (\<lambda>right_verify.
     and_then (get_key self) (\<lambda>key.
     verify_join color key left_verify right_verify))))))"

definition rb_verify :: "nat \<Rightarrow> ('k :: linorder, 'v, unit) rb" where
  "rb_verify fuel =
     and_then (get_root default_ordering) (\<lambda>root.
     case root of
       Valid root \<Rightarrow> and_then (verify_node fuel root) (\<lambda>_. ok ())
     | Null \<Rightarrow> ok ())"

text \<open>\<open>destroy\<close>, with exclusive access: the nodes freed, in order. \<open>Drop for RBRoot\<close> starts it at the root.\<close>

fun destroy :: "nat \<Rightarrow> ('k, 'v) rb_store \<Rightarrow> rbref \<Rightarrow> node_ptr list option" where
  "destroy fuel s Null = Some []"
| "destroy 0 s (Valid self) = None"
| "destroy (Suc fuel) s (Valid self) =
     (case destroy fuel s (lefts s self) of
        None \<Rightarrow> None
      | Some ls \<Rightarrow>
          (case destroy fuel s (rights s self) of
             None \<Rightarrow> None
           | Some rs \<Rightarrow> Some (ls @ rs @ [self])))"

definition rb_root_drop :: "nat \<Rightarrow> ('k, 'v) rb_store \<Rightarrow> node_ptr list option" where
  "rb_root_drop fuel s = destroy fuel s (root_cell s)"

end
