(* ===== verification/Rb_Tree.thy ===== *)
theory Rb_Tree
  imports Rb_Base
begin

text \<open>
  The trees that the links of theory \<open>Rb_Store\<close> form: a functional tree of node addresses as the ghost
  of the memory, contexts for a position in it, and the red-black and search tree properties,
  each with its form for a tree in a context.
\<close>

section \<open>Trees and contexts\<close>

datatype rbt = Leaf | Node rbt color node_ptr rbt

fun root_of :: "rbt \<Rightarrow> rbref" where
  "root_of Leaf = Null"
| "root_of (Node l c a r) = Valid a"

fun inorder :: "rbt \<Rightarrow> node_ptr list" where
  "inorder Leaf = []"
| "inorder (Node l c a r) = inorder l @ a # inorder r"

fun color_of :: "rbt \<Rightarrow> color" where
  "color_of Leaf = Black"
| "color_of (Node l c a r) = c"

fun paint :: "color \<Rightarrow> rbt \<Rightarrow> rbt" where
  "paint c Leaf = Leaf"
| "paint c (Node l _ a r) = Node l c a r"

fun rb_height :: "rbt \<Rightarrow> nat" where
  "rb_height Leaf = 0"
| "rb_height (Node l c a r) = Suc (max (rb_height l) (rb_height r))"

text \<open>A frame is a node with a hole for its left or right subtree; the innermost frame comes first.\<close>

datatype frame = LeftHole color node_ptr rbt | RightHole rbt color node_ptr

fun plug :: "rbt \<Rightarrow> frame \<Rightarrow> rbt" where
  "plug t (LeftHole c a r) = Node t c a r"
| "plug t (RightHole l c a) = Node l c a t"

definition fill :: "rbt \<Rightarrow> frame list \<Rightarrow> rbt" where
  "fill t fs = foldl plug t fs"

lemma fill_simps [simp]: "fill t [] = t" "fill t (f # fs) = fill (plug t f) fs" "fill t (fs @ gs) = fill (fill t fs) gs"
  by (simp_all add: fill_def)

fun frame_node :: "frame \<Rightarrow> node_ptr" where
  "frame_node (LeftHole c a r) = a"
| "frame_node (RightHole l c a) = a"

fun frame_color :: "frame \<Rightarrow> color" where
  "frame_color (LeftHole c a r) = c"
| "frame_color (RightHole l c a) = c"

fun frame_sub :: "frame \<Rightarrow> rbt" where
  "frame_sub (LeftHole c a r) = r"
| "frame_sub (RightHole l c a) = l"

fun parent_of :: "frame list \<Rightarrow> rbref" where
  "parent_of [] = Null"
| "parent_of (f # fs) = Valid (frame_node f)"

fun frame_pre :: "frame \<Rightarrow> node_ptr list" where
  "frame_pre (LeftHole c a r) = []"
| "frame_pre (RightHole l c a) = inorder l @ [a]"

fun frame_post :: "frame \<Rightarrow> node_ptr list" where
  "frame_post (LeftHole c a r) = a # inorder r"
| "frame_post (RightHole l c a) = []"

fun pre :: "frame list \<Rightarrow> node_ptr list" where
  "pre [] = []"
| "pre (f # fs) = pre fs @ frame_pre f"

fun post :: "frame list \<Rightarrow> node_ptr list" where
  "post [] = []"
| "post (f # fs) = frame_post f @ post fs"

lemma inorder_plug: "inorder (plug t f) = frame_pre f @ inorder t @ frame_post f"
  by (cases f) simp_all

lemma inorder_fill: "inorder (fill t fs) = pre fs @ inorder t @ post fs"
  by (induction fs arbitrary: t) (simp_all add: inorder_plug)

lemma inorder_paint [simp]: "inorder (paint c t) = inorder t"
  by (cases t) simp_all

lemma root_of_paint [simp]: "root_of (paint c t) = root_of t"
  by (cases t) simp_all

lemma root_of_Null [simp]: "root_of t = Null \<longleftrightarrow> t = Leaf" "Null = root_of t \<longleftrightarrow> t = Leaf"
  by (cases t; simp)+

lemma root_of_fill: "fs \<noteq> [] \<Longrightarrow> root_of (fill t fs) = Valid (frame_node (last fs))"
proof (induction fs arbitrary: t)
  case (Cons f fs)
  then show ?case by (cases "fs = []"; cases f) auto
qed simp

section \<open>Trees in memory\<close>

text \<open>Which links form a tree below a parent, and which form a context around a root.\<close>

fun tree_in ::
  "(node_ptr \<Rightarrow> rbref) \<Rightarrow> (node_ptr \<Rightarrow> rbref) \<Rightarrow> (node_ptr \<Rightarrow> usize) \<Rightarrow> rbref \<Rightarrow> rbt \<Rightarrow> bool" where
  "tree_in ls rs pcs p Leaf \<longleftrightarrow> True"
| "tree_in ls rs pcs p (Node l c a r) \<longleftrightarrow>
     ls a = root_of l \<and> rs a = root_of r \<and> pcs a = pack p c \<and>
     tree_in ls rs pcs (Valid a) l \<and> tree_in ls rs pcs (Valid a) r"

fun ctx_in ::
  "(node_ptr \<Rightarrow> rbref) \<Rightarrow> (node_ptr \<Rightarrow> rbref) \<Rightarrow> (node_ptr \<Rightarrow> usize) \<Rightarrow> rbref \<Rightarrow> frame list \<Rightarrow> bool" where
  "ctx_in ls rs pcs h [] \<longleftrightarrow> True"
| "ctx_in ls rs pcs h (LeftHole c a r # fs) \<longleftrightarrow>
     ls a = h \<and> rs a = root_of r \<and> pcs a = pack (parent_of fs) c \<and> tree_in ls rs pcs (Valid a) r \<and>
     ctx_in ls rs pcs (Valid a) fs"
| "ctx_in ls rs pcs h (RightHole l c a # fs) \<longleftrightarrow>
     ls a = root_of l \<and> rs a = h \<and> pcs a = pack (parent_of fs) c \<and> tree_in ls rs pcs (Valid a) l \<and>
     ctx_in ls rs pcs (Valid a) fs"

abbreviation tree_at :: "('k, 'v) rb_store \<Rightarrow> rbref \<Rightarrow> rbt \<Rightarrow> bool" where
  "tree_at s \<equiv> tree_in (lefts s) (rights s) (parent_colors s)"

abbreviation ctx_at :: "('k, 'v) rb_store \<Rightarrow> rbref \<Rightarrow> frame list \<Rightarrow> bool" where
  "ctx_at s \<equiv> ctx_in (lefts s) (rights s) (parent_colors s)"

lemma tree_in_fill:
  "tree_in ls rs pcs Null (fill t fs) \<longleftrightarrow> tree_in ls rs pcs (parent_of fs) t \<and> ctx_in ls rs pcs (root_of t) fs"
proof (induction fs arbitrary: t)
  case (Cons f fs)
  then show ?case by (cases f) auto
qed simp

text \<open>Updates elsewhere do not matter.\<close>

lemma tree_in_cong:
  "(\<forall>a\<in>set (inorder t). ls' a = ls a \<and> rs' a = rs a \<and> pcs' a = pcs a) \<Longrightarrow>
     tree_in ls' rs' pcs' p t = tree_in ls rs pcs p t"
  by (induction t arbitrary: p) auto

definition ctx_nodes :: "frame list \<Rightarrow> node_ptr set" where
  "ctx_nodes fs = set (pre fs) \<union> set (post fs)"

lemma ctx_nodes_simps [simp]:
  "ctx_nodes [] = {}" "ctx_nodes (LeftHole c a r # fs) = insert a (set (inorder r) \<union> ctx_nodes fs)"
  "ctx_nodes (RightHole l c a # fs) = insert a (set (inorder l) \<union> ctx_nodes fs)"
  by (auto simp: ctx_nodes_def)

lemma ctx_in_cong:
  "(\<forall>a\<in>ctx_nodes fs. ls' a = ls a \<and> rs' a = rs a \<and> pcs' a = pcs a) \<Longrightarrow>
     ctx_in ls' rs' pcs' h fs = ctx_in ls rs pcs h fs"
proof (induction fs arbitrary: h)
  case (Cons f fs)
  show ?case
  proof (cases f)
    case (LeftHole c a r)
    with Cons.prems tree_in_cong [of r ls' ls rs' rs pcs' pcs] Cons.IH show ?thesis by simp
  next
    case (RightHole l c a)
    with Cons.prems tree_in_cong [of l ls' ls rs' rs pcs' pcs] Cons.IH show ?thesis by simp
  qed
qed simp

lemma tree_in_upd [simp]:
  assumes "a \<notin> set (inorder t)"
  shows "tree_in (ls(a := x)) rs pcs p t = tree_in ls rs pcs p t"
    and "tree_in ls (rs(a := x)) pcs p t = tree_in ls rs pcs p t"
    and "tree_in ls rs (pcs(a := w)) p t = tree_in ls rs pcs p t"
  using assms by (auto intro!: tree_in_cong)

lemma ctx_in_upd [simp]:
  assumes "a \<notin> ctx_nodes fs"
  shows "ctx_in (ls(a := x)) rs pcs h fs = ctx_in ls rs pcs h fs"
    and "ctx_in ls (rs(a := x)) pcs h fs = ctx_in ls rs pcs h fs"
    and "ctx_in ls rs (pcs(a := w)) h fs = ctx_in ls rs pcs h fs"
  using assms by (auto intro!: ctx_in_cong)

section \<open>Red-black trees\<close>

fun bheight :: "rbt \<Rightarrow> nat" where
  "bheight Leaf = 0"
| "bheight (Node l c a r) = (if c = Black then Suc (bheight l) else bheight l)"

fun invc :: "rbt \<Rightarrow> bool" where
  "invc Leaf = True"
| "invc (Node l c a r) = ((c = Red \<longrightarrow> color_of l = Black \<and> color_of r = Black) \<and> invc l \<and> invc r)"

fun invh :: "rbt \<Rightarrow> bool" where
  "invh Leaf = True"
| "invh (Node l c a r) = (bheight l = bheight r \<and> invh l \<and> invh r)"

definition rb_tree :: "rbt \<Rightarrow> bool" where
  "rb_tree t \<longleftrightarrow> invc t \<and> invh t \<and> color_of t = Black"

text \<open>A context that makes a red-black tree of every good tree of this black height and root colour.\<close>

fun ctx_ok :: "nat \<Rightarrow> color \<Rightarrow> frame list \<Rightarrow> bool" where
  "ctx_ok n c [] \<longleftrightarrow> c = Black"
| "ctx_ok n c (f # fs) \<longleftrightarrow>
     invc (frame_sub f) \<and> invh (frame_sub f) \<and> bheight (frame_sub f) = n \<and>
     (frame_color f = Red \<longrightarrow> c = Black \<and> color_of (frame_sub f) = Black) \<and>
     ctx_ok (if frame_color f = Black then Suc n else n) (frame_color f) fs"

lemma color_neq [simp]: "c \<noteq> Black \<longleftrightarrow> c = Red" "c \<noteq> Red \<longleftrightarrow> c = Black"
  by (cases c; simp)+

lemma rb_tree_fill: "rb_tree (fill t fs) \<longleftrightarrow> invc t \<and> invh t \<and> ctx_ok (bheight t) (color_of t) fs"
proof (induction fs arbitrary: t)
  case Nil
  then show ?case by (simp add: rb_tree_def)
next
  case (Cons f fs)
  show ?case
    by (cases f) (auto simp: Cons)
qed

lemma ctx_ok_Black: "ctx_ok n c fs \<Longrightarrow> ctx_ok n Black fs"
  by (cases fs) auto

lemma color_of_paint: "color_of (paint c t) = (if t = Leaf then Black else c)"
  by (cases t) simp_all

lemma invh_paint [simp]: "invh (paint c t) = invh t"
  by (cases t) simp_all

section \<open>Search trees\<close>

definition key_sorted :: "(node_ptr \<Rightarrow> 'k :: linorder) \<Rightarrow> node_ptr list \<Rightarrow> bool" where
  "key_sorted key xs \<longleftrightarrow> sorted_wrt (\<lambda>a b. key a < key b) xs"

lemma key_sorted_simps [simp]:
  "key_sorted key []" "key_sorted key (a # xs) \<longleftrightarrow> (\<forall>b\<in>set xs. key a < key b) \<and> key_sorted key xs"
  "key_sorted key (xs @ ys) \<longleftrightarrow>
     key_sorted key xs \<and> key_sorted key ys \<and> (\<forall>a\<in>set xs. \<forall>b\<in>set ys. key a < key b)"
  by (auto simp: key_sorted_def sorted_wrt_append)

lemma key_sorted_distinct: "key_sorted key xs \<Longrightarrow> distinct xs"
  by (induction xs) auto

text \<open>
  A store holds the tree: the links from the root form it, it is a red-black tree, and its keys ascend.
\<close>

definition holds_tree :: "('k :: linorder, 'v) rb_store \<Rightarrow> rbt \<Rightarrow> bool" where
  "holds_tree s t \<longleftrightarrow>
     root_cell s = root_of t \<and> tree_at s Null t \<and> rb_tree t \<and> key_sorted (rb_key s) (inorder t)"

text \<open>The map that a list of nodes stands for.\<close>

definition rb_map :: "('k, 'v) rb_store \<Rightarrow> node_ptr list \<Rightarrow> 'k \<rightharpoonup> 'v" where
  "rb_map s xs = map_of (map (\<lambda>a. (rb_key s a, rb_val s a)) xs)"

section \<open>Replacing the subtree in a context\<close>

fun top_of :: "rbref \<Rightarrow> frame list \<Rightarrow> rbref" where
  "top_of h [] = h"
| "top_of h (f # fs) = top_of (Valid (frame_node f)) fs"

lemma root_of_fill_top [simp]: "root_of (fill t fs) = top_of (root_of t) fs"
proof (induction fs arbitrary: t)
  case (Cons f fs)
  show ?case by (cases f) (simp_all add: Cons)
qed simp

lemma top_of_other: "fs \<noteq> [] \<Longrightarrow> top_of h fs = top_of h' fs"
  by (cases fs) simp_all

fun link_l :: "rbref \<Rightarrow> frame list \<Rightarrow> (node_ptr \<Rightarrow> rbref) \<Rightarrow> node_ptr \<Rightarrow> rbref" where
  "link_l v (LeftHole c a r # fs) ls = ls(a := v)"
| "link_l v fs ls = ls"

fun link_r :: "rbref \<Rightarrow> frame list \<Rightarrow> (node_ptr \<Rightarrow> rbref) \<Rightarrow> node_ptr \<Rightarrow> rbref" where
  "link_r v (RightHole l c a # fs) rs = rs(a := v)"
| "link_r v fs rs = rs"

lemma link_other [simp]:
  assumes "x \<notin> ctx_nodes fs"
  shows "link_l v fs ls x = ls x" and "link_r v fs rs x = rs x"
proof -
  show "link_l v fs ls x = ls x"
    using assms by (cases "(v, fs, ls)" rule: link_l.cases) auto
  show "link_r v fs rs x = rs x"
    using assms by (cases "(v, fs, rs)" rule: link_r.cases) auto
qed

lemma tree_in_link [simp]:
  assumes "set (inorder t) \<inter> ctx_nodes fs = {}"
  shows "tree_in (link_l v fs ls) rs pcs p t = tree_in ls rs pcs p t"
    and "tree_in ls (link_r v fs rs) pcs p t = tree_in ls rs pcs p t"
  using assms by (auto intro!: tree_in_cong link_other simp: disjoint_iff)

text \<open>A context apart from what its hole holds.\<close>

definition ctx_any ::
  "(node_ptr \<Rightarrow> rbref) \<Rightarrow> (node_ptr \<Rightarrow> rbref) \<Rightarrow> (node_ptr \<Rightarrow> usize) \<Rightarrow> frame list \<Rightarrow> bool" where
  "ctx_any ls rs pcs fs \<longleftrightarrow> (\<exists>h. ctx_in ls rs pcs h fs)"

lemma ctx_anyI: "ctx_in ls rs pcs h fs \<Longrightarrow> ctx_any ls rs pcs fs"
  by (auto simp: ctx_any_def)

lemma ctx_any_upd [simp]:
  assumes "a \<notin> ctx_nodes fs"
  shows "ctx_any (ls(a := x)) rs pcs fs = ctx_any ls rs pcs fs"
    and "ctx_any ls (rs(a := x)) pcs fs = ctx_any ls rs pcs fs"
    and "ctx_any ls rs (pcs(a := w)) fs = ctx_any ls rs pcs fs"
  using assms by (simp_all add: ctx_any_def)

lemma ctx_in_link [simp]:
  assumes "distinct (pre fs)" and "distinct (post fs)" and "set (pre fs) \<inter> set (post fs) = {}"
  shows "ctx_in (link_l v fs ls) (link_r v fs rs) pcs v fs = ctx_any ls rs pcs fs"
proof (cases fs)
  case Nil
  then show ?thesis by (simp add: ctx_any_def)
next
  case (Cons f fs')
  show ?thesis
  proof (cases f)
    case (LeftHole c a r)
    with assms Cons have "a \<notin> set (inorder r)" "a \<notin> ctx_nodes fs'" by (auto simp: ctx_nodes_def)
    with Cons LeftHole show ?thesis by (simp add: ctx_any_def)
  next
    case (RightHole l c a)
    with assms Cons have "a \<notin> set (inorder l)" "a \<notin> ctx_nodes fs'" by (auto simp: ctx_nodes_def)
    with Cons RightHole show ?thesis by (simp add: ctx_any_def)
  qed
qed

text \<open>Comparing keys finds the side of the hole.\<close>

definition link_ok :: "(node_ptr \<Rightarrow> 'k :: linorder) \<Rightarrow> node_ptr \<Rightarrow> frame list \<Rightarrow> bool" where
  "link_ok key x fs \<longleftrightarrow>
     (case fs of
        [] \<Rightarrow> True
      | LeftHole c a r # _ \<Rightarrow> key x < key a
      | RightHole l c a # _ \<Rightarrow> \<not> key x < key a)"

lemma link_okI: "key_sorted key (pre fs @ xs @ post fs) \<Longrightarrow> x \<in> set xs \<Longrightarrow> link_ok key x fs"
proof (cases fs)
  case (Cons f fs')
  then show "key_sorted key (pre fs @ xs @ post fs) \<Longrightarrow> x \<in> set xs \<Longrightarrow> ?thesis"
    by (cases f) (auto simp: link_ok_def dest: less_asym)
qed (simp add: link_ok_def)

lemma wp_set_parent_link [wp_rules]:
  assumes "link_ok (rb_key s) x fs"
  shows "wp (and_then (set_parent_link x (parent_of fs) v) g) Q s =
    wp (g ()) Q (s\<lparr>lefts := link_l v fs (lefts s), rights := link_r v fs (rights s)\<rparr>)"
proof (cases fs)
  case Nil
  then show ?thesis by (simp add: set_parent_link_def wp_rules)
next
  case (Cons f fs')
  with assms show ?thesis
    by (cases f) (simp_all add: set_parent_link_def link_ok_def set_link_def wp_rules)
qed

lemma parent_of_Null [simp]: "parent_of fs = Null \<longleftrightarrow> fs = []" "Null = parent_of fs \<longleftrightarrow> fs = []"
  by (cases fs; simp)+

end
