(* ===== verification/Rb_Insert.thy ===== *)
theory Rb_Insert
  imports Rb_Tree
begin

text \<open>Insertion into the red-black tree: the rotations, the loop along parent pointers, and the whole operation.\<close>

section \<open>Rotations\<close>

definition same_rest :: "('k, 'v) rb_store \<Rightarrow> ('k, 'v) rb_store \<Rightarrow> bool" where
  "same_rest s s' \<longleftrightarrow>
     root_cell s' = root_cell s \<and> rb_key s' = rb_key s \<and> rb_val s' = rb_val s \<and> privatized s' = privatized s"

text \<open>Flattening what is known of the nodes around a position.\<close>

lemmas local_simps = tree_in.simps ctx_in.simps root_of.simps inorder.simps plug.simps frame_node.simps
  set_append list.set distinct.simps distinct_append insert_disjoint disjoint_insert Int_Un_distrib
  Int_Un_distrib2 Un_empty insert_iff Un_iff de_Morgan_disj empty_iff append_Cons append_Nil append_assoc
  fill_simps

fun case4_tree :: "rbt \<Rightarrow> node_ptr \<Rightarrow> rbt \<Rightarrow> frame \<Rightarrow> frame \<Rightarrow> rbt" where
  "case4_tree L this R (LeftHole _ p S) (RightHole U _ g) =
     Node (Node U Red g (paint Black L)) Black this (Node (paint Black R) Red p S)"
| "case4_tree L this R (RightHole S _ p) (RightHole U _ g) =
     Node (Node U Red g S) Black p (Node (paint Black L) Red this (paint Black R))"
| "case4_tree L this R (LeftHole _ p S) (LeftHole _ g U) =
     Node (Node (paint Black L) Red this (paint Black R)) Black p (Node S Red g U)"
| "case4_tree L this R (RightHole S _ p) (LeftHole _ g U) =
     Node (Node S Red p (paint Black L)) Black this (Node (paint Black R) Red g U)"

fun root_after :: "repair_result \<Rightarrow> rbref \<Rightarrow> rbref" where
  "root_after (NewRoot r) r0 = Valid r"
| "root_after (PublishRoot r) r0 = Valid r"
| "root_after RootUnchanged r0 = r0"

lemma root_after_simps [simp]:
  "root_after (repair_of (if fs = [] then Some x else None)) (top_of h fs) = top_of (Valid x) fs"
  "fs \<noteq> [] \<Longrightarrow> top_of h fs = top_of h' fs \<longleftrightarrow> True"
  by (cases fs; simp add: repair_of_def)+

fun is_right_hole :: "frame \<Rightarrow> bool" where
  "is_right_hole (LeftHole c a r) = False"
| "is_right_hole (RightHole l c a) = True"

lemmas case4_defs = insert_case4_def partial_rotate_right_red_helper_def partial_rotate_left_red_helper_def
  rotate_left_red_helper_def rotate_right_red_helper_def set_parent_color_if_def

lemma insert_case4_wp:
  assumes t: "tree_at s (parent_of fs) (plug (plug (Node L Black this R) f1) f2)"
    and c: "ctx_any (lefts s) (rights s) (parent_colors s) fs"
    and col: "frame_color f1 = Red" "frame_color f2 = Black" "color_of (frame_sub f1) = Black"
    and kids: "root_of L = Valid left" "root_of R = Valid right"
    and d: "distinct (inorder (plug (plug (Node L Black this R) f1) f2))"
    and dc: "set (inorder (plug (plug (Node L Black this R) f1) f2)) \<inter> ctx_nodes fs = {}"
    and df: "distinct (pre fs)" "distinct (post fs)" "set (pre fs) \<inter> set (post fs) = {}"
    and k: "link_ok (rb_key s) (frame_node f2) fs"
  shows "wp (insert_case4 this (frame_node f1) (frame_node f2) (is_right_hole f2) left right)
     (\<lambda>res s'. tree_at s' (parent_of fs) (case4_tree L this R f1 f2) \<and>
        ctx_at s' (root_of (case4_tree L this R f1 f2)) fs \<and> same_rest s s' \<and>
        root_after (repair_of res) (top_of (Valid (frame_node f2)) fs) =
          top_of (root_of (case4_tree L this R f1 f2)) fs) s"
proof -
  obtain Ll cl Lr Rl cr Rr where LR: "L = Node Ll cl left Lr" "R = Node Rl cr right Rr"
    using kids by (cases L; cases R) auto
  show ?thesis
  proof (cases f1)
    case f1: (LeftHole c1 parent S)
    show ?thesis
    proof (cases f2)
      case f2: (LeftHole c2 gp U)
      show ?thesis
      proof (cases S)
        case Leaf
        show ?thesis
          using t c d dc df k col unfolding LR f1 f2 Leaf local_simps
          by (elim conjE) (simp add: case4_defs wp_rules same_rest_def)
      next
        case (Node Sl cs x Sr)
        show ?thesis
          using t c d dc df k col unfolding LR f1 f2 Node local_simps
          by (elim conjE) (simp add: case4_defs wp_rules same_rest_def)
      qed
    next
      case f2: (RightHole U c2 gp)
      show ?thesis
        using t c d dc df k col unfolding LR f1 f2 local_simps
        by (elim conjE) (simp add: case4_defs wp_rules same_rest_def)
    qed
  next
    case f1: (RightHole S c1 parent)
    show ?thesis
    proof (cases f2)
      case f2: (LeftHole c2 gp U)
      show ?thesis
        using t c d dc df k col unfolding LR f1 f2 local_simps
        by (elim conjE) (simp add: case4_defs wp_rules same_rest_def)
    next
      case f2: (RightHole U c2 gp)
      show ?thesis
      proof (cases S)
        case Leaf
        show ?thesis
          using t c d dc df k col unfolding LR f1 f2 Leaf local_simps
          by (elim conjE) (simp add: case4_defs wp_rules same_rest_def)
      next
        case (Node Sl cs x Sr)
        show ?thesis
          using t c d dc df k col unfolding LR f1 f2 Node local_simps
          by (elim conjE) (simp add: case4_defs wp_rules same_rest_def)
      qed
    qed
  qed
qed

lemma insert_case4_mut_wp:
  assumes t: "tree_at s (parent_of fs) (plug (plug Leaf f1) f2)"
    and c: "ctx_any (lefts s) (rights s) (parent_colors s) fs"
    and col: "frame_color f1 = Red" "frame_color f2 = Black" "color_of (frame_sub f1) = Black"
    and n: "lefts s n = Null" "rights s n = Null" "parent_colors s n = pack Null Black"
    and d: "distinct (n # inorder (plug (plug Leaf f1) f2))"
    and dc: "set (n # inorder (plug (plug Leaf f1) f2)) \<inter> ctx_nodes fs = {}"
    and df: "distinct (pre fs)" "distinct (post fs)" "set (pre fs) \<inter> set (post fs) = {}"
    and k: "link_ok (rb_key s) (frame_node f2) fs"
  shows "wp (insert_case4_mut n (frame_node f1) (frame_node f2) (is_right_hole f2) (\<not> is_right_hole f1))
     (\<lambda>res s'. tree_at s' (parent_of fs) (case4_tree Leaf n Leaf f1 f2) \<and>
        ctx_at s' (root_of (case4_tree Leaf n Leaf f1 f2)) fs \<and> same_rest s s' \<and>
        root_after res (top_of (Valid (frame_node f2)) fs) = top_of (root_of (case4_tree Leaf n Leaf f1 f2)) fs) s"
proof -
  show ?thesis
  proof (cases f1)
    case f1: (LeftHole c1 parent S)
    show ?thesis
    proof (cases f2)
      case f2: (LeftHole c2 gp U)
      show ?thesis
      proof (cases S)
        case Leaf
        show ?thesis
          using t c d dc df k col n unfolding f1 f2 Leaf local_simps
          by (elim conjE) (simp add: insert_case4_mut_def case4_defs wp_rules same_rest_def)
      next
        case (Node Sl cs x Sr)
        show ?thesis
          using t c d dc df k col n unfolding f1 f2 Node local_simps
          by (elim conjE) (simp add: insert_case4_mut_def case4_defs wp_rules same_rest_def)
      qed
    next
      case f2: (RightHole U c2 gp)
      show ?thesis
      proof (cases "parent_of fs")
        case (Valid p)
        then have ne: "fs \<noteq> []" by auto
        note link = wp_set_parent_link [where fs = fs, unfolded Valid]
        show ?thesis
          using t c d dc df k col n ne unfolding f1 f2 Valid local_simps
          by (elim conjE) (simp add: insert_case4_mut_def wp_rules link same_rest_def Valid)
      next
        case Null
        then have "fs = []" by simp
        then show ?thesis
          using t c d dc df k col n unfolding f1 f2 local_simps
          by (elim conjE) (simp add: insert_case4_mut_def wp_rules same_rest_def)
      qed
    qed
  next
    case f1: (RightHole S c1 parent)
    show ?thesis
    proof (cases f2)
      case f2: (LeftHole c2 gp U)
      show ?thesis
      proof (cases "parent_of fs")
        case (Valid p)
        then have ne: "fs \<noteq> []" by auto
        note link = wp_set_parent_link [where fs = fs, unfolded Valid]
        show ?thesis
          using t c d dc df k col n ne unfolding f1 f2 Valid local_simps
          by (elim conjE) (simp add: insert_case4_mut_def wp_rules link same_rest_def Valid)
      next
        case Null
        then have "fs = []" by simp
        then show ?thesis
          using t c d dc df k col n unfolding f1 f2 local_simps
          by (elim conjE) (simp add: insert_case4_mut_def wp_rules same_rest_def)
      qed
    next
      case f2: (RightHole U c2 gp)
      show ?thesis
      proof (cases S)
        case Leaf
        show ?thesis
          using t c d dc df k col n unfolding f1 f2 Leaf local_simps
          by (elim conjE) (simp add: insert_case4_mut_def case4_defs wp_rules same_rest_def)
      next
        case (Node Sl cs x Sr)
        show ?thesis
          using t c d dc df k col n unfolding f1 f2 Node local_simps
          by (elim conjE) (simp add: insert_case4_mut_def case4_defs wp_rules same_rest_def)
      qed
    qed
  qed
qed

section \<open>The loop\<close>

lemma color_of_paint_Black [simp]: "color_of (paint Black t) = Black"
  by (cases t) simp_all

lemma wp_ok_fun: "wp (ok x) Q = Q x"
  by (simp add: fun_eq_iff wp_ok)

lemma bheight_paint_Black: "color_of t = Red \<Longrightarrow> bheight (paint Black t) = Suc (bheight t)"
  by (cases t) simp_all

lemma inorder_case4: "inorder (case4_tree L this R f1 f2) = inorder (plug (plug (Node L Black this R) f1) f2)"
  by (cases "(L, this, R, f1, f2)" rule: case4_tree.cases) simp_all

lemma case4_tree_ok:
  assumes "invc (paint Black L)" "invc (paint Black R)" "invh L" "invh R"
    and "bheight (paint Black L) = n" "bheight (paint Black R) = n"
    and "ctx_ok n Black (f1 # f2 # fs)" "frame_color f1 = Red" "color_of (frame_sub f1) = Black"
    and "color_of (frame_sub f2) = Black"
  shows "rb_tree (fill (case4_tree L this R f1 f2) fs)"
  using assms by (cases "(L, this, R, f1, f2)" rule: case4_tree.cases) (simp_all add: rb_tree_fill)

text \<open>What the loop is given: a position whose node is still black over children that are still red.\<close>

definition red_due :: "(node_ptr \<Rightarrow> 'k :: linorder) \<Rightarrow> rbt \<Rightarrow> node_ptr \<Rightarrow> rbt \<Rightarrow> frame list \<Rightarrow> bool" where
  "red_due key L this R fs \<longleftrightarrow>
     color_of L = Red \<and> color_of R = Red \<and> invc (paint Black L) \<and> invc (paint Black R) \<and> invh L \<and> invh R \<and>
     bheight L = bheight R \<and> ctx_ok (Suc (bheight L)) Black fs \<and>
     key_sorted key (pre fs @ inorder (Node L Black this R) @ post fs)"

lemma red_due_parent:
  assumes r: "red_due key L this R (f1 # fs)" and c: "frame_color f1 = Red"
  obtains f2 fs' where "fs = f2 # fs'" "frame_color f2 = Black" "color_of (frame_sub f1) = Black"
proof (cases fs)
  case Nil
  with r c show ?thesis by (simp add: red_due_def)
next
  case (Cons f2 fs')
  with r c that show ?thesis by (simp add: red_due_def)
qed

lemma red_due_uncle:
  assumes r: "red_due key L this R (f1 # f2 # fs)" and c: "frame_color f1 = Red" and u: "color_of (frame_sub f2) = Red"
  defines "T \<equiv> plug (Node (paint Black L) Red this (paint Black R)) f1"
  shows "case f2 of LeftHole _ g U \<Rightarrow> red_due key T g U fs | RightHole U _ g \<Rightarrow> red_due key U g T fs"
proof -
  have b: "bheight (paint Black L) = Suc (bheight L)" "bheight (paint Black R) = Suc (bheight R)"
    using r by (simp_all add: red_due_def bheight_paint_Black)
  have U: "invc (paint Black (frame_sub f2)) \<longleftrightarrow> invc (frame_sub f2)" if "invc (frame_sub f2)"
    using that by (cases "frame_sub f2") simp_all
  show ?thesis
    using r c u b U unfolding T_def
    by (cases f1; cases f2) (simp_all add: red_due_def)
qed





lemma paint_step:
  assumes t: "tree_at s Null (fill (Node L Black this R) (f # fs))"
    and kids: "root_of L = Valid left" "root_of R = Valid right"
    and d: "distinct (inorder (fill (Node L Black this R) (f # fs)))"
    and s': "s' = s\<lparr>parent_colors := (parent_colors s)(left := pack (Valid this) Black,
      right := pack (Valid this) Black, this := pack (Valid (frame_node f)) Red)\<rparr>"
  shows "tree_at s' Null (fill (Node (paint Black L) Red this (paint Black R)) (f # fs))"
proof -
  obtain Ll cl Lr Rl cr Rr where LR: "L = Node Ll cl left Lr" "R = Node Rl cr right Rr"
    using kids by (cases L; cases R) auto
  have c: "{left, right, this} \<inter> ctx_nodes fs = {}"
    using d unfolding LR by (cases f) (auto simp: inorder_fill ctx_nodes_def)
  have d': "distinct (inorder (plug (Node L Black this R) f))"
    using d by (simp add: inorder_fill)
  show ?thesis
  proof (cases f)
    case (LeftHole cf p S)
    show ?thesis
      using t d' c unfolding LR s' LeftHole fill_simps tree_in_fill local_simps by (elim conjE) simp
  next
    case (RightHole S cf p)
    show ?thesis
      using t d' c unfolding LR s' RightHole fill_simps tree_in_fill local_simps by (elim conjE) simp
  qed
qed

lemma paint_root:
  assumes t: "tree_at s Null (Node L Black this R)"
    and kids: "root_of L = Valid left" "root_of R = Valid right"
    and d: "distinct (inorder (Node L Black this R))"
    and s': "s' = s\<lparr>parent_colors := (parent_colors s)(left := pack (Valid this) Black,
      right := pack (Valid this) Black)\<rparr>"
  shows "tree_at s' Null (Node (paint Black L) Black this (paint Black R))"
proof -
  obtain Ll cl Lr Rl cr Rr where LR: "L = Node Ll cl left Lr" "R = Node Rl cr right Rr"
    using kids by (cases L; cases R) auto
  show ?thesis
    using t d unfolding LR s' local_simps by (elim conjE) simp
qed


text \<open>What every repair ends with: a red-black tree of the same nodes, and its root.\<close>

definition repaired ::
  "('k, 'v) rb_store \<Rightarrow> node_ptr list \<Rightarrow> rbref \<Rightarrow> repair_result \<Rightarrow> ('k, 'v) rb_store \<Rightarrow> bool" where
  "repaired s xs r0 res s' \<longleftrightarrow>
     (\<exists>t. tree_at s' Null t \<and> inorder t = xs \<and> rb_tree t \<and> root_after res r0 = root_of t \<and> same_rest s s')"

lemma rb_tree_painted:
  assumes "red_due key L this R fs" and "fs = [] \<and> c = Black \<or> (\<exists>f fs'. fs = f # fs' \<and> frame_color f = Black \<and> c = Red)"
  shows "rb_tree (fill (Node (paint Black L) c this (paint Black R)) fs)"
proof -
  have b: "bheight (paint Black L) = Suc (bheight L)" "bheight (paint Black R) = Suc (bheight R)"
    using assms(1) by (simp_all add: red_due_def bheight_paint_Black)
  with assms show ?thesis by (auto simp: rb_tree_fill red_due_def)
qed

lemma root_of_plug [simp]: "root_of (plug t f) = Valid (frame_node f)"
  by (cases f) simp_all

lemma frame_node_in [simp]: "frame_node f \<in> set (inorder (plug t f))"
  by (cases f) simp_all

lemma wp_red_uncle [wp_rules]:
  "wp (and_then (red_uncle r) g) Q s =
     wp (g (case r of Valid u \<Rightarrow> if ptr_color (parent_colors s u) = Red then Some u else None | Null \<Rightarrow> None)) Q s"
  by (cases r) (simp_all add: red_uncle_def wp_rules)

lemma repaired_trans:
  "same_rest s s1 \<Longrightarrow> repaired s1 xs r0 res s' \<Longrightarrow> repaired s xs r0 res s'"
  by (auto simp: repaired_def same_rest_def)

lemma uncle_side:
  assumes "key_sorted key (pre (f1 # f2 # fs) @ xs @ post (f1 # f2 # fs))"
  shows "(key (frame_node f2) < key (frame_node f1)) = is_right_hole f2"
  using assms by (cases f1; cases f2) (auto dest: less_asym)

lemma sorted_context:
  assumes "key_sorted key (pre fs @ xs @ post fs)"
  shows "distinct xs" "set xs \<inter> ctx_nodes fs = {}"
    "distinct (pre fs)" "distinct (post fs)" "set (pre fs) \<inter> set (post fs) = {}"
    "x \<in> set xs \<Longrightarrow> link_ok key x fs"
  using key_sorted_distinct [OF assms] link_okI [OF assms] by (auto simp: ctx_nodes_def)

lemma red_due_case4:
  assumes "red_due key L this R (f1 # f2 # fs)" "frame_color f1 = Red" "color_of (frame_sub f2) = Black"
  shows "rb_tree (fill (case4_tree L this R f1 f2) fs)"
proof -
  have "bheight (paint Black L) = Suc (bheight L)" "bheight (paint Black R) = Suc (bheight R)"
    using assms(1) by (simp_all add: red_due_def bheight_paint_Black)
  moreover have "invc (paint Black L)" "invc (paint Black R)" "invh L" "invh R" "bheight R = bheight L"
    and c: "ctx_ok (Suc (bheight L)) Black (f1 # f2 # fs)"
    using assms(1) unfolding red_due_def by (blast | metis)+
  moreover have "color_of (frame_sub f1) = Black"
    using c assms(2) by simp
  ultimately show ?thesis
    using assms(2,3) by (intro case4_tree_ok [where n = "Suc (bheight L)"]) (simp_all del: ctx_ok.simps)
qed

lemma insert_loop_wp:
  fixes s :: "('k :: linorder, 'v) rb_store"
  assumes "red_due (rb_key s) L self R fs" and "tree_at s Null (fill (Node L Black self R) fs)"
    and "root_of L = Valid left" and "root_of R = Valid right" and "length fs < fuel"
  shows "wp (insert_loop fuel self left right)
    (repaired s (inorder (fill (Node L Black self R) fs)) (top_of (Valid self) fs)) s"
  using assms
proof (induction fuel arbitrary: s self L R fs left right)
  case 0
  then show ?case by simp
next
  case (Suc fuel)
  note red = Suc.prems(1) and tree = Suc.prems(2) and kids = Suc.prems(3,4)
  have sorted: "key_sorted (rb_key s) (pre fs @ inorder (Node L Black self R) @ post fs)"
    using red by (simp add: red_due_def)
  have dist: "distinct (inorder (fill (Node L Black self R) fs))"
    using key_sorted_distinct [OF sorted] by (simp add: inorder_fill)
  have own: "parent_colors s self = pack (parent_of fs) Black"
    using tree by (simp add: tree_in_fill)
  show ?case
  proof (cases fs)
    case Nil
    have "repaired s (inorder (Node L Black self R)) (Valid self) RootUnchanged
       (s\<lparr>parent_colors := (parent_colors s)(left := pack (Valid self) Black, right := pack (Valid self) Black)\<rparr>)"
      unfolding repaired_def
      using paint_root [OF tree [unfolded Nil fill_simps] kids dist [unfolded Nil fill_simps] refl]
        rb_tree_painted [OF red, of Black] Nil
      by (intro exI [of _ "Node (paint Black L) Black self (paint Black R)"]) (simp add: same_rest_def)
    with own Nil show ?thesis by (simp add: wp_rules)
  next
    case (Cons f1 fs1)
    have p: "parent_colors s (frame_node f1) = pack (parent_of fs1) (frame_color f1)"
      using tree Cons by (cases f1) (simp_all add: tree_in_fill)
    define s1 where "s1 = s\<lparr>parent_colors := (parent_colors s)(left := pack (Valid self) Black,
      right := pack (Valid self) Black, self := pack (Valid (frame_node f1)) Red)\<rparr>"
    have painted: "tree_at s1 Null (fill (Node (paint Black L) Red self (paint Black R)) fs)"
      unfolding Cons by (rule paint_step [OF tree [unfolded Cons] kids dist [unfolded Cons] s1_def])
    show ?thesis
    proof (cases "frame_color f1")
      case Black
      have "repaired s (inorder (fill (Node L Black self R) fs)) (top_of (Valid self) fs) RootUnchanged s1"
        unfolding repaired_def
        using painted rb_tree_painted [OF red, of Red] Cons Black
        by (intro exI [of _ "fill (Node (paint Black L) Red self (paint Black R)) fs"])
          (simp add: same_rest_def s1_def inorder_fill inorder_plug)
      with own p Cons Black show ?thesis by (simp add: wp_rules s1_def)
    next
      case Red
      from red_due_parent [OF red [unfolded Cons] Red] obtain f2 fs2
        where fs1: "fs1 = f2 # fs2" and f2: "frame_color f2 = Black" and sib: "color_of (frame_sub f1) = Black" .
      have side: "(rb_key s (frame_node f2) < rb_key s (frame_node f1)) = is_right_hole f2"
        using sorted unfolding Cons fs1 by (rule uncle_side)
      have uncle: "(if is_right_hole f2 then lefts s (frame_node f2) else rights s (frame_node f2)) = root_of (frame_sub f2)"
        using tree unfolding Cons fs1 by (cases f1; cases f2) (simp_all add: tree_in_fill)
      show ?thesis
      proof (cases "color_of (frame_sub f2)")
        case Red2: Red
        obtain Ul uc u Ur where U: "frame_sub f2 = Node Ul uc u Ur"
          using Red2 by (cases "frame_sub f2") auto
        have uc: "ptr_color (parent_colors s u) = Red"
          using tree Red2 U unfolding Cons fs1 by (cases f1; cases f2) (simp_all add: tree_in_fill)
        note next_due = red_due_uncle [OF red [unfolded Cons fs1] Red Red2]
        have len: "length fs2 < fuel" using Suc.prems(5) Cons fs1 by simp
        have same: "same_rest s s1" and k1: "rb_key s1 = rb_key s" by (simp_all add: same_rest_def s1_def)
        show ?thesis
        proof (cases f2)
          case (LeftHole c2 g Uf)
          have "wp (insert_loop fuel g (frame_node f1) u)
            (repaired s1 (inorder (fill (Node L Black self R) fs)) (top_of (Valid self) fs)) s1"
            using Suc.IH [of s1 "plug (Node (paint Black L) Red self (paint Black R)) f1" g Uf fs2 "frame_node f1" u]
              next_due painted len f2 U LeftHole
            unfolding Cons fs1 by (simp add: k1 inorder_fill inorder_plug)
          from wp_conseq [OF this repaired_trans [OF same]] have
            "wp (insert_loop fuel g (frame_node f1) u)
              (repaired s (inorder (fill (Node L Black self R) fs)) (top_of (Valid self) fs)) s1" .
          with own p side uncle uc U Cons fs1 Red f2 LeftHole show ?thesis
            by (simp add: wp_rules s1_def)
        next
          case (RightHole Uf c2 g)
          have "wp (insert_loop fuel g u (frame_node f1))
            (repaired s1 (inorder (fill (Node L Black self R) fs)) (top_of (Valid self) fs)) s1"
            using Suc.IH [of s1 Uf g "plug (Node (paint Black L) Red self (paint Black R)) f1" fs2 u "frame_node f1"]
              next_due painted len f2 U RightHole
            unfolding Cons fs1 by (simp add: k1 inorder_fill inorder_plug)
          from wp_conseq [OF this repaired_trans [OF same]] have
            "wp (insert_loop fuel g u (frame_node f1))
              (repaired s (inorder (fill (Node L Black self R) fs)) (top_of (Valid self) fs)) s1" .
          with own p side uncle uc U Cons fs1 Red f2 RightHole show ?thesis
            by (simp add: wp_rules s1_def)
        qed
      next
        case Black
        have nored: "(case root_of (frame_sub f2) of
            Valid u \<Rightarrow> if ptr_color (parent_colors s u) = Red then Some u else None | Null \<Rightarrow> None) = None"
          using tree Black unfolding Cons fs1
          by (cases f2; cases "frame_sub f2") (auto simp: tree_in_fill)
        have rb: "rb_tree (fill (case4_tree L self R f1 f2) fs2)"
          using red Red Black unfolding Cons fs1 by (rule red_due_case4)
        have whole: "pre fs @ inorder (Node L Black self R) @ post fs =
            pre fs2 @ inorder (plug (plug (Node L Black self R) f1) f2) @ post fs2"
          by (simp add: Cons fs1 inorder_plug)
        have "wp (insert_case4 self (frame_node f1) (frame_node f2) (is_right_hole f2) left right)
          (\<lambda>res s'. tree_at s' (parent_of fs2) (case4_tree L self R f1 f2) \<and>
            ctx_at s' (root_of (case4_tree L self R f1 f2)) fs2 \<and> same_rest s s' \<and>
            root_after (repair_of res) (top_of (Valid (frame_node f2)) fs2) =
              top_of (root_of (case4_tree L self R f1 f2)) fs2) s"
          using sorted_context [OF sorted [unfolded whole]] tree Red f2 sib kids
          by (intro insert_case4_wp) (auto simp: Cons fs1 tree_in_fill intro: ctx_anyI)
        then have "wp (insert_case4 self (frame_node f1) (frame_node f2) (is_right_hole f2) left right)
          (\<lambda>root. repaired s (inorder (fill (Node L Black self R) fs)) (top_of (Valid self) fs) (repair_of root)) s"
        proof (rule wp_conseq)
          fix res s'
          let ?t = "fill (case4_tree L self R f1 f2) fs2"
          assume "tree_at s' (parent_of fs2) (case4_tree L self R f1 f2) \<and>
            ctx_at s' (root_of (case4_tree L self R f1 f2)) fs2 \<and> same_rest s s' \<and>
            root_after (repair_of res) (top_of (Valid (frame_node f2)) fs2) =
              top_of (root_of (case4_tree L self R f1 f2)) fs2"
          with rb show "repaired s (inorder (fill (Node L Black self R) fs)) (top_of (Valid self) fs) (repair_of res) s'"
            unfolding repaired_def Cons fs1
            by (intro exI [of _ ?t]) (simp add: tree_in_fill inorder_fill inorder_case4 inorder_plug)
        qed
        then have "wp (and_then (insert_case4 self (frame_node f1) (frame_node f2) (is_right_hole f2) left right)
            (\<lambda>root. ok (repair_of root))) (repaired s (inorder (fill (Node L Black self R) fs)) (top_of (Valid self) fs)) s"
          by (intro wp_and_then) (simp add: wp_ok_fun)
        with own p side uncle nored Cons fs1 Red f2 show ?thesis
          by (cases "is_right_hole f2") (simp_all add: wp_rules)
      qed
    qed
  qed
qed

section \<open>A new node below a leaf\<close>

lemma red_due_new:
  assumes rb: "rb_tree (fill Leaf (f1 # f2 # fs))" and c: "frame_color f1 = Red" and u: "color_of (frame_sub f2) = Red"
    and so: "key_sorted key (pre (f1 # f2 # fs) @ [n] @ post (f1 # f2 # fs))"
  defines "T \<equiv> plug (Node Leaf Red n Leaf) f1"
  shows "case f2 of LeftHole _ g U \<Rightarrow> red_due key T g U fs | RightHole U _ g \<Rightarrow> red_due key U g T fs"
proof -
  have U: "invc (paint Black (frame_sub f2))" if "invc (frame_sub f2)"
    using that by (cases "frame_sub f2") simp_all
  show ?thesis
    using rb [unfolded rb_tree_fill] c u so U unfolding T_def
    by (cases f1; cases f2) (simp_all add: red_due_def)
qed

text \<open>The store after the new node is linked below its parent.\<close>

definition published :: "('k, 'v) rb_store \<Rightarrow> frame \<Rightarrow> node_ptr \<Rightarrow> ('k, 'v) rb_store" where
  "published s f n =
     s\<lparr>parent_colors := (parent_colors s)(n := pack (Valid (frame_node f)) Red),
       lefts := (if is_right_hole f then lefts s else (lefts s)(frame_node f := Valid n)),
       rights := (if is_right_hole f then (rights s)(frame_node f := Valid n) else rights s)\<rparr>"

lemma same_rest_published: "same_rest s (published s f n)"
  by (simp add: same_rest_def published_def)

lemma tree_published:
  assumes t: "tree_at s Null (fill Leaf (f # fs))" and n: "lefts s n = Null" "rights s n = Null"
    and d: "distinct (pre (f # fs) @ [n] @ post (f # fs))"
  shows "tree_at (published s f n) Null (fill (Node Leaf Red n Leaf) (f # fs))"
proof (cases f)
  case (LeftHole c p S)
  have x: "n \<notin> ctx_nodes fs" "p \<notin> ctx_nodes fs" "n \<noteq> p" "n \<notin> set (inorder S)" "p \<notin> set (inorder S)"
    using d LeftHole by (auto simp: ctx_nodes_def)
  show ?thesis
    using t n x unfolding LeftHole fill_simps tree_in_fill local_simps by (simp add: published_def)
next
  case (RightHole S c p)
  have x: "n \<notin> ctx_nodes fs" "p \<notin> ctx_nodes fs" "n \<noteq> p" "n \<notin> set (inorder S)" "p \<notin> set (inorder S)"
    using d RightHole by (auto simp: ctx_nodes_def)
  show ?thesis
    using t n x unfolding RightHole fill_simps tree_in_fill local_simps by (simp add: published_def)
qed

lemma insert_fixup_wp:
  fixes s :: "('k :: linorder, 'v) rb_store"
  assumes tree: "tree_at s Null (fill Leaf fs)" and fs: "fs = f1 # fs1" and rb: "rb_tree (fill Leaf fs)"
    and n: "lefts s n = Null" "rights s n = Null" "parent_colors s n = pack Null Black"
    and sorted: "key_sorted (rb_key s) (pre fs @ [n] @ post fs)" and fuel: "length fs \<le> fuel"
  shows "wp (insert_fixup fuel n (frame_node f1) (\<not> is_right_hole f1))
    (repaired s (pre fs @ [n] @ post fs) (top_of Null fs)) s"
proof -
  have p: "parent_colors s (frame_node f1) = pack (parent_of fs1) (frame_color f1)"
    using tree fs by (cases f1) (simp_all add: tree_in_fill)
  define s1 where "s1 = published s f1 n"
  have t1: "tree_at s1 Null (fill (Node Leaf Red n Leaf) fs)"
    using tree_published [OF tree [unfolded fs] n(1,2) key_sorted_distinct [OF sorted [unfolded fs]]] by (simp add: s1_def fs)
  have same: "same_rest s s1" and k1: "rb_key s1 = rb_key s"
    using same_rest_published [of s f1 n] by (simp_all add: s1_def same_rest_def)
  have inner: "lefts s (frame_node f1) = Null \<or> rights s (frame_node f1) = Null"
    using tree fs by (cases f1) (simp_all add: tree_in_fill)
  show ?thesis
  proof (cases "frame_color f1")
    case Black
    have "rb_tree (fill (Node Leaf Red n Leaf) fs)"
      using rb Black unfolding fs rb_tree_fill by (cases f1) simp_all
    then have "repaired s (pre fs @ [n] @ post fs) (top_of Null fs) RootUnchanged s1"
      unfolding repaired_def using t1 same fs
      by (intro exI [of _ "fill (Node Leaf Red n Leaf) fs"]) (simp add: inorder_fill inorder_plug)
    with p Black show ?thesis by (cases f1) (simp_all add: insert_fixup_def wp_rules s1_def published_def)
  next
    case Red
    obtain f2 fs2 where fs1: "fs1 = f2 # fs2"
      using rb Red unfolding fs rb_tree_fill by (cases fs1) auto
    have f2: "frame_color f2 = Black" and sib: "color_of (frame_sub f1) = Black"
      using rb Red unfolding fs fs1 rb_tree_fill by simp_all
    have side: "(rb_key s (frame_node f2) < rb_key s (frame_node f1)) = is_right_hole f2"
      using sorted unfolding fs fs1 by (rule uncle_side)
    have uncle: "(if is_right_hole f2 then lefts s (frame_node f2) else rights s (frame_node f2)) = root_of (frame_sub f2)"
      using tree unfolding fs fs1 by (cases f1; cases f2) (simp_all add: tree_in_fill)
    show ?thesis
    proof (cases "color_of (frame_sub f2)")
      case Red2: Red
      obtain Ul uc u Ur where U: "frame_sub f2 = Node Ul uc u Ur"
        using Red2 by (cases "frame_sub f2") auto
      have uc: "ptr_color (parent_colors s u) = Red"
        using tree Red2 U unfolding fs fs1 by (cases f1; cases f2) (simp_all add: tree_in_fill)
      note due = red_due_new [OF rb [unfolded fs fs1] Red Red2 sorted [unfolded fs fs1]]
      have len: "length fs2 < fuel" using fuel fs fs1 by simp
      show ?thesis
      proof (cases f2)
        case (LeftHole c2 g Uf)
        have "wp (insert_loop fuel g (frame_node f1) u) (repaired s1 (pre fs @ [n] @ post fs) (top_of Null fs)) s1"
          using insert_loop_wp [of s1 "plug (Node Leaf Red n Leaf) f1" g Uf fs2 "frame_node f1" u fuel]
            due t1 len f2 U LeftHole
          unfolding fs fs1 by (simp add: k1 inorder_fill inorder_plug)
        from wp_conseq [OF this repaired_trans [OF same]] have
          "wp (insert_loop fuel g (frame_node f1) u) (repaired s (pre fs @ [n] @ post fs) (top_of Null fs)) s1" .
        with p side uncle uc U fs fs1 Red f2 LeftHole show ?thesis
          by (cases f1) (simp_all add: insert_fixup_def wp_rules s1_def published_def)
      next
        case (RightHole Uf c2 g)
        have "wp (insert_loop fuel g u (frame_node f1)) (repaired s1 (pre fs @ [n] @ post fs) (top_of Null fs)) s1"
          using insert_loop_wp [of s1 Uf g "plug (Node Leaf Red n Leaf) f1" fs2 u "frame_node f1" fuel]
            due t1 len f2 U RightHole
          unfolding fs fs1 by (simp add: k1 inorder_fill inorder_plug)
        from wp_conseq [OF this repaired_trans [OF same]] have
          "wp (insert_loop fuel g u (frame_node f1)) (repaired s (pre fs @ [n] @ post fs) (top_of Null fs)) s1" .
        with p side uncle uc U fs fs1 Red f2 RightHole show ?thesis
          by (cases f1) (simp_all add: insert_fixup_def wp_rules s1_def published_def)
      qed
    next
      case Black
      have nored: "(case root_of (frame_sub f2) of
          Valid u \<Rightarrow> if ptr_color (parent_colors s u) = Red then Some u else None | Null \<Rightarrow> None) = None"
        using tree Black unfolding fs fs1
        by (cases f2; cases "frame_sub f2") (auto simp: tree_in_fill)
      have rb': "rb_tree (fill (case4_tree Leaf n Leaf f1 f2) fs2)"
        using rb Red Black f2 sib unfolding fs fs1 rb_tree_fill
        by (cases "(Leaf, n, Leaf, f1, f2)" rule: case4_tree.cases) (simp_all add: rb_tree_fill)
      have whole: "pre fs @ [n] @ post fs =
          pre fs2 @ inorder (plug (plug (Node Leaf Black n Leaf) f1) f2) @ post fs2"
        by (simp add: fs fs1 inorder_plug)
      note ctx = sorted_context [OF sorted [unfolded whole]]
      have "wp (insert_case4_mut n (frame_node f1) (frame_node f2) (is_right_hole f2) (\<not> is_right_hole f1))
        (\<lambda>res s'. tree_at s' (parent_of fs2) (case4_tree Leaf n Leaf f1 f2) \<and>
          ctx_at s' (root_of (case4_tree Leaf n Leaf f1 f2)) fs2 \<and> same_rest s s' \<and>
          root_after res (top_of (Valid (frame_node f2)) fs2) =
            top_of (root_of (case4_tree Leaf n Leaf f1 f2)) fs2) s"
      proof (rule insert_case4_mut_wp)
        show "tree_at s (parent_of fs2) (plug (plug Leaf f1) f2)"
          and "ctx_any (lefts s) (rights s) (parent_colors s) fs2"
          using tree unfolding fs fs1 by (auto simp: tree_in_fill intro: ctx_anyI)
        show "distinct (n # inorder (plug (plug Leaf f1) f2))"
          and "set (n # inorder (plug (plug Leaf f1) f2)) \<inter> ctx_nodes fs2 = {}"
          using ctx(1,2) by (auto simp: inorder_plug)
        show "link_ok (rb_key s) (frame_node f2) fs2" by (rule ctx(6)) simp
      qed (fact Red f2 sib n ctx(3,4,5))+
      then have "wp (insert_case4_mut n (frame_node f1) (frame_node f2) (is_right_hole f2) (\<not> is_right_hole f1))
        (repaired s (pre fs @ [n] @ post fs) (top_of Null fs)) s"
      proof (rule wp_conseq)
        fix res s'
        let ?t = "fill (case4_tree Leaf n Leaf f1 f2) fs2"
        assume "tree_at s' (parent_of fs2) (case4_tree Leaf n Leaf f1 f2) \<and>
          ctx_at s' (root_of (case4_tree Leaf n Leaf f1 f2)) fs2 \<and> same_rest s s' \<and>
          root_after res (top_of (Valid (frame_node f2)) fs2) =
            top_of (root_of (case4_tree Leaf n Leaf f1 f2)) fs2"
        with rb' show "repaired s (pre fs @ [n] @ post fs) (top_of Null fs) res s'"
          unfolding repaired_def whole
          by (intro exI [of _ ?t]) (simp add: tree_in_fill inorder_fill inorder_case4 fs fs1)
      qed
      with p side uncle nored fs fs1 Red f2 show ?thesis
        by (cases "is_right_hole f2") (simp_all add: insert_fixup_def wp_rules)
    qed
  qed
qed

section \<open>Searching\<close>

text \<open>Where a key belongs that no node has, and where it is found.\<close>

fun slot_of :: "frame list \<Rightarrow> vacant_location" where
  "slot_of [] = At_Root"
| "slot_of (LeftHole c a r # fs) = Left_Of a"
| "slot_of (RightHole l c a # fs) = Right_Of a"

definition slot_for :: "(node_ptr \<Rightarrow> 'k :: linorder) \<Rightarrow> 'k \<Rightarrow> frame list \<Rightarrow> bool" where
  "slot_for keys key fs \<longleftrightarrow> (\<forall>a\<in>set (pre fs). keys a < key) \<and> (\<forall>a\<in>set (post fs). key < keys a)"

definition located :: "(node_ptr \<Rightarrow> 'k :: linorder) \<Rightarrow> rbt \<Rightarrow> 'k \<Rightarrow> location \<Rightarrow> bool" where
  "located keys t key loc \<longleftrightarrow>
     (case loc of
        Vacant_At v \<Rightarrow> (\<exists>fs. t = fill Leaf fs \<and> slot_for keys key fs \<and> v = slot_of fs)
      | Occupied_By a \<Rightarrow> a \<in> set (inorder t) \<and> keys a = key)"

lemma slot_for_simps [simp]:
  "slot_for keys key []"
  "slot_for keys key (LeftHole c a r # fs) \<longleftrightarrow>
     key < keys a \<and> (\<forall>b\<in>set (inorder r). key < keys b) \<and> slot_for keys key fs"
  "slot_for keys key (RightHole l c a # fs) \<longleftrightarrow>
     keys a < key \<and> (\<forall>b\<in>set (inorder l). keys b < key) \<and> slot_for keys key fs"
  by (auto simp: slot_for_def)

lemma find_impl_wp:
  assumes "tree_at s p (Node l c a r)" and "key_sorted (rb_key s) (inorder (Node l c a r))"
    and "slot_for (rb_key s) key fs" and "rb_height (Node l c a r) \<le> fuel"
  shows "wp (find_impl fuel ord key a)
    (\<lambda>loc s'. s' = s \<and> located (rb_key s) (fill (Node l c a r) fs) key loc) s"
  using assms
proof (induction fuel arbitrary: l c a r p fs)
  case 0
  then show ?case by simp
next
  case (Suc fuel)
  show ?case
  proof (cases "key < rb_key s a")
    case True
    have slot: "slot_for (rb_key s) key (LeftHole c a r # fs)"
      using Suc.prems(2,3) True by auto
    show ?thesis
    proof (cases l)
      case Leaf
      have "located (rb_key s) (fill (Node l c a r) fs) key (Vacant_At (Left_Of a))"
        unfolding located_def using slot Leaf by (auto intro!: exI [of _ "LeftHole c a r # fs"])
      with True Suc.prems(1) Leaf show ?thesis by (simp add: wp_rules)
    next
      case (Node ll lc b lr)
      from Suc.IH [of "Valid a" ll lc b lr "LeftHole c a r # fs"] Suc.prems slot Node True
      show ?thesis by (simp add: wp_rules)
    qed
  next
    case False
    show ?thesis
    proof (cases "rb_key s a < key")
      case True
      have slot: "slot_for (rb_key s) key (RightHole l c a # fs)"
        using Suc.prems(2,3) True by auto
      show ?thesis
      proof (cases r)
        case Leaf
        have "located (rb_key s) (fill (Node l c a r) fs) key (Vacant_At (Right_Of a))"
          unfolding located_def using slot Leaf by (auto intro!: exI [of _ "RightHole l c a # fs"])
        with True False Suc.prems(1) Leaf show ?thesis by (simp add: wp_rules)
      next
        case (Node rl rc b rr)
        from Suc.IH [of "Valid a" rl rc b rr "RightHole l c a # fs"] Suc.prems slot Node True False
        show ?thesis by (simp add: wp_rules)
      qed
    next
      case notless: False
      with False have "rb_key s a = key" by simp
      then have "located (rb_key s) (fill (Node l c a r) fs) key (Occupied_By a)"
        by (simp add: located_def inorder_fill)
      with False notless show ?thesis by (simp add: wp_rules)
    qed
  qed
qed

lemma rb_location_wp:
  assumes h: "holds_tree s t" and f: "rb_height t \<le> fuel" and o: "ord \<noteq> NonExhaustive"
  shows "wp (rb_location fuel key ord) (\<lambda>loc s'. s' = s \<and> located (rb_key s) t key loc) s"
proof -
  have "wp (location_with fuel ord' key) (\<lambda>loc s'. s' = s \<and> located (rb_key s) t key loc) s" for ord'
  proof (cases t)
    case Leaf
    with h show ?thesis
      by (simp add: location_with_def wp_rules holds_tree_def located_def) (rule exI [of _ "[]"], simp)
  next
    case (Node l c a r)
    with h f find_impl_wp [of s Null l c a r key "[]" fuel ord'] show ?thesis
      by (simp add: location_with_def wp_rules holds_tree_def)
  qed
  with o show ?thesis
    by (cases ord) (simp_all add: rb_location_def location_read_def location_readwrite_def)
qed

lemma length_le_height: "length fs \<le> rb_height (fill Leaf fs)"
proof -
  have "length fs + rb_height t \<le> rb_height (fill t fs)" for t
  proof (induction fs arbitrary: t)
    case (Cons f fs)
    have "Suc (rb_height t) \<le> rb_height (plug t f)" by (cases f) simp_all
    with Cons [of "plug t f"] show ?case by simp
  qed simp
  from this [of Leaf] show ?thesis by simp
qed

lemma key_sorted_cong: "(\<forall>a\<in>set xs. key a = key' a) \<Longrightarrow> key_sorted key xs = key_sorted key' xs"
  by (induction xs) auto

section \<open>The whole operation\<close>

definition grown ::
  "('k :: linorder, 'v) rb_store \<Rightarrow> node_ptr list \<Rightarrow> node_ptr \<Rightarrow> 'k \<Rightarrow> 'v \<Rightarrow> ('k, 'v) rb_store \<Rightarrow> bool" where
  "grown s xs n key value s' \<longleftrightarrow>
     (\<exists>t. holds_tree s' t \<and> inorder t = xs) \<and> rb_key s' = (rb_key s)(n := key) \<and>
     rb_val s' = (rb_val s)(n := value) \<and> privatized s' = privatized s"

lemma rb_insert_wp:
  assumes h: "holds_tree s (fill Leaf fs)" and slot: "slot_for (rb_key s) key fs"
    and n: "n \<notin> set (inorder (fill Leaf fs))" and fuel: "rb_height (fill Leaf fs) \<le> fuel"
  shows "wp (rb_insert fuel n key value (slot_of fs))
    (\<lambda>x s'. x = n \<and> grown s (pre fs @ [n] @ post fs) n key value s') s"
proof -
  define s1 where "s1 = s\<lparr>lefts := (lefts s)(n := Null), rights := (rights s)(n := Null),
       parent_colors := (parent_colors s)(n := null_black), rb_key := (rb_key s)(n := key),
       rb_val := (rb_val s)(n := value)\<rparr>"
  have notin: "n \<notin> set (pre fs)" "n \<notin> set (post fs)"
    using n by (simp_all add: inorder_fill)
  have "key_sorted (rb_key s) (pre fs @ post fs)"
    using h by (simp add: holds_tree_def inorder_fill)
  then have "key_sorted (rb_key s1) (pre fs @ post fs)"
    using key_sorted_cong [of "pre fs @ post fs" "rb_key s1" "rb_key s"] notin by (auto simp: s1_def)
  then have sorted: "key_sorted (rb_key s1) (pre fs @ [n] @ post fs)"
    using slot notin by (auto simp: slot_for_def s1_def)
  have tree: "tree_at s1 Null (fill Leaf fs)"
    using h n by (simp add: holds_tree_def s1_def)
  have root: "root_cell s1 = top_of Null fs"
    using h by (simp add: holds_tree_def s1_def)
  show ?thesis
  proof (cases fs)
    case Nil
    show ?thesis
      unfolding Nil slot_of.simps
      by (simp add: rb_insert_def wp_rules) 
        (auto simp: grown_def holds_tree_def rb_tree_def wp_rules intro!: exI [of _ "Node Leaf Black n Leaf"])
  next
    case (Cons f1 fs1)
    have "wp (insert_fixup fuel n (frame_node f1) (\<not> is_right_hole f1))
        (repaired s1 (pre fs @ [n] @ post fs) (top_of Null fs)) s1"
      using insert_fixup_wp [OF tree Cons _ _ _ _ sorted] h length_le_height [of fs] fuel
      by (simp add: holds_tree_def s1_def wp_rules)
    then have "wp (insert_fixup fuel n (frame_node f1) (\<not> is_right_hole f1))
      (\<lambda>res. wp (case res of
           NewRoot r \<Rightarrow> and_then (set_root (Valid r)) (\<lambda>_. ok n)
         | PublishRoot r \<Rightarrow> and_then (publish_root r) (\<lambda>_. ok n)
         | RootUnchanged \<Rightarrow> ok n) (\<lambda>x s'. x = n \<and> grown s (pre fs @ [n] @ post fs) n key value s')) s1"
    proof (rule wp_conseq)
      fix res s'
      assume "repaired s1 (pre fs @ [n] @ post fs) (top_of Null fs) res s'"
      then obtain t where "tree_at s' Null t" "inorder t = pre fs @ [n] @ post fs" "rb_tree t"
        "root_after res (top_of Null fs) = root_of t" "same_rest s1 s'" unfolding repaired_def by blast
      with root sorted show "wp (case res of
           NewRoot r \<Rightarrow> and_then (set_root (Valid r)) (\<lambda>_. ok n)
         | PublishRoot r \<Rightarrow> and_then (publish_root r) (\<lambda>_. ok n)
         | RootUnchanged \<Rightarrow> ok n) (\<lambda>x s'. x = n \<and> grown s (pre fs @ [n] @ post fs) n key value s') s'"
        by (cases res) (auto simp: wp_rules grown_def holds_tree_def same_rest_def s1_def intro!: exI [of _ t])
    qed
    from wp_and_then [OF this] Cons show ?thesis
      by (cases f1) (simp_all add: rb_insert_def new_node_def wp_mut_then s1_def)
  qed
qed

end
