(* ===== verification/Rb_Remove.thy ===== *)
theory Rb_Remove
  imports Rb_Insert
begin

text \<open>
  Removal from the red-black tree: the rotations of \<open>remove_fixup\<close>, its loop, which carries a position that
  lacks one black node up the tree, \<open>remove_nofix\<close>, and the whole operation.
\<close>

section \<open>The rotations of \<open>remove_fixup\<close>\<close>

text \<open>The position whose subtree a rotation replaces: what is known of the memory there, and afterwards.\<close>

definition place :: "('k :: linorder, 'v) rb_store \<Rightarrow> rbt \<Rightarrow> frame list \<Rightarrow> bool" where
  "place s t fs \<longleftrightarrow>
     tree_at s (parent_of fs) t \<and> ctx_any (lefts s) (rights s) (parent_colors s) fs \<and>
     distinct (inorder t) \<and> set (inorder t) \<inter> ctx_nodes fs = {} \<and>
     distinct (pre fs) \<and> distinct (post fs) \<and> set (pre fs) \<inter> set (post fs) = {} \<and>
     (\<forall>x\<in>set (inorder t). link_ok (rb_key s) x fs)"

definition replaced :: "('k, 'v) rb_store \<Rightarrow> rbt \<Rightarrow> frame list \<Rightarrow> ('k, 'v) rb_store \<Rightarrow> bool" where
  "replaced s t fs s' \<longleftrightarrow> tree_at s' (parent_of fs) t \<and> ctx_at s' (root_of t) fs \<and> same_rest s s'"

lemma wp_set_parent_link_last [wp_rules]:
  assumes "link_ok (rb_key s) x fs"
  shows "wp (set_parent_link x (parent_of fs) v) Q s =
    Q () (s\<lparr>lefts := link_l v fs (lefts s), rights := link_r v fs (rights s)\<rparr>)"
  using wp_set_parent_link [OF assms, of v ok Q] by (simp add: and_then_ok_right wp_ok)

lemmas place_simps = place_def replaced_def ball_simps ball_Un

lemma rotate_left_wp:
  assumes "place s (Node X Black p (Node Sl Red sib Sr)) fs" and "root_of Sl = Valid sl" and "color_of Sl = Black"
  shows "wp (rotate_left_red_helper p sib (Valid sl))
    (\<lambda>res s'. replaced s (Node (Node X Red p Sl) Black sib Sr) fs s' \<and> res = (if fs = [] then Some sib else None)) s"
proof -
  obtain A B c where Sl: "Sl = Node A Black sl B"
    using assms(2,3) by (cases Sl) auto
  show ?thesis
    using assms(1) unfolding Sl place_simps local_simps
    by (elim conjE) (simp add: rotate_left_red_helper_def set_parent_color_if_def wp_rules same_rest_def)
qed

lemma rotate_right_wp:
  assumes "place s (Node (Node Sl Red sib Sr) Black p X) fs" and "root_of Sr = Valid sr" and "color_of Sr = Black"
  shows "wp (rotate_right_red_helper p sib (Valid sr))
    (\<lambda>res s'. replaced s (Node Sl Black sib (Node Sr Red p X)) fs s' \<and> res = (if fs = [] then Some sib else None)) s"
proof -
  obtain A B where Sr: "Sr = Node A Black sr B"
    using assms(2,3) by (cases Sr) auto
  show ?thesis
    using assms(1) unfolding Sr place_simps local_simps
    by (elim conjE) (simp add: rotate_right_red_helper_def set_parent_color_if_def wp_rules same_rest_def)
qed

lemma single_left_wp:
  assumes "place s (Node X c p (Node Sl Black sib (Node A Red sr B))) fs"
  shows "wp (fixup_rotate_left p sib (Valid sr) result)
    (\<lambda>res s'. replaced s (Node (Node X Black p Sl) c sib (Node A Black sr B)) fs s' \<and>
       res = (if fs = [] then Some sib else result)) s"
proof (cases Sl)
  case Leaf
  show ?thesis
    using assms unfolding Leaf place_simps local_simps
    by (elim conjE) (simp add: fixup_rotate_left_def take_place_of_def reparent_if_def wp_rules same_rest_def)
next
  case (Node C sc y D)
  show ?thesis
    using assms unfolding Node place_simps local_simps
    by (elim conjE) (simp add: fixup_rotate_left_def take_place_of_def reparent_if_def wp_rules same_rest_def)
qed


lemma single_right_wp:
  assumes "place s (Node (Node (Node A Red sl B) Black sib Sr) c p X) fs"
  shows "wp (fixup_rotate_right p sib (Valid sl) result)
    (\<lambda>res s'. replaced s (Node (Node A Black sl B) c sib (Node Sr Black p X)) fs s' \<and>
       res = (if fs = [] then Some sib else result)) s"
proof (cases Sr)
  case Leaf
  show ?thesis
    using assms unfolding Leaf place_simps local_simps
    by (elim conjE) (simp add: fixup_rotate_right_def take_place_of_def reparent_if_def wp_rules same_rest_def)
next
  case (Node C sc y D)
  show ?thesis
    using assms unfolding Node place_simps local_simps
    by (elim conjE) (simp add: fixup_rotate_right_def take_place_of_def reparent_if_def wp_rules same_rest_def)
qed

lemma double_left_wp:
  assumes "place s (Node X c p (Node (Node A Red y B) Black sib Sr)) fs" and "color_of B = Black"
  shows "wp (and_then (get_right default_ordering y) (\<lambda>yr.
      and_then (set_left sib yr) (\<lambda>_.
      and_then (set_right y (Valid sib)) (\<lambda>_.
      and_then (set_right p (Valid y)) (\<lambda>_.
      and_then (set_parent_color_if yr (Valid sib) Black) (\<lambda>_.
      fixup_rotate_left p y (Valid sib) result))))))
    (\<lambda>res s'. replaced s (Node (Node X Black p A) c y (Node B Black sib Sr)) fs s' \<and>
       res = (if fs = [] then Some y else result)) s"
proof -
  have "B = Leaf \<or> (\<exists>C z D. B = Node C Black z D)" using assms(2) by (cases B) auto
  moreover have "A = Leaf \<or> (\<exists>C cz z D. A = Node C cz z D)" by (cases A) auto
  ultimately show ?thesis
    using assms(1) unfolding place_simps local_simps
    by (elim disjE exE conjE; simp only: local_simps)
      (elim conjE, simp add: fixup_rotate_left_def take_place_of_def reparent_if_def set_parent_color_if_def wp_rules same_rest_def)+
qed

lemma double_right_wp:
  assumes "place s (Node (Node Sl Black sib (Node A Red y B)) c p X) fs" and "color_of A = Black"
  shows "wp (and_then (get_left Read y) (\<lambda>yl.
      and_then (set_left y (Valid sib)) (\<lambda>_.
      and_then (set_right sib yl) (\<lambda>_.
      and_then (set_left p (Valid y)) (\<lambda>_.
      and_then (set_parent_color_if yl (Valid sib) Black) (\<lambda>_.
      fixup_rotate_right p y (Valid sib) result))))))
    (\<lambda>res s'. replaced s (Node (Node Sl Black sib A) c y (Node B Black p X)) fs s' \<and>
       res = (if fs = [] then Some y else result)) s"
proof -
  have "A = Leaf \<or> (\<exists>C z D. A = Node C Black z D)" using assms(2) by (cases A) auto
  moreover have "B = Leaf \<or> (\<exists>C cz z D. B = Node C cz z D)" by (cases B) auto
  ultimately show ?thesis
    using assms(1) unfolding place_simps local_simps
    by (elim disjE exE conjE; simp only: local_simps)
      (elim conjE, simp add: fixup_rotate_right_def take_place_of_def reparent_if_def set_parent_color_if_def wp_rules same_rest_def)+
qed

section \<open>The loop of \<open>remove_fixup\<close>\<close>

lemma wp_ref_black [wp_rules]:
  "wp (and_then (ref_black r) g) Q s =
     wp (g (case r of Valid x \<Rightarrow> ptr_color (parent_colors s x) = Black | Null \<Rightarrow> True)) Q s"
  by (cases r) (simp_all add: ref_black_def wp_rules)

lemma root_black: "tree_in ls rs pcs p t \<Longrightarrow>
    (case root_of t of Valid x \<Rightarrow> ptr_color (pcs x) = Black | Null \<Rightarrow> True) = (color_of t = Black)"
  by (cases t) simp_all

lemma placeI:
  assumes "tree_at s Null (fill t fs)" and "key_sorted (rb_key s) (pre fs @ inorder t @ post fs)"
  shows "place s t fs"
  using sorted_context [OF assms(2)] assms(1) by (auto simp: place_def tree_in_fill intro: ctx_anyI)

lemma replaced_tree: "replaced s t fs s' \<Longrightarrow> tree_at s' Null (fill t fs)"
  by (simp add: replaced_def tree_in_fill)

lemma replaced_repaired:
  assumes "replaced s t fs s'" and "rb_tree (fill t fs)" and "pre fs @ inorder t @ post fs = xs"
    and "root_after res r0 = top_of (root_of t) fs"
  shows "repaired s xs r0 res s'"
  unfolding repaired_def using assms
  by (intro exI [of _ "fill t fs"]) (auto simp: replaced_def tree_in_fill inorder_fill)

text \<open>What is left of the old root when a rotation has given a new one.\<close>

lemma root_after_rotation:
  assumes "root_after (repair_of result) r0 = top_of (Valid p) fs"
  shows "root_after (repair_of (if fs = [] then Some x else result)) r0 = top_of (Valid x) fs"
  using assms by (cases fs) (simp_all add: repair_of_def)

text \<open>A position that lacks one black node.\<close>

definition short :: "(node_ptr \<Rightarrow> 'k :: linorder) \<Rightarrow> rbt \<Rightarrow> frame list \<Rightarrow> bool" where
  "short key X fs \<longleftrightarrow>
     invc X \<and> invh X \<and> color_of X = Black \<and> ctx_ok (Suc (bheight X)) Black fs \<and>
     key_sorted key (pre fs @ inorder X @ post fs)"

text \<open>The rest of a turn, once the sibling is black.\<close>

definition balance_left :: "nat \<Rightarrow> node_ptr \<Rightarrow> node_ptr \<times> node_ptr option \<Rightarrow> ('k :: linorder, 'v, node_ptr option) rb" where
  "balance_left fuel parent = (\<lambda>(sibling, result).
       and_then (get_right default_ordering sibling) (\<lambda>sibling_right.
       and_then (ref_black sibling_right) (\<lambda>sibling_right_black.
       if sibling_right_black then
         and_then (get_left default_ordering sibling) (\<lambda>sibling_left.
         and_then (ref_black sibling_left) (\<lambda>sibling_left_black.
         if sibling_left_black then
           and_then (set_parent_color sibling (Valid parent) Red) (\<lambda>_.
           and_then (as_ref_color default_ordering parent) (\<lambda>(gp, p_color).
           if p_color = Red then
             and_then (set_parent_color parent gp Black) (\<lambda>_. ok result)
           else
             (case gp of
                Valid gp \<Rightarrow> remove_loop_rb fuel (Valid parent) gp result
              | Null \<Rightarrow> ok result)))
         else
           and_then (unwrap sibling_left) (\<lambda>sibling_left.
           and_then (get_right default_ordering sibling_left) (\<lambda>sib_left_right.
           and_then (set_left sibling sib_left_right) (\<lambda>_.
           and_then (set_right sibling_left (Valid sibling)) (\<lambda>_.
           and_then (set_right parent (Valid sibling_left)) (\<lambda>_.
           and_then (set_parent_color_if sib_left_right (Valid sibling) Black) (\<lambda>_.
           fixup_rotate_left parent sibling_left (Valid sibling) result))))))))
       else fixup_rotate_left parent sibling sibling_right result)))"

lemma recolored:
  assumes t: "tree_at s Null (fill (Node X c p (Node Sl Black sib Sr)) fs)"
    and d: "distinct (inorder (Node X c p (Node Sl Black sib Sr)))"
      "set (inorder (Node X c p (Node Sl Black sib Sr))) \<inter> ctx_nodes fs = {}"
  shows "tree_at (s\<lparr>parent_colors := (parent_colors s)(sib := pack (Valid p) Red)\<rparr>) Null
      (fill (Node X c p (Node Sl Red sib Sr)) fs)"
    and "tree_at (s\<lparr>parent_colors := (parent_colors s)(sib := pack (Valid p) Red, p := pack (parent_of fs) Black)\<rparr>) Null
      (fill (Node X Black p (Node Sl Red sib Sr)) fs)"
proof -
  show "tree_at (s\<lparr>parent_colors := (parent_colors s)(sib := pack (Valid p) Red)\<rparr>) Null
      (fill (Node X c p (Node Sl Red sib Sr)) fs)"
    using t d unfolding fill_simps tree_in_fill local_simps by (elim conjE) simp
  show "tree_at (s\<lparr>parent_colors := (parent_colors s)(sib := pack (Valid p) Red, p := pack (parent_of fs) Black)\<rparr>) Null
      (fill (Node X Black p (Node Sl Red sib Sr)) fs)"
    using t d unfolding fill_simps tree_in_fill local_simps by (elim conjE) simp
qed

lemma balance_left_wp:
  fixes s :: "('k :: linorder, 'v) rb_store"
  assumes tree: "tree_at s Null (fill X (LeftHole c p (Node Sl Black sib Sr) # fs))"
    and short: "short (rb_key s) X (LeftHole c p (Node Sl Black sib Sr) # fs)"
    and root: "root_after (repair_of result) r0 = top_of (Valid p) fs"
    and IH: "\<And>(s' :: ('k, 'v) rb_store) X' f fs'. c = Black \<Longrightarrow> fs = f # fs' \<Longrightarrow> short (rb_key s') X' fs \<Longrightarrow>
      tree_at s' Null (fill X' fs) \<Longrightarrow> root_of X' = Valid p \<Longrightarrow>
      wp (remove_loop_rb fuel (Valid p) (frame_node f) result)
         (\<lambda>res. repaired s' (inorder (fill X' fs)) r0 (repair_of res)) s'"
  shows "wp (balance_left fuel p (sib, result))
    (\<lambda>res. repaired s (inorder (fill X (LeftHole c p (Node Sl Black sib Sr) # fs))) r0 (repair_of res)) s"
proof -
  have so: "key_sorted (rb_key s) (pre fs @ inorder (Node X c p (Node Sl Black sib Sr)) @ post fs)"
    using short by (simp add: short_def)
  have pl: "place s (Node X c p (Node Sl Black sib Sr)) fs"
    using tree so by (intro placeI) simp_all
  have inv: "invc X" "invh X" "color_of X = Black" "invc Sl" "invh Sl" "invc Sr" "invh Sr"
    "bheight Sl = bheight X" "bheight Sr = bheight X"
    "ctx_ok (if c = Black then Suc (Suc (bheight X)) else Suc (bheight X)) c fs"
    using short by (simp_all add: short_def)
  have links: "rights s sib = root_of Sr" "lefts s sib = root_of Sl" "parent_colors s p = pack (parent_of fs) c"
    and trees: "tree_at s (Valid sib) Sl" "tree_at s (Valid sib) Sr"
    using tree by (simp_all add: tree_in_fill)
  note black = root_black [OF trees(1)] root_black [OF trees(2)]
  show ?thesis
  proof (cases "color_of Sr")
    case Red
    then obtain A sr B where Sr: "Sr = Node A Red sr B" by (cases Sr) auto
    have rb: "rb_tree (fill (Node (Node X Black p Sl) c sib (Node A Black sr B)) fs)"
      using inv Sr by (cases c) (simp_all add: rb_tree_fill)
    have "wp (fixup_rotate_left p sib (Valid sr) result)
      (\<lambda>res. repaired s (inorder (fill X (LeftHole c p (Node Sl Black sib Sr) # fs))) r0 (repair_of res)) s"
      by (rule wp_conseq [OF single_left_wp [OF pl [unfolded Sr]]], elim conjE, rule replaced_repaired, assumption)
        (simp_all add: rb Sr inorder_fill root_after_rotation [OF root])
    with links black Sr show ?thesis by (simp add: balance_left_def wp_rules)
  next
    case Sr: Black
    show ?thesis
    proof (cases "color_of Sl")
      case Red
      then obtain A y B where Sl: "Sl = Node A Red y B" by (cases Sl) auto
      have B: "color_of B = Black" using inv(4) Sl by simp
      have rb: "rb_tree (fill (Node (Node X Black p A) c y (Node B Black sib Sr)) fs)"
        using inv Sl by (cases c) (simp_all add: rb_tree_fill)
      have "wp (and_then (get_right default_ordering y) (\<lambda>yr.
          and_then (set_left sib yr) (\<lambda>_.
          and_then (set_right y (Valid sib)) (\<lambda>_.
          and_then (set_right p (Valid y)) (\<lambda>_.
          and_then (set_parent_color_if yr (Valid sib) Black) (\<lambda>_.
          fixup_rotate_left p y (Valid sib) result))))))
        (\<lambda>res. repaired s (inorder (fill X (LeftHole c p (Node Sl Black sib Sr) # fs))) r0 (repair_of res)) s"
        by (rule wp_conseq [OF double_left_wp [OF pl [unfolded Sl] B]], elim conjE, rule replaced_repaired, assumption)
          (simp_all add: rb Sl inorder_fill root_after_rotation [OF root])
      with links black Sl Sr show ?thesis
        by (simp add: balance_left_def wp_ref_black wp_access_then get_left_def get_right_def unwrap_simps and_then_ok)
    next
      case Sl: Black
      let ?s1 = "s\<lparr>parent_colors := (parent_colors s)(sib := pack (Valid p) Red)\<rparr>"
      have new: "p \<noteq> sib" and d: "distinct (inorder (Node X c p (Node Sl Black sib Sr)))"
          "set (inorder (Node X c p (Node Sl Black sib Sr))) \<inter> ctx_nodes fs = {}"
        using pl by (simp_all add: place_def)
      note t = recolored [OF tree [unfolded fill_simps plug.simps] d]
      show ?thesis
      proof (cases c)
        case Red
        have "rb_tree (fill (Node X Black p (Node Sl Red sib Sr)) fs)"
          using inv Sl Sr Red by (simp add: rb_tree_fill ctx_ok_Black [of _ Red])
        with t(2) root
        have "repaired s (inorder (fill X (LeftHole c p (Node Sl Black sib Sr) # fs))) r0 (repair_of result)
          (s\<lparr>parent_colors := (parent_colors s)(sib := pack (Valid p) Red, p := pack (parent_of fs) Black)\<rparr>)"
          unfolding repaired_def
          by (intro exI [of _ "fill (Node X Black p (Node Sl Red sib Sr)) fs"]) (simp add: inorder_fill same_rest_def)
        with links black Sl Sr Red new show ?thesis by (simp add: balance_left_def wp_rules)
      next
        case Black
        let ?X = "Node X Black p (Node Sl Red sib Sr)"
        have sh: "short (rb_key s) ?X fs"
          using inv Sl Sr Black so by (simp add: short_def)
        show ?thesis
        proof (cases fs)
          case Nil
          have "repaired s (inorder (fill X (LeftHole c p (Node Sl Black sib Sr) # fs))) r0 (repair_of result) ?s1"
            unfolding repaired_def using t(1) root sh Nil Black
            by (intro exI [of _ ?X]) (simp add: same_rest_def short_def rb_tree_def)
          with links black Sl Sr Black new Nil show ?thesis by (simp add: balance_left_def wp_rules)
        next
          case (Cons f fs')
          have "wp (remove_loop_rb fuel (Valid p) (frame_node f) result)
            (\<lambda>res. repaired ?s1 (inorder (fill ?X fs)) r0 (repair_of res)) ?s1"
            using Black Cons sh t(1) by (intro IH) simp_all
          then have "wp (remove_loop_rb fuel (Valid p) (frame_node f) result)
            (\<lambda>res. repaired s (inorder (fill X (LeftHole c p (Node Sl Black sib Sr) # fs))) r0 (repair_of res)) ?s1"
            by (rule wp_conseq) (auto intro!: repaired_trans [of s ?s1] simp: same_rest_def inorder_fill)
          with links black Sl Sr Black new Cons show ?thesis by (simp add: balance_left_def wp_rules)
        qed
      qed
    qed
  qed
qed

definition balance_right :: "nat \<Rightarrow> node_ptr \<Rightarrow> node_ptr \<times> node_ptr option \<Rightarrow> ('k :: linorder, 'v, node_ptr option) rb" where
  "balance_right fuel parent = (\<lambda>(sibling, result).
       and_then (get_left default_ordering sibling) (\<lambda>sibling_left.
       and_then (ref_black sibling_left) (\<lambda>sibling_left_black.
       if sibling_left_black then
         and_then (get_right default_ordering sibling) (\<lambda>sibling_right.
         and_then (ref_black sibling_right) (\<lambda>sibling_right_black.
         if sibling_right_black then
           and_then (set_parent_color sibling (Valid parent) Red) (\<lambda>_.
           and_then (as_ref_color default_ordering parent) (\<lambda>(gp, p_color).
           if p_color = Red then
             and_then (set_parent_color parent gp Black) (\<lambda>_. ok result)
           else
             (case gp of
                Valid gp \<Rightarrow> remove_loop_rb fuel (Valid parent) gp result
              | Null \<Rightarrow> ok result)))
         else
           and_then (unwrap sibling_right) (\<lambda>sibling_right.
           and_then (get_left Read sibling_right) (\<lambda>sib_right_left.
           and_then (set_left sibling_right (Valid sibling)) (\<lambda>_.
           and_then (set_right sibling sib_right_left) (\<lambda>_.
           and_then (set_left parent (Valid sibling_right)) (\<lambda>_.
           and_then (set_parent_color_if sib_right_left (Valid sibling) Black) (\<lambda>_.
           fixup_rotate_right parent sibling_right (Valid sibling) result))))))))
       else fixup_rotate_right parent sibling sibling_left result)))"

lemma recolored_right:
  assumes t: "tree_at s Null (fill (Node (Node Sl Black sib Sr) c p X) fs)"
    and d: "distinct (inorder (Node (Node Sl Black sib Sr) c p X))"
      "set (inorder (Node (Node Sl Black sib Sr) c p X)) \<inter> ctx_nodes fs = {}"
  shows "tree_at (s\<lparr>parent_colors := (parent_colors s)(sib := pack (Valid p) Red)\<rparr>) Null
      (fill (Node (Node Sl Red sib Sr) c p X) fs)"
    and "tree_at (s\<lparr>parent_colors := (parent_colors s)(sib := pack (Valid p) Red, p := pack (parent_of fs) Black)\<rparr>) Null
      (fill (Node (Node Sl Red sib Sr) Black p X) fs)"
proof -
  show "tree_at (s\<lparr>parent_colors := (parent_colors s)(sib := pack (Valid p) Red)\<rparr>) Null
      (fill (Node (Node Sl Red sib Sr) c p X) fs)"
    using t d unfolding fill_simps tree_in_fill local_simps by (elim conjE) simp
  show "tree_at (s\<lparr>parent_colors := (parent_colors s)(sib := pack (Valid p) Red, p := pack (parent_of fs) Black)\<rparr>) Null
      (fill (Node (Node Sl Red sib Sr) Black p X) fs)"
    using t d unfolding fill_simps tree_in_fill local_simps by (elim conjE) simp
qed

lemma balance_right_wp:
  fixes s :: "('k :: linorder, 'v) rb_store"
  assumes tree: "tree_at s Null (fill X (RightHole (Node Sl Black sib Sr) c p # fs))"
    and short: "short (rb_key s) X (RightHole (Node Sl Black sib Sr) c p # fs)"
    and root: "root_after (repair_of result) r0 = top_of (Valid p) fs"
    and IH: "\<And>(s' :: ('k, 'v) rb_store) X' f fs'. c = Black \<Longrightarrow> fs = f # fs' \<Longrightarrow> short (rb_key s') X' fs \<Longrightarrow>
      tree_at s' Null (fill X' fs) \<Longrightarrow> root_of X' = Valid p \<Longrightarrow>
      wp (remove_loop_rb fuel (Valid p) (frame_node f) result)
         (\<lambda>res. repaired s' (inorder (fill X' fs)) r0 (repair_of res)) s'"
  shows "wp (balance_right fuel p (sib, result))
    (\<lambda>res. repaired s (inorder (fill X (RightHole (Node Sl Black sib Sr) c p # fs))) r0 (repair_of res)) s"
proof -
  have so: "key_sorted (rb_key s) (pre fs @ inorder (Node (Node Sl Black sib Sr) c p X) @ post fs)"
    using short by (simp add: short_def)
  have pl: "place s (Node (Node Sl Black sib Sr) c p X) fs"
    using tree so by (intro placeI) simp_all
  have inv: "invc X" "invh X" "color_of X = Black" "invc Sl" "invh Sl" "invc Sr" "invh Sr"
    "bheight Sl = bheight X" "bheight Sr = bheight X"
    "ctx_ok (if c = Black then Suc (Suc (bheight X)) else Suc (bheight X)) c fs"
    using short by (simp_all add: short_def)
  have links: "rights s sib = root_of Sr" "lefts s sib = root_of Sl" "parent_colors s p = pack (parent_of fs) c"
    and trees: "tree_at s (Valid sib) Sl" "tree_at s (Valid sib) Sr"
    using tree by (simp_all add: tree_in_fill)
  note black = root_black [OF trees(1)] root_black [OF trees(2)]
  show ?thesis
  proof (cases "color_of Sl")
    case Red
    then obtain A sl B where Sl: "Sl = Node A Red sl B" by (cases Sl) auto
    have rb: "rb_tree (fill (Node (Node A Black sl B) c sib (Node Sr Black p X)) fs)"
      using inv Sl by (cases c) (simp_all add: rb_tree_fill)
    have "wp (fixup_rotate_right p sib (Valid sl) result)
      (\<lambda>res. repaired s (inorder (fill X (RightHole (Node Sl Black sib Sr) c p # fs))) r0 (repair_of res)) s"
      by (rule wp_conseq [OF single_right_wp [OF pl [unfolded Sl]]], elim conjE, rule replaced_repaired, assumption)
        (simp_all add: rb Sl inorder_fill root_after_rotation [OF root])
    with links black Sl show ?thesis by (simp add: balance_right_def wp_rules)
  next
    case Sl: Black
    show ?thesis
    proof (cases "color_of Sr")
      case Red
      then obtain A y B where Sr: "Sr = Node A Red y B" by (cases Sr) auto
      have B: "color_of A = Black" using inv(6) Sr by simp
      have rb: "rb_tree (fill (Node (Node Sl Black sib A) c y (Node B Black p X)) fs)"
        using inv Sr by (cases c) (simp_all add: rb_tree_fill)
      have "wp (and_then (get_left Read y) (\<lambda>yl.
          and_then (set_left y (Valid sib)) (\<lambda>_.
          and_then (set_right sib yl) (\<lambda>_.
          and_then (set_left p (Valid y)) (\<lambda>_.
          and_then (set_parent_color_if yl (Valid sib) Black) (\<lambda>_.
          fixup_rotate_right p y (Valid sib) result))))))
        (\<lambda>res. repaired s (inorder (fill X (RightHole (Node Sl Black sib Sr) c p # fs))) r0 (repair_of res)) s"
        by (rule wp_conseq [OF double_right_wp [OF pl [unfolded Sr] B]], elim conjE, rule replaced_repaired, assumption)
          (simp_all add: rb Sr inorder_fill root_after_rotation [OF root])
      with links black Sl Sr show ?thesis
        by (simp add: balance_right_def wp_ref_black wp_access_then get_left_def get_right_def unwrap_simps and_then_ok)
    next
      case Sr: Black
      let ?s1 = "s\<lparr>parent_colors := (parent_colors s)(sib := pack (Valid p) Red)\<rparr>"
      have new: "sib \<noteq> p" and d: "distinct (inorder (Node (Node Sl Black sib Sr) c p X))"
          "set (inorder (Node (Node Sl Black sib Sr) c p X)) \<inter> ctx_nodes fs = {}"
        using pl by (simp_all add: place_def)
      note t = recolored_right [OF tree [unfolded fill_simps plug.simps] d]
      show ?thesis
      proof (cases c)
        case Red
        have "rb_tree (fill (Node (Node Sl Red sib Sr) Black p X) fs)"
          using inv Sl Sr Red by (simp add: rb_tree_fill ctx_ok_Black [of _ Red])
        with t(2) root
        have "repaired s (inorder (fill X (RightHole (Node Sl Black sib Sr) c p # fs))) r0 (repair_of result)
          (s\<lparr>parent_colors := (parent_colors s)(sib := pack (Valid p) Red, p := pack (parent_of fs) Black)\<rparr>)"
          unfolding repaired_def
          by (intro exI [of _ "fill (Node (Node Sl Red sib Sr) Black p X) fs"]) (simp add: inorder_fill same_rest_def)
        with links black Sl Sr Red new show ?thesis by (simp add: balance_right_def wp_rules)
      next
        case Black
        let ?X = "Node (Node Sl Red sib Sr) Black p X"
        have sh: "short (rb_key s) ?X fs"
          using inv Sl Sr Black so by (simp add: short_def)
        show ?thesis
        proof (cases fs)
          case Nil
          have "repaired s (inorder (fill X (RightHole (Node Sl Black sib Sr) c p # fs))) r0 (repair_of result) ?s1"
            unfolding repaired_def using t(1) root sh Nil Black
            by (intro exI [of _ ?X]) (simp add: same_rest_def short_def rb_tree_def)
          with links black Sl Sr Black new Nil show ?thesis by (simp add: balance_right_def wp_rules)
        next
          case (Cons f fs')
          have "wp (remove_loop_rb fuel (Valid p) (frame_node f) result)
            (\<lambda>res. repaired ?s1 (inorder (fill ?X fs)) r0 (repair_of res)) ?s1"
            using Black Cons sh t(1) by (intro IH) simp_all
          then have "wp (remove_loop_rb fuel (Valid p) (frame_node f) result)
            (\<lambda>res. repaired s (inorder (fill X (RightHole (Node Sl Black sib Sr) c p # fs))) r0 (repair_of res)) ?s1"
            by (rule wp_conseq) (auto intro!: repaired_trans [of s ?s1] simp: same_rest_def inorder_fill)
          with links black Sl Sr Black new Cons show ?thesis by (simp add: balance_right_def wp_rules)
        qed
      qed
    qed
  qed
qed

lemma remove_loop_unfold:
  "remove_loop_rb (Suc fuel) node parent result =
     and_then
       (if node = Null then ok ()
        else
          and_then (unwrap node) (\<lambda>x.
          and_then (as_ref_color Read x) (\<lambda>(p, c).
          debug_assert (c = Black \<and> p \<noteq> Null)))) (\<lambda>_.
     and_then (get_right default_ordering parent) (\<lambda>sibling.
     if sibling \<noteq> node then
       and_then (unwrap sibling) (\<lambda>sibling.
       and_then (get_color default_ordering sibling) (\<lambda>sibling_color.
       and_then
         (if sibling_color = Red then
            and_then (get_left Read sibling) (\<lambda>sibling_left.
            and_then (unwrap sibling_left) (\<lambda>sibling_left.
            and_then (rotate_left_red_helper parent sibling (Valid sibling_left)) (\<lambda>new_root.
            ok (sibling_left, or_else result new_root))))
          else ok (sibling, result)) (balance_left fuel parent)))
     else
       and_then (get_left default_ordering parent) (\<lambda>sibling.
       and_then (unwrap sibling) (\<lambda>sibling.
       and_then (get_color default_ordering sibling) (\<lambda>sibling_color.
       and_then
         (if sibling_color = Red then
            and_then (get_right Read sibling) (\<lambda>sibling_right.
            and_then (unwrap sibling_right) (\<lambda>sibling_right.
            and_then (rotate_right_red_helper parent sibling (Valid sibling_right)) (\<lambda>new_root.
            ok (sibling_right, or_else result new_root))))
          else ok (sibling, result)) (balance_right fuel parent))))))"
  unfolding remove_loop_rb.simps balance_left_def balance_right_def by (rule refl)

lemma remove_loop_left:
  assumes "X = Leaf \<or> (\<exists>x. root_of X = Valid x \<and> parent_colors s x = pack (Valid p) Black)"
    and "rights s p = Valid sib" "Valid sib \<noteq> root_of X" "parent_colors s sib = pack q sc"
  shows "wp (remove_loop_rb (Suc fuel) (root_of X) p result) Q s =
    wp (if sc = Red then
            and_then (get_left Read sib) (\<lambda>sibling_left.
            and_then (unwrap sibling_left) (\<lambda>sibling_left.
            and_then (rotate_left_red_helper p sib (Valid sibling_left)) (\<lambda>new_root.
            balance_left fuel p (sibling_left, or_else result new_root))))
          else balance_left fuel p (sib, result)) Q s"
  using assms unfolding remove_loop_unfold by (elim disjE exE conjE) (auto simp: wp_rules)

lemma remove_loop_right:
  assumes "X = Leaf \<or> (\<exists>x. root_of X = Valid x \<and> parent_colors s x = pack (Valid p) Black)"
    and "rights s p = root_of X" "lefts s p = Valid sib" "parent_colors s sib = pack q sc"
  shows "wp (remove_loop_rb (Suc fuel) (root_of X) p result) Q s =
    wp (if sc = Red then
            and_then (get_right Read sib) (\<lambda>sibling_right.
            and_then (unwrap sibling_right) (\<lambda>sibling_right.
            and_then (rotate_right_red_helper p sib (Valid sibling_right)) (\<lambda>new_root.
            balance_right fuel p (sibling_right, or_else result new_root))))
          else balance_right fuel p (sib, result)) Q s"
  using assms unfolding remove_loop_unfold by (elim disjE exE conjE) (auto simp: wp_rules)

text \<open>A red sibling: the rotation, and then the turn goes on with the nephew as the black sibling.\<close>

lemma red_sibling_left_wp:
  fixes s :: "('k :: linorder, 'v) rb_store"
  assumes short: "short (rb_key s) X (LeftHole c p (Node Sl Red sib Sr) # fs)"
    and tree: "tree_at s Null (fill X (LeftHole c p (Node Sl Red sib Sr) # fs))"
  obtains A y B where "Sl = Node A Black y B"
    "wp (and_then (rotate_left_red_helper p sib (Valid y)) (\<lambda>new_root. balance_left fuel p (y, new_root)))
      (\<lambda>res. repaired s (inorder (fill X (LeftHole c p (Node Sl Red sib Sr) # fs))) (top_of (Valid p) fs) (repair_of res)) s"
proof -
  have c: "c = Black" and sub: "color_of Sl = Black" "color_of Sr = Black" "invc Sl" "invh Sl" "invc Sr" "invh Sr"
      "bheight Sl = Suc (bheight X)" "bheight Sr = Suc (bheight X)"
    and X: "invc X" "invh X" "color_of X = Black" and rest: "ctx_ok (Suc (Suc (bheight X))) Black fs"
    and so: "key_sorted (rb_key s) (pre fs @ inorder (Node X Black p (Node Sl Red sib Sr)) @ post fs)"
    using short unfolding short_def by auto
  obtain A y B where K: "Sl = Node A Black y B" using sub(1,7) by (cases Sl) auto
  have pl: "place s (Node X Black p (Node Sl Red sib Sr)) fs"
    using tree so unfolding c by (intro placeI) simp_all
  have "wp (and_then (rotate_left_red_helper p sib (Valid y)) (\<lambda>new_root. balance_left fuel p (y, new_root)))
    (\<lambda>res. repaired s (inorder (fill X (LeftHole c p (Node Sl Red sib Sr) # fs))) (top_of (Valid p) fs) (repair_of res)) s"
  proof (rule wp_and_then, rule wp_conseq [OF rotate_left_wp [OF pl _ sub(1)]])
    show "root_of Sl = Valid y" using K by simp
  next
    fix new_root s'
    assume new: "replaced s (Node (Node X Red p Sl) Black sib Sr) fs s' \<and> new_root = (if fs = [] then Some sib else None)"
    have same: "same_rest s s'" and k: "rb_key s' = rb_key s" and
      t: "tree_at s' Null (fill X (LeftHole Red p (Node A Black y B) # LeftHole Black sib Sr # fs))"
      using new replaced_tree [of s _ fs s'] K by (auto simp: replaced_def same_rest_def)
    have sh: "short (rb_key s') X (LeftHole Red p (Node A Black y B) # LeftHole Black sib Sr # fs)"
      using X sub rest so unfolding short_def k K by auto
    have "wp (balance_left fuel p (y, new_root))
      (\<lambda>res. repaired s' (inorder (fill X (LeftHole Red p (Node A Black y B) # LeftHole Black sib Sr # fs))) (top_of (Valid p) fs) (repair_of res)) s'"
      by (rule balance_left_wp [OF t sh]) (use new in \<open>simp_all add: repair_of_def top_of_other\<close>)
    then show "wp (balance_left fuel p (y, new_root))
      (\<lambda>res. repaired s (inorder (fill X (LeftHole c p (Node Sl Red sib Sr) # fs))) (top_of (Valid p) fs) (repair_of res)) s'"
      by (rule wp_conseq) (use repaired_trans [OF same] in \<open>simp add: K inorder_fill\<close>)
  qed
  with K show ?thesis by (rule that)
qed

text \<open>A red sibling: the rotation, and then the turn goes on with the nephew as the black sibling.\<close>

lemma red_sibling_right_wp:
  fixes s :: "('k :: linorder, 'v) rb_store"
  assumes short: "short (rb_key s) X (RightHole (Node Sl Red sib Sr) c p # fs)"
    and tree: "tree_at s Null (fill X (RightHole (Node Sl Red sib Sr) c p # fs))"
  obtains A y B where "Sr = Node A Black y B"
    "wp (and_then (rotate_right_red_helper p sib (Valid y)) (\<lambda>new_root. balance_right fuel p (y, new_root)))
      (\<lambda>res. repaired s (inorder (fill X (RightHole (Node Sl Red sib Sr) c p # fs))) (top_of (Valid p) fs) (repair_of res)) s"
proof -
  have c: "c = Black" and sub: "color_of Sl = Black" "color_of Sr = Black" "invc Sl" "invh Sl" "invc Sr" "invh Sr"
      "bheight Sl = Suc (bheight X)" "bheight Sr = Suc (bheight X)"
    and X: "invc X" "invh X" "color_of X = Black" and rest: "ctx_ok (Suc (Suc (bheight X))) Black fs"
    and so: "key_sorted (rb_key s) (pre fs @ inorder (Node (Node Sl Red sib Sr) Black p X) @ post fs)"
    using short unfolding short_def by auto
  obtain A y B where K: "Sr = Node A Black y B" using sub(2,8) by (cases Sr) auto
  have pl: "place s (Node (Node Sl Red sib Sr) Black p X) fs"
    using tree so unfolding c by (intro placeI) simp_all
  have "wp (and_then (rotate_right_red_helper p sib (Valid y)) (\<lambda>new_root. balance_right fuel p (y, new_root)))
    (\<lambda>res. repaired s (inorder (fill X (RightHole (Node Sl Red sib Sr) c p # fs))) (top_of (Valid p) fs) (repair_of res)) s"
  proof (rule wp_and_then, rule wp_conseq [OF rotate_right_wp [OF pl _ sub(2)]])
    show "root_of Sr = Valid y" using K by simp
  next
    fix new_root s'
    assume new: "replaced s (Node Sl Black sib (Node Sr Red p X)) fs s' \<and> new_root = (if fs = [] then Some sib else None)"
    have same: "same_rest s s'" and k: "rb_key s' = rb_key s" and
      t: "tree_at s' Null (fill X (RightHole (Node A Black y B) Red p # RightHole Sl Black sib # fs))"
      using new replaced_tree [of s _ fs s'] K by (auto simp: replaced_def same_rest_def)
    have sh: "short (rb_key s') X (RightHole (Node A Black y B) Red p # RightHole Sl Black sib # fs)"
      using X sub rest so unfolding short_def k K by auto
    have "wp (balance_right fuel p (y, new_root))
      (\<lambda>res. repaired s' (inorder (fill X (RightHole (Node A Black y B) Red p # RightHole Sl Black sib # fs))) (top_of (Valid p) fs) (repair_of res)) s'"
      by (rule balance_right_wp [OF t sh]) (use new in \<open>simp_all add: repair_of_def top_of_other\<close>)
    then show "wp (balance_right fuel p (y, new_root))
      (\<lambda>res. repaired s (inorder (fill X (RightHole (Node Sl Red sib Sr) c p # fs))) (top_of (Valid p) fs) (repair_of res)) s'"
      by (rule wp_conseq) (use repaired_trans [OF same] in \<open>simp add: K inorder_fill\<close>)
  qed
  with K show ?thesis by (rule that)
qed

lemma remove_loop_wp:
  fixes s :: "('k :: linorder, 'v) rb_store"
  assumes "short (rb_key s) X fs" and "fs = f # fs'" and "tree_at s Null (fill X fs)" and "length fs \<le> fuel"
  shows "wp (remove_loop_rb fuel (root_of X) (frame_node f) None)
    (\<lambda>res. repaired s (inorder (fill X fs)) (top_of Null fs) (repair_of res)) s"
  using assms
proof (induction fuel arbitrary: s X fs f fs')
  case 0
  then show ?case by simp
next
  case (Suc fuel)
  note short = Suc.prems(1) and fs = Suc.prems(2) and tree = Suc.prems(3) and len = Suc.prems(4)
  have IH: "wp (remove_loop_rb fuel (Valid p) (frame_node f1) None)
      (\<lambda>res. repaired s' (inorder (fill X' fs')) (top_of Null fs) (repair_of res)) s'"
    if "fs' = f1 # fs1" "short (rb_key s') X' fs'" "tree_at s' Null (fill X' fs')" "root_of X' = Valid p"
    for p f1 fs1 X' and s' :: "('k, 'v) rb_store"
    using Suc.IH [of s' X' fs' f1 fs1] that len fs by simp
  have so: "key_sorted (rb_key s) (pre fs @ inorder X @ post fs)"
    using short by (simp add: short_def)
  have d: "distinct (inorder (fill X fs))"
    using key_sorted_distinct [OF so] by (simp add: inorder_fill)
  show ?case
  proof (cases f)
    case (LeftHole c p S)
    obtain Sl sc sib Sr where S: "S = Node Sl sc sib Sr"
      using short fs LeftHole by (cases S) (simp_all add: short_def)
    have ne: "Valid sib \<noteq> root_of X"
      using d unfolding fs LeftHole S by (cases X) (auto simp: inorder_fill)
    have node: "X = Leaf \<or> (\<exists>x. root_of X = Valid x \<and> parent_colors s x = pack (Valid p) Black)"
      using tree short fs LeftHole by (cases X) (simp_all add: tree_in_fill short_def)
    have links: "rights s p = Valid sib" "parent_colors s sib = pack (Valid p) sc" "lefts s sib = root_of Sl"
      using tree fs LeftHole S by (simp_all add: tree_in_fill)
    note entry = remove_loop_left [OF node links(1) ne links(2)]
    show ?thesis
    proof (cases sc)
      case Black
      have "wp (balance_left fuel p (sib, None))
        (\<lambda>res. repaired s (inorder (fill X fs)) (top_of Null fs) (repair_of res)) s"
        unfolding fs LeftHole S Black
        by (rule balance_left_wp) (use tree short IH in \<open>simp_all add: fs LeftHole S Black repair_of_def\<close>)
      with LeftHole Black show ?thesis by (simp add: entry del: remove_loop_rb.simps)
    next
      case Red
      from red_sibling_left_wp [OF short [unfolded fs LeftHole S Red] tree [unfolded fs LeftHole S Red]] obtain A y B
        where K: "Sl = Node A Black y B" and
          "wp (and_then (rotate_left_red_helper p sib (Valid y)) (\<lambda>new_root. balance_left fuel p (y, new_root)))
            (\<lambda>res. repaired s (inorder (fill X fs)) (top_of Null fs) (repair_of res)) s"
        by (simp add: fs LeftHole S Red) blast
      with LeftHole Red links K show ?thesis
        by (simp add: entry wp_rules or_else_def del: remove_loop_rb.simps)
    qed
  next
    case (RightHole S c p)
    obtain Sl sc sib Sr where S: "S = Node Sl sc sib Sr"
      using short fs RightHole by (cases S) (simp_all add: short_def)
    have node: "X = Leaf \<or> (\<exists>x. root_of X = Valid x \<and> parent_colors s x = pack (Valid p) Black)"
      using tree short fs RightHole by (cases X) (simp_all add: tree_in_fill short_def)
    have links: "rights s p = root_of X" "lefts s p = Valid sib" "parent_colors s sib = pack (Valid p) sc"
        "rights s sib = root_of Sr"
      using tree fs RightHole S by (simp_all add: tree_in_fill)
    note entry = remove_loop_right [OF node links(1,2,3)]
    show ?thesis
    proof (cases sc)
      case Black
      have "wp (balance_right fuel p (sib, None))
        (\<lambda>res. repaired s (inorder (fill X fs)) (top_of Null fs) (repair_of res)) s"
        unfolding fs RightHole S Black
        by (rule balance_right_wp) (use tree short IH in \<open>simp_all add: fs RightHole S Black repair_of_def\<close>)
      with RightHole Black show ?thesis by (simp add: entry del: remove_loop_rb.simps)
    next
      case Red
      from red_sibling_right_wp [OF short [unfolded fs RightHole S Red] tree [unfolded fs RightHole S Red]] obtain A y B
        where K: "Sr = Node A Black y B" and
          "wp (and_then (rotate_right_red_helper p sib (Valid y)) (\<lambda>new_root. balance_right fuel p (y, new_root)))
            (\<lambda>res. repaired s (inorder (fill X fs)) (top_of Null fs) (repair_of res)) s"
        by (simp add: fs RightHole S Red) blast
      with RightHole Red links K show ?thesis
        by (simp add: entry wp_rules or_else_def del: remove_loop_rb.simps)
    qed
  qed
qed

end
