(* ===== verification/Rb_Unlink.thy ===== *)
theory Rb_Unlink
  imports Rb_Remove
begin

text \<open>
  \<open>remove_nofix\<close>: a node with one child at most is replaced by it, any other by its successor, the leftmost
  node of its right subtree; and \<open>RBRoot::remove\<close>, which repairs what is one black node short.
\<close>

section \<open>Taking a node out\<close>

text \<open>A context below another one: what lies under the inner context's root, and the rest.\<close>

fun spine_in ::
  "(node_ptr \<Rightarrow> rbref) \<Rightarrow> (node_ptr \<Rightarrow> rbref) \<Rightarrow> (node_ptr \<Rightarrow> usize) \<Rightarrow> rbref \<Rightarrow> rbref \<Rightarrow> frame list \<Rightarrow> bool" where
  "spine_in ls rs pcs q h [] \<longleftrightarrow> True"
| "spine_in ls rs pcs q h (f # gs) \<longleftrightarrow>
     ls (frame_node f) = h \<and> rs (frame_node f) = root_of (frame_sub f) \<and>
     pcs (frame_node f) = pack (if gs = [] then q else parent_of gs) (frame_color f) \<and>
     tree_in ls rs pcs (Valid (frame_node f)) (frame_sub f) \<and> spine_in ls rs pcs q (Valid (frame_node f)) gs"

definition left_spine :: "frame list \<Rightarrow> bool" where
  "left_spine gs \<longleftrightarrow> (\<forall>g\<in>set gs. \<not> is_right_hole g)"

lemma left_spine_simps [simp]:
  "left_spine []" "left_spine (f # gs) \<longleftrightarrow> (\<exists>c a r. f = LeftHole c a r) \<and> left_spine gs"
  "left_spine (gs @ hs) \<longleftrightarrow> left_spine gs \<and> left_spine hs"
  by (auto simp: left_spine_def elim: is_right_hole.elims)

lemma pre_append [simp]: "pre (gs @ hs) = pre hs @ pre gs" "post (gs @ hs) = post gs @ post hs"
  by (induction gs) simp_all

lemma pre_left_spine [simp]: "left_spine gs \<Longrightarrow> pre gs = []"
  by (induction gs) auto

lemma parent_of_append: "parent_of (gs @ hs) = (if gs = [] then parent_of hs else parent_of gs)"
  by (cases gs) simp_all

lemma ctx_in_append:
  assumes "hs \<noteq> []"
  shows "left_spine gs \<Longrightarrow> ctx_in ls rs pcs h (gs @ hs) \<longleftrightarrow>
     spine_in ls rs pcs (parent_of hs) h gs \<and> ctx_in ls rs pcs (top_of h gs) hs"
proof (induction gs arbitrary: h)
  case (Cons f gs)
  then obtain c a r where f: "f = LeftHole c a r" by auto
  with Cons show ?case by (simp add: parent_of_append)
qed simp

lemma spine_in_append:
  assumes "hs \<noteq> []"
  shows "spine_in ls rs pcs q h (gs @ hs) \<longleftrightarrow>
     spine_in ls rs pcs (parent_of hs) h gs \<and> spine_in ls rs pcs q (top_of h gs) hs"
proof (induction gs arbitrary: h)
  case (Cons f gs)
  with assms show ?case by (simp add: parent_of_append)
qed simp

lemma tree_in_spine:
  "left_spine gs \<Longrightarrow> tree_in ls rs pcs q (fill t gs) \<longleftrightarrow>
     tree_in ls rs pcs (if gs = [] then q else parent_of gs) t \<and> spine_in ls rs pcs q (root_of t) gs"
proof (induction gs arbitrary: t)
  case (Cons f gs)
  then obtain c a r where f: "f = LeftHole c a r" by auto
  with Cons show ?case by (simp add: conj_ac)
qed simp

lemma spine_in_cong:
  "(\<forall>a\<in>set (post gs). ls' a = ls a \<and> rs' a = rs a \<and> pcs' a = pcs a) \<Longrightarrow> left_spine gs \<Longrightarrow>
     spine_in ls' rs' pcs' q h gs = spine_in ls rs pcs q h gs"
  by (induction gs arbitrary: h) (auto simp: tree_in_cong [of _ ls' ls rs' rs pcs' pcs])

lemma spine_in_upd [simp]:
  assumes "a \<notin> set (post gs)" and "left_spine gs"
  shows "spine_in (ls(a := x)) rs pcs q h gs = spine_in ls rs pcs q h gs"
    and "spine_in ls (rs(a := x)) pcs q h gs = spine_in ls rs pcs q h gs"
    and "spine_in ls rs (pcs(a := w)) q h gs = spine_in ls rs pcs q h gs"
  using assms by (auto intro!: spine_in_cong)

lemma spine_in_link [simp]:
  assumes "set (post gs) \<inter> ctx_nodes fs = {}" and "left_spine gs"
  shows "spine_in (link_l v fs ls) rs pcs q h gs = spine_in ls rs pcs q h gs"
    and "spine_in ls (link_r v fs rs) pcs q h gs = spine_in ls rs pcs q h gs"
  using assms by (auto intro!: spine_in_cong link_other simp: disjoint_iff)

text \<open>A new subtree at the bottom of a left spine, and a new parent at its top.\<close>

lemma spine_bottom:
  assumes "spine_in ls rs pcs q h (LeftHole c p S # gs)" and "left_spine gs" and "distinct (post (LeftHole c p S # gs))"
  shows "spine_in (ls(p := h')) rs pcs q h' (LeftHole c p S # gs)"
  using assms by simp

lemma spine_top:
  assumes "spine_in ls rs pcs q h (gs @ [LeftHole c p S])" and "left_spine gs"
    and "distinct (post (gs @ [LeftHole c p S]))"
  shows "spine_in ls rs (pcs(p := pack q' c)) q' h (gs @ [LeftHole c p S])"
  using assms by (simp add: spine_in_append)

lemma top_of_Valid [simp]: "top_of (Valid a) fs \<noteq> Null" "Null \<noteq> top_of (Valid a) fs"
  by (induction fs arbitrary: a) simp_all

lemma leftmost_split: "t \<noteq> Leaf \<Longrightarrow> \<exists>gs c x r. t = fill (Node Leaf c x r) gs \<and> left_spine gs"
proof (induction t)
  case (Node l c a r)
  show ?case
  proof (cases "l = Leaf")
    case True
    then show ?thesis by (intro exI [of _ "[]"] exI [of _ c] exI [of _ a] exI [of _ r]) simp
  next
    case False
    with Node(1) obtain gs c' x r' where "l = fill (Node Leaf c' x r') gs" "left_spine gs" by blast
    then show ?thesis
      by (intro exI [of _ "gs @ [LeftHole c a r]"] exI [of _ c'] exI [of _ x] exI [of _ r']) simp
  qed
qed simp

lemma rb_height_fill: "rb_height t \<le> rb_height (fill t gs)"
proof (induction gs arbitrary: t)
  case (Cons f gs)
  have "rb_height t \<le> rb_height (plug t f)" by (cases f) simp_all
  with Cons [of "plug t f"] show ?case by simp
qed simp

lemma fill_Node: "0 < rb_height (fill (Node l c x r) gs)"
  using rb_height_fill [of "Node l c x r" gs] by simp

lemma leftmost_loop_wp:
  assumes "tree_at s (Valid q) (fill (Node Leaf c x r) gs)" and "left_spine gs"
    and "rb_height (fill (Node Leaf c x r) gs) \<le> fuel"
  shows "wp (leftmost_loop fuel q (root_of (fill (Node Leaf c x r) gs)))
    (\<lambda>res s'. s' = s \<and> res = (case gs of [] \<Rightarrow> q | f # _ \<Rightarrow> frame_node f, x)) s"
  using assms
proof (induction fuel arbitrary: q gs)
  case 0
  have "0 < rb_height (fill (Node Leaf c x r) gs)"
    by (rule fill_Node)
  with 0 show ?case by simp
next
  case (Suc fuel)
  show ?case
  proof (cases gs rule: rev_cases)
    case Nil
    with Suc.prems show ?thesis by (simp add: wp_rules)
  next
    case (snoc gs' f)
    then obtain fc b S where f: "f = LeftHole fc b S" using Suc.prems(2) by auto
    let ?t = "fill (Node Leaf c x r) gs'"
    have "?t \<noteq> Leaf" using fill_Node [of Leaf c x r gs'] by auto
    with Suc.IH [of b gs'] Suc.prems snoc f show ?thesis
      by (cases gs') (simp_all add: wp_rules)
  qed
qed

text \<open>The node is gone: the tree at its place, and the node handed over.\<close>

definition gone :: "('k, 'v) rb_store \<Rightarrow> node_ptr \<Rightarrow> ('k, 'v) rb_store" where
  "gone s a = s\<lparr>privatized := privatized s @ [a]\<rparr>"

lemma same_rest_gone [simp]:
  "same_rest (gone s a) s' \<longleftrightarrow> root_cell s' = root_cell s \<and> rb_key s' = rb_key s \<and> rb_val s' = rb_val s \<and>
     privatized s' = privatized s @ [a]"
  by (simp add: same_rest_def gone_def)

lemma tree_at_gone [simp]: "lefts (gone s a) = lefts s" "rights (gone s a) = rights s"
  "parent_colors (gone s a) = parent_colors s" "rb_key (gone s a) = rb_key s"
  by (simp_all add: gone_def)

lemma nofix_no_left:
  assumes "place s (Node Leaf c a r) fs"
  shows "wp (remove_nofix fuel a) (\<lambda>(new_root, rebalance) s'. replaced (gone s a) (paint c r) fs s' \<and>
      new_root = (if fs = [] then Some (root_of r) else None) \<and>
      rebalance = (if r = Leaf \<and> c = Black then parent_of fs else Null)) s"
proof (cases r)
  case Leaf
  show ?thesis
    using assms unfolding Leaf place_simps local_simps
    by (elim conjE) (simp add: remove_nofix_def wp_rules gone_def same_rest_def Let_def)
next
  case (Node rl rc b rr)
  show ?thesis
    using assms unfolding Node place_simps local_simps
    by (elim conjE) (simp add: remove_nofix_def wp_rules gone_def same_rest_def Let_def)
qed

lemma nofix_no_right:
  assumes "place s (Node l c a Leaf) fs" and "l \<noteq> Leaf"
  shows "wp (remove_nofix fuel a) (\<lambda>(new_root, rebalance) s'. replaced (gone s a) (paint c l) fs s' \<and>
      new_root = (if fs = [] then Some (root_of l) else None) \<and> rebalance = Null) s"
proof -
  obtain ll lc b lr where l: "l = Node ll lc b lr" using assms(2) by (cases l) auto
  show ?thesis
    using assms unfolding l place_simps local_simps
    by (elim conjE) (simp add: remove_nofix_def wp_rules gone_def same_rest_def Let_def)
qed

lemma nofix_next:
  assumes "place s (Node l c a (Node Leaf rc x rr)) fs" and "l \<noteq> Leaf"
  shows "wp (remove_nofix fuel a) (\<lambda>(new_root, rebalance) s'.
      replaced (gone s a) (Node l c x (paint Black rr)) fs s' \<and>
      new_root = (if fs = [] then Some (Valid x) else None) \<and>
      rebalance = (if rr = Leaf \<and> rc = Black then Valid x else Null)) s"
proof -
  obtain ll lc b lr where l: "l = Node ll lc b lr" using assms(2) by (cases l) auto
  show ?thesis
  proof (cases rr)
    case Leaf
    show ?thesis
      using assms unfolding Leaf l place_simps local_simps
      by (elim conjE) (simp add: remove_nofix_def wp_rules gone_def same_rest_def Let_def)
  next
    case (Node B bc y D)
    show ?thesis
      using assms unfolding Node l place_simps local_simps
      by (elim conjE) (simp add: remove_nofix_def wp_rules gone_def same_rest_def Let_def)
  qed
qed

lemma leftmost_loop_then:
  assumes "tree_at s (Valid q) (fill (Node Leaf c x r) gs)" and "left_spine gs"
    and "rb_height (fill (Node Leaf c x r) gs) \<le> fuel" and "root_of (fill (Node Leaf c x r) gs) = h"
    and "wp (g (case gs of [] \<Rightarrow> q | f # _ \<Rightarrow> frame_node f, x)) Q s"
  shows "wp (and_then (leftmost_loop fuel q h) g) Q s"
  using wp_conseq [OF leftmost_loop_wp [OF assms(1,2,3)], of "\<lambda>x. wp (g x) Q"] assms(4,5)
  by (intro wp_and_then) auto

lemma spine_moved:
  assumes "spine_in ls rs pcs q h gs" and "left_spine gs" and "distinct (post gs)"
    and "gs = LeftHole pc p S # gs1" and "gs = gs0 @ [LeftHole rc ch rr]"
  shows "spine_in (ls(p := h')) rs (pcs(ch := pack q' rc)) q' h' gs"
proof -
  have "spine_in ls rs (pcs(ch := pack q' rc)) q' h gs"
    using assms(1,2,3) spine_top [of ls rs pcs q h gs0 rc ch rr q'] unfolding assms(5) by simp
  from spine_bottom [OF this [unfolded assms(4)]] assms(2,3) show ?thesis unfolding assms(4) by simp
qed

lemma set_parent_link_Null [wp_rules]: "set_parent_link a Null v = ok ()"
  by (simp add: set_parent_link_def)

lemma links_order: "s\<lparr>rights := f, lefts := g\<rparr> = s\<lparr>lefts := g, rights := f\<rparr>"
  by simp

text \<open>The run, in terms of the cells it reads, for any postcondition.\<close>

lemma nofix_far_run:
  fixes s :: "('k :: linorder, 'v) rb_store"
  assumes own: "lefts s a = Valid b" "rights s a = Valid ch" "parent_colors s a = pack (parent_of fs) c"
      "ptr_color (parent_colors s b) = bc" "rights s x = h" "as_ref_color_word (parent_colors s x) = (q, xc)"
    and child: "ptr_color (parent_colors s ch) = rc"
      "tree_at s (Valid ch) (fill (Node Leaf xc' x xr) gs0)" "lefts s ch = root_of (fill (Node Leaf xc' x xr) gs0)"
    and lo: "left_spine gs0" "rb_height (fill (Node Leaf xc' x xr) gs0) \<le> fuel"
    and bot: "(case gs0 of [] \<Rightarrow> ch | f # _ \<Rightarrow> frame_node f) = p"
    and ne: "p \<noteq> x" "ch \<noteq> x" "a \<noteq> p" "a \<noteq> ch" "a \<noteq> x" "b \<noteq> p" "b \<noteq> ch" "b \<noteq> x" "b \<noteq> a"
    and k: "link_ok (rb_key s) a fs"
    and s': "s' = s\<lparr>lefts := link_l (Valid x) fs ((lefts s)(p := h, x := Valid b)),
         rights := link_r (Valid x) fs ((rights s)(x := Valid ch)),
         parent_colors := (case h of
            Null \<Rightarrow> (parent_colors s)(ch := pack (Valid x) rc, b := pack (Valid x) bc, x := pack (parent_of fs) c)
          | Valid y \<Rightarrow> (parent_colors s)(ch := pack (Valid x) rc, b := pack (Valid x) bc, x := pack (parent_of fs) c,
              y := pack (Valid p) Black)),
         privatized := privatized s @ [a]\<rparr>"
    and Q: "Q (if fs = [] then Some (Valid x) else None, if h = Null \<and> xc = Black then Valid p else Null) s'"
  shows "wp (remove_nofix fuel a) Q s"
proof -
  have nonnull: "root_of (fill (Node Leaf xc' x xr) gs0) \<noteq> Null"
    using fill_Node [of Leaf xc' x xr gs0] by auto
  show ?thesis
    unfolding remove_nofix_def
    by (simp add: wp_rules own child(3) nonnull, rule leftmost_loop_then [OF child(2) lo(1,2)], simp,
      insert Q, cases h; cases "fs = []")
      (simp_all add: wp_rules bot own child(1) ne ne [symmetric] k Let_def s' links_order)
qed

lemma nofix_far:
  assumes pl: "place s (Node l c a (fill (Node Leaf xc x xr) gs)) fs" and "l \<noteq> Leaf" and gs: "gs \<noteq> []" "left_spine gs"
    and fuel: "rb_height (fill (Node Leaf xc x xr) gs) \<le> fuel"
  shows "wp (remove_nofix fuel a) (\<lambda>(new_root, rebalance) s'.
      replaced (gone s a) (Node l c x (fill (paint Black xr) gs)) fs s' \<and>
      new_root = (if fs = [] then Some (Valid x) else None) \<and>
      rebalance = (if xr = Leaf \<and> xc = Black then parent_of gs else Null)) s"
proof -
  obtain ll lc b lr where l: "l = Node ll lc b lr" using assms(2) by (cases l) auto
  obtain pc p S gs1 where low: "gs = LeftHole pc p S # gs1" using gs by (cases gs) auto
  obtain gs0 rc ch rr where top: "gs = gs0 @ [LeftHole rc ch rr]" using gs by (cases gs rule: rev_cases) auto
  have t: "tree_at s (parent_of fs) (Node l c a (fill (Node Leaf xc x xr) gs))"
    and c: "ctx_any (lefts s) (rights s) (parent_colors s) fs" and k: "link_ok (rb_key s) a fs"
    and df: "distinct (pre fs)" "distinct (post fs)" "set (pre fs) \<inter> set (post fs) = {}"
    using pl by (simp_all add: place_def)
  have d: "distinct (inorder l @ a # x # inorder xr @ post gs)"
    and dc: "set (inorder l @ a # x # inorder xr @ post gs) \<inter> ctx_nodes fs = {}"
    using pl gs(2) by (simp_all add: place_def inorder_fill Int_Un_distrib2)
  have roots: "top_of h gs = Valid ch" for h
    unfolding top by (induction gs0 arbitrary: h) simp_all
  have parent: "parent_of gs = Valid p" by (simp add: low)
  have mem: "p \<in> set (post gs)" "ch \<in> set (post gs)"
    by (simp add: low) (simp add: top)
  have sp: "spine_in (lefts s) (rights s) (parent_colors s) (Valid a) (Valid x) gs"
    and bottom: "tree_at s (Valid p) (Node Leaf xc x xr)"
    using t gs by (simp_all add: tree_in_spine parent)
  have moved: "spine_in ((lefts s)(p := root_of xr)) (rights s) ((parent_colors s)(ch := pack (Valid x) rc)) (Valid x)
      (root_of xr) gs"
    using spine_moved [OF sp gs(2) _ low top] d by simp
  have child: "parent_colors s ch = pack (Valid a) rc"
    "tree_at s (Valid ch) (fill (Node Leaf xc x xr) gs0)" "lefts s ch = root_of (fill (Node Leaf xc x xr) gs0)"
    using t unfolding top by simp_all
  have lo: "left_spine gs0" "rb_height (fill (Node Leaf xc x xr) gs0) \<le> fuel"
    using gs(2) fuel unfolding top by simp_all
  have bot: "(case gs0 of [] \<Rightarrow> ch | f # _ \<Rightarrow> frame_node f) = p"
    using low top by (cases gs0) auto
  have nonnull: "root_of (fill (Node Leaf xc x xr) gs0) \<noteq> Null"
    using fill_Node [of Leaf xc x xr gs0] by auto
  have ne: "p \<noteq> x" "ch \<noteq> x" "a \<noteq> p" "a \<noteq> ch" "a \<noteq> x" "b \<noteq> p" "b \<noteq> ch" "b \<noteq> x" "b \<noteq> a"
    using d mem unfolding l by auto
  have own: "lefts s a = Valid b" "rights s a = Valid ch" "parent_colors s a = pack (parent_of fs) c"
      "ptr_color (parent_colors s b) = lc" "rights s x = root_of xr"
      "as_ref_color_word (parent_colors s x) = (Valid p, xc)" "ptr_color (parent_colors s ch) = rc"
    and sub: "tree_at s (Valid a) l" "tree_at s (Valid x) xr"
    using t bottom roots child by (simp_all add: l)
  have out: "p \<notin> set (inorder l)" "p \<notin> set (inorder xr)" "p \<notin> ctx_nodes fs"
      "ch \<notin> set (inorder l)" "ch \<notin> set (inorder xr)" "ch \<notin> ctx_nodes fs"
    using d dc mem by auto
  define F where "F = s\<lparr>lefts := link_l (Valid x) fs ((lefts s)(p := root_of xr, x := Valid b)),
         rights := link_r (Valid x) fs ((rights s)(x := Valid ch)),
         parent_colors := (case root_of xr of
            Null \<Rightarrow> (parent_colors s)(ch := pack (Valid x) rc, b := pack (Valid x) lc, x := pack (parent_of fs) c)
          | Valid y \<Rightarrow> (parent_colors s)(ch := pack (Valid x) rc, b := pack (Valid x) lc, x := pack (parent_of fs) c,
              y := pack (Valid p) Black)),
         privatized := privatized s @ [a]\<rparr>"
  have apart: "a \<notin> set (post gs)" "x \<notin> set (post gs)" "b \<notin> set (post gs)" "a \<notin> ctx_nodes fs" "x \<notin> ctx_nodes fs"
      "b \<notin> ctx_nodes fs" "set (post gs) \<inter> ctx_nodes fs = {}" "x \<notin> set (inorder ll)" "x \<notin> set (inorder lr)"
      "b \<notin> set (inorder ll)" "b \<notin> set (inorder lr)" "set (inorder ll) \<inter> ctx_nodes fs = {}"
      "set (inorder lr) \<inter> ctx_nodes fs = {}" "p \<notin> set (inorder ll)" "p \<notin> set (inorder lr)"
      "ch \<notin> set (inorder ll)" "ch \<notin> set (inorder lr)"
    and xr: "set (inorder xr) \<inter> ctx_nodes fs = {}" "x \<notin> set (inorder xr)" "b \<notin> set (inorder xr)" "distinct (inorder xr)"
      "set (inorder xr) \<inter> set (inorder ll) = {}" "set (inorder xr) \<inter> set (inorder lr) = {}"
      "set (inorder xr) \<inter> set (post gs) = {}"
    using d dc out unfolding l by auto
  have links: "lefts s b = root_of ll" "rights s b = root_of lr" "tree_at s (Valid b) ll" "tree_at s (Valid b) lr"
    using sub by (simp_all add: l)
  have "tree_at F (Valid x) l"
    using links apart xr ne out unfolding F_def l by (cases xr) simp_all
  moreover have "tree_at F (Valid p) (paint Black xr)"
  proof (cases xr)
    case Leaf
    then show ?thesis by simp
  next
    case (Node A cy y B)
    show ?thesis
      using sub(2) xr(1-4) out ne unfolding F_def Node local_simps paint.simps by (elim conjE) simp
  qed
  moreover have "spine_in (lefts F) (rights F) (parent_colors F) (Valid x) (root_of xr) gs"
    using moved apart xr ne out gs(2) unfolding F_def by (cases xr) simp_all
  moreover have "ctx_at F (Valid x) fs"
    using c df apart xr ne out unfolding F_def by (cases xr) simp_all
  moreover have "lefts F x = root_of l" "rights F x = Valid ch" "parent_colors F x = pack (parent_of fs) c" 
    using apart xr(2) ne l unfolding F_def by (cases xr; simp)+
  moreover have "same_rest (gone s a) F"
    by (simp add: F_def)
  ultimately have "replaced (gone s a) (Node l c x (fill (paint Black xr) gs)) fs F"
    using gs roots parent by (simp add: replaced_def tree_in_spine)
  then show ?thesis
    by (intro nofix_far_run [OF own(1-6,7) child(2,3) lo bot ne k F_def]) (simp add: parent)
qed

section \<open>What is left\<close>

text \<open>After a node with one child at most is taken out: a red-black tree, or a position that is one black node short.\<close>

definition taken_out :: "(node_ptr \<Rightarrow> 'k :: linorder) \<Rightarrow> rbt \<Rightarrow> frame list \<Rightarrow> rbref \<Rightarrow> bool" where
  "taken_out key X hs rebalance \<longleftrightarrow>
     (case rebalance of
        Null \<Rightarrow> rb_tree (fill X hs)
      | Valid p \<Rightarrow> X = Leaf \<and> (\<exists>f hs'. hs = f # hs' \<and> frame_node f = p) \<and> short key X hs)"

lemma length_height: "length fs + rb_height t \<le> rb_height (fill t fs)"
proof (induction fs arbitrary: t)
  case (Cons f fs)
  have "Suc (rb_height t) \<le> rb_height (plug t f)" by (cases f) simp_all
  with Cons [of "plug t f"] show ?case by simp
qed simp

lemma bheight_0: "invc t \<Longrightarrow> invh t \<Longrightarrow> bheight t = 0 \<Longrightarrow> t = Leaf \<or> (\<exists>a. t = Node Leaf Red a Leaf)"
  by (induction t) (auto split: if_splits)

lemma one_child:
  assumes rb: "rb_tree (fill (Node l c x r) hs)" and one: "l = Leaf \<or> r = Leaf" and Y: "Y = (if l = Leaf then r else l)"
    and so: "key_sorted key (pre hs @ post hs)"
  shows "Y \<noteq> Leaf \<Longrightarrow> c = Black"
    and "taken_out key (paint c Y) hs (if Y = Leaf \<and> c = Black then parent_of hs else Null)"
proof -
  have inv: "invc (Node l c x r)" "invh (Node l c x r)"
    and ctx: "ctx_ok (bheight (Node l c x r)) c hs"
    using rb by (simp_all add: rb_tree_fill)
  have "bheight l = 0" "bheight r = 0" using inv(2) one by auto
  then have L: "l = Leaf \<or> (\<exists>a. l = Node Leaf Red a Leaf)" and R: "r = Leaf \<or> (\<exists>a. r = Node Leaf Red a Leaf)"
    using inv bheight_0 [of l] bheight_0 [of r] by simp_all
  have YY: "Y = Leaf \<or> (\<exists>a. Y = Node Leaf Red a Leaf)"
    using L R Y by auto
  show cb: "Y \<noteq> Leaf \<Longrightarrow> c = Black"
    using L R Y inv(1) by (cases c) (auto split: if_splits)
  show "taken_out key (paint c Y) hs (if Y = Leaf \<and> c = Black then parent_of hs else Null)"
  proof (cases "Y = Leaf")
    case True
    have "ctx_ok 0 Black hs" if "c = Red"
      using ctx that \<open>bheight l = 0\<close> ctx_ok_Black [of 0 Red hs] by simp
    moreover have "ctx_ok (Suc 0) Black hs" if "c = Black"
      using ctx that \<open>bheight l = 0\<close> by simp
    ultimately show ?thesis
      using True so
      by (cases c; cases hs) (auto simp: taken_out_def rb_tree_fill short_def simp del: ctx_ok.simps fill_simps, simp)
  next
    case False
    with YY obtain a where a: "Y = Node Leaf Red a Leaf" by blast
    with cb have "c = Black" by simp
    with ctx \<open>bheight l = 0\<close> a show ?thesis by (simp add: taken_out_def rb_tree_fill)
  qed
qed

lemma ctx_ok_rename: "ctx_ok n c (gs @ RightHole l cc a # fs) = ctx_ok n c (gs @ RightHole l cc b # fs)"
  by (induction gs arbitrary: n c) simp_all


text \<open>The result of \<open>remove_nofix\<close>.\<close>

definition unlinked ::
  "nat \<Rightarrow> ('k :: linorder, 'v) rb_store \<Rightarrow> node_ptr \<Rightarrow> node_ptr list \<Rightarrow> rbref \<Rightarrow> rbref option \<Rightarrow> rbref \<Rightarrow> ('k, 'v) rb_store \<Rightarrow> bool"
  where
  "unlinked d s a xs r0 new_root rebalance s' \<longleftrightarrow>
     (\<exists>X hs. taken_out (rb_key s) X hs rebalance \<and> tree_at s' Null (fill X hs) \<and> inorder (fill X hs) = xs \<and>
        (case new_root of Some r \<Rightarrow> r | None \<Rightarrow> r0) = top_of (root_of X) hs \<and> same_rest (gone s a) s' \<and>
        length hs \<le> d)"

lemma unlinkedI:
  assumes "taken_out (rb_key s) X hs rebalance" and "replaced (gone s a) t fs s'" and "fill X hs = fill t fs"
    and "pre fs @ inorder t @ post fs = xs" and "new_root = (if fs = [] then Some (root_of t) else None)"
    and "r0 = top_of h fs" and "length hs \<le> d"
  shows "unlinked d s a xs r0 new_root rebalance s'"
  unfolding unlinked_def
proof (intro exI conjI)
  show "taken_out (rb_key s) X hs rebalance" "length hs \<le> d" by (fact assms)+
  show "tree_at s' Null (fill X hs)" "same_rest (gone s a) s'"
    using assms(2,3) replaced_tree [OF assms(2)] by (simp_all add: replaced_def del: same_rest_gone)
  show "inorder (fill X hs) = xs" using assms(3,4) by (simp add: inorder_fill)
  have "top_of (root_of X) hs = root_of (fill t fs)" by (simp flip: assms(3))
  then show "(case new_root of Some r \<Rightarrow> r | None \<Rightarrow> r0) = top_of (root_of X) hs"
    using assms(5,6) by (simp add: top_of_other)
qed

lemma remove_nofix_wp:
  fixes s :: "('k :: linorder, 'v) rb_store"
  assumes tree: "tree_at s Null (fill (Node l c a r) fs)" and rb: "rb_tree (fill (Node l c a r) fs)"
    and so: "key_sorted (rb_key s) (pre fs @ inorder (Node l c a r) @ post fs)"
    and fuel: "rb_height (fill (Node l c a r) fs) \<le> fuel"
  shows "wp (remove_nofix fuel a)
    (\<lambda>(new_root, rebalance). unlinked fuel s a (pre fs @ inorder l @ inorder r @ post fs) (top_of (Valid a) fs) new_root rebalance) s"
proof -
  have pl: "place s (Node l c a r) fs" using tree so by (rule placeI)
  have rest: "key_sorted (rb_key s) (pre fs @ inorder l @ inorder r @ post fs)"
    using so by auto
  have len: "length gs + length fs < fuel" if "r = fill (Node Leaf xc x xr) gs" for xc x xr gs
    using fuel length_height [of fs "Node l c a r"] length_height [of gs "Node Leaf xc x xr"] that by auto
  have lf: "length fs \<le> fuel" using fuel length_height [of fs "Node l c a r"] by simp
  consider "l = Leaf" | "l \<noteq> Leaf" "r = Leaf" | "l \<noteq> Leaf" "r \<noteq> Leaf" by blast
  then show ?thesis
  proof cases
    case 1
    have "taken_out (rb_key s) (paint c r) fs (if r = Leaf \<and> c = Black then parent_of fs else Null)"
      using one_child(2) [OF rb _ refl, of "rb_key s"] rest 1 by auto
    then show ?thesis
      by (intro wp_conseq [OF nofix_no_left [OF pl [unfolded 1]]]) (auto intro!: unlinkedI simp: 1 lf)
  next
    case 2
    have "taken_out (rb_key s) (paint c l) fs Null"
      using one_child(2) [OF rb _ refl, of "rb_key s"] rest 2 by auto
    then show ?thesis
      by (intro wp_conseq [OF nofix_no_right [OF pl [unfolded 2] 2(1)]]) (auto intro!: unlinkedI simp: 2 lf)
  next
    case 3
    obtain gs xc x xr where r: "r = fill (Node Leaf xc x xr) gs" and gs: "left_spine gs"
      using leftmost_split [OF 3(2)] by blast
    let ?hs = "gs @ RightHole l c x # fs"
    have "rb_tree (fill (Node Leaf xc x xr) (gs @ RightHole l c a # fs))"
      using rb by (simp add: r)
    then have rb': "rb_tree (fill (Node Leaf xc x xr) ?hs)"
      unfolding rb_tree_fill ctx_ok_rename [of _ _ gs l c a fs x] .
    have ri: "inorder r = x # inorder xr @ post gs"
      using gs by (simp add: r inorder_fill)
    have "key_sorted (rb_key s) (pre ?hs @ post ?hs)"
      using rest gs by (simp add: ri) blast
    note left = one_child [OF rb' _ refl this]
    have "xr = Leaf \<or> xc = Black" using left(1) by auto
    then have out: "taken_out (rb_key s) (paint Black xr) ?hs (if xr = Leaf \<and> xc = Black then parent_of ?hs else Null)"
      using left(2) by auto
    have same: "fill (paint Black xr) ?hs = fill (Node l c x (fill (paint Black xr) gs)) fs"
      by simp
    have nodes: "pre fs @ inorder (Node l c x (fill (paint Black xr) gs)) @ post fs = pre fs @ inorder l @ inorder r @ post fs"
      using gs by (simp add: ri inorder_fill)
    have "length ?hs \<le> fuel" using len [OF r] by simp
    have fin: "unlinked fuel s a (pre fs @ inorder l @ inorder r @ post fs) (top_of (Valid a) fs)
        (if fs = [] then Some (Valid x) else None) (if xr = Leaf \<and> xc = Black then parent_of ?hs else Null) s'"
      if "replaced (gone s a) (Node l c x (fill (paint Black xr) gs)) fs s'" for s'
      by (rule unlinkedI [OF out that same nodes _ refl \<open>length ?hs \<le> fuel\<close>]) simp
    show ?thesis
    proof (cases "gs = []")
      case True
      then have ph: "parent_of ?hs = Valid x" by simp
      with True show ?thesis
        by (intro wp_conseq [OF nofix_next [OF pl [unfolded r True fill_simps] 3(1)]])
          (use fin [unfolded ph] in \<open>clarsimp split del: if_split\<close>)
    next
      case False
      then have ph: "parent_of ?hs = parent_of gs" by (simp add: parent_of_append)
      have "rb_height (fill (Node Leaf xc x xr) gs) \<le> fuel"
        using fuel rb_height_fill [of "Node l c a r" fs] by (simp add: r)
      from nofix_far [OF pl [unfolded r] 3(1) False gs this] show ?thesis
        by (rule wp_conseq) (use fin [unfolded ph] in \<open>clarsimp split del: if_split\<close>)
    qed
  qed
qed

lemma rb_tree_nonempty: "a \<in> set (inorder t) \<Longrightarrow> \<exists>l c r fs. t = fill (Node l c a r) fs"
proof (induction t)
  case (Node l c b r)
  then consider "a = b" | "a \<in> set (inorder l)" | "a \<in> set (inorder r)" by auto
  then show ?case
  proof cases
    case 1
    then show ?thesis by (intro exI [of _ l] exI [of _ c] exI [of _ r] exI [of _ "[]"]) simp
  next
    case 2
    with Node(1) obtain l' c' r' fs where "l = fill (Node l' c' a r') fs" by blast
    then show ?thesis
      by (intro exI [of _ l'] exI [of _ c'] exI [of _ r'] exI [of _ "fs @ [LeftHole c b r]"]) simp
  next
    case 3
    with Node(2) obtain l' c' r' fs where "r = fill (Node l' c' a r') fs" by blast
    then show ?thesis
      by (intro exI [of _ l'] exI [of _ c'] exI [of _ r'] exI [of _ "fs @ [RightHole l c b]"]) simp
  qed
qed simp

definition shrunk ::
  "('k :: linorder, 'v) rb_store \<Rightarrow> node_ptr list \<Rightarrow> node_ptr \<Rightarrow> ('k, 'v) rb_store \<Rightarrow> bool" where
  "shrunk s xs a s' \<longleftrightarrow>
     (\<exists>t. holds_tree s' t \<and> inorder t = xs) \<and> rb_key s' = rb_key s \<and> rb_val s' = rb_val s \<and>
     privatized s' = privatized s @ [a]"

lemma rb_remove_wp:
  fixes s :: "('k :: linorder, 'v) rb_store"
  assumes h: "holds_tree s (fill (Node l c a r) fs)" and fuel: "rb_height (fill (Node l c a r) fs) \<le> fuel"
  shows "wp (rb_remove fuel a) (\<lambda>x s'. x = a \<and> shrunk s (pre fs @ inorder l @ inorder r @ post fs) a s') s"
proof -
  let ?xs = "pre fs @ inorder l @ inorder r @ post fs"
  have so: "key_sorted (rb_key s) (pre fs @ inorder (Node l c a r) @ post fs)" "key_sorted (rb_key s) ?xs"
    and root: "root_cell s = top_of (Valid a) fs"
    using h by (auto simp: holds_tree_def inorder_fill)
  define fin :: "rbref option \<Rightarrow> ('k, 'v, node_ptr) rb" where
    "fin new_root = and_then (case new_root of Some r \<Rightarrow> set_root r | None \<Rightarrow> ok ()) (\<lambda>_. ok a)" for new_root
  have fin: "wp (fin new_root) (\<lambda>x s'. x = a \<and> shrunk s ?xs a s') s'"
    if "tree_at s' Null t" "rb_tree t" "inorder t = ?xs" "same_rest (gone s a) s'"
      "(case new_root of Some r \<Rightarrow> r | None \<Rightarrow> root_cell s) = root_of t" for new_root s' t
    using that so(2) by (cases new_root) (auto simp: fin_def wp_rules shrunk_def holds_tree_def intro!: exI [of _ t])
  have "wp (and_then (case rebalance of
        Valid rebalance \<Rightarrow> and_then (remove_fixup fuel rebalance) (\<lambda>n. ok (or_else (map_option Valid n) new_root))
      | Null \<Rightarrow> ok new_root) fin) (\<lambda>x s'. x = a \<and> shrunk s ?xs a s') s'"
    if u: "unlinked fuel s a ?xs (root_cell s) new_root rebalance s'" for new_root rebalance s'
  proof -
    obtain X hs where out: "taken_out (rb_key s) X hs rebalance" and t: "tree_at s' Null (fill X hs)" "inorder (fill X hs) = ?xs"
      and r: "(case new_root of Some r \<Rightarrow> r | None \<Rightarrow> root_cell s) = top_of (root_of X) hs"
      and same: "same_rest (gone s a) s'" and len: "length hs \<le> fuel"
      using u unfolding unlinked_def by blast
    show ?thesis
    proof (cases rebalance)
      case Null
      with out t r same show ?thesis by (simp add: wp_rules taken_out_def fin)
    next
      case (Valid p)
      then obtain f hs' where X: "X = Leaf" and hs: "hs = f # hs'" "frame_node f = p" and sh: "short (rb_key s) X hs"
        using out by (auto simp: taken_out_def)
      have k: "rb_key s' = rb_key s" using same by simp
      have "wp (remove_loop_rb fuel (root_of X) (frame_node f) None)
        (\<lambda>res. repaired s' (inorder (fill X hs)) (top_of Null hs) (repair_of res)) s'"
        using sh hs(1) t(1) len by (intro remove_loop_wp) (simp_all add: k)
      then have "wp (remove_fixup fuel p) (\<lambda>res. wp (fin (or_else (map_option Valid res) new_root))
          (\<lambda>x s'. x = a \<and> shrunk s ?xs a s')) s'"
        unfolding remove_fixup_def X root_of.simps hs(2)
      proof (rule wp_conseq)
        fix res s''
        assume "repaired s' (inorder (fill Leaf hs)) (top_of Null hs) (repair_of res) s''"
        then obtain t' where "tree_at s'' Null t'" "inorder t' = ?xs" "rb_tree t'"
          "root_after (repair_of res) (top_of Null hs) = root_of t'" "same_rest s' s''"
          using t(2) X unfolding repaired_def by auto
        with same r X show "wp (fin (or_else (map_option Valid res) new_root)) (\<lambda>x s'. x = a \<and> shrunk s ?xs a s') s''"
          by (intro fin [of s'' t']) (auto simp: same_rest_def gone_def or_else_def repair_of_def split: option.splits)
      qed
      with Valid show ?thesis
        by (simp add: and_then_assoc and_then_ok wp_and_then)
    qed
  qed
  then have "wp (remove_nofix fuel a) (\<lambda>(new_root, rebalance). wp (and_then (case rebalance of
        Valid rebalance \<Rightarrow> and_then (remove_fixup fuel rebalance) (\<lambda>n. ok (or_else (map_option Valid n) new_root))
      | Null \<Rightarrow> ok new_root) fin) (\<lambda>x s'. x = a \<and> shrunk s ?xs a s')) s"
    using h so(1) fuel
    by (intro wp_conseq [OF remove_nofix_wp]) (auto simp: holds_tree_def)
  then show ?thesis
    unfolding rb_remove_def fin_def by (intro wp_and_then) (simp add: case_prod_beta')
qed

end
