(* ===== verification/Rb_Map.thy ===== *)
theory Rb_Map
  imports Rb_Unlink
begin

text \<open>
  The map of \<open>swym-rbtree/src/lib.rs\<close>: the height of its tree, what a client of a map relies on, and that the
  operations give it.
\<close>

section \<open>The height of the tree\<close>

lemma bheight_size: "invh t \<Longrightarrow> 2 ^ bheight t \<le> length (inorder t) + 1"
proof (induction t)
  case (Node l c a r)
  then have "2 ^ bheight l \<le> length (inorder l) + 1" "2 ^ bheight l \<le> length (inorder r) + 1"
    by simp_all
  then show ?case by simp
qed simp

lemma rb_height_bheight: "invc t \<Longrightarrow> invh t \<Longrightarrow> rb_height t \<le> 2 * bheight t + (if color_of t = Red then 1 else 0)"
  by (induction t) (auto split: if_splits)

text \<open>There are fewer than \<open>2 ^ 63\<close> addresses for nodes.\<close>

lemma even_unat: "even (w :: usize) \<Longrightarrow> even (unat w)"
  by transfer (simp add: even_take_bit_eq even_nat_iff)

lemma card_nodes: "card (xs :: node_ptr set) \<le> 2 ^ 63 - 1"
proof -
  have ev: "even (unat (node_addr p))" for p
    using node_addr_props(2) [of p] by (intro even_unat) (simp add: and_one_eq even_iff_mod_2_eq_zero)
  have "inj_on (\<lambda>p. unat (node_addr p) div 2) xs"
  proof (rule inj_onI)
    fix p q
    assume "unat (node_addr p) div 2 = unat (node_addr q) div 2"
    then have "unat (node_addr p) = unat (node_addr q)"
      using ev [of p] ev [of q] by (metis dvd_mult_div_cancel)
    then show "p = q" by (simp only: word_unat_eq_iff [symmetric] node_addr_inject)
  qed
  moreover have "(\<lambda>p. unat (node_addr p) div 2) ` xs \<subseteq> {1 ..< 2 ^ 63}"
  proof
    fix k
    assume "k \<in> (\<lambda>p. unat (node_addr p) div 2) ` xs"
    then obtain p where k: "k = unat (node_addr p) div 2" by blast
    have "unat (node_addr p) < 2 ^ 64" using unsigned_less [of "node_addr p"] by simp
    moreover have "unat (node_addr p) \<noteq> 0" using node_addr_props(1) [of p] by (simp add: unat_eq_zero)
    ultimately show "k \<in> {1 ..< 2 ^ 63}" using ev [of p] unfolding k by (auto elim!: evenE)
  qed
  ultimately have "card xs \<le> card {1 ..< 2 ^ 63 :: nat}"
    using card_inj_on_le by blast
  then show ?thesis by simp
qed

lemma rb_height_126:
  assumes "rb_tree t" and "distinct (inorder t)"
  shows "rb_height t \<le> 126"
proof -
  have "length (inorder t) \<le> 2 ^ 63 - 1"
    using card_nodes [of "set (inorder t)"] distinct_card [OF assms(2)] by simp
  with bheight_size [of t] assms(1) have "(2 :: nat) ^ bheight t \<le> 2 ^ 63" by (simp add: rb_tree_def)
  then have "bheight t \<le> 63" by (simp only: power_increasing_iff)
  with rb_height_bheight [of t] assms(1) show ?thesis by (simp add: rb_tree_def)
qed

text \<open>So 127 turns are enough for every loop on a tree.\<close>

definition rb_fuel :: nat where
  "rb_fuel = 127"

lemma rb_fuel_enough: "holds_tree s t \<Longrightarrow> rb_height t < rb_fuel"
  using rb_height_126 [of t] by (auto simp: holds_tree_def rb_fuel_def dest: key_sorted_distinct)

section \<open>The map a store holds\<close>

definition represents :: "('k :: linorder, 'v) rb_store \<Rightarrow> ('k \<rightharpoonup> 'v) \<Rightarrow> bool" where
  "represents s m \<longleftrightarrow> (\<exists>t. holds_tree s t \<and> m = rb_map s (inorder t))"

text \<open>The allocator returns an address that no node of the tree has.\<close>

definition fresh_node :: "('k :: linorder, 'v) rb_store \<Rightarrow> node_ptr \<Rightarrow> bool" where
  "fresh_node s n \<longleftrightarrow> (\<forall>t. holds_tree s t \<longrightarrow> n \<notin> set (inorder t))"

lemma key_sorted_inj: "key_sorted key xs \<Longrightarrow> inj_on key (set xs)"
proof (induction xs)
  case (Cons a xs)
  then have "key a \<notin> key ` set xs" by fastforce
  with Cons show ?case by (auto simp: inj_on_insert)
qed simp

lemma rb_map_at:
  assumes "key_sorted (rb_key s) xs" and "a \<in> set xs"
  shows "rb_map s xs (rb_key s a) = Some (rb_val s a)"
  using assms unfolding rb_map_def by (induction xs) (auto dest: less_imp_neq)

lemma rb_map_none: "k \<notin> rb_key s ` set xs \<Longrightarrow> rb_map s xs k = None"
  unfolding rb_map_def by (simp add: map_of_eq_None_iff image_image)

lemma rb_map_unique:
  assumes "key_sorted (rb_key s) xs" and "\<And>a. a \<in> set xs \<Longrightarrow> m (rb_key s a) = Some (rb_val s a)"
    and "\<And>k. k \<notin> rb_key s ` set xs \<Longrightarrow> m k = None"
  shows "rb_map s xs = m"
proof
  fix k
  show "rb_map s xs k = m k"
  proof (cases "k \<in> rb_key s ` set xs")
    case True
    with assms(1,2) show ?thesis by (auto simp: rb_map_at)
  next
    case False
    with assms(3) show ?thesis by (simp add: rb_map_none)
  qed
qed

lemma rb_map_update:
  assumes "key_sorted (rb_key s) xs" and "a \<in> set xs"
  shows "rb_map (s\<lparr>rb_val := (rb_val s)(a := v)\<rparr>) xs = (rb_map s xs)(rb_key s a \<mapsto> v)"
proof (rule rb_map_unique)
  have inj: "inj_on (rb_key s) (set xs)"
    by (rule key_sorted_inj [OF assms(1)])
  show "((rb_map s xs)(rb_key s a \<mapsto> v)) (rb_key (s\<lparr>rb_val := (rb_val s)(a := v)\<rparr>) b) =
      Some (rb_val (s\<lparr>rb_val := (rb_val s)(a := v)\<rparr>) b)" if "b \<in> set xs" for b
    using rb_map_at [OF assms(1) that] inj_onD [OF inj _ that assms(2)] by auto
qed (use assms in \<open>auto simp: rb_map_none\<close>)

lemma grown_map:
  assumes g: "grown s (pre fs @ [n] @ post fs) n key value s'" and h: "holds_tree s (fill Leaf fs)"
    and n: "n \<notin> set (inorder (fill Leaf fs))" and slot: "slot_for (rb_key s) key fs"
  shows "\<exists>t. holds_tree s' t \<and> n \<in> set (inorder t) \<and>
      rb_map s' (inorder t) = (rb_map s (inorder (fill Leaf fs)))(key \<mapsto> value)"
proof -
  obtain t where t: "holds_tree s' t" "inorder t = pre fs @ [n] @ post fs"
    and k: "rb_key s' = (rb_key s)(n := key)" "rb_val s' = (rb_val s)(n := value)"
    using g by (auto simp: grown_def)
  let ?xs = "pre fs @ post fs"
  have old: "key_sorted (rb_key s) ?xs" using h by (simp add: holds_tree_def inorder_fill)
  have new: "key_sorted (rb_key s') (pre fs @ [n] @ post fs)" using t by (simp add: holds_tree_def)
  have out: "rb_key s a \<noteq> key" "a \<noteq> n" if "a \<in> set ?xs" for a
    using slot n that by (auto simp: slot_for_def inorder_fill)
  have "rb_map s' (pre fs @ [n] @ post fs) = (rb_map s ?xs)(key \<mapsto> value)"
  proof (rule rb_map_unique [OF new])
    show "((rb_map s ?xs)(key \<mapsto> value)) (rb_key s' a) = Some (rb_val s' a)" if "a \<in> set (pre fs @ [n] @ post fs)" for a
      using that out [of a] rb_map_at [OF old, of a] by (cases "a = n") (auto simp: k)
  next
    fix j
    assume j: "j \<notin> rb_key s' ` set (pre fs @ [n] @ post fs)"
    have "j \<notin> rb_key s ` set ?xs"
    proof
      assume "j \<in> rb_key s ` set ?xs"
      then obtain a where "a \<in> set ?xs" "j = rb_key s a" by blast
      with out(2) [of a] j show False by (auto simp: k)
    qed
    then show "((rb_map s ?xs)(key \<mapsto> value)) j = None"
      using j by (auto simp: rb_map_none k)
  qed
  with t show ?thesis
    by (intro exI [of _ t]) (simp add: inorder_fill)
qed

lemma shrunk_map:
  assumes g: "shrunk s (pre fs @ inorder l @ inorder r @ post fs) a s'" and h: "holds_tree s (fill (Node l c a r) fs)"
  shows "represents s' ((rb_map s (inorder (fill (Node l c a r) fs)))(rb_key s a := None))"
proof -
  let ?xs = "pre fs @ inorder l @ inorder r @ post fs" and ?ys = "pre fs @ inorder l @ a # inorder r @ post fs"
  obtain t where t: "holds_tree s' t" "inorder t = ?xs" and k: "rb_key s' = rb_key s" "rb_val s' = rb_val s"
    using g by (auto simp: shrunk_def)
  have old: "key_sorted (rb_key s) ?ys" using h by (simp add: holds_tree_def inorder_fill)
  have new: "key_sorted (rb_key s') ?xs" using t by (simp add: holds_tree_def)
  have out: "rb_key s b \<noteq> rb_key s a" if "b \<in> set ?xs" for b
  proof -
    have "rb_key s b < rb_key s a \<or> rb_key s a < rb_key s b" using old that by auto
    then show ?thesis by auto
  qed
  have "rb_map s' ?xs = (rb_map s ?ys)(rb_key s a := None)"
  proof (rule rb_map_unique [OF new])
    show "((rb_map s ?ys)(rb_key s a := None)) (rb_key s' b) = Some (rb_val s' b)" if "b \<in> set ?xs" for b
      using that out [OF that] rb_map_at [OF old, of b] by (auto simp: k)
  next
    fix j
    assume "j \<notin> rb_key s' ` set ?xs"
    then show "((rb_map s ?ys)(rb_key s a := None)) j = None"
      using rb_map_none [of j s ?ys] by (cases "j = rb_key s a") (auto simp: k)
  qed
  with t show ?thesis
    by (auto simp: represents_def inorder_fill intro!: exI [of _ t])
qed

section \<open>A map for transactions\<close>

text \<open>
  What a client of the map relies on: lookups, insertions and removals are those of a finite map, and the
  only way for them not to return is a conflict.
\<close>

locale tx_map =
  fixes rep :: "('k :: linorder, 'v) rb_store \<Rightarrow> ('k \<rightharpoonup> 'v) \<Rightarrow> bool"
    and fresh :: "('k, 'v) rb_store \<Rightarrow> node_ptr \<Rightarrow> bool"
    and look :: "'k \<Rightarrow> ('k, 'v, 'v option) rb"
    and put :: "node_ptr \<Rightarrow> 'k \<Rightarrow> 'v \<Rightarrow> ('k, 'v, 'v option) rb"
    and del :: "'k \<Rightarrow> ('k, 'v, 'v option) rb"
  assumes look: "rep s m \<Longrightarrow> wp (look k) (\<lambda>r s'. r = m k \<and> s' = s) s"
    and put: "rep s m \<Longrightarrow> fresh s n \<Longrightarrow> wp (put n k v) (\<lambda>r s'. r = m k \<and> rep s' (m(k \<mapsto> v))) s"
    and del: "rep s m \<Longrightarrow> wp (del k) (\<lambda>r s'. r = m k \<and> rep s' (m(k := None))) s"
begin

lemma look_after_put:
  assumes "rep s m" and "fresh s n"
  shows "wp (and_then (put n k v) (\<lambda>_. look k')) (\<lambda>r s'. r = (if k' = k then Some v else m k')) s"
  by (rule wp_and_then, rule wp_conseq [OF put [OF assms]]) (auto intro: wp_conseq [OF look])

lemma look_after_del:
  assumes "rep s m"
  shows "wp (and_then (del k) (\<lambda>_. look k')) (\<lambda>r s'. r = (if k' = k then None else m k')) s"
  by (rule wp_and_then, rule wp_conseq [OF del [OF assms]]) (auto intro: wp_conseq [OF look])

lemma del_after_put:
  assumes "rep s m" and "fresh s n" and "m k = None"
  shows "wp (and_then (put n k v) (\<lambda>_. del k)) (\<lambda>r s'. r = Some v \<and> rep s' m) s"
  by (rule wp_and_then, rule wp_conseq [OF put [OF assms(1,2)]])
    (use assms(3) in \<open>auto intro!: wp_conseq [OF del] simp: fun_upd_idem\<close>)

end

section \<open>The operations of the map\<close>

text \<open>What a location says of the map, and the two ways on from it.\<close>

lemma after_location:
  assumes rep: "represents s m" and ord: "ord \<noteq> NonExhaustive"
    and vacant: "\<And>fs. holds_tree s (fill Leaf fs) \<Longrightarrow> m = rb_map s (inorder (fill Leaf fs)) \<Longrightarrow>
      slot_for (rb_key s) key fs \<Longrightarrow> m key = None \<Longrightarrow> wp (f (Vacant_At (slot_of fs))) Q s"
    and occupied: "\<And>l c a r fs. holds_tree s (fill (Node l c a r) fs) \<Longrightarrow> m = rb_map s (inorder (fill (Node l c a r) fs)) \<Longrightarrow>
      rb_key s a = key \<Longrightarrow> m key = Some (rb_val s a) \<Longrightarrow> wp (f (Occupied_By a)) Q s"
  shows "wp (and_then (rb_location rb_fuel key ord) f) Q s"
proof -
  obtain t where t: "holds_tree s t" "m = rb_map s (inorder t)"
    using rep by (auto simp: represents_def)
  have so: "key_sorted (rb_key s) (inorder t)" and h: "rb_height t \<le> rb_fuel"
    using t(1) rb_fuel_enough [OF t(1)] by (simp_all add: holds_tree_def)
  show ?thesis
  proof (rule wp_and_then, rule wp_conseq [OF rb_location_wp [OF t(1) h ord]])
    fix loc s'
    assume loc: "s' = s \<and> located (rb_key s) t key loc"
    show "wp (f loc) Q s'"
    proof (cases loc)
      case (Vacant_At v)
      then obtain fs where fs: "t = fill Leaf fs" "slot_for (rb_key s) key fs" "v = slot_of fs"
        using loc by (auto simp: located_def)
      have "m key = None"
        unfolding t(2) fs(1) using fs(2) by (intro rb_map_none) (auto simp: inorder_fill slot_for_def)
      with vacant [of fs] t fs loc Vacant_At show ?thesis by simp
    next
      case (Occupied_By a)
      then have a: "a \<in> set (inorder t)" "rb_key s a = key"
        using loc by (auto simp: located_def)
      obtain l c r fs where "t = fill (Node l c a r) fs"
        using rb_tree_nonempty [OF a(1)] by blast
      moreover have "m key = Some (rb_val s a)"
        using rb_map_at [OF so a(1)] a(2) t(2) by simp
      ultimately show ?thesis using occupied [of l c a r fs] t a loc Occupied_By by simp
    qed
  qed
qed

lemma default_ordering_ok [simp]: "default_ordering \<noteq> NonExhaustive"
  by (simp add: default_ordering_def)

lemma represents_height:
  "holds_tree s t \<Longrightarrow> rb_height t \<le> rb_fuel"
  using rb_fuel_enough [of s t] by simp

lemma insert_at_wp:
  assumes "holds_tree s (fill Leaf fs)" and "slot_for (rb_key s) key fs" and "fresh_node s n"
  shows "wp (rb_insert rb_fuel n key value (slot_of fs))
    (\<lambda>x s'. x = n \<and> rb_key s' n = key \<and> (\<exists>t. holds_tree s' t \<and> n \<in> set (inorder t) \<and>
       rb_map s' (inorder t) = (rb_map s (inorder (fill Leaf fs)))(key \<mapsto> value))) s"
proof -
  have n: "n \<notin> set (inorder (fill Leaf fs))" using assms(1,3) by (auto simp: fresh_node_def)
  from rb_insert_wp [OF assms(1,2) n represents_height [OF assms(1)]] show ?thesis
    by (rule wp_conseq) (use grown_map [OF _ assms(1) n assms(2)] in \<open>auto simp: grown_def\<close>)
qed

lemma map_get_wp:
  assumes "represents s m"
  shows "wp (map_get rb_fuel key) (\<lambda>r s'. r = m key \<and> s' = s) s"
  unfolding map_get_def by (rule after_location [OF assms]) (simp_all add: wp_rules)

lemma rb_contains_key_wp:
  assumes "represents s m"
  shows "wp (rb_contains_key rb_fuel key) (\<lambda>r s'. r = (m key \<noteq> None) \<and> s' = s) s"
  unfolding rb_contains_key_def by (rule after_location [OF assms]) (simp_all add: wp_rules)

lemma represents_update:
  assumes "holds_tree s t" and "a \<in> set (inorder t)"
  shows "represents (s\<lparr>rb_val := (rb_val s)(a := v)\<rparr>) ((rb_map s (inorder t))(rb_key s a \<mapsto> v))"
proof -
  have so: "key_sorted (rb_key s) (inorder t)" using assms(1) by (simp add: holds_tree_def)
  have "holds_tree (s\<lparr>rb_val := (rb_val s)(a := v)\<rparr>) t" using assms(1) by (simp add: holds_tree_def)
  then show ?thesis using rb_map_update [OF so assms(2), of v] by (auto simp: represents_def)
qed

lemma map_insert_wp:
  assumes rep: "represents s m" and n: "fresh_node s n"
  shows "wp (map_insert rb_fuel n key value) (\<lambda>r s'. r = m key \<and> represents s' (m(key \<mapsto> value))) s"
  unfolding map_insert_def
proof (rule after_location [OF rep])
  fix fs
  assume "holds_tree s (fill Leaf fs)" "m = rb_map s (inorder (fill Leaf fs))" "slot_for (rb_key s) key fs" "m key = None"
  then show "wp (case Vacant_At (slot_of fs) of
        Vacant_At vacant \<Rightarrow> and_then (rb_insert rb_fuel n key value vacant) (\<lambda>_. ok None)
      | Occupied_By node \<Rightarrow> and_then (replace_value node value) (\<lambda>v. ok (Some v)))
      (\<lambda>r s'. r = m key \<and> represents s' (m(key \<mapsto> value))) s"
    by (simp, intro wp_and_then wp_conseq [OF insert_at_wp [OF _ _ n]])
      (auto simp: wp_ok represents_def)
next
  fix l c a r fs
  assume "holds_tree s (fill (Node l c a r) fs)" "m = rb_map s (inorder (fill (Node l c a r) fs))" "rb_key s a = key"
    "m key = Some (rb_val s a)"
  with represents_update [of s "fill (Node l c a r) fs" a "value"]
  show "wp (case Occupied_By a of
        Vacant_At vacant \<Rightarrow> and_then (rb_insert rb_fuel n key value vacant) (\<lambda>_. ok None)
      | Occupied_By node \<Rightarrow> and_then (replace_value node value) (\<lambda>v. ok (Some v)))
      (\<lambda>r s'. r = m key \<and> represents s' (m(key \<mapsto> value))) s"
    by (simp add: wp_rules inorder_fill)
qed simp

lemma map_remove_wp:
  assumes rep: "represents s m"
  shows "wp (map_remove rb_fuel key) (\<lambda>r s'. r = m key \<and> represents s' (m(key := None))) s"
  unfolding map_remove_def
proof (rule after_location [OF rep])
  fix fs
  assume "m key = None"
  with rep show "wp (case Vacant_At (slot_of fs) of
        Vacant_At v \<Rightarrow> ok None
      | Occupied_By node \<Rightarrow> and_then (rb_remove rb_fuel node) (\<lambda>v.
          and_then (get_value default_ordering v) (\<lambda>value. ok (Some value))))
      (\<lambda>r s'. r = m key \<and> represents s' (m(key := None))) s"
    by (simp add: wp_rules fun_upd_idem)
next
  fix l c a r fs
  assume h: "holds_tree s (fill (Node l c a r) fs)" and m: "m = rb_map s (inorder (fill (Node l c a r) fs))"
    "rb_key s a = key" "m key = Some (rb_val s a)"
  have "wp (rb_remove rb_fuel a) (\<lambda>v. wp (and_then (get_value default_ordering v) (\<lambda>value. ok (Some value)))
      (\<lambda>r s'. r = m key \<and> represents s' (m(key := None)))) s"
    by (rule wp_conseq [OF rb_remove_wp [OF h represents_height [OF h]]])
      (use shrunk_map [OF _ h] m in \<open>auto simp: wp_rules shrunk_def\<close>)
  then show "wp (case Occupied_By a of
        Vacant_At v \<Rightarrow> ok None
      | Occupied_By node \<Rightarrow> and_then (rb_remove rb_fuel node) (\<lambda>v.
          and_then (get_value default_ordering v) (\<lambda>value. ok (Some value))))
      (\<lambda>r s'. r = m key \<and> represents s' (m(key := None))) s"
    by (simp add: wp_and_then)
qed simp

text \<open>The entry for a key, and what it leaves in the tree when it is filled.\<close>

definition entry_node :: "map_value \<Rightarrow> node_ptr" where
  "entry_node v = (case v of Owned x \<Rightarrow> x | Shared x \<Rightarrow> x)"

lemma entry_or_insert_wp:
  assumes rep: "represents s m" and n: "fresh_node s n"
  shows "wp (and_then (map_entry rb_fuel key) (or_insert rb_fuel n dflt))
    (\<lambda>v s'. \<exists>t. holds_tree s' t \<and> entry_node v \<in> set (inorder t) \<and> rb_key s' (entry_node v) = key \<and>
       (case m key of
          None \<Rightarrow> v = Owned n \<and> rb_map s' (inorder t) = m(key \<mapsto> dflt)
        | Some old \<Rightarrow> v = Shared (entry_node v) \<and> rb_map s' (inorder t) = m \<and> s' = s)) s"
    (is "wp _ ?Q s")
  unfolding map_entry_def and_then_assoc
proof (rule after_location [OF rep])
  fix fs
  assume h: "holds_tree s (fill Leaf fs)" "m = rb_map s (inorder (fill Leaf fs))" "slot_for (rb_key s) key fs" "m key = None"
  then have "wp (rb_insert rb_fuel n key dflt (slot_of fs)) (\<lambda>v. ?Q (Owned v)) s"
    by (intro wp_conseq [OF insert_at_wp [OF _ _ n]]) (auto simp: entry_node_def)
  then show "wp (and_then (ok (case Vacant_At (slot_of fs) of Vacant_At location \<Rightarrow> Vacant_Entry location key
      | Occupied_By node \<Rightarrow> Occupied_Entry node key)) (or_insert rb_fuel n dflt)) ?Q s"
    by (simp add: and_then_ok or_insert_def or_insert_with_def wp_and_then wp_ok_fun)
next
  fix l c a r fs
  assume "holds_tree s (fill (Node l c a r) fs)" "m = rb_map s (inorder (fill (Node l c a r) fs))"
    "rb_key s a = key" "m key = Some (rb_val s a)"
  then have "?Q (Shared a) s"
    by (intro exI [of _ "fill (Node l c a r) fs"]) (simp add: entry_node_def inorder_fill)
  then show "wp (and_then (ok (case Occupied_By a of Vacant_At location \<Rightarrow> Vacant_Entry location key
      | Occupied_By node \<Rightarrow> Occupied_Entry node key)) (or_insert rb_fuel n dflt)) ?Q s"
    by (simp add: and_then_ok or_insert_def or_insert_with_def wp_ok)
qed simp

text \<open>Setting the value of an entry, through the box or through the cell.\<close>

lemma map_value_set_wp:
  assumes "holds_tree s t" and "entry_node v \<in> set (inorder t)"
  shows "wp (map_value_set v x)
    (\<lambda>_ s'. represents s' ((rb_map s (inorder t))(rb_key s (entry_node v) \<mapsto> x))) s"
  using represents_update [OF assms, of x] by (cases v) (simp_all add: entry_node_def wp_rules)

lemma entry_set_wp:
  assumes rep: "represents s m" and n: "fresh_node s n"
  shows "wp (and_then (and_then (map_entry rb_fuel key) (or_insert rb_fuel n dflt)) (\<lambda>v. map_value_set v x))
    (\<lambda>_ s'. represents s' (m(key \<mapsto> x))) s"
proof (rule wp_and_then, rule wp_conseq [OF entry_or_insert_wp [OF assms, of key dflt]], elim exE conjE)
  fix v s' t
  assume t: "holds_tree s' t" "entry_node v \<in> set (inorder t)" "rb_key s' (entry_node v) = key"
    and m: "case m key of None \<Rightarrow> v = Owned n \<and> rb_map s' (inorder t) = m(key \<mapsto> dflt)
        | Some old \<Rightarrow> v = Shared (entry_node v) \<and> rb_map s' (inorder t) = m \<and> s' = s"
  from m have "(rb_map s' (inorder t))(key \<mapsto> x) = m(key \<mapsto> x)" by (auto split: option.splits)
  with map_value_set_wp [OF t(1,2), of x] t(3) show "wp (map_value_set v x) (\<lambda>_ s'. represents s' (m(key \<mapsto> x))) s'"
    by simp
qed

interpretation rb: tx_map represents fresh_node "map_get rb_fuel" "map_insert rb_fuel" "map_remove rb_fuel"
  by unfold_locales (intro map_get_wp map_insert_wp map_remove_wp; assumption)+

end
