(* ===== verification/Rb_Verify.thy ===== *)
theory Rb_Verify
  imports Rb_Map
begin

text \<open>
  \<open>verify\<close>, run on any tree that the links form: it tells the red-black search trees from the others. And
  dropping a tree.
\<close>

section \<open>Runs without conflicts\<close>

definition returns :: "('k, 'v, 'a) rb \<Rightarrow> ('k, 'v) rb_store \<Rightarrow> 'a \<Rightarrow> ('k, 'v) rb_store \<Rightarrow> bool" where
  "returns m s x s' \<longleftrightarrow> (\<exists>w. m (s, None) = Inr (x, s', None, w))"

definition stops :: "('k, 'v, 'a) rb \<Rightarrow> ('k, 'v) rb_store \<Rightarrow> rb_stop \<Rightarrow> bool" where
  "stops m s e \<longleftrightarrow> m (s, None) = Inl e"

named_theorems run_rules

lemma run_access [run_rules]:
  "returns (and_then (tx_access acc f) g) s y s' = returns (g (fst (f s))) (snd (f s)) y s'"
  "stops (and_then (tx_access acc f) g) s e = stops (g (fst (f s))) (snd (f s)) e"
  by (auto simp: returns_def stops_def and_then_def tx_access_def split: prod.splits sum.splits)

lemma run_ok [run_rules]:
  "returns (ok x) s y s' \<longleftrightarrow> x = y \<and> s = s'" "\<not> stops (ok x) s e" "\<not> returns (stuck e) s y s'" "stops (stuck e) s e' \<longleftrightarrow> e = e'"
  by (auto simp: returns_def stops_def ok_def stuck_def)

lemma run_get_key [run_rules]:
  "returns (and_then (get_key a) g) s y s' = returns (g (rb_key s a)) s y s'"
  "stops (and_then (get_key a) g) s e = stops (g (rb_key s a)) s e"
  by (auto simp: returns_def stops_def and_then_def get_key_def split: prod.splits sum.splits)

lemma run_assert [run_rules]:
  "returns (and_then (debug_assert b) g) s y s' \<longleftrightarrow> b \<and> returns (g ()) s y s'"
  "stops (and_then (debug_assert b) g) s e \<longleftrightarrow> (if b then stops (g ()) s e else e = Unreachable)"
  by (auto simp: debug_assert_def and_then_ok and_then_stuck run_ok)

lemma returns_then: "returns m s x s1 \<Longrightarrow> returns (and_then m f) s y s' = returns (f x) s1 y s'"
  "returns m s x s1 \<Longrightarrow> stops (and_then m f) s e = stops (f x) s1 e"
  by (auto simp: returns_def stops_def and_then_def split: prod.splits sum.splits)

lemma stops_then: "stops m s e \<Longrightarrow> stops (and_then m f) s e"
  by (auto simp: stops_def and_then_def)

lemma returns_stops: "returns m s x s' \<Longrightarrow> \<not> stops m s e"
  by (auto simp: returns_def stops_def)

declare and_then_assoc [run_rules] and_then_ok [run_rules] and_then_stuck [run_rules] unwrap_simps [run_rules]
  get_root_def [run_rules] get_left_def [run_rules] get_right_def [run_rules] as_ref_color_def [run_rules]

section \<open>\<open>verify\<close>\<close>

fun rb_min_height :: "rbt \<Rightarrow> nat" where
  "rb_min_height Leaf = 0"
| "rb_min_height (Node l c a r) = Suc (min (rb_min_height l) (rb_min_height r))"

text \<open>What \<open>verify\<close> accepts, and what it computes.\<close>

definition good_tree :: "(node_ptr \<Rightarrow> 'k :: linorder) \<Rightarrow> rbt \<Rightarrow> bool" where
  "good_tree key t \<longleftrightarrow> invc t \<and> invh t \<and> key_sorted key (inorder t)"

definition summary :: "(node_ptr \<Rightarrow> 'k) \<Rightarrow> rbt \<Rightarrow> 'k verified" where
  "summary key t =
     \<lparr>black_depth = Suc (bheight t), min_depth = Suc (rb_min_height t), max_depth = Suc (rb_height t),
      min_key = (if t = Leaf then None else Some (key (hd (inorder t)))),
      max_key = (if t = Leaf then None else Some (key (last (inorder t))))\<rparr>"

lemma bheight_min: "invh t \<Longrightarrow> bheight t \<le> rb_min_height t"
  by (induction t) (auto split: if_splits)

lemma depths_ok: "invc t \<Longrightarrow> invh t \<Longrightarrow> rb_height t \<le> 2 * rb_min_height t + 1"
  using rb_height_bheight [of t] bheight_min [of t] by (auto split: if_splits)

lemma inorder_Nil [simp]: "inorder t = [] \<longleftrightarrow> t = Leaf" "[] = inorder t \<longleftrightarrow> t = Leaf"
  by (cases t; simp)+

lemma sorted_last: "key_sorted key xs \<Longrightarrow> xs \<noteq> [] \<Longrightarrow> (\<forall>x\<in>set xs. key x < k) \<longleftrightarrow> key (last xs) < k"
  by (induction xs) (auto dest: less_trans)

lemma sorted_hd: "key_sorted key xs \<Longrightarrow> xs \<noteq> [] \<Longrightarrow> (\<forall>x\<in>set xs. k < key x) \<longleftrightarrow> k < key (hd xs)"
  by (cases xs) (auto dest: less_trans)

lemma sorted_node:
  assumes "key_sorted key (inorder l)" and "key_sorted key (inorder r)"
  shows "key_sorted key (inorder (Node l c a r)) \<longleftrightarrow>
    (l \<noteq> Leaf \<longrightarrow> key (last (inorder l)) < key a) \<and> (r \<noteq> Leaf \<longrightarrow> key a < key (hd (inorder r)))"
  using assms sorted_last [of key "inorder l" "key a"] sorted_hd [of key "inorder r" "key a"]
  by (cases "l = Leaf"; cases "r = Leaf") (auto dest: less_trans)

lemma verify_join_run:
  assumes "good_tree (rb_key s) l" and "good_tree (rb_key s) r"
    and "c = Red \<Longrightarrow> color_of l = Black \<and> color_of r = Black"
  shows "if good_tree (rb_key s) (Node l c a r)
    then returns (verify_join c (rb_key s a) (summary (rb_key s) l) (summary (rb_key s) r)) s
      (summary (rb_key s) (Node l c a r)) s
    else stops (verify_join c (rb_key s a) (summary (rb_key s) l) (summary (rb_key s) r)) s Unreachable"
proof -
  have inv: "invc l" "invc r" "invh l" "invh r" "key_sorted (rb_key s) (inorder l)" "key_sorted (rb_key s) (inorder r)"
    using assms(1,2) by (simp_all add: good_tree_def)
  have good: "good_tree (rb_key s) (Node l c a r) \<longleftrightarrow> bheight l = bheight r \<and>
      (l \<noteq> Leaf \<longrightarrow> rb_key s (last (inorder l)) < rb_key s a) \<and> (r \<noteq> Leaf \<longrightarrow> rb_key s a < rb_key s (hd (inorder r)))"
    using inv assms(3) sorted_node [OF inv(5,6), of c a] by (auto simp: good_tree_def simp del: inorder.simps)
  have depth: "rb_height (Node l c a r) \<le> 2 * rb_min_height (Node l c a r) + 1" if "good_tree (rb_key s) (Node l c a r)"
    using that by (intro depths_ok) (simp_all add: good_tree_def)
  show ?thesis
  proof (cases "good_tree (rb_key s) (Node l c a r)")
    case True
    with good depth show ?thesis
      by (cases "l = Leaf"; cases "r = Leaf")
        (auto simp: verify_join_def run_rules Let_def summary_def hd_append)
  next
    case False
    with good show ?thesis
      by (cases "l = Leaf"; cases "r = Leaf")
        (auto simp: verify_join_def run_rules Let_def summary_def)
  qed
qed


text \<open>The check of one child: its colour, its parent, and then its subtree.\<close>

definition verify_child :: "nat \<Rightarrow> node_ptr \<Rightarrow> color \<Rightarrow> rbref \<Rightarrow> ('k :: linorder, 'v, 'k verified) rb" where
  "verify_child fuel self color child =
     (case child of
        Valid left \<Rightarrow>
            and_then (as_ref_color default_ordering left) (\<lambda>(lp, lc).
            and_then (debug_assert (color = Red \<longrightarrow> lc = Black)) (\<lambda>_.
            and_then (unwrap lp) (\<lambda>lp.
            and_then (debug_assert (lp = self)) (\<lambda>_.
            verify_node fuel left))))
      | Null \<Rightarrow> ok verified_leaf)"

lemma verify_node_unfold:
  "verify_node (Suc fuel) self =
     and_then (as_ref_color default_ordering self) (\<lambda>(_, color).
     and_then (get_left default_ordering self) (\<lambda>left.
     and_then (verify_child fuel self color left) (\<lambda>left_verify.
     and_then (get_right default_ordering self) (\<lambda>right.
     and_then (verify_child fuel self color right) (\<lambda>right_verify.
     and_then (get_key self) (\<lambda>key.
     verify_join color key left_verify right_verify))))))"
  unfolding verify_node.simps verify_child_def by (rule refl)

lemma verify_child_run:
  assumes "tree_at s (Valid a) t"
    and "\<And>x. root_of t = Valid x \<Longrightarrow> if good_tree (rb_key s) t then returns (verify_node fuel x) s (summary (rb_key s) t) s
      else stops (verify_node fuel x) s Unreachable"
  shows "if good_tree (rb_key s) t \<and> (c = Red \<longrightarrow> color_of t = Black)
    then returns (verify_child fuel a c (root_of t)) s (summary (rb_key s) t) s
    else stops (verify_child fuel a c (root_of t)) s Unreachable"
proof (cases t)
  case Leaf
  then show ?thesis
    by (simp add: verify_child_def run_ok good_tree_def summary_def verified_leaf_def)
next
  case (Node l tc x r)
  with assms show ?thesis
    by (cases "good_tree (rb_key s) t") (auto simp: verify_child_def run_rules)
qed

lemma verify_node_run:
  assumes "tree_at s p t" and "root_of t = Valid a" and "rb_height t \<le> fuel"
  shows "if good_tree (rb_key s) t then returns (verify_node fuel a) s (summary (rb_key s) t) s
    else stops (verify_node fuel a) s Unreachable"
  using assms
proof (induction fuel arbitrary: t a p)
  case 0
  then show ?case by (cases t) simp_all
next
  case (Suc fuel)
  obtain l c r where t: "t = Node l c a r" using Suc.prems(2) by (cases t) auto
  let ?key = "rb_key s"
  have cells: "as_ref_color_word (parent_colors s a) = (p, c)" "lefts s a = root_of l" "rights s a = root_of r"
    and subs: "tree_at s (Valid a) l" "tree_at s (Valid a) r"
    using Suc.prems(1) by (simp_all add: t)
  have h: "rb_height l \<le> fuel" "rb_height r \<le> fuel" using Suc.prems(3) by (simp_all add: t)
  note L = verify_child_run [OF subs(1) Suc.IH [OF subs(1) _ h(1)], of c]
    and R = verify_child_run [OF subs(2) Suc.IH [OF subs(2) _ h(2)], of c]
  show ?case
  proof (cases "good_tree ?key l \<and> (c = Red \<longrightarrow> color_of l = Black)")
    case goodl: True
    with L have l: "returns (verify_child fuel a c (root_of l)) s (summary ?key l) s" by simp
    show ?thesis
    proof (cases "good_tree ?key r \<and> (c = Red \<longrightarrow> color_of r = Black)")
      case goodr: True
      with R have r: "returns (verify_child fuel a c (root_of r)) s (summary ?key r) s" by simp
      from goodl goodr verify_join_run [of s l r c a] show ?thesis
        by (simp add: t verify_node_unfold run_rules cells returns_then [OF l] returns_then [OF r] del: verify_node.simps)
    next
      case False
      with R have "stops (verify_child fuel a c (root_of r)) s Unreachable" by (simp split: if_splits)
      moreover have "\<not> good_tree ?key t" using False by (auto simp: good_tree_def t)
      ultimately show ?thesis
        by (simp add: verify_node_unfold run_rules cells returns_then [OF l] stops_then del: verify_node.simps)
    qed
  next
    case False
    with L have "stops (verify_child fuel a c (root_of l)) s Unreachable" by (simp split: if_splits)
    moreover have "\<not> good_tree ?key t" using False by (auto simp: good_tree_def t)
    ultimately show ?thesis
      by (simp add: verify_node_unfold run_rules cells stops_then del: verify_node.simps)
  qed
qed

text \<open>So \<open>verify\<close> tells the good trees from the others.\<close>

lemma rb_verify_run:
  assumes "root_cell s = root_of t" and "tree_at s Null t" and "rb_height t \<le> fuel"
  shows "if good_tree (rb_key s) t then returns (rb_verify fuel) s () s else stops (rb_verify fuel) s Unreachable"
proof (cases t)
  case Leaf
  with assms show ?thesis by (simp add: rb_verify_def run_rules good_tree_def)
next
  case (Node l c a r)
  with assms verify_node_run [of s Null t a fuel] show ?thesis
    by (cases "good_tree (rb_key s) t") (simp_all add: rb_verify_def run_rules returns_then stops_then)
qed

section \<open>Dropping the tree\<close>

fun postorder :: "rbt \<Rightarrow> node_ptr list" where
  "postorder Leaf = []"
| "postorder (Node l c a r) = postorder l @ postorder r @ [a]"

lemma destroy_postorder:
  "tree_at s p t \<Longrightarrow> rb_height t \<le> fuel \<Longrightarrow> destroy fuel s (root_of t) = Some (postorder t)"
proof (induction t arbitrary: p fuel)
  case (Node l c a r)
  then obtain fuel' where "fuel = Suc fuel'" by (cases fuel) auto
  with Node.prems Node.IH(1) [of "Valid a" fuel'] Node.IH(2) [of "Valid a" fuel'] show ?case by simp
qed simp

lemma set_postorder: "set (postorder t) = set (inorder t)" "distinct (inorder t) \<Longrightarrow> distinct (postorder t)"
proof -
  show s: "set (postorder t) = set (inorder t)" for t by (induction t) auto
  show "distinct (inorder t) \<Longrightarrow> distinct (postorder t)" by (induction t) (auto simp: s)
qed

lemma root_drop_nodes:
  assumes "holds_tree s t"
  shows "\<exists>xs. rb_root_drop rb_fuel s = Some xs \<and> distinct xs \<and> set xs = set (inorder t)"
proof -
  have "distinct (inorder t)" "tree_at s Null t" "root_cell s = root_of t"
    using assms key_sorted_distinct [of "rb_key s" "inorder t"] by (simp_all add: holds_tree_def)
  with destroy_postorder [of s Null t rb_fuel] represents_height [OF assms] set_postorder [of t] show ?thesis
    by (intro exI [of _ "postorder t"]) (simp add: rb_root_drop_def)
qed

end
