(* ===== verification/Rb_Races.thy ===== *)
theory Rb_Races
  imports Rb_Map
begin

text \<open>
  Two transactions on one tree, by the accesses they make: an insertion finds its place with reads that its
  commit does not check.
\<close>

section \<open>Two transactions on one tree\<close>

text \<open>
  What commit checks of the accesses of a transaction, what it writes, and the cells after a transaction that
  ran on an older state has been committed over a newer one; the node it has boxed becomes visible with it.
\<close>

definition written :: "access list \<Rightarrow> rb_cell set" where
  "written w = {c. Write_Access c \<in> set w}"

definition validated :: "access list \<Rightarrow> rb_cell set" where
  "validated w = {c. Read_Access ReadWrite c \<in> set w} \<union> written w"

definition commit_over ::
  "('k, 'v) rb_store \<Rightarrow> ('k, 'v) rb_store \<Rightarrow> access list \<Rightarrow> node_ptr \<Rightarrow> ('k, 'v) rb_store" where
  "commit_over now run w n =
     now\<lparr>root_cell := (if Root_Cell \<in> written w then root_cell run else root_cell now),
       lefts := (\<lambda>a. if a = n \<or> Left_Cell a \<in> written w then lefts run a else lefts now a),
       rights := (\<lambda>a. if a = n \<or> Right_Cell a \<in> written w then rights run a else rights now a),
       parent_colors := (\<lambda>a. if a = n \<or> Parent_Color_Cell a \<in> written w then parent_colors run a else parent_colors now a),
       rb_key := (rb_key now)(n := rb_key run n),
       rb_val := (\<lambda>a. if a = n \<or> Value_Cell a \<in> written w then rb_val run a else rb_val now a)\<rparr>"

lemma four_nodes: "\<exists>g p q n :: node_ptr. distinct [g, p, q, n]"
  by (rule exI [of _ "Node_ptr 2"], rule exI [of _ "Node_ptr 4"], rule exI [of _ "Node_ptr 6"], rule exI [of _ "Node_ptr 8"])
    (simp add: Node_ptr_inject)

definition three_nodes :: "node_ptr \<Rightarrow> node_ptr \<Rightarrow> node_ptr \<Rightarrow> (nat, nat) rb_store" where
  "three_nodes g p q =
     \<lparr>root_cell = Valid g, lefts = (\<lambda>a. if a = g then Valid p else Null), rights = (\<lambda>a. if a = g then Valid q else Null),
      parent_colors = (\<lambda>a. if a = g then pack Null Black else pack (Valid g) Black),
      rb_key = (\<lambda>a. if a = g then 20 else if a = p then 10 else 30),
      rb_val = (\<lambda>a. if a = g then 2 else if a = p then 1 else 3), privatized = []\<rparr>"

lemma three_nodes_tree:
  assumes "distinct [g, p, q]"
  shows "holds_tree (three_nodes g p q) (Node (Node Leaf Black p Leaf) Black g (Node Leaf Black q Leaf))"
    and "rb_map (three_nodes g p q) [p, g, q] = [10 \<mapsto> 1, 20 \<mapsto> 2, 30 \<mapsto> 3]"
  using assms by (auto simp: three_nodes_def holds_tree_def rb_tree_def rb_map_def)

lemmas exec_defs = and_then_def tx_access_def ok_def get_key_def mut_access_def debug_assert_def unwrap_def
  cell_defs set_mut_pack null_black_pack

lemma insert_run:
  assumes "distinct [g, p, q, n]"
  shows "map_insert (Suc (Suc (Suc f))) n 5 7 (three_nodes g p q, None) =
    Inr (None, (three_nodes g p q)\<lparr>lefts := (lefts (three_nodes g p q))(n := Null, p := Valid n),
        rights := (rights (three_nodes g p q))(n := Null),
        parent_colors := (parent_colors (three_nodes g p q))(n := pack (Valid p) Red),
        rb_key := (rb_key (three_nodes g p q))(n := 5), rb_val := (rb_val (three_nodes g p q))(n := 7)\<rparr>, None,
      [Read_Access ReadWrite Root_Cell, Read_Access Read (Left_Cell g), Read_Access Read (Left_Cell p),
       Read_Access ReadWrite (Parent_Color_Cell p), Write_Access (Left_Cell p)])"
proof -
  have "g \<noteq> p" "p \<noteq> g" "g \<noteq> q" "q \<noteq> g" "p \<noteq> q" "q \<noteq> p" "n \<noteq> g" "n \<noteq> p" "n \<noteq> q" "g \<noteq> n" "p \<noteq> n" "q \<noteq> n"
    using assms by auto
  then show ?thesis
    by (simp add: map_insert_def rb_location_def location_read_def location_with_def rb_insert_def insert_fixup_def
      exec_defs three_nodes_def default_ordering_def)
qed

lemma remove_run:
  assumes "distinct [g, p, q]"
  shows "map_remove (Suc (Suc (Suc f))) 10 (three_nodes g p q, None) =
    Inr (Some 1, (three_nodes g p q)\<lparr>lefts := (lefts (three_nodes g p q))(g := Null),
        parent_colors := (parent_colors (three_nodes g p q))(q := pack (Valid g) Red), privatized := [p]\<rparr>, None,
      [Read_Access ReadWrite Root_Cell, Read_Access Read (Left_Cell g), 
       Read_Access ReadWrite (Right_Cell p), Read_Access ReadWrite (Left_Cell p), Read_Access ReadWrite (Parent_Color_Cell p), 
       Write_Access (Left_Cell g), Read_Access ReadWrite (Right_Cell g), Read_Access ReadWrite (Parent_Color_Cell q),
       Read_Access ReadWrite (Right_Cell q), Read_Access ReadWrite (Left_Cell q), Write_Access (Parent_Color_Cell q),
       Read_Access ReadWrite (Parent_Color_Cell g), Read_Access ReadWrite (Value_Cell p)])"
proof -
  have "g \<noteq> p" "p \<noteq> g" "g \<noteq> q" "q \<noteq> g" "p \<noteq> q" "q \<noteq> p"
    using assms by auto
  then show ?thesis
    by (simp add: map_remove_def rb_location_def location_read_def location_with_def rb_remove_def remove_nofix_def
      set_parent_link_def set_link_def remove_fixup_def ref_black_def or_else_def Let_def
      exec_defs three_nodes_def default_ordering_def)
qed

lemma insert_is_lost:
  assumes "distinct [g, p, q, n]" and "s = three_nodes g p q"
    and "map_insert (Suc (Suc (Suc f))) n 5 7 (s, None) = Inr (None, run, None, wi)"
    and "map_remove (Suc (Suc (Suc f))) 10 (s, None) = Inr (Some 1, now, None, wr)"
  shows "validated wi \<inter> written wr = {}"
    and "holds_tree (commit_over now run wi n) (Node Leaf Black g (Node Leaf Red q Leaf))"
    and "rb_map (commit_over now run wi n) [g, q] = [20 \<mapsto> 2, 30 \<mapsto> 3]"
proof -
  have r: "run = s\<lparr>lefts := (lefts s)(n := Null, p := Valid n), rights := (rights s)(n := Null),
        parent_colors := (parent_colors s)(n := pack (Valid p) Red), rb_key := (rb_key s)(n := 5), rb_val := (rb_val s)(n := 7)\<rparr>"
      "wi = [Read_Access ReadWrite Root_Cell, Read_Access Read (Left_Cell g), Read_Access Read (Left_Cell p),
       Read_Access ReadWrite (Parent_Color_Cell p), Write_Access (Left_Cell p)]"
    using assms(3) unfolding assms(2) insert_run [OF assms(1)] by auto
  have "distinct [g, p, q]" using assms(1) by simp
  then have n: "now = s\<lparr>lefts := (lefts s)(g := Null), parent_colors := (parent_colors s)(q := pack (Valid g) Red), privatized := [p]\<rparr>"
      "written wr = {Left_Cell g, Parent_Color_Cell q}"
    using assms(4) unfolding assms(2) remove_run [OF \<open>distinct [g, p, q]\<close>] by (auto simp: written_def)
  have ne: "g \<noteq> p" "p \<noteq> g" "g \<noteq> q" "q \<noteq> g" "p \<noteq> q" "q \<noteq> p" "n \<noteq> g" "n \<noteq> p" "n \<noteq> q" "g \<noteq> n" "p \<noteq> n" "q \<noteq> n"
    using assms(1) by auto
  have w: "written wi = {Left_Cell p}" "validated wi = {Root_Cell, Parent_Color_Cell p, Left_Cell p}"
    by (auto simp: r validated_def written_def)
  show "validated wi \<inter> written wr = {}"
    using assms(1) by (simp add: w n)
  show "holds_tree (commit_over now run wi n) (Node Leaf Black g (Node Leaf Red q Leaf))"
    by (simp add: holds_tree_def rb_tree_def commit_over_def w ne n(1) r(1) assms(2) three_nodes_def)
  show "rb_map (commit_over now run wi n) [g, q] = [20 \<mapsto> 2, 30 \<mapsto> 3]"
    by (auto simp: rb_map_def commit_over_def w ne n(1) r(1) assms(2) three_nodes_def)
qed

end
