(* ===== verification/Rb_Theorems.thy ===== *)
theory Rb_Theorems
  imports Rb_Verify Rb_Races
begin

text \<open>The properties of the red-black tree and of the map on it.\<close>

section \<open>One tree per store\<close>

lemma tree_unique:
  "tree_in ls rs pcs p t \<Longrightarrow> tree_in ls rs pcs q u \<Longrightarrow> root_of t = root_of u \<Longrightarrow> t = u"
proof (induction t arbitrary: p q u)
  case Leaf
  then show ?case by simp
next
  case (Node l c a r)
  then obtain l' c' r' where u: "u = Node l' c' a r'" by (cases u) auto
  have "pack p c = pack q c'" using Node.prems u by simp
  then have "as_ref_color_word (pack p c) = as_ref_color_word (pack q c')" by simp
  then have "c = c'" by simp
  moreover have "l = l'" "r = r'"
    using Node.prems u Node.IH(1) [of "Valid a" "Valid a" l'] Node.IH(2) [of "Valid a" "Valid a" r'] by simp_all
  ultimately show ?case by (simp add: u)
qed

lemma holds_tree_unique: "holds_tree s t \<Longrightarrow> holds_tree s u \<Longrightarrow> t = u"
  unfolding holds_tree_def by (elim conjE, rule tree_unique, assumption, assumption) (rule trans [OF sym])

lemma fresh_node_iff: "holds_tree s t \<Longrightarrow> fresh_node s n \<longleftrightarrow> n \<notin> set (inorder t)"
  unfolding fresh_node_def by (metis holds_tree_unique)

text \<open>Stores to apply the properties to.\<close>

definition no_nodes :: "(nat, nat) rb_store" where
  "no_nodes = \<lparr>root_cell = Null, lefts = \<lambda>_. Null, rights = \<lambda>_. Null, parent_colors = \<lambda>_. null_black,
     rb_key = \<lambda>_. 0, rb_val = \<lambda>_. 0, privatized = []\<rparr>"

lemma no_nodes_tree: "holds_tree no_nodes Leaf" "represents no_nodes (\<lambda>_. None)" "fresh_node no_nodes n"
proof -
  show h: "holds_tree no_nodes Leaf" by (simp add: holds_tree_def no_nodes_def rb_tree_def)
  then show "represents no_nodes (\<lambda>_. None)"
    unfolding represents_def by (intro exI [of _ Leaf]) (simp add: rb_map_def)
  show "fresh_node no_nodes n" by (simp add: fresh_node_iff [OF h])
qed

lemma three_nodes_map:
  assumes "distinct [g, p, q]"
  shows "represents (three_nodes g p q) [10 \<mapsto> 1, 20 \<mapsto> 2, 30 \<mapsto> 3]"
  unfolding represents_def
  by (rule exI, rule conjI, rule three_nodes_tree(1) [OF assms]) (simp add: three_nodes_tree(2) [OF assms])

lemma three_nodes_fresh:
  assumes "distinct [g, p, q, n]"
  shows "fresh_node (three_nodes g p q) n"
proof -
  have "distinct [g, p, q]" using assms by simp
  then show ?thesis using assms fresh_node_iff [OF three_nodes_tree(1)] by auto
qed

section \<open>The map\<close>

text \<open>
  Property C11: \<open>insert\<close> refines the update of a finite map. On a store whose tree stands for the map \<open>m\<close>, with
  a box at an address no node of the tree has, it returns what \<open>m\<close> had for the key and leaves a red-black search
  tree that stands for the updated map. The only other way for it to end is a conflict of the transaction: no
  \<open>unreachable\<close>, no failed assertion and no endless loop.
\<close>

theorem map_insert_refines_map:
  "represents s m \<Longrightarrow> fresh_node s n \<Longrightarrow>
     wp (map_insert rb_fuel n key value) (\<lambda>r s'. r = m key \<and> represents s' (m(key \<mapsto> value))) s"
  by (rule rb.put)

text \<open>
  Property C12: \<open>remove\<close> refines the removal from a finite map, whatever the position and colour of the node: it
  returns the value the key had, and what is left is a red-black search tree for the rest of the map.
\<close>

theorem map_remove_refines_map:
  "represents s m \<Longrightarrow>
     wp (map_remove rb_fuel key) (\<lambda>r s'. r = m key \<and> represents s' (m(key := None))) s"
  by (rule rb.del)

text \<open>
  Lookups. After an insertion, a lookup in the same transaction gives the new value for its key and
  what was there for any other; after a removal, nothing for its key; and \<open>contains_key\<close> says whether
  there is a value.
\<close>

theorem map_lookups:
  assumes "represents s m" and "fresh_node s n"
  shows "wp (and_then (map_insert rb_fuel n key value) (\<lambda>_. map_get rb_fuel key'))
      (\<lambda>r s'. r = (if key' = key then Some value else m key')) s \<and>
    wp (and_then (map_remove rb_fuel key) (\<lambda>_. map_get rb_fuel key'))
      (\<lambda>r s'. r = (if key' = key then None else m key')) s \<and>
    wp (rb_contains_key rb_fuel key) (\<lambda>r s'. r = (m key \<noteq> None) \<and> s' = s) s"
  using rb.look_after_put [OF assms] rb.look_after_del [OF assms(1)] rb_contains_key_wp [OF assms(1)] by blast

text \<open>
  Entries. \<open>entry(key).or_insert(d)\<close> gives the value of the key: the one in the tree, by a view of
  its cell and with the tree untouched, or else the one of the new node; setting it afterwards updates the map
  at the key in both cases.
\<close>

theorem entry_or_insert_refines_map:
  assumes "represents s m" and "fresh_node s n"
  shows "wp (and_then (map_entry rb_fuel key) (or_insert rb_fuel n dflt))
      (\<lambda>v s'. rb_key s' (entry_node v) = key \<and>
         (if m key = None then v = Owned n \<and> represents s' (m(key \<mapsto> dflt)) else v = Shared (entry_node v) \<and> s' = s)) s \<and>
    wp (and_then (and_then (map_entry rb_fuel key) (or_insert rb_fuel n dflt)) (\<lambda>v. map_value_set v x))
      (\<lambda>_ s'. represents s' (m(key \<mapsto> x))) s"
proof
  show "wp (and_then (map_entry rb_fuel key) (or_insert rb_fuel n dflt))
      (\<lambda>v s'. rb_key s' (entry_node v) = key \<and>
         (if m key = None then v = Owned n \<and> represents s' (m(key \<mapsto> dflt)) else v = Shared (entry_node v) \<and> s' = s)) s"
    by (rule wp_conseq [OF entry_or_insert_wp [OF assms]]) (auto simp: represents_def split: option.splits)
  show "wp (and_then (and_then (map_entry rb_fuel key) (or_insert rb_fuel n dflt)) (\<lambda>v. map_value_set v x))
      (\<lambda>_ s'. represents s' (m(key \<mapsto> x))) s"
    by (rule entry_set_wp [OF assms])
qed

section \<open>The tree\<close>

text \<open>
  Property C26: the repairs keep the type of the tree. An insertion at a free position puts the new node there
  in the order of the keys, a removal takes out exactly the given node and hands over that one node
  to the collector; after both the links form a red-black search tree again, with correct parent pointers and
  colours and the root in the root cell.
\<close>

theorem rb_root_keeps_tree:
  assumes "holds_tree s t" and "n \<notin> set (inorder t)"
  shows "(\<forall>fs. t = fill Leaf fs \<and> slot_for (rb_key s) key fs \<longrightarrow>
        wp (rb_insert rb_fuel n key value (slot_of fs))
          (\<lambda>x s'. x = n \<and> (\<exists>t'. holds_tree s' t' \<and> inorder t' = pre fs @ [n] @ post fs) \<and> privatized s' = privatized s) s) \<and>
      (\<forall>l c a r fs. t = fill (Node l c a r) fs \<longrightarrow>
        wp (rb_remove rb_fuel a)
          (\<lambda>x s'. x = a \<and> (\<exists>t'. holds_tree s' t' \<and> inorder t' = pre fs @ inorder l @ inorder r @ post fs) \<and>
             privatized s' = privatized s @ [a]) s)"
proof (intro conjI allI impI)
  fix fs
  assume "t = fill Leaf fs \<and> slot_for (rb_key s) key fs"
  with assms represents_height [OF assms(1)]
  show "wp (rb_insert rb_fuel n key value (slot_of fs))
      (\<lambda>x s'. x = n \<and> (\<exists>t'. holds_tree s' t' \<and> inorder t' = pre fs @ [n] @ post fs) \<and> privatized s' = privatized s) s"
    by (intro wp_conseq [OF rb_insert_wp]) (auto simp: grown_def)
next
  fix l c a r fs
  assume "t = fill (Node l c a r) fs"
  with assms represents_height [OF assms(1)]
  show "wp (rb_remove rb_fuel a)
      (\<lambda>x s'. x = a \<and> (\<exists>t'. holds_tree s' t' \<and> inorder t' = pre fs @ inorder l @ inorder r @ post fs) \<and>
         privatized s' = privatized s @ [a]) s"
    by (intro wp_conseq [OF rb_remove_wp]) (auto simp: shrunk_def)
qed

text \<open>
  Property C29: searching is bounded. A tree of \<open>n\<close> nodes has a height of at most \<open>2 * log 2 (n + 1)\<close>, and with
  64-bit addresses of at most 126; a search follows at most as many links, and finds the node with the key or
  the one place where it belongs.
\<close>

theorem rb_search_bounded:
  assumes "holds_tree s t" and "rb_height t \<le> fuel" and "ord \<noteq> NonExhaustive"
  shows "2 ^ ((rb_height t + 1) div 2) \<le> length (inorder t) + 1 \<and> rb_height t \<le> 126 \<and>
    wp (rb_location fuel key ord) (\<lambda>loc s'. s' = s \<and> located (rb_key s) t key loc) s"
proof (intro conjI)
  have t: "rb_tree t" "distinct (inorder t)"
    using assms(1) key_sorted_distinct [of "rb_key s" "inorder t"] by (simp_all add: holds_tree_def)
  have "(rb_height t + 1) div 2 \<le> bheight t"
    using rb_height_bheight [of t] t(1) by (simp add: rb_tree_def)
  then have "(2 :: nat) ^ ((rb_height t + 1) div 2) \<le> 2 ^ bheight t" by (rule power_increasing) simp
  also have "\<dots> \<le> length (inorder t) + 1" using bheight_size [of t] t(1) by (simp add: rb_tree_def)
  finally show "2 ^ ((rb_height t + 1) div 2) \<le> length (inorder t) + 1" .
  show "rb_height t \<le> 126" by (rule rb_height_126 [OF t])
  show "wp (rb_location fuel key ord) (\<lambda>loc s'. s' = s \<and> located (rb_key s) t key loc) s"
    by (rule rb_location_wp [OF assms])
qed


text \<open>
  Property C30: dropping a tree frees every node once, and no other address.
\<close>

theorem drop_frees_every_node_once:
  assumes "holds_tree s t"
  shows "\<exists>xs. rb_root_drop rb_fuel s = Some xs \<and> distinct xs \<and> set xs = set (inorder t)"
  by (rule root_drop_nodes [OF assms])

text \<open>
  Property C31: the packed word. What \<open>set\<close> stores for a parent and a colour, \<open>as_ref_color\<close> takes apart into
  the same parent and colour, the null parent included; so different pairs give different words.
\<close>

theorem parent_color_round_trip:
  "as_ref_color_word (pack r c) = (r, c) \<and> ptr_color (pack r c) = c \<and> as_ref_color_word null_black = (Null, Black) \<and>
   (pack r c = pack r' c') = (r = r' \<and> c = c')"
proof -
  have "(pack r c = pack r' c') = (as_ref_color_word (pack r c) = as_ref_color_word (pack r' c'))"
    by (metis as_ref_color_pack prod.inject)
  then show ?thesis by (simp add: null_black_pack)
qed

section \<open>Concurrent insertion and removal\<close>

text \<open>
  Property C27: an insertion can be lost. From one state, a transaction inserts the key 5 below the black node with key 10, and
  another removes that node and commits first. Nothing that the commit of the insertion checks was written by
  the removal, as the way to the node was read with \<open>Ordering::Read\<close>; so it commits as well and reports
  success, and the tree that is left has neither 10 nor 5.
\<close>

theorem insert_can_be_lost:
  "\<exists>(s :: (nat, nat) rb_store) n run now wi wr.
     represents s [10 \<mapsto> 1, 20 \<mapsto> 2, 30 \<mapsto> 3] \<and> fresh_node s n \<and>
     map_insert rb_fuel n 5 7 (s, None) = Inr (None, run, None, wi) \<and>
     map_remove rb_fuel 10 (s, None) = Inr (Some 1, now, None, wr) \<and>
     validated wi \<inter> written wr = {} \<and>
     represents (commit_over now run wi n) [20 \<mapsto> 2, 30 \<mapsto> 3]"
proof -
  obtain g p q n :: node_ptr where d: "distinct [g, p, q, n]" using four_nodes by blast
  obtain f where f: "rb_fuel = Suc (Suc (Suc f))"
    by (rule that [of 124]) (simp add: rb_fuel_def)
  have d3: "distinct [g, p, q]" using d by simp
  note runs = insert_run [OF d, of f, folded f] remove_run [OF d3, of f, folded f]
  note lost = insert_is_lost [where f = f, folded f, OF d refl runs]
  have "represents (commit_over now run wi n) [20 \<mapsto> 2, 30 \<mapsto> 3]"
    if "holds_tree (commit_over now run wi n) (Node Leaf Black g (Node Leaf Red q Leaf))"
      "rb_map (commit_over now run wi n) [g, q] = [20 \<mapsto> 2, 30 \<mapsto> 3]" for now run wi
    using that unfolding represents_def by (intro exI conjI) auto
  with lost runs three_nodes_map [OF d3] three_nodes_fresh [OF d] show ?thesis by blast
qed

section \<open>Witnesses\<close>

lemma some_three: "\<exists>s :: (nat, nat) rb_store. \<exists>n. represents s [10 \<mapsto> 1, 20 \<mapsto> 2, 30 \<mapsto> 3] \<and> fresh_node s n"
  using four_nodes three_nodes_map three_nodes_fresh by (metis distinct_length_2_or_more)

lemma map_insert_refines_map_witness:
  "\<forall>n. wp (map_insert rb_fuel n 5 7) (\<lambda>r s'. r = None \<and> represents s' [5 \<mapsto> 7]) no_nodes"
  using map_insert_refines_map [OF no_nodes_tree(2,3), of _ 5 7] by simp

lemma map_remove_refines_map_witness:
  "\<exists>s :: (nat, nat) rb_store. wp (map_remove rb_fuel 20) (\<lambda>r s'. r = Some 2 \<and> represents s' [10 \<mapsto> 1, 30 \<mapsto> 3]) s"
proof -
  obtain s :: "(nat, nat) rb_store" where "represents s [10 \<mapsto> 1, 20 \<mapsto> 2, 30 \<mapsto> 3]"
    using some_three by blast
  from map_remove_refines_map [OF this, of 20] show ?thesis
    by (intro exI [of _ s]) (simp add: fun_upd_twist)
qed

lemma map_lookups_witness:
  "\<exists>(s :: (nat, nat) rb_store) n.
     wp (and_then (map_insert rb_fuel n 20 9) (\<lambda>_. map_get rb_fuel 20)) (\<lambda>r s'. r = Some 9) s \<and>
     wp (and_then (map_remove rb_fuel 20) (\<lambda>_. map_get rb_fuel 10)) (\<lambda>r s'. r = Some 1) s \<and>
     wp (rb_contains_key rb_fuel 40) (\<lambda>r s'. r = False \<and> s' = s) s"
proof -
  obtain s :: "(nat, nat) rb_store" and n where s: "represents s [10 \<mapsto> 1, 20 \<mapsto> 2, 30 \<mapsto> 3]" "fresh_node s n"
    using some_three by blast
  show ?thesis
    using map_lookups [OF s, of 20 9 20] map_lookups [OF s, of 20 9 10] map_lookups [OF s, of 40]
    by (intro exI [of _ s] exI [of _ n]) simp
qed

lemma entry_or_insert_refines_map_witness:
  "\<forall>n. wp (and_then (and_then (map_entry rb_fuel 5) (or_insert rb_fuel n 1)) (\<lambda>v. map_value_set v 8))
      (\<lambda>_ s'. represents s' [5 \<mapsto> 8]) no_nodes"
  using entry_or_insert_refines_map [OF no_nodes_tree(2,3), of 5 _ 1 8] by blast

lemma rb_root_keeps_tree_witness:
  "\<forall>n. wp (rb_insert rb_fuel n 5 7 At_Root) (\<lambda>x s'. x = n \<and> (\<exists>t'. holds_tree s' t' \<and> inorder t' = [n]) \<and> privatized s' = []) no_nodes"
proof
  fix n
  show "wp (rb_insert rb_fuel n 5 7 At_Root) (\<lambda>x s'. x = n \<and> (\<exists>t'. holds_tree s' t' \<and> inorder t' = [n]) \<and> privatized s' = []) no_nodes"
    using rb_root_keeps_tree [OF no_nodes_tree(1), of n 5 7] conjunct1 
    by (simp add: no_nodes_def) (erule conjE, erule_tac x = "[]" in allE, simp)
qed

lemma rb_search_bounded_witness:
  "\<exists>(s :: (nat, nat) rb_store) t. rb_height t \<le> 126 \<and>
     wp (rb_location 2 30 Read) (\<lambda>loc s'. s' = s \<and> located (rb_key s) t 30 loc) s"
proof -
  obtain g p q n :: node_ptr where "distinct [g, p, q, n]" using four_nodes by blast
  then have "distinct [g, p, q]" by simp
  note t = three_nodes_tree(1) [OF this]
  have "rb_height (Node (Node Leaf Black p Leaf) Black g (Node Leaf Black q Leaf)) \<le> 2" by simp
  from rb_search_bounded [OF t this, of Read 30] show ?thesis by blast
qed


lemma drop_frees_every_node_once_witness:
  "\<exists>(s :: (nat, nat) rb_store) xs. rb_root_drop rb_fuel s = Some xs \<and> length xs = 3"
proof -
  obtain g p q n :: node_ptr where "distinct [g, p, q, n]" using four_nodes by blast
  then have d: "distinct [g, p, q]" by simp
  from drop_frees_every_node_once [OF three_nodes_tree(1) [OF d]]
  obtain xs where xs: "rb_root_drop rb_fuel (three_nodes g p q) = Some xs" "distinct xs" "set xs = {g, p, q}"
    by (auto simp: insert_commute)
  have "length xs = 3" using distinct_card [OF xs(2)] xs(3) d by simp
  with xs(1) show ?thesis by blast
qed

end
