(* ===== verification/Reclaim.thy ===== *)
theory Reclaim
  imports Stm_Theorems Synch Thread_Garbage
begin

text \<open>
  When dropping what a commit has overwritten is safe: the threads of theory \<open>Stm\<close> together with the epochs
  they show each other (\<open>src/internal/gc/quiesce/synch.rs\<close>), the bags they seal
  (\<open>gc/thread_garbage.rs\<close>), the list they are registered in and the pinning of
  \<open>src/internal/thread.rs\<close>, every access to another thread's epoch a step of its own.

  A batch of garbage is the index in the history of the commit that queued it, so a batch
  stands for the values that this commit has overwritten. Theory \<open>Thread_Garbage\<close> has the bags
  that hold them, of which a thread keeps only a bounded number; here the queue is any list.

  Pinning loads the clock and then stores the thread's epoch, a store with \<open>Release\<close>
  ordering. The flag \<open>late\<close> of the step relation says whether the thread may go on to read cells while
  that store is still pending, as a processor with store buffers does. Anything else waits for it: a
  compare-exchange, and every later store of the thread.
\<close>

section \<open>State\<close>

type_synonym batch = "quiesce_epoch \<times> nat"

text \<open>A collection under way: the epoch to wait for, the threads still to look at, what was observed so far,
  and whether the thread waits for the first of them.\<close>

record collection =
  wait_epoch :: quiesce_epoch
  to_visit :: "tid list"
  observed :: "quiesce_epoch list"
  waiting :: bool

record gc =
  mem :: stm
  synchs :: synch_list
  epo :: "tid \<Rightarrow> thread_epoch"
  pending :: "tid \<Rightarrow> quiesce_epoch option"
  due :: "tid \<Rightarrow> batch option"
  bags :: "tid \<Rightarrow> batch list"
  col :: "tid \<Rightarrow> collection option"
  gone :: "nat set"

abbreviation tpc :: "gc \<Rightarrow> tid \<Rightarrow> pc" where
  "tpc g t \<equiv> pc (th (mem g) t)"

text \<open>Between transactions, with nothing left to do for the last one.\<close>

definition resting :: "gc \<Rightarrow> tid \<Rightarrow> bool" where
  "resting g t \<longleftrightarrow> tpc g t = Idle \<and> pending g t = None \<and> due g t = None \<and> col g t = None"

text \<open>The epoch a collection has come to: \<open>FreezeList::quiesce\<close> of what it has observed.\<close>

definition collect_epoch :: "collection \<Rightarrow> quiesce_epoch" where
  "collect_epoch k = quiesce (wait_epoch k) (observed k)"

definition pin_word :: "quiesce_epoch \<Rightarrow> thread_epoch \<Rightarrow> thread_epoch" where
  "pin_word p w = (if is_active (thread_epoch_get w) then thread_epoch_repin p w else thread_epoch_pin p w)"

fun is_read :: "pc \<Rightarrow> bool" where
  "is_read Running = True"
| "is_read (Reading c buf logged) = True"
| "is_read _ = False"

section \<open>Steps\<close>

inductive gc_step :: "bool \<Rightarrow> (cell \<Rightarrow> nat) \<Rightarrow> gc \<Rightarrow> gc \<Rightarrow> bool" for late csz where
  pin_load: "\<lbrakk>t \<in> set (synch_iter (synchs g)); resting g t; stm_step csz (mem g) s'; pc (th s' t) = Running\<rbrakk> \<Longrightarrow>
    gc_step late csz g (g\<lparr>mem := s', pending := (pending g)(t := Some (pin (th s' t)))\<rparr>)"
| pin_store: "pending g t = Some p \<Longrightarrow>
    gc_step late csz g (g\<lparr>epo := (epo g)(t := pin_word p (epo g t)), pending := (pending g)(t := None)\<rparr>)"
| tx_step: "\<lbrakk>tpc g t \<noteq> Idle; stm_step csz (mem g) s'; \<forall>u. u \<noteq> t \<longrightarrow> th s' u = th (mem g) u;
      \<not> (\<exists>i sync. tpc g t = Publishing i sync \<and> pc (th s' t) = Idle);
      pending g t = None \<or> late \<and> is_read (pc (th s' t)) \<and> lk s' = lk (mem g)\<rbrakk> \<Longrightarrow>
    gc_step late csz g (g\<lparr>mem := s'\<rparr>)"
| published: "\<lbrakk>tpc g t = Publishing i sync; pending g t = None; stm_step csz (mem g) s'; pc (th s' t) = Idle\<rbrakk> \<Longrightarrow>
    gc_step late csz g (g\<lparr>mem := s', due := (due g)(t := Some (sync, ent (th (mem g) t)))\<rparr>)"
| seal_bag: "due g t = Some b \<Longrightarrow>
    gc_step late csz g (g\<lparr>bags := (bags g)(t := bags g t @ [b]), due := (due g)(t := None)\<rparr>)"
| no_garbage: "due g t = Some b \<Longrightarrow> gc_step late csz g (g\<lparr>due := (due g)(t := None)\<rparr>)"
| freeze: "\<lbrakk>t \<in> set (synch_iter (synchs g)); resting g t; bags g t \<noteq> [];
      e = fst (hd (bags g t)) \<or> e = fst (last (bags g t))\<rbrakk> \<Longrightarrow>
    gc_step late csz g (g\<lparr>epo := (epo g)(t := set_collect_epoch (epo g t)), col := (col g)(t :=
      Some \<lparr>wait_epoch = e, to_visit = synch_iter (synchs g), observed = [], waiting = False\<rparr>)\<rparr>)"
| observe: "\<lbrakk>col g t = Some k; to_visit k = u # us; \<not> waiting k; e = thread_epoch_get (epo g u)\<rbrakk> \<Longrightarrow>
    gc_step late csz g (g\<lparr>col := (col g)(t := Some (if e > wait_epoch k
      then k\<lparr>to_visit := us, observed := observed k @ [e]\<rparr>
      else k\<lparr>observed := observed k @ [e], waiting := True\<rparr>))\<rparr>)"
| quiesced: "\<lbrakk>col g t = Some k; to_visit k = u # us; waiting k; is_quiesced (epo g u) (wait_epoch k)\<rbrakk> \<Longrightarrow>
    gc_step late csz g (g\<lparr>col := (col g)(t := Some (k\<lparr>to_visit := us, waiting := False\<rparr>))\<rparr>)"
| collect_bags: "\<lbrakk>col g t = Some k; to_visit k = []\<rbrakk> \<Longrightarrow>
    gc_step late csz g (g\<lparr>bags := (bags g)(t := dropWhile (\<lambda>b. fst b < collect_epoch k) (bags g t)),
      gone := gone g \<union> snd ` set (takeWhile (\<lambda>b. fst b < collect_epoch k) (bags g t)), col := (col g)(t := None)\<rparr>)"
| unpin: "resting g t \<Longrightarrow> gc_step late csz g (g\<lparr>epo := (epo g)(t := thread_epoch_unpin (epo g t))\<rparr>)"
| subscribe: "\<lbrakk>t \<notin> set (synch_iter (synchs g)); \<forall>u. col g u = None\<rbrakk> \<Longrightarrow>
    gc_step late csz g (g\<lparr>synchs := register (synchs g) t, epo := (epo g)(t := thread_epoch_inactive)\<rparr>)"
| unsubscribe: "\<lbrakk>resting g t; bags g t = []; \<forall>u. col g u = None; unregister (synchs g) t = (l, True)\<rbrakk> \<Longrightarrow>
    gc_step late csz g (g\<lparr>synchs := l\<rparr>)"

definition gc_init :: "(cell \<Rightarrow> nat) \<Rightarrow> (cell \<Rightarrow> usize list) \<Rightarrow> gc \<Rightarrow> bool" where
  "gc_init csz vals g \<longleftrightarrow> stm_init csz vals (mem g) \<and> synchs g = synch_list_new \<and> epo g = (\<lambda>_. thread_epoch_inactive) \<and>
     pending g = (\<lambda>_. None) \<and> due g = (\<lambda>_. None) \<and> bags g = (\<lambda>_. []) \<and> col g = (\<lambda>_. None) \<and> gone g = {}"

section \<open>What is dropped\<close>

text \<open>
  A value of a cell is named by the commit that wrote it, or by nothing for the first one. A
  commit overwrites, in each cell it writes, the value of the last effective commit before it.
\<close>

definition version :: "nat set \<Rightarrow> entry list \<Rightarrow> cell \<Rightarrow> nat option" where
  "version J h c = (case writers J h c of [] \<Rightarrow> None | j # js \<Rightarrow> Some (last (j # js)))"

definition overwritten :: "entry list \<Rightarrow> nat \<Rightarrow> cell \<Rightarrow> nat option" where
  "overwritten h k c = version (effs h \<inter> {..<k}) h c"

definition dropped :: "gc \<Rightarrow> cell \<Rightarrow> nat option set" where
  "dropped g c = {overwritten (hist (mem g)) k c | k. k \<in> gone g \<and> writes (hist (mem g) ! k) c}"

section \<open>The steps of a transaction, as the collector sees them\<close>

lemma time_le: "time_ok p \<Longrightarrow> time_ok q \<Longrightarrow> ver (qget p) \<le> ver (qget q) \<Longrightarrow> p \<le> q"
  using read_write_valid_iff [of q "qget p"]
  by (simp add: time_ok_def read_write_valid_def read_write_valid_raw_def quiesce_order)

lemma step_grows:
  assumes i: "stm_inv csz vals s" and step: "stm_step csz s s'"
  shows "grows (hist s) (hist s')"
proof -
  have phase: "phase (pc (th s t)) = Some st \<Longrightarrow> est (hist s ! ent (th s t)) = st" for t st
    using stm_invD(3) [OF i, of t] by (auto simp: ent_ok_def Let_def)
  from step show ?thesis
    by cases (auto simp: phase intro!: grows_set_status grows_append)
qed

text \<open>What a step does to one thread: it starts a transaction, or it keeps its pin and its snapshot,
  and adds at most one read, which it has checked.\<close>

lemma step_thread:
  assumes "stm_step csz s s'"
  shows "pc (th s u) = Idle \<and> pc (th s' u) = Running \<and> pin (th s' u) = QuiesceEpoch (clk s) \<and>
       seen (th s' u) = [] \<and> vis (th s' u) = ticked (hist s) \<and> hist s' = hist s \<or>
     pin (th s' u) = pin (th s u) \<and> vis (th s' u) = vis (th s u) \<and>
       (pc (th s u) = Idle \<longrightarrow> pc (th s' u) = Idle) \<and>
       (seen (th s' u) = seen (th s u) \<or>
         (\<exists>r. seen (th s' u) = seen (th s u) @ [r] \<and> pc (th s u) \<noteq> Idle \<and> valid (th s u) (lk s (fst r)) \<and>
            hist s' = hist s))"
  using assms by cases (auto simp: clock_now_Some)

lemma step_publishing:
  assumes "stm_step csz s s'" and "pc (th s' t) = Publishing i sync"
  shows "(\<exists>i'. pc (th s t) = Publishing i' sync) \<and> ent (th s' t) = ent (th s t) \<or>
    pc (th s t) = Ticking \<and> fetch_and_tick (clk s) = (sync, clk s') \<and> \<not> lock_bit_set (clk s') \<and>
      ent (th s' t) = ent (th s t) \<and> hist s' = set_status (ent (th s t)) Ticked (hist s) \<and>
      (\<forall>u. pin (th s' u) = pin (th s u) \<and> (pc (th s' u) \<noteq> Idle \<longrightarrow> pc (th s u) \<noteq> Idle))"
  using assms by cases (auto split: if_splits)

end
