(* ===== verification/Reclaim_Proofs.thy ===== *)
theory Reclaim_Proofs
  imports Reclaim
begin

text \<open>
  The collector of theory \<open>Reclaim\<close> never drops a value that a running transaction has read, as long as no
  thread reads before its pin can be seen. If a thread may read earlier, there is a run in which it does.
\<close>

section \<open>Batches and the threads that may still use them\<close>

text \<open>Thread \<open>u\<close> has read no value that commit \<open>k\<close> has overwritten.\<close>

definition let_go :: "stm \<Rightarrow> nat \<Rightarrow> tid \<Rightarrow> bool" where
  "let_go s k u \<longleftrightarrow> (pc (th s u) \<noteq> Idle \<longrightarrow>
     (\<forall>r\<in>set (seen (th s u)). writes (hist s ! k) (fst r) \<longrightarrow> k \<in> vis (th s u)))"

definition batch_ok :: "stm \<Rightarrow> batch \<Rightarrow> bool" where
  "batch_ok s b \<longleftrightarrow> snd b \<in> ticked (hist s) \<and>
     (\<forall>u. pc (th s u) \<noteq> Idle \<longrightarrow> snd b \<notin> vis (th s u) \<longrightarrow> pin (th s u) \<le> fst b)"

lemma let_go_idle: "pc (th s u) = Idle \<Longrightarrow> let_go s k u"
  by (simp add: let_go_def)

lemma let_go_unread: "seen (th s u) = [] \<Longrightarrow> let_go s k u"
  by (simp add: let_go_def)

lemma let_go_step:
  assumes i: "stm_inv csz vals s" and step: "stm_step csz s s'" and k: "k \<in> ticked (hist s)" and l: "let_go s k u"
  shows "let_go s' k u"
proof -
  from k have "k < length (hist s)" using ticked_less by blast
  then have w: "writes (hist s' ! k) c = writes (hist s ! k) c" for c
    by (rule grows_writes [OF step_grows [OF i step]])
  have new: "k \<in> vis (th s u)" if "pc (th s u) \<noteq> Idle" "valid (th s u) (lk s c)" "writes (hist s ! k) c" for c
    using valid_clean(2) [OF i that(1,2)] k that(3) ticked_effs by (auto simp: dirty_def)
  from step_thread [OF step, of u] l show ?thesis
    unfolding let_go_def w by (elim disjE conjE exE) (auto dest: new)
qed

lemma batch_ok_step:
  assumes i: "stm_inv csz vals s" and step: "stm_step csz s s'" and b: "batch_ok s b"
  shows "batch_ok s' b"
  unfolding batch_ok_def
proof (intro conjI allI impI)
  show "snd b \<in> ticked (hist s')"
    using b grows_ticked [OF step_grows [OF i step]] by (auto simp: batch_ok_def)
  fix u assume "pc (th s' u) \<noteq> Idle" and "snd b \<notin> vis (th s' u)"
  with b step_thread [OF step, of u] show "pin (th s' u) \<le> fst b"
    by (auto simp: batch_ok_def)
qed

text \<open>The batch of a commit that has just ticked.\<close>

lemma batch_ok_tick:
  assumes i: "stm_inv csz vals s" and i': "stm_inv csz vals s'" and step: "stm_step csz s s'"
    and pub: "pc (th s' t) = Publishing n sync" and tick: "pc (th s t) = Ticking"
    and f: "fetch_and_tick (clk s) = (sync, clk s')"
    and keep: "\<And>u. pin (th s' u) = pin (th s u)" "\<And>u. pc (th s' u) \<noteq> Idle \<Longrightarrow> pc (th s u) \<noteq> Idle"
  shows "batch_ok s' (sync, ent (th s' t))"
  unfolding batch_ok_def fst_conv snd_conv
proof (intro conjI allI impI)
  show "ent (th s' t) \<in> ticked (hist s')"
    using stm_invD(3) [OF i', of t] pub by (auto simp: ent_ok_def Let_def ticked_def)
  fix u assume "pc (th s' u) \<noteq> Idle"
  then have "time_ok (pin (th s u))" "ver (qget (pin (th s u))) \<le> ver (clk s)"
    using keep(2) [of u] stm_invD(1) [OF i, of u] by (auto simp: thr_ok_def)
  moreover have "clock_ok (clk s)" using stm_invD(9) [OF i] by (simp add: locks_inv_def)
  moreover have "sync = QuiesceEpoch (clk s)" using f by (simp add: fetch_and_tick_def new_unchecked_def)
  ultimately show "pin (th s' u) \<le> sync"
    by (simp add: keep(1) clock_ok_def time_le)
qed

section \<open>The invariant\<close>

text \<open>What a thread's epoch shows of its transaction. A thread that has not yet stored its pin has read nothing.\<close>

definition pin_ok :: "gc \<Rightarrow> tid \<Rightarrow> bool" where
  "pin_ok g t \<longleftrightarrow>
     (pending g t = None \<longrightarrow> tpc g t \<noteq> Idle \<longrightarrow> epo g t = qget (pin (th (mem g) t))) \<and>
     (\<forall>p. pending g t = Some p \<longrightarrow> tpc g t \<noteq> Idle \<and> p = pin (th (mem g) t) \<and> seen (th (mem g) t) = []) \<and>
     (t \<notin> set (synch_iter (synchs g)) \<longrightarrow> tpc g t = Idle)"

definition pins_ok :: "gc \<Rightarrow> bool" where
  "pins_ok g \<longleftrightarrow> (\<forall>t. pin_ok g t)"

definition batches_ok :: "gc \<Rightarrow> bool" where
  "batches_ok g \<longleftrightarrow> (\<forall>t. (\<forall>b\<in>set (bags g t) \<union> set_option (due g t). batch_ok (mem g) b) \<and>
     (\<forall>i sync. tpc g t = Publishing i sync \<longrightarrow> batch_ok (mem g) (sync, ent (th (mem g) t))))"

text \<open>Thread \<open>u\<close> does not stand in the way of dropping the old bags of \<open>t\<close>.\<close>

definition cleared :: "gc \<Rightarrow> tid \<Rightarrow> quiesce_epoch \<Rightarrow> tid \<Rightarrow> bool" where
  "cleared g t e u \<longleftrightarrow> (\<forall>b\<in>set (bags g t). fst b < e \<longrightarrow> let_go (mem g) (snd b) u)"

definition col_ok :: "gc \<Rightarrow> tid \<Rightarrow> collection \<Rightarrow> bool" where
  "col_ok g t k \<longleftrightarrow> tpc g t = Idle \<and> pending g t = None \<and> due g t = None \<and>
     (\<forall>u. u \<notin> set (to_visit k) \<longrightarrow> cleared g t (collect_epoch k) u) \<and>
     (waiting k \<longrightarrow> to_visit k \<noteq> [] \<and>
        (thread_epoch_get (epo g (hd (to_visit k))) \<le> wait_epoch k \<or>
          (\<forall>b\<in>set (bags g t). let_go (mem g) (snd b) (hd (to_visit k)))))"

definition gone_ok :: "gc \<Rightarrow> bool" where
  "gone_ok g \<longleftrightarrow> (\<forall>k\<in>gone g. k \<in> ticked (hist (mem g)) \<and> (\<forall>u. let_go (mem g) k u))"

definition gc_inv :: "(cell \<Rightarrow> nat) \<Rightarrow> (cell \<Rightarrow> usize list) \<Rightarrow> gc \<Rightarrow> bool" where
  "gc_inv csz vals g \<longleftrightarrow> stm_inv csz vals (mem g) \<and> distinct (synch_iter (synchs g)) \<and> pins_ok g \<and> batches_ok g \<and>
     (\<forall>t k. col g t = Some k \<longrightarrow> col_ok g t k) \<and> gone_ok g"

lemma gc_invD:
  assumes "gc_inv csz vals g"
  shows "stm_inv csz vals (mem g)" "distinct (synch_iter (synchs g))" "pins_ok g" "batches_ok g"
    "col g t = Some k \<Longrightarrow> col_ok g t k" "gone_ok g"
  using assms by (simp_all add: gc_inv_def)

lemma quiesce_snoc:
  "quiesce e (es @ [x]) = (if x > e then min (quiesce e es) x else quiesce e es)"
proof (cases "x > e")
  case True
  let ?es = "List.map_filter (\<lambda>t. if t > e then Some t else None) es"
  from True show ?thesis
  proof (cases ?es)
    case Nil
    with True show ?thesis
      using max_value_greatest [of x] by (simp add: quiesce_def map_filter_def min_absorb2)
  next
    case (Cons y ys)
    with True show ?thesis by (simp add: quiesce_def map_filter_def min.commute)
  qed
qed (simp add: quiesce_def map_filter_def)

text \<open>A thread that is seen at a later epoch than a batch's has let go of it.\<close>

lemma seen_later_let_go:
  assumes "pins_ok g" and "batch_ok (mem g) b" and "fst b < thread_epoch_get (epo g u)"
  shows "let_go (mem g) (snd b) u"
proof -
  have "pin_ok g u" using assms(1) by (simp add: pins_ok_def)
  then consider "tpc g u = Idle" | "seen (th (mem g) u) = []"
    | "tpc g u \<noteq> Idle" "epo g u = qget (pin (th (mem g) u))"
    unfolding pin_ok_def by (cases "pending g u") auto
  then show ?thesis
  proof cases
    case 3
    then have "fst b < pin (th (mem g) u)"
      using assms(3) by (simp add: thread_epoch_get_def new_unchecked_def)
    then have "snd b \<in> vis (th (mem g) u)"
      using assms(2) 3(1) by (auto simp: batch_ok_def)
    then show ?thesis by (simp add: let_go_def)
  qed (simp_all add: let_go_idle let_go_unread)
qed

section \<open>Steps of transactions\<close>

lemma batches_okD: "batches_ok g \<Longrightarrow> b \<in> set (bags g t) \<Longrightarrow> batch_ok (mem g) b"
  by (auto simp: batches_ok_def)

text \<open>A step of the memory keeps everything but what it does to the thread that takes it.\<close>

lemma gc_inv_mem:
  assumes inv: "gc_inv csz vals g" and step: "stm_step csz (mem g) s'"
    and g': "mem g' = s'" "synchs g' = synchs g" "epo g' = epo g" "bags g' = bags g" "col g' = col g" "gone g' = gone g"
    and pins: "pins_ok g'"
    and cols: "\<And>t k. col g t = Some k \<Longrightarrow> tpc g' t = Idle \<and> pending g' t = None \<and> due g' t = None"
    and due: "\<And>t b. due g' t = Some b \<Longrightarrow> due g t = Some b \<or>
        (\<exists>i. tpc g t = Publishing i (fst b)) \<and> snd b = ent (th (mem g) t)"
  shows "gc_inv csz vals g'"
proof -
  note I = gc_invD [OF inv]
  have i': "stm_inv csz vals s'" by (rule stm_inv_step [OF I(1) step])
  note keep_batch = batch_ok_step [OF I(1) step]
  note keep_go = let_go_step [OF I(1) step]
  have tick: "snd b \<in> ticked (hist (mem g))" if "b \<in> set (bags g t)" for b t
    using batches_okD [OF I(4) that] by (simp add: batch_ok_def)
  have "batches_ok g'"
    unfolding batches_ok_def g'
  proof (intro allI conjI ballI impI)
    fix t b assume "b \<in> set (bags g t) \<union> set_option (due g' t)"
    then have "batch_ok (mem g) b"
    proof
      assume "b \<in> set_option (due g' t)"
      then have d: "due g' t = Some b" by simp
      obtain e k where b: "b = (e, k)" by (cases b)
      from due [OF d] I(4) show ?thesis
        unfolding batches_ok_def b by fastforce
    qed (rule batches_okD [OF I(4)])
    then show "batch_ok s' b" by (rule keep_batch)
  next
    fix t i sync assume p: "pc (th s' t) = Publishing i sync"
    from step_publishing [OF step p] show "batch_ok s' (sync, ent (th s' t))"
    proof (elim disjE conjE exE)
      fix i' assume "pc (th (mem g) t) = Publishing i' sync" "ent (th s' t) = ent (th (mem g) t)"
      with I(4) show ?thesis by (auto simp: batches_ok_def intro: keep_batch)
    next
      assume "pc (th (mem g) t) = Ticking" "fetch_and_tick (clk (mem g)) = (sync, clk s')"
        "\<forall>u. pin (th s' u) = pin (th (mem g) u) \<and> (pc (th s' u) \<noteq> Idle \<longrightarrow> pc (th (mem g) u) \<noteq> Idle)"
      then show ?thesis by (intro batch_ok_tick [OF I(1) i' step p]) auto
    qed
  qed
  moreover have "col_ok g' t k" if c: "col g' t = Some k" for t k
  proof -
    have "col_ok g t k" using I(5) c g'(5) by simp
    then show ?thesis
      using cols [of t k] c keep_go tick unfolding col_ok_def cleared_def g' by blast
  qed
  moreover have "gone_ok g'"
    using I(6) keep_go grows_ticked [OF step_grows [OF I(1) step]] unfolding gone_ok_def g' by blast
  ultimately show ?thesis
    using I(2) i' pins by (simp add: gc_inv_def g')
qed

lemma pins_ok_upd:
  assumes "pins_ok g" and "pin_ok g' t"
    and "\<And>u. u \<noteq> t \<Longrightarrow> th (mem g') u = th (mem g) u \<and> epo g' u = epo g u \<and> pending g' u = pending g u \<and>
      (u \<in> set (synch_iter (synchs g')) \<longleftrightarrow> u \<in> set (synch_iter (synchs g)))"
  shows "pins_ok g'"
  unfolding pins_ok_def
proof
  fix u show "pin_ok g' u"
    using assms by (cases "u = t") (auto simp: pins_ok_def pin_ok_def)
qed

lemma pin_okD:
  assumes "pins_ok g"
  shows "pending g t = None \<Longrightarrow> tpc g t \<noteq> Idle \<Longrightarrow> epo g t = qget (pin (th (mem g) t))"
    and "t \<notin> set (synch_iter (synchs g)) \<Longrightarrow> tpc g t = Idle"
  using assms by (simp_all add: pins_ok_def pin_ok_def)

lemma col_okD:
  assumes "gc_inv csz vals g" and "col g t = Some k"
  shows "tpc g t = Idle" "pending g t = None" "due g t = None"
  using gc_invD(5) [OF assms] by (simp_all add: col_ok_def)

lemma inv_pin_load:
  assumes inv: "gc_inv csz vals g" and t: "t \<in> set (synch_iter (synchs g))" "resting g t"
    and step: "stm_step csz (mem g) s'" and run: "pc (th s' t) = Running"
  shows "gc_inv csz vals (g\<lparr>mem := s', pending := (pending g)(t := Some (pin (th s' t)))\<rparr>)" (is "gc_inv csz vals ?g")
proof (rule gc_inv_mem [OF inv step])
  have idle: "pc (th (mem g) t) = Idle" and free: "col g t = None" using t(2) by (simp_all add: resting_def)
  have same: "th s' u = th (mem g) u" if "u \<noteq> t" for u
  proof (rule step_others [OF step _ that])
    show "th s' t \<noteq> th (mem g) t" using idle run by auto
  qed
  show "pins_ok ?g"
    by (rule pins_ok_upd [OF gc_invD(3) [OF inv], of _ t])
      (use step_thread [OF step, of t] idle run t(1) same in \<open>auto simp: pin_ok_def\<close>)
  show "tpc ?g u = Idle \<and> pending ?g u = None \<and> due ?g u = None" if "col g u = Some k" for u k
    using col_okD [OF inv that] free that same [of u] by (cases "u = t") auto
qed auto

lemma inv_tx_step:
  assumes inv: "gc_inv csz vals g" and act: "tpc g t \<noteq> Idle" and step: "stm_step csz (mem g) s'"
    and same: "\<forall>u. u \<noteq> t \<longrightarrow> th s' u = th (mem g) u" and vis: "pending g t = None"
  shows "gc_inv csz vals (g\<lparr>mem := s'\<rparr>)" (is "gc_inv csz vals ?g")
proof (rule gc_inv_mem [OF inv step])
  show "pins_ok ?g"
    by (rule pins_ok_upd [OF gc_invD(3) [OF inv], of _ t])
      (use step_thread [OF step, of t] act same vis pin_okD [OF gc_invD(3) [OF inv], of t] in \<open>auto simp: pin_ok_def\<close>)
  show "tpc ?g u = Idle \<and> pending ?g u = None \<and> due ?g u = None" if "col g u = Some k" for u k
    using col_okD [OF inv that] same act by (cases "u = t") auto
qed auto

lemma inv_published:
  assumes inv: "gc_inv csz vals g" and pub: "tpc g t = Publishing i sync" and vis: "pending g t = None"
    and step: "stm_step csz (mem g) s'" and idle: "pc (th s' t) = Idle"
  shows "gc_inv csz vals (g\<lparr>mem := s', due := (due g)(t := Some (sync, ent (th (mem g) t)))\<rparr>)" (is "gc_inv csz vals ?g")
proof (rule gc_inv_mem [OF inv step])
  have same: "th s' u = th (mem g) u" if "u \<noteq> t" for u
  proof (rule step_others [OF step _ that])
    show "th s' t \<noteq> th (mem g) t" using idle pub by auto
  qed
  show "pins_ok ?g"
    by (rule pins_ok_upd [OF gc_invD(3) [OF inv], of _ t]) (use idle same vis in \<open>auto simp: pin_ok_def\<close>)
  show "tpc ?g u = Idle \<and> pending ?g u = None \<and> due ?g u = None" if "col g u = Some k" for u k
    using col_okD [OF inv that] pub same [of u] by (cases "u = t") auto
qed (use pub in \<open>auto split: if_splits\<close>)

section \<open>Steps of the collector\<close>

text \<open>The memory stays as it is: what is left are the epochs, the bags and the collections.\<close>

lemma inv_pin_store:
  assumes inv: "gc_inv csz vals g" and p: "pending g t = Some p"
  shows "gc_inv csz vals (g\<lparr>epo := (epo g)(t := pin_word p (epo g t)), pending := (pending g)(t := None)\<rparr>)"
    (is "gc_inv csz vals ?g")
proof -
  note I = gc_invD [OF inv]
  have pt: "p = pin (th (mem g) t)" and unread: "seen (th (mem g) t) = []"
    using I(3) p by (auto simp: pins_ok_def pin_ok_def)
  have "pins_ok ?g"
    by (rule pins_ok_upd [OF I(3), of _ t])
      (use I(3) pt in \<open>auto simp: pins_ok_def pin_ok_def pin_word_def thread_epoch_repin_def thread_epoch_pin_def thread_epoch_set_def\<close>)
  moreover have "col_ok ?g u k" if "col g u = Some k" for u k
    using I(5) [OF that] let_go_unread [OF unread] by (auto simp: col_ok_def cleared_def)
  ultimately show ?thesis
    using I by (simp add: gc_inv_def batches_ok_def gone_ok_def)
qed

text \<open>A thread that rests may change its epoch: nobody waits for what it has read.\<close>

lemma inv_epo:
  assumes inv: "gc_inv csz vals g" and rest: "resting g t"
  shows "gc_inv csz vals (g\<lparr>epo := (epo g)(t := w)\<rparr>)" (is "gc_inv csz vals ?g")
proof -
  note I = gc_invD [OF inv]
  have idle: "tpc g t = Idle" using rest by (simp add: resting_def)
  have "pins_ok ?g"
    by (rule pins_ok_upd [OF I(3), of _ t]) (use I(3) idle in \<open>auto simp: pins_ok_def pin_ok_def\<close>)
  moreover have "col_ok ?g u k" if "col g u = Some k" for u k
    using I(5) [OF that] let_go_idle [OF idle] by (auto simp: col_ok_def cleared_def)
  ultimately show ?thesis
    using I by (simp add: gc_inv_def batches_ok_def gone_ok_def)
qed

text \<open>Only the collection of one thread changes.\<close>

lemma inv_col:
  assumes inv: "gc_inv csz vals g" and k: "\<And>k. c = Some k \<Longrightarrow> col_ok g t k"
  shows "gc_inv csz vals (g\<lparr>col := (col g)(t := c)\<rparr>)"
proof -
  note I = gc_invD [OF inv]
  have "col_ok (g\<lparr>col := (col g)(t := c)\<rparr>) u k" if "((col g)(t := c)) u = Some k" for u k
    using that k I(5) by (auto simp: col_ok_def cleared_def split: if_splits)
  then show ?thesis
    using I by (simp add: gc_inv_def batches_ok_def gone_ok_def pins_ok_def pin_ok_def)
qed

lemma inv_freeze:
  assumes inv: "gc_inv csz vals g" and rest: "resting g t"
  shows "gc_inv csz vals (g\<lparr>epo := (epo g)(t := set_collect_epoch (epo g t)), col := (col g)(t :=
      Some \<lparr>wait_epoch = e, to_visit = synch_iter (synchs g), observed = [], waiting = False\<rparr>)\<rparr>)"
proof -
  let ?g = "g\<lparr>epo := (epo g)(t := set_collect_epoch (epo g t))\<rparr>"
  have i: "gc_inv csz vals ?g" by (rule inv_epo [OF inv rest])
  have "col_ok ?g t \<lparr>wait_epoch = e, to_visit = synch_iter (synchs g), observed = [], waiting = False\<rparr>"
    using rest pin_okD(2) [OF gc_invD(3) [OF inv]] let_go_idle
    by (auto simp: col_ok_def cleared_def resting_def)
  then show ?thesis
    using inv_col [OF i, of "Some \<lparr>wait_epoch = e, to_visit = synch_iter (synchs g), observed = [], waiting = False\<rparr>" t]
    by simp
qed

lemma inv_observe:
  assumes inv: "gc_inv csz vals g" and c: "col g t = Some k" and v: "to_visit k = u # us" and w: "\<not> waiting k"
    and e: "e = thread_epoch_get (epo g u)"
  shows "gc_inv csz vals (g\<lparr>col := (col g)(t := Some (if e > wait_epoch k
      then k\<lparr>to_visit := us, observed := observed k @ [e]\<rparr>
      else k\<lparr>observed := observed k @ [e], waiting := True\<rparr>))\<rparr>)"
proof (rule inv_col [OF inv], goal_cases)
  case (1 k')
  note I = gc_invD [OF inv]
  have ok: "col_ok g t k" by (rule I(5) [OF c])
  have sub: "cleared g t e' x \<Longrightarrow> e'' \<le> e' \<Longrightarrow> cleared g t e'' x" for e' e'' x
    by (auto simp: cleared_def)
  show ?case
  proof (cases "e > wait_epoch k")
    case True
    have "cleared g t e u"
      using seen_later_let_go [OF I(3) batches_okD [OF I(4)]] e by (auto simp: cleared_def)
    with True 1 ok v w show ?thesis
      unfolding col_ok_def collect_epoch_def
      by (auto simp: quiesce_snoc) (metis sub min.cobounded1 min.cobounded2)
  next
    case False
    with 1 ok v w e show ?thesis
      by (auto simp: col_ok_def collect_epoch_def quiesce_snoc)
  qed
qed

lemma inv_quiesced:
  assumes inv: "gc_inv csz vals g" and c: "col g t = Some k" and v: "to_visit k = u # us" and w: "waiting k"
    and q: "is_quiesced (epo g u) (wait_epoch k)"
  shows "gc_inv csz vals (g\<lparr>col := (col g)(t := Some (k\<lparr>to_visit := us, waiting := False\<rparr>))\<rparr>)"
proof (rule inv_col [OF inv], goal_cases)
  case (1 k')
  have "col_ok g t k" by (rule gc_invD(5) [OF inv c])
  moreover from this v w q have "\<forall>b\<in>set (bags g t). let_go (mem g) (snd b) u"
    by (auto simp: col_ok_def is_quiesced_def simp del: split_paired_All dest: leD)
  then have "cleared g t (collect_epoch k) u" by (simp add: cleared_def)
  ultimately show ?case
    using 1 v by (auto simp: col_ok_def collect_epoch_def)
qed

lemma inv_collect:
  assumes inv: "gc_inv csz vals g" and c: "col g t = Some k" and v: "to_visit k = []"
  shows "gc_inv csz vals (g\<lparr>bags := (bags g)(t := dropWhile (\<lambda>b. fst b < collect_epoch k) (bags g t)),
      gone := gone g \<union> snd ` set (takeWhile (\<lambda>b. fst b < collect_epoch k) (bags g t)), col := (col g)(t := None)\<rparr>)"
    (is "gc_inv csz vals ?g")
proof -
  note I = gc_invD [OF inv]
  have ok: "col_ok g t k" by (rule I(5) [OF c])
  have "batches_ok ?g"
    using I(4) unfolding batches_ok_def by (auto simp del: split_paired_All dest!: set_dropWhileD)
  moreover have "col_ok ?g u k'" if "((col g)(t := None)) u = Some k'" for u k'
    using that I(5) [of u k'] by (auto simp: col_ok_def cleared_def split: if_splits)
  moreover have "gone_ok ?g"
    using I(6) ok v batches_okD [OF I(4), of _ t]
    by (auto simp: gone_ok_def col_ok_def cleared_def batch_ok_def dest!: set_takeWhileD)
  ultimately show ?thesis
    using I by (simp add: gc_inv_def pins_ok_def pin_ok_def)
qed

lemma inv_seal:
  assumes inv: "gc_inv csz vals g" and d: "due g t = Some b"
  shows "gc_inv csz vals (g\<lparr>bags := (bags g)(t := bags g t @ [b]), due := (due g)(t := None)\<rparr>)" (is "gc_inv csz vals ?g")
    and "gc_inv csz vals (g\<lparr>due := (due g)(t := None)\<rparr>)"
proof -
  note I = gc_invD [OF inv]
  have "col g t = None" using col_okD(3) [OF inv, of t] d by (cases "col g t") auto
  then have "col_ok ?g u k" "col_ok (g\<lparr>due := (due g)(t := None)\<rparr>) u k" if "col g u = Some k" for u k
    using that I(5) [OF that] by (auto simp: col_ok_def cleared_def)
  moreover have "batches_ok ?g" "batches_ok (g\<lparr>due := (due g)(t := None)\<rparr>)"
    using I(4) d by (auto simp: batches_ok_def)
  ultimately show "gc_inv csz vals ?g" "gc_inv csz vals (g\<lparr>due := (due g)(t := None)\<rparr>)"
    using I by (simp_all add: gc_inv_def pins_ok_def pin_ok_def gone_ok_def)
qed

text \<open>Registration happens while nobody collects.\<close>

lemma inv_subscribe:
  assumes inv: "gc_inv csz vals g" and t: "t \<notin> set (synch_iter (synchs g))" and c: "\<forall>u. col g u = None"
  shows "gc_inv csz vals (g\<lparr>synchs := register (synchs g) t, epo := (epo g)(t := thread_epoch_inactive)\<rparr>)"
    (is "gc_inv csz vals ?g")
proof -
  note I = gc_invD [OF inv]
  have "pins_ok ?g"
    by (rule pins_ok_upd [OF I(3), of _ t])
      (use pin_okD(2) [OF I(3) t] I(3) in \<open>auto simp: pins_ok_def pin_ok_def\<close>)
  with I c t show ?thesis by (simp add: gc_inv_def batches_ok_def gone_ok_def)
qed

lemma inv_unsubscribe:
  assumes inv: "gc_inv csz vals g" and rest: "resting g t" and c: "\<forall>u. col g u = None"
    and u: "unregister (synchs g) t = (l, True)"
  shows "gc_inv csz vals (g\<lparr>synchs := l\<rparr>)" (is "gc_inv csz vals ?g")
proof -
  note I = gc_invD [OF inv]
  have l: "distinct (synch_iter l)" "set (synch_iter l) = set (synch_iter (synchs g)) - {t}"
    using set_unregister [OF I(2), of t] u by simp_all
  have "pins_ok ?g"
    by (rule pins_ok_upd [OF I(3), of _ t]) (use rest l in \<open>auto simp: pin_ok_def resting_def\<close>)
  with I c l show ?thesis by (simp add: gc_inv_def batches_ok_def gone_ok_def)
qed

section \<open>The invariant is inductive\<close>

lemma gc_inv_init: "gc_init csz vals g \<Longrightarrow> gc_inv csz vals g"
  using stm_inv_init [of csz vals "mem g"]
  by (auto simp: gc_init_def gc_inv_def pins_ok_def pin_ok_def batches_ok_def gone_ok_def stm_init_def idle_thr_def)

lemma gc_inv_step:
  assumes "gc_inv csz vals g" and "gc_step False csz g g'"
  shows "gc_inv csz vals g'"
  using assms(2,1)
proof cases
  case pin_load
  then show ?thesis using assms(1) by (auto intro: inv_pin_load)
next
  case tx_step
  then show ?thesis using assms(1) by (auto intro: inv_tx_step)
next
  case (observe t k u us e)
  show ?thesis unfolding observe(1) by (rule inv_observe [OF assms(1) observe(2-5)])
next
  case freeze
  then show ?thesis using assms(1) by (auto intro: inv_freeze)
next
  case (subscribe t)
  then show ?thesis using assms(1) inv_subscribe by blast
next
  case (unsubscribe t l)
  then show ?thesis using assms(1) inv_unsubscribe by blast
next
  case unpin
  then show ?thesis using assms(1) by (auto intro: inv_epo)
qed (simp_all only: inv_pin_store inv_published inv_seal inv_quiesced inv_collect)

interpretation rcl: protocol "gc_init csz vals" "gc_step False csz" "gc_inv csz vals" for csz vals
  by unfold_locales (rule gc_inv_init, assumption, rule gc_inv_step)

end
