(* ===== verification/Reclaim_Theorems.thy ===== *)
theory Reclaim_Theorems
  imports Reclaim_Proofs
begin

text \<open>
  What the collector promises to running transactions, and what it would take to break the promise.
\<close>

section \<open>Versions of a cell\<close>

lemma writers_sorted: "sorted (writers J h c)"
  unfolding writers_def by (rule sorted_wrt_filter) simp

lemma version_Some:
  assumes "k \<in> J" and "k < length h" and "writes (h ! k) c"
  shows "\<exists>j\<ge>k. version J h c = Some j"
proof -
  have k: "k \<in> set (writers J h c)" using assms by (simp add: writers_def)
  then obtain ws w where ws: "writers J h c = ws @ [w]" by (cases "writers J h c" rule: rev_cases) auto
  then have "version J h c = Some w" by (cases ws) (auto simp: version_def)
  moreover have "k \<le> w"
    using k writers_sorted [of J h c] unfolding ws by (auto simp: sorted_append)
  ultimately show ?thesis by blast
qed

lemma version_less:
  assumes "J \<subseteq> {..<k}" and "version J h c = Some j"
  shows "j < k"
proof -
  have "j \<in> set (writers J h c)"
    using assms(2) by (auto simp: version_def split: list.splits if_splits)
  with assms(1) show ?thesis by (auto simp: writers_def)
qed

lemma val_after_version:
  "val_after vals J h c = (case version J h c of None \<Rightarrow> vals c | Some j \<Rightarrow> the (map_of (ewr (h ! j)) c))"
  by (simp add: val_after_def version_def split: list.splits)

section \<open>No use after drop\<close>


section \<open>Runs\<close>

text \<open>
  One word per cell. Thread 1 overwrites cell 0, seals its garbage, and collects it, while thread 0 is in the state \<open>x\<close>,
  inactive for all that thread 1 can see.
\<close>

definition run_gc ::
  "stm \<Rightarrow> quiesce_epoch option \<Rightarrow> quiesce_epoch option \<Rightarrow> thread_epoch \<Rightarrow> batch option \<Rightarrow> batch list \<Rightarrow>
     collection option \<Rightarrow> nat set \<Rightarrow> gc" where
  "run_gc m p0 p1 e d b k n = \<lparr>mem = m, synchs = register (register synch_list_new 0) 1,
     epo = (\<lambda>_. thread_epoch_inactive)(1 := e), pending = (\<lambda>_. None)(0 := p0, 1 := p1), due = (\<lambda>_. None)(1 := d),
     bags = (\<lambda>_. [])(1 := b), col = (\<lambda>_. None)(1 := k), gone = n\<rparr>"

abbreviation run_pin :: quiesce_epoch where "run_pin \<equiv> QuiesceEpoch FIRST"

definition run_thr :: "pc \<Rightarrow> (cell \<times> usize list) list \<Rightarrow> thr" where
  "run_thr p w = \<lparr>pc = p, pin = run_pin, rlog = [], wlog = w, seen = [], vis = {}, ppos = 0, ent = 0\<rparr>"

definition run_mem :: "epoch_clock \<Rightarrow> (cell \<Rightarrow> epoch_lock) \<Rightarrow> (cell \<Rightarrow> nat \<Rightarrow> usize) \<Rightarrow> entry list \<Rightarrow> thr \<Rightarrow> thr \<Rightarrow> stm" where
  "run_mem ck l d h x y = \<lparr>clk = ck, lk = l, dat = d, th = (\<lambda>_. idle_thr)(0 := x, 1 := y), hist = h\<rparr>"

definition run_start :: "thr \<Rightarrow> quiesce_epoch option \<Rightarrow> gc" where
  "run_start x p = run_gc (run_mem FIRST (\<lambda>_. FIRST) (\<lambda>c k. [0] ! k) [] x idle_thr) p None thread_epoch_inactive None [] None {}"

lemma run_valid: "pin x = run_pin \<Longrightarrow> valid x FIRST"
  by (simp add: valid_def read_write_valid_lockable_def read_write_valid_def read_write_valid_raw_def)

lemma run_epochs:
  "run_pin < end_of_time" "end_of_time < max_value" "thread_epoch_get thread_epoch_inactive = max_value"
  "thread_epoch_get (set_collect_epoch w) = end_of_time" "is_active max_value = False"
  by (simp_all add: quiesce_order word_less_nat_alt unat_end_of_time end_of_time_eq max_value_eq unat_FIRST unat_INACTIVE
      thread_epoch_get_def thread_epoch_inactive_def new_unchecked_def set_collect_epoch_def thread_epoch_set_def is_active_def
      quiesce_epoch.expand)

lemma run_tick: "fetch_and_tick FIRST = (run_pin, FIRST + TICK_SIZE)" "\<not> lock_bit_set (FIRST + TICK_SIZE)"
  by (simp_all add: fetch_and_tick_def new_unchecked_def lock_bit_set_def FIRST_def TICK_SIZE_def UNPARK_BIT_def LOCK_BIT_def)

lemma const_upd:
  "(\<lambda>_. c)(x := c) = (\<lambda>_. c)" "x \<noteq> y \<Longrightarrow> (\<lambda>_. c)(y := w, x := c) = (\<lambda>_. c)(y := w)"
  by auto

lemmas run_simps = const_upd run_gc_def run_mem_def run_thr_def resting_def

text \<open>What the run leaves behind: the clock has ticked, cell 0 is published, its first value is gone.\<close>

abbreviation run_hist :: "status \<Rightarrow> entry list" where
  "run_hist st \<equiv> [\<lparr>etid = 1, erd = [], ewr = [(0, [1])], est = st\<rparr>]"

definition run_end :: "(cell \<Rightarrow> nat \<Rightarrow> usize) \<Rightarrow> thr \<Rightarrow> quiesce_epoch option \<Rightarrow> gc" where
  "run_end d x p = run_gc (run_mem (FIRST + TICK_SIZE) ((\<lambda>_. FIRST)(0 := FIRST + TICK_SIZE)) d (run_hist Ticked) x
      (run_thr Idle [(0, [1])])) p None (set_collect_epoch (qget run_pin)) None [] None {0}"

lemma collector_run:
  assumes start: "reach (gc_init (\<lambda>_. 1) (\<lambda>_. [0])) (gc_step L (\<lambda>_. 1)) (run_start x p)"
  obtains d where "reach (gc_init (\<lambda>_. 1) (\<lambda>_. [0])) (gc_step L (\<lambda>_. 1)) (run_end d x p)" and "d 0 0 = 1"
proof -
  let ?R = "reach (gc_init (\<lambda>_. 1) (\<lambda>_. [0])) (gc_step L (\<lambda>_. 1))"
  let ?l = "\<lambda>_ :: cell. FIRST" let ?d = "\<lambda>(c :: cell) k. [0] ! k"
  let ?w = "[(0, [1])] :: (cell \<times> usize list) list"
  let ?l' = "?l(0 := toggle_lock_bit FIRST)"
  let ?d' = "\<lambda>c k. case map_of ?w c of Some v \<Rightarrow> if k < length v then v ! k else ?d c k | None \<Rightarrow> ?d c k"
  let ?c = "FIRST + TICK_SIZE" let ?e = "qget run_pin" let ?eot = "set_collect_epoch ?e"
  let ?m1 = "run_mem FIRST ?l ?d [] x (run_thr Running [])"
  let ?m2 = "run_mem FIRST ?l ?d [] x (run_thr Running ?w)"
  let ?m3 = "run_mem FIRST ?l' ?d' (run_hist Effective) x (run_thr Ticking ?w)"
  let ?m4 = "run_mem ?c ?l' ?d' (run_hist Ticked) x (run_thr (Publishing 0 run_pin) ?w)"
  let ?m5 = "run_mem ?c (?l(0 := ?c)) ?d' (run_hist Ticked) x (run_thr (Publishing 1 run_pin) ?w)"
  let ?m6 = "run_mem ?c (?l(0 := ?c)) ?d' (run_hist Ticked) x (run_thr Idle ?w)"
  let ?t = "\<lambda>m. run_gc m p None ?e None [] None {}"
  let ?k0 = "\<lparr>wait_epoch = run_pin, to_visit = [0, 1], observed = [], waiting = False\<rparr>"
  let ?k1 = "?k0\<lparr>to_visit := [1], observed := [max_value]\<rparr>"
  let ?k2 = "?k0\<lparr>to_visit := [], observed := [max_value, end_of_time]\<rparr>"
  have tx: "?R (?t m')" if "?R (?t m)" "stm_step (\<lambda>_. 1) m m'" "pc (th m 1) \<noteq> Idle" "pc (th m' 1) \<noteq> Idle"
      "\<forall>u. u \<noteq> 1 \<longrightarrow> th m' u = th m u" for m m'
    using reach.extend [OF that(1) gc_step.tx_step [of "?t m" 1 "\<lambda>_. 1" m' L]] that(2-) by (simp add: run_gc_def)
  have pub: "?R (run_gc m' p None ?e (Some (run_pin, 0)) [] None {})" if "?R (?t m)" "stm_step (\<lambda>_. 1) m m'"
      "pc (th m 1) = Publishing 1 run_pin" "pc (th m' 1) = Idle" "ent (th m 1) = 0" for m m'
    using reach.extend [OF that(1) gc_step.published [of "?t m" 1 1 run_pin "\<lambda>_. 1" m' L]] that(2-)
    by (simp add: run_gc_def)
  have "?R (run_gc ?m1 p (Some run_pin) thread_epoch_inactive None [] None {})"
    by (rule reach.extend [OF start], use gc_step.pin_load [of 1 "run_start x p" "\<lambda>_. 1" ?m1 L]
        stm_step.begin_tx [of idle_thr "mem (run_start x p)" 1 run_pin "\<lambda>_. 1"] in
        \<open>simp add: run_start_def run_simps clock_now_Some ticked_def idle_thr_def\<close>)
  then have "?R (?t ?m1)"
    by (rule reach.extend)
      (use gc_step.pin_store [of "run_gc ?m1 p (Some run_pin) thread_epoch_inactive None [] None {}" 1 run_pin L "\<lambda>_. 1"]
        in \<open>simp add: run_simps pin_word_def run_epochs thread_epoch_pin_def thread_epoch_set_def\<close>)
  moreover have "stm_step (\<lambda>_. 1) ?m1 ?m2"
    using stm_step.set_first [of "run_thr Running []" ?m1 1 0 "[1]" "\<lambda>_. 1"] by (simp add: run_simps run_valid)
  ultimately have "?R (?t ?m2)"
    by (rule tx) (auto simp: run_simps)
  moreover have "stm_step (\<lambda>_. 1) ?m2 ?m3"
  proof -
    have "?l' = (\<lambda>c. if c \<in> wcells (run_thr Running ?w) then toggle_lock_bit (?l c) else ?l c)"
      by (auto simp: run_thr_def)
    then show ?thesis
      using stm_step.commit_hard [of "run_thr Running ?w" ?m2 1 "\<lambda>_. 1"]
      by (simp add: run_simps run_valid cong: if_cong option.case_cong)
  qed
  ultimately have "?R (?t ?m3)"
    by (rule tx) (auto simp: run_simps)
  moreover have "stm_step (\<lambda>_. 1) ?m3 ?m4"
    using stm_step.tick [of "run_thr Ticking ?w" ?m3 1 run_pin ?c "\<lambda>_. 1"] by (simp add: run_simps run_tick set_status_def)
  ultimately have "?R (?t ?m4)"
    by (rule tx) (auto simp: run_simps)
  moreover have "stm_step (\<lambda>_. 1) ?m4 ?m5"
    using stm_step.publish [of "run_thr (Publishing 0 run_pin) ?w" ?m4 1 0 run_pin "\<lambda>_. 1"]
    by (simp add: run_simps unlock_publish_def quiesce_next_def new_unchecked_def)
  ultimately have "?R (?t ?m5)"
    by (rule tx) (auto simp: run_simps)
  moreover have "stm_step (\<lambda>_. 1) ?m5 ?m6"
    using stm_step.publish_done [of "run_thr (Publishing 1 run_pin) ?w" ?m5 1 run_pin "\<lambda>_. 1"] by (simp add: run_simps)
  ultimately have "?R (run_gc ?m6 p None ?e (Some (run_pin, 0)) [] None {})"
    by (rule pub) (auto simp: run_simps)
  then have "?R (run_gc ?m6 p None ?e None [(run_pin, 0)] None {})"
    by (rule reach.extend)
      (use gc_step.seal_bag [of "run_gc ?m6 p None ?e (Some (run_pin, 0)) [] None {}" 1 "(run_pin, 0)" L "\<lambda>_. 1"] in
        \<open>simp add: run_simps\<close>)
  then have "?R (run_gc ?m6 p None ?eot None [(run_pin, 0)] (Some ?k0) {})"
    by (rule reach.extend)
      (use gc_step.freeze [of 1 "run_gc ?m6 p None ?e None [(run_pin, 0)] None {}" run_pin L "\<lambda>_. 1"] in
        \<open>simp add: run_simps\<close>)
  then have "?R (run_gc ?m6 p None ?eot None [(run_pin, 0)] (Some ?k1) {})"
    by (rule reach.extend)
      (use gc_step.observe [of "run_gc ?m6 p None ?eot None [(run_pin, 0)] (Some ?k0) {}" 1 ?k0 0 "[1]" max_value L "\<lambda>_. 1"] in
        \<open>simp add: run_simps run_epochs less_trans [OF run_epochs(1,2)]\<close>)
  then have "?R (run_gc ?m6 p None ?eot None [(run_pin, 0)] (Some ?k2) {})"
    by (rule reach.extend)
      (use gc_step.observe [of "run_gc ?m6 p None ?eot None [(run_pin, 0)] (Some ?k1) {}" 1 ?k1 1 "[]" end_of_time L "\<lambda>_. 1"] in
        \<open>simp add: run_simps run_epochs\<close>)
  moreover have ce: "collect_epoch ?k2 = end_of_time"
    using run_epochs(2) less_trans [OF run_epochs(1,2)]
    by (simp add: collect_epoch_def quiesce_def map_filter_def run_epochs(1) min_def less_imp_le)
  ultimately have "?R (run_end ?d' x p)"
    by - (erule reach.extend,
      use gc_step.collect_bags [of "run_gc ?m6 p None ?eot None [(run_pin, 0)] (Some ?k2) {}" 1 ?k2 L "\<lambda>_. 1"]
        ce in \<open>simp add: run_simps run_end_def run_epochs\<close>)
  then show thesis by (rule that) simp
qed

text \<open>The two threads have registered.\<close>

lemma registered_run:
  "reach (gc_init (\<lambda>_. 1) (\<lambda>_. [0])) (gc_step L (\<lambda>_. 1)) (run_start idle_thr None)"
proof -
  let ?R = "reach (gc_init (\<lambda>_. 1) (\<lambda>_. [0])) (gc_step L (\<lambda>_. 1))"
  define g where "g = (run_start idle_thr None)\<lparr>synchs := synch_list_new\<rparr>"
  have "?R g"
    by (rule reach.start)
      (simp add: g_def run_start_def run_simps gc_init_def stm_init_def epoch_clock_new_def epoch_lock_first_def)
  then have "?R (g\<lparr>synchs := register (synchs g) 0, epo := (epo g)(0 := thread_epoch_inactive)\<rparr>)"
    by (rule reach.extend) (rule gc_step.subscribe, simp_all add: g_def run_start_def run_gc_def)
  then have "?R (g\<lparr>synchs := register synch_list_new 0\<rparr>)"
    by (simp add: g_def run_start_def run_simps)
  from reach.extend [OF this gc_step.subscribe [of 1 "g\<lparr>synchs := register synch_list_new 0\<rparr>" L "\<lambda>_. 1"]] show ?thesis
    by (simp add: g_def run_start_def run_simps)
qed


section \<open>A pin that is seen late\<close>

text \<open>
  Property C32: the promise needs the pin to be seen in time.
  The store of the pin has \<open>Release\<close> ordering and no fence follows it, so a processor may let the
  thread read cells before other threads can see the pin. Then the thread looks inactive to the collector, and
  the value it has read is dropped while it runs.
\<close>

lemma late_pin_loses_read:
  "\<exists>g. reach (gc_init (\<lambda>_. 1) (\<lambda>_. [0])) (gc_step True (\<lambda>_. 1)) g \<and> tpc g 0 = Running \<and>
     (0, [0]) \<in> set (seen (th (mem g) 0)) \<and> version (vis (th (mem g) 0)) (hist (mem g)) 0 \<in> dropped g 0"
proof -
  let ?R = "reach (gc_init (\<lambda>_. 1) (\<lambda>_. [0])) (gc_step True (\<lambda>_. 1))"
  let ?x = "\<lambda>p s. \<lparr>pc = p, pin = run_pin, rlog = [], wlog = [], seen = s, vis = {}, ppos = 0, ent = 0\<rparr>"
  let ?g = "\<lambda>x. run_start x (Some run_pin)"
  have tx: "?R (?g y)" if "?R (?g x)" "is_read (pc x)" "is_read (pc y)"
      "stm_step (\<lambda>_. 1) (mem (?g x)) (mem (?g y))" for x y
  proof -
    have "gc_step True (\<lambda>_. 1) (?g x) ((?g x)\<lparr>mem := mem (?g y)\<rparr>)"
      by (rule gc_step.tx_step [of _ 0]) (use that in \<open>auto simp: run_start_def run_simps\<close>)
    then have "gc_step True (\<lambda>_. 1) (?g x) (?g y)" by (simp add: run_start_def run_gc_def)
    with that(1) show ?thesis by (rule reach.extend)
  qed
  have "?R (?g (?x Running []))"
    by (rule reach.extend [OF registered_run], use gc_step.pin_load [of 0 "run_start idle_thr None" "\<lambda>_. 1"
          "upd (mem (run_start idle_thr None)) 0 (?x Running [])" True]
        stm_step.begin_tx [of idle_thr "mem (run_start idle_thr None)" 0 run_pin "\<lambda>_. 1"] in
        \<open>simp add: run_start_def run_simps clock_now_Some ticked_def idle_thr_def fun_upd_twist\<close>)
  then have "?R (?g (?x (Reading 0 [] False) []))"
    by (rule tx) (use stm_step.read_start [of "?x Running []" "mem (?g (?x Running []))" 0 0 "\<lambda>_. 1" False] in
      \<open>simp_all add: run_start_def run_simps fun_upd_twist\<close>)
  then have "?R (?g (?x (Reading 0 [0] False) []))"
    by (rule tx) (use stm_step.read_word [of "?x (Reading 0 [] False) []" "mem (?g (?x (Reading 0 [] False) []))" 0 0 "[]" False "\<lambda>_. 1"]
      in \<open>simp_all add: run_start_def run_simps fun_upd_twist\<close>)
  then have "?R (?g (?x Running [(0, [0])]))"
    by (rule tx) (use stm_step.read_ok [of "?x (Reading 0 [0] False) []" "mem (?g (?x (Reading 0 [0] False) []))" 0 0 "[0]" False "\<lambda>_. 1"]
      in \<open>simp_all add: run_start_def run_simps fun_upd_twist run_valid\<close>)
  then obtain d where "?R (run_end d (?x Running [(0, [0])]) (Some run_pin))"
    by (rule collector_run)
  then show ?thesis
    by (intro exI [of _ "run_end d (?x Running [(0, [0])]) (Some run_pin)"])
      (simp add: dropped_def run_end_def run_simps overwritten_def version_def writers_def writes_def)
qed

end
