(* ===== verification/Tcell.thy ===== *)
theory Tcell
  imports Rw_Tx
begin

text \<open>
  The public cells: \<open>src/tcell.rs\<close> (\<open>TCell\<close> and its \<open>View\<close>) and \<open>src/tptr.rs\<close> (\<open>TPtr\<close>, which publishes and
  privatizes boxes), on the transactions of theory \<open>Rw_Tx\<close>. A cell that nobody shares is its
  words and its lock word; a shared one is an address, and what a transaction meets there are looks.
\<close>

section \<open>TCell\<close>

record tcell =
  tc_value :: "usize list"
  tc_lock :: epoch_lock

definition tcell_new :: "usize list \<Rightarrow> tcell" where
  "tcell_new value = \<lparr>tc_value = value, tc_lock = epoch_lock_first\<rparr>"

definition tcell_into_inner :: "tcell \<Rightarrow> usize list" where
  "tcell_into_inner self = tc_value self"

text \<open>What is written through the mutable reference replaces the words and leaves the lock word alone.\<close>

definition tcell_borrow_mut :: "(usize list \<Rightarrow> usize list) \<Rightarrow> tcell \<Rightarrow> tcell" where
  "tcell_borrow_mut f self = self\<lparr>tc_value := f (tc_value self)\<rparr>"

text \<open>The words, then the lock word, with nobody else at the cell.\<close>

definition optimistic_read :: "tcell \<Rightarrow> look" where
  "optimistic_read self = (tc_value self, tc_lock self)"

definition tcell_borrow ::
  "(usize \<Rightarrow> nat) \<Rightarrow> nat \<Rightarrow> quiesce_epoch \<Rightarrow> ordering \<Rightarrow> logs \<Rightarrow> cell \<Rightarrow> look \<Rightarrow> look \<Rightarrow>
     (logs \<times> (error + usize list)) outcome" where
  "tcell_borrow vts size_of p mo lg self l1 l2 = rw_borrow vts size_of p mo lg self l1 l2"

definition tcell_get ::
  "(usize \<Rightarrow> nat) \<Rightarrow> nat \<Rightarrow> quiesce_epoch \<Rightarrow> ordering \<Rightarrow> logs \<Rightarrow> cell \<Rightarrow> look \<Rightarrow> look \<Rightarrow>
     (logs \<times> (error + usize list)) outcome" where
  "tcell_get vts size_of p mo lg self l1 l2 = tcell_borrow vts size_of p mo lg self l1 l2"

text \<open>A plain value (\<open>REQUEST_TCELL_LIFETIME\<close> is false), and a publication.\<close>

definition tcell_set ::
  "(usize \<Rightarrow> nat) \<Rightarrow> nat \<Rightarrow> quiesce_epoch \<Rightarrow> logs \<Rightarrow> cell \<Rightarrow> set_arg \<Rightarrow> look \<Rightarrow> look \<Rightarrow> set_result" where
  "tcell_set vts size_of p lg self a l1 l2 = rw_set vts size_of p lg self (a\<lparr>lifetime := False\<rparr>) l1 l2"

definition tcell_publish ::
  "(usize \<Rightarrow> nat) \<Rightarrow> nat \<Rightarrow> quiesce_epoch \<Rightarrow> logs \<Rightarrow> cell \<Rightarrow> set_arg \<Rightarrow> look \<Rightarrow> look \<Rightarrow> set_result" where
  "tcell_publish vts size_of p lg self a l1 l2 = rw_set vts size_of p lg self a l1 l2"

text \<open>
  \<open>replace\<close>: the previous value is read without logging the read, then overwritten. Either
  operation may meet a conflict, and both give the new value back.
\<close>

definition tcell_replace ::
  "(usize \<Rightarrow> nat) \<Rightarrow> nat \<Rightarrow> quiesce_epoch \<Rightarrow> logs \<Rightarrow> cell \<Rightarrow> set_arg \<Rightarrow> look \<Rightarrow> look \<Rightarrow> look \<Rightarrow> look \<Rightarrow>
     (logs \<times> (error \<times> usize list + usize list) \<times> dyn_elem list) outcome" where
  "tcell_replace vts size_of p lg self a b1 b2 l1 l2 =
     (case tcell_borrow vts size_of p Read lg self b1 b2 of
        Inl s \<Rightarrow> Inl s
      | Inr (lg', Inl error) \<Rightarrow> Inr (lg', Inl (error, value_words a), [])
      | Inr (lg', Inr prev) \<Rightarrow>
          (case tcell_set vts size_of p lg' self a l1 l2 of
             Inl s \<Rightarrow> Inl s
           | Inr (lg'', Inl err, d) \<Rightarrow> Inr (lg'', Inl err, d)
           | Inr (lg'', Inr u, d) \<Rightarrow> Inr (lg'', Inr prev, d)))"

text \<open>A \<open>View\<close> remembers the cell, and reads with the default ordering if not told otherwise.\<close>

definition default_ordering_rw :: ordering where
  "default_ordering_rw = ReadWrite"

definition view_get ::
  "(usize \<Rightarrow> nat) \<Rightarrow> nat \<Rightarrow> quiesce_epoch \<Rightarrow> logs \<Rightarrow> cell \<Rightarrow> look \<Rightarrow> look \<Rightarrow>
     (logs \<times> (error + usize list)) outcome" where
  "view_get vts size_of p lg self l1 l2 = tcell_get vts size_of p default_ordering_rw lg self l1 l2"

definition view_borrow ::
  "(usize \<Rightarrow> nat) \<Rightarrow> nat \<Rightarrow> quiesce_epoch \<Rightarrow> logs \<Rightarrow> cell \<Rightarrow> look \<Rightarrow> look \<Rightarrow>
     (logs \<times> (error + usize list)) outcome" where
  "view_borrow vts size_of p lg self l1 l2 = tcell_borrow vts size_of p default_ordering_rw lg self l1 l2"

definition view_set ::
  "(usize \<Rightarrow> nat) \<Rightarrow> nat \<Rightarrow> quiesce_epoch \<Rightarrow> logs \<Rightarrow> cell \<Rightarrow> set_arg \<Rightarrow> look \<Rightarrow> look \<Rightarrow> set_result" where
  "view_set vts size_of p lg self a l1 l2 = tcell_set vts size_of p lg self a l1 l2"

section \<open>TPtr\<close>

text \<open>
  A \<open>TPtr\<close> is a cell of one word. A publisher carries a pointer and a destructor of a zero sized type, so the type
  alone says what the destructor does, and with it the vtable of the log entry: the
  argument \<open>dvt\<close> gives the vtable of each destructor.
\<close>

datatype destructor = Forget | DropBox | Custom nat

record publisher =
  pub_ptr :: usize
  pub_destructor :: destructor

definition publisher_new :: "nat \<Rightarrow> usize \<Rightarrow> destructor \<Rightarrow> publisher outcome" where
  "publisher_new size_of_f ptr d =
     (if size_of_f \<noteq> 0 then Inl Panic else Inr \<lparr>pub_ptr = ptr, pub_destructor = d\<rparr>)"

text \<open>Dropping a publisher runs its destructor: the run, as a value.\<close>

definition publisher_drop :: "publisher \<Rightarrow> destructor \<times> usize" where
  "publisher_drop self = (pub_destructor self, pub_ptr self)"

definition tptr_new :: "usize \<Rightarrow> tcell" where
  "tptr_new ptr = tcell_new [ptr]"

definition tptr_null :: tcell where
  "tptr_null = tptr_new 0"

definition tptr_into_inner :: "tcell \<Rightarrow> usize" where
  "tptr_into_inner self = hd (tcell_into_inner self)"

definition tptr_borrow_mut :: "(usize \<Rightarrow> usize) \<Rightarrow> tcell \<Rightarrow> tcell" where
  "tptr_borrow_mut f self = tcell_borrow_mut (map f) self"

definition tptr_as_ptr ::
  "(usize \<Rightarrow> nat) \<Rightarrow> quiesce_epoch \<Rightarrow> ordering \<Rightarrow> logs \<Rightarrow> cell \<Rightarrow> look \<Rightarrow> look \<Rightarrow>
     (logs \<times> (error + usize)) outcome" where
  "tptr_as_ptr vts p mo lg self l1 l2 =
     map_sum id (map_prod id (map_sum id hd)) (tcell_get vts 1 p mo lg self l1 l2)"

text \<open>A pointer needs no dropping, so the pointer that was in the cell is not queued as garbage.\<close>

definition publisher_arg :: "(destructor \<Rightarrow> usize) \<Rightarrow> publisher \<Rightarrow> set_arg" where
  "publisher_arg dvt q = \<lparr>entry_vt = dvt (pub_destructor q), value_words = [pub_ptr q],
     lifetime = True, needs_drop = False, trash_vt = 0\<rparr>"

text \<open>On a conflict the cell gives the words back, and the publisher is put together again.\<close>

definition tptr_publish ::
  "(usize \<Rightarrow> nat) \<Rightarrow> (destructor \<Rightarrow> usize) \<Rightarrow> quiesce_epoch \<Rightarrow> logs \<Rightarrow> cell \<Rightarrow> publisher \<Rightarrow> look \<Rightarrow> look \<Rightarrow>
     (logs \<times> (error \<times> publisher + unit) \<times> dyn_elem list) outcome" where
  "tptr_publish vts dvt p lg self publisher l1 l2 =
     map_sum id (\<lambda>(lg', r, d). (lg',
         map_sum (\<lambda>(e, ptr). (e, \<lparr>pub_ptr = hd ptr, pub_destructor = pub_destructor publisher\<rparr>)) id r, d))
       (tcell_publish vts 1 p lg self (publisher_arg dvt publisher) l1 l2)"

text \<open>A box is its address. On a conflict the publisher is forgotten and the box rebuilt from its pointer.\<close>

definition tptr_publish_box ::
  "(usize \<Rightarrow> nat) \<Rightarrow> (destructor \<Rightarrow> usize) \<Rightarrow> quiesce_epoch \<Rightarrow> logs \<Rightarrow> cell \<Rightarrow> usize \<Rightarrow> look \<Rightarrow> look \<Rightarrow>
     (logs \<times> (error \<times> usize + unit) \<times> dyn_elem list) outcome" where
  "tptr_publish_box vts dvt p lg self value l1 l2 =
     (case publisher_new 0 value DropBox of
        Inl s \<Rightarrow> Inl s
      | Inr publisher \<Rightarrow>
          map_sum id (\<lambda>(lg', r, d). (lg', map_sum (\<lambda>(e, q). (e, pub_ptr q)) id r, d))
            (tptr_publish vts dvt p lg self publisher l1 l2))"

text \<open>
  \<open>set\<close> publishes with a destructor that does nothing; the \<open>?\<close> turns the error into one without the
  publisher, which is dropped: the last component of the result.
\<close>

definition tptr_set ::
  "(usize \<Rightarrow> nat) \<Rightarrow> (destructor \<Rightarrow> usize) \<Rightarrow> quiesce_epoch \<Rightarrow> logs \<Rightarrow> cell \<Rightarrow> usize \<Rightarrow> look \<Rightarrow> look \<Rightarrow>
     (logs \<times> (error + unit) \<times> dyn_elem list \<times> (destructor \<times> usize) list) outcome" where
  "tptr_set vts dvt p lg self value l1 l2 =
     (case publisher_new 0 value Forget of
        Inl s \<Rightarrow> Inl s
      | Inr publisher \<Rightarrow>
          map_sum id (\<lambda>(lg', r, d). (case r of
              Inl (e, q) \<Rightarrow> (lg', Inl e, d, [publisher_drop q])
            | Inr u \<Rightarrow> (lg', Inr u, d, [])))
            (tptr_publish vts dvt p lg self publisher l1 l2))"

text \<open>What is privatized is queued as garbage of the running transaction: a closure that holds the pointer.\<close>

definition tptr_privatize :: "(destructor \<Rightarrow> usize) \<Rightarrow> destructor \<Rightarrow> logs \<Rightarrow> usize \<Rightarrow> logs" where
  "tptr_privatize pvt d lg value = privatize lg (pvt d, [value])"

definition tptr_privatize_as_box :: "(destructor \<Rightarrow> usize) \<Rightarrow> logs \<Rightarrow> usize \<Rightarrow> logs" where
  "tptr_privatize_as_box pvt lg value = privatize lg (pvt DropBox, [value])"

section \<open>Which boxes a transaction owns\<close>

text \<open>The boxes that dropping some log entries or some garbage frees.\<close>

definition freed_by :: "usize \<Rightarrow> dyn_elem list \<Rightarrow> usize multiset" where
  "freed_by vt es = mset (map (\<lambda>e. hd (entry_pending e)) (filter (\<lambda>e. fst e = vt) es))"

lemma freed_by_values: "freed_by vt es = image_mset (hd \<circ> snd) (filter_mset (\<lambda>x. fst x = vt) (values_of es))"
  by (induction es) (auto simp: freed_by_def values_of_def typed_pending_def)

text \<open>An entry's destructor never depends on the cell it is still the value of.\<close>

lemma freed_by_cong: "values_of es = values_of es' \<Longrightarrow> freed_by vt es = freed_by vt es'"
  by (simp add: freed_by_values)

lemma rw_set_publisher:
  assumes h: "tx_holds vts csz lg rs es spec seals" and c: "c \<noteq> 0" "csz c = 1" and v: "\<And>d. vts (dvt d) = 2"
    and l: "length (fst l1) = 1" "length (fst l2) = 1"
  shows "\<exists>lg' r. rw_set vts 1 p lg c (publisher_arg dvt q) l1 l2 = Inr (lg', r, []) \<and>
    (case r of
       Inr u \<Rightarrow> \<exists>es'. tx_holds vts csz lg' rs es' spec seals \<and> pending es' = (pending es)(c \<mapsto> [pub_ptr q]) \<and>
         values_of es' = values_of es + {#(dvt (pub_destructor q), [pub_ptr q])#}
     | Inl ev \<Rightarrow> ev = (CONFLICT, [pub_ptr q]) \<and> set_failed p c (publisher_arg dvt q) l2 es lg lg')"
proof -
  let ?a = "publisher_arg dvt q"
  have a: "set_arg_ok vts csz c ?a"
    using c v by (simp add: set_arg_ok_def publisher_arg_def)
  have run: "rw_set vts 1 p lg c ?a l1 l2 = set_impl vts p lg c ?a l1 l2"
    by (simp add: rw_set_def publisher_arg_def)
  obtain lg' r d where s: "set_impl vts p lg c ?a l1 l2 = Inr (lg', r, d)"
    and post: "case r of
       Inr u \<Rightarrow> \<exists>es' spec'. tx_holds vts csz lg' rs es' spec' seals \<and> set_ok p c ?a l1 l2 es spec d es' spec'
     | Inl ev \<Rightarrow> ev = (CONFLICT, value_words ?a) \<and> d = [] \<and> set_failed p c ?a l2 es lg lg'"
    using set_impl_holds [OF h a, of l1 l2 p] l c by (auto simp del: split_paired_Ex)
  show ?thesis
  proof (cases r)
    case (Inl ev)
    with s post run show ?thesis by (simp add: publisher_arg_def)
  next
    case (Inr u)
    with post obtain es' spec' where t: "tx_holds vts csz lg' rs es' spec' seals"
      and o: "set_ok p c ?a l1 l2 es spec d es' spec'" by auto
    then have "d = []" "spec' = spec"
      by (auto simp: set_ok_def publisher_arg_def trash_of_def split: if_splits)
    with o t s run Inr show ?thesis
      by (auto simp: set_ok_def publisher_arg_def values_of_def)
  qed
qed

section \<open>Properties\<close>

text \<open>
  Property C33: ownership of published boxes. \<open>publish_box\<close> always comes back, drops nothing that was written before, and
  either hands the box back to the caller with the conflict, leaving log and garbage as they were, or makes the
  pointer the pending value of the cell and owns the box: if the transaction is aborted
  later, clearing the write log frees each box that it has published exactly once, also one whose pointer has since been
  overwritten by another publication or by \<open>set\<close>, which publishes a pointer without owning it.
\<close>

theorem published_box_has_one_owner:
  assumes "tx_holds vts csz lg rs es spec seals" and "c \<noteq> 0" and "csz c = 1"
    and "\<And>d. vts (dvt d) = 2" and "dvt Forget \<noteq> dvt DropBox"
    and "length (fst l1) = 1" and "length (fst l2) = 1"
  shows "(\<exists>lg' r. tptr_publish_box vts dvt p lg c b l1 l2 = Inr (lg', r, []) \<and>
      (case r of
         Inl ev \<Rightarrow> ev = (CONFLICT, b) \<and> \<not> rw_valid p l2 \<and> log_garbage lg' = log_garbage lg \<and>
           wl_data (log_writes lg') = wl_data (log_writes lg)
       | Inr u \<Rightarrow> \<exists>es'. tx_holds vts csz lg' rs es' spec seals \<and> pending es' = (pending es)(c \<mapsto> [b]) \<and>
           wl_clear vts (log_writes lg') = Inr (wl_clear_no_drop (log_writes lg'), es') \<and>
           freed_by (dvt DropBox) es' = freed_by (dvt DropBox) es + {#b#})) \<and>
    (\<exists>lg' r runs. tptr_set vts dvt p lg c b l1 l2 = Inr (lg', r, [], runs) \<and>
      (case r of
         Inl e \<Rightarrow> e = CONFLICT \<and> runs = [(Forget, b)] \<and> wl_data (log_writes lg') = wl_data (log_writes lg)
       | Inr u \<Rightarrow> \<exists>es'. tx_holds vts csz lg' rs es' spec seals \<and> pending es' = (pending es)(c \<mapsto> [b]) \<and>
           runs = [] \<and> freed_by (dvt DropBox) es' = freed_by (dvt DropBox) es))"
    (is "?box \<and> ?set")
proof
  note pub = rw_set_publisher [where dvt = dvt, OF assms(1-4,6,7)]
  show ?box
  proof -
    obtain lg' r where run: "rw_set vts 1 p lg c (publisher_arg dvt \<lparr>pub_ptr = b, pub_destructor = DropBox\<rparr>) l1 l2 = Inr (lg', r, [])"
      and post: "case r of
         Inr u \<Rightarrow> \<exists>es'. tx_holds vts csz lg' rs es' spec seals \<and> pending es' = (pending es)(c \<mapsto> [b]) \<and>
           values_of es' = values_of es + {#(dvt DropBox, [b])#}
       | Inl ev \<Rightarrow> ev = (CONFLICT, [b]) \<and>
           set_failed p c (publisher_arg dvt \<lparr>pub_ptr = b, pub_destructor = DropBox\<rparr>) l2 es lg lg'"
      using pub [where p = p and q = "\<lparr>pub_ptr = b, pub_destructor = DropBox\<rparr>", unfolded publisher.select_convs] by auto
    from run post show ?thesis
      by (cases r) (auto simp: tptr_publish_box_def tptr_publish_def tcell_publish_def publisher_new_def set_failed_def
        freed_by_values tx_holds_def wl_clear_holds)
  qed
  show ?set
  proof -
    obtain lg' r where run: "rw_set vts 1 p lg c (publisher_arg dvt \<lparr>pub_ptr = b, pub_destructor = Forget\<rparr>) l1 l2 = Inr (lg', r, [])"
      and post: "case r of
         Inr u \<Rightarrow> \<exists>es'. tx_holds vts csz lg' rs es' spec seals \<and> pending es' = (pending es)(c \<mapsto> [b]) \<and>
           values_of es' = values_of es + {#(dvt Forget, [b])#}
       | Inl ev \<Rightarrow> ev = (CONFLICT, [b]) \<and>
           set_failed p c (publisher_arg dvt \<lparr>pub_ptr = b, pub_destructor = Forget\<rparr>) l2 es lg lg'"
      using pub [where p = p and q = "\<lparr>pub_ptr = b, pub_destructor = Forget\<rparr>", unfolded publisher.select_convs] by auto
    from run post assms(5) show ?thesis
      by (cases r) (auto simp: tptr_set_def tptr_publish_def tcell_publish_def publisher_new_def set_failed_def
        freed_by_values publisher_drop_def)
  qed
qed

lemma published_box_has_one_owner_witness:
  "\<exists>lg lg' es. new_logs = Inr lg \<and>
     tptr_publish_box (\<lambda>_. 2) (\<lambda>d. if d = DropBox then 1 else 0) (QuiesceEpoch 5) lg 8 64 ([0], 3) ([0], 3) = Inr (lg', Inr (), []) \<and>
     wl_clear (\<lambda>_. 2) (log_writes lg') = Inr (wl_clear_no_drop (log_writes lg'), es) \<and> freed_by 1 es = {#64#}"
proof -
  let ?dvt = "\<lambda>d. if d = DropBox then 1 else 0 :: usize"
  obtain lg where lg: "new_logs = Inr lg" "tx_holds (\<lambda>_. 2) (\<lambda>_. 1) lg [] [] [] []"
    by (rule new_logs_holds)
  have "rw_valid (QuiesceEpoch 5) ([0], 3)"
    by (simp add: rw_valid_def read_write_valid_lockable_def read_write_valid_def read_write_valid_raw_def)
  then obtain lg' r where run: "tptr_publish_box (\<lambda>_. 2) ?dvt (QuiesceEpoch 5) lg 8 64 ([0], 3) ([0], 3) = Inr (lg', r, [])"
    and post: "case r of
         Inl ev \<Rightarrow> False
       | Inr u \<Rightarrow> \<exists>es. wl_clear (\<lambda>_. 2) (log_writes lg') = Inr (wl_clear_no_drop (log_writes lg'), es) \<and>
           freed_by 1 es = {#64#}"
    using conjunct1 [OF published_box_has_one_owner [OF lg(2), of 8 ?dvt "([0], 3)" "([0], 3)" "QuiesceEpoch 5" 64]]
    by (fastforce simp: freed_by_def [of _ "[]"] split: sum.splits)
  then obtain es where "r = Inr ()" "wl_clear (\<lambda>_. 2) (log_writes lg') = Inr (wl_clear_no_drop (log_writes lg'), es)"
      "freed_by 1 es = {#64#}"
    by (cases r) auto
  with lg(1) run show ?thesis by blast
qed

end
