(* ===== verification/Phoenix.thy ===== *)
theory Phoenix
  imports Prelude "HOL-Library.Multiset"
begin

text \<open>
  \<open>src/internal/phoenix_tls.rs\<close>: thread locals that can be used while and after the thread's locals are destroyed.
  A \<open>Phoenix\<close> is a handle to a reference counted object on the heap; the object's type is told
  (\<open>subscribe\<close>, \<open>unsubscribe\<close>) when it starts and ceases to live. Addresses are indices of a list of objects, so they are never
  used twice; a freed object is \<open>None\<close>, and reading it is undefined behaviour.

  One thread is modelled, as thread locals are never shared. The fields after \<open>slow\<close> are not part of the
  program: the handles that user code holds, those it has forgotten, and the calls of the hooks so far.
\<close>

section \<open>Objects and handles\<close>

record phoenix_impl =
  ref_count :: usize
  clear_tls :: bool

datatype hook = Subscribe nat | Unsubscribe nat

datatype slow_tls = Uninit | Alive nat | Destroyed

record tls =
  heap :: "phoenix_impl option list"
  cached :: "nat option"
  slow :: slow_tls
  handles :: "nat list"
  leaked :: "nat list"
  hooks :: "hook list"

definition heap_get :: "tls \<Rightarrow> nat \<Rightarrow> phoenix_impl outcome" where
  "heap_get s a = (if a < length (heap s) then (case heap s ! a of None \<Rightarrow> Inl Undefined | Some i \<Rightarrow> Inr i) else Inl Undefined)"

definition heap_set :: "nat \<Rightarrow> phoenix_impl option \<Rightarrow> tls \<Rightarrow> tls" where
  "heap_set a i s = s\<lparr>heap := (heap s)[a := i]\<rparr>"

definition phoenix_new :: "bool \<Rightarrow> tls \<Rightarrow> nat \<times> tls" where
  "phoenix_new clear s =
     (length (heap s), s\<lparr>heap := heap s @ [Some \<lparr>ref_count = 1, clear_tls = clear\<rparr>],
        hooks := hooks s @ [Subscribe (length (heap s))]\<rparr>)"

text \<open>The new count is stored before it is checked; the last value of the type aborts the process.\<close>

definition phoenix_clone :: "nat \<Rightarrow> tls \<Rightarrow> (nat \<times> tls) outcome" where
  "phoenix_clone a s =
     (case heap_get s a of
        Inl e \<Rightarrow> Inl e
      | Inr i \<Rightarrow>
          let new_count = ref_count i + 1; s' = heap_set a (Some (i\<lparr>ref_count := new_count\<rparr>)) s
          in if new_count = NOT 0 then Inl Abort else Inr (a, s'))"

definition phoenix_dealloc :: "nat \<Rightarrow> phoenix_impl \<Rightarrow> tls \<Rightarrow> tls" where
  "phoenix_dealloc a this s =
     heap_set a None (s\<lparr>cached := (if clear_tls this then None else cached s), hooks := hooks s @ [Unsubscribe a]\<rparr>)"

definition phoenix_drop :: "nat \<Rightarrow> tls \<Rightarrow> tls outcome" where
  "phoenix_drop a s =
     (case heap_get s a of
        Inl e \<Rightarrow> Inl e
      | Inr i \<Rightarrow>
          let s' = heap_set a (Some (i\<lparr>ref_count := ref_count i - 1\<rparr>)) s
          in Inr (if ref_count i = 1 then phoenix_dealloc a i s' else s'))"

definition phoenix_clone_raw :: "nat \<Rightarrow> tls \<Rightarrow> (nat \<times> tls) outcome" where
  "phoenix_clone_raw raw s = phoenix_clone raw s"

section \<open>The thread local\<close>

text \<open>
  \<open>init\<close>: the slow thread local creates the object on its first use, and fills the cache; when it
  has been destroyed, a temporary object lives for the call.
\<close>

definition tls_init :: "(nat \<Rightarrow> tls \<Rightarrow> ('a \<times> tls) outcome) \<Rightarrow> tls \<Rightarrow> ('a \<times> tls) outcome" where
  "tls_init f s =
     (case slow s of
        Uninit \<Rightarrow> (let (a, s') = phoenix_new True s in f a (s'\<lparr>slow := Alive a, cached := Some a\<rparr>))
      | Alive a \<Rightarrow> f a (s\<lparr>cached := Some a\<rparr>)
      | Destroyed \<Rightarrow>
          (let (a, s') = phoenix_new False s
           in case f a s' of
                Inl e \<Rightarrow> Inl e
              | Inr (r, s'') \<Rightarrow> map_sum id (Pair r) (phoenix_drop a s'')))"

definition tls_with :: "(nat \<Rightarrow> tls \<Rightarrow> ('a \<times> tls) outcome) \<Rightarrow> tls \<Rightarrow> ('a \<times> tls) outcome" where
  "tls_with f s = (case cached s of Some v \<Rightarrow> f v s | None \<Rightarrow> tls_init f s)"

definition tls_get :: "tls \<Rightarrow> (nat \<times> tls) outcome" where
  "tls_get s = tls_with phoenix_clone_raw s"

text \<open>The thread ends: its slow local is marked as destroyed, then its handle is dropped.\<close>

definition tls_exit :: "tls \<Rightarrow> tls outcome" where
  "tls_exit s =
     (case slow s of Alive a \<Rightarrow> phoenix_drop a (s\<lparr>slow := Destroyed\<rparr>) | _ \<Rightarrow> Inr (s\<lparr>slow := Destroyed\<rparr>))"

section \<open>What user code does\<close>

datatype tls_op = Get | Clone nat | Drop nat | Forget_handle nat | Exit

text \<open>A handle that is dropped or forgotten is one that the code holds.\<close>

fun tls_op_ok :: "tls_op \<Rightarrow> tls \<Rightarrow> bool" where
  "tls_op_ok (Clone a) s \<longleftrightarrow> a \<in> set (handles s)"
| "tls_op_ok (Drop a) s \<longleftrightarrow> a \<in> set (handles s)"
| "tls_op_ok (Forget_handle a) s \<longleftrightarrow> a \<in> set (handles s)"
| "tls_op_ok _ s \<longleftrightarrow> True"

fun tls_op_apply :: "tls_op \<Rightarrow> tls \<Rightarrow> tls outcome" where
  "tls_op_apply Get s = map_sum id (\<lambda>(a, s'). s'\<lparr>handles := a # handles s'\<rparr>) (tls_get s)"
| "tls_op_apply (Clone a) s = map_sum id (\<lambda>(b, s'). s'\<lparr>handles := b # handles s'\<rparr>) (phoenix_clone a s)"
| "tls_op_apply (Drop a) s = phoenix_drop a (s\<lparr>handles := remove1 a (handles s)\<rparr>)"
| "tls_op_apply (Forget_handle a) s = Inr (s\<lparr>handles := remove1 a (handles s), leaked := a # leaked s\<rparr>)"
| "tls_op_apply Exit s = tls_exit s"

definition tls_start :: tls where
  "tls_start = \<lparr>heap = [], cached = None, slow = Uninit, handles = [], leaked = [], hooks = []\<rparr>"

inductive tls_step :: "tls \<Rightarrow> tls \<Rightarrow> bool" where
  "tls_op_ok op s \<Longrightarrow> tls_op_apply op s = Inr s' \<Longrightarrow> tls_step s s'"

section \<open>The invariant\<close>

text \<open>The handles to an object: those of user code, forgotten or not, and the thread local's own.\<close>

definition owners :: "tls \<Rightarrow> nat \<Rightarrow> nat" where
  "owners s a = Multiset.count (mset (handles s)) a + Multiset.count (mset (leaked s)) a +
     (if slow s = Alive a then 1 else 0)"

text \<open>
  An object counts its owners and is freed when it has none; every object has been subscribed once, and
  unsubscribed once if it is freed.
\<close>

definition object :: "tls \<Rightarrow> nat \<Rightarrow> phoenix_impl option option" where
  "object s a = (if a < length (heap s) then Some (heap s ! a) else None)"

definition told :: "tls \<Rightarrow> nat \<Rightarrow> nat \<times> nat" where
  "told s a = (Multiset.count (mset (hooks s)) (Subscribe a), Multiset.count (mset (hooks s)) (Unsubscribe a))"

fun count_ok :: "nat \<Rightarrow> phoenix_impl option option \<Rightarrow> bool" where
  "count_ok n (Some (Some i)) \<longleftrightarrow> 0 < n \<and> unat (ref_count i) = n \<and> ref_count i \<noteq> NOT 0"
| "count_ok n _ \<longleftrightarrow> n = 0"

fun told_of :: "phoenix_impl option option \<Rightarrow> nat \<times> nat" where
  "told_of None = (0, 0)"
| "told_of (Some None) = (1, 1)"
| "told_of (Some (Some i)) = (1, 0)"

definition obj_ok :: "nat \<Rightarrow> tls \<Rightarrow> nat \<Rightarrow> bool" where
  "obj_ok n s a \<longleftrightarrow> count_ok n (object s a) \<and> told s a = told_of (object s a)"

text \<open>What the cache and the slow local point at is alive, and clears the cache when it is freed.\<close>

definition clears :: "tls \<Rightarrow> nat \<Rightarrow> bool" where
  "clears s a \<longleftrightarrow> (\<exists>i. object s a = Some (Some i) \<and> clear_tls i)"

definition heap_ok :: "(nat \<Rightarrow> nat) \<Rightarrow> tls \<Rightarrow> bool" where
  "heap_ok x s \<longleftrightarrow> (\<forall>a. obj_ok (x a) s a) \<and> (\<forall>a. cached s = Some a \<or> slow s = Alive a \<longrightarrow> clears s a)"

definition tls_inv :: "tls \<Rightarrow> bool" where
  "tls_inv s \<longleftrightarrow> heap_ok (owners s) s"

lemma unat_Suc_less_usize: "(w :: usize) < m \<Longrightarrow> unat (w + 1) = Suc (unat w)"
  using unsigned_less [of m, where ?'a = nat] by (simp add: unat_word_ariths word_less_nat_alt)

lemma heap_get_object: "heap_get s a = Inr i \<longleftrightarrow> object s a = Some (Some i)"
  by (auto simp: heap_get_def object_def split: option.splits)

lemma object_fields [simp]:
  "object (s\<lparr>handles := hs\<rparr>) = object s" "object (s\<lparr>leaked := ls\<rparr>) = object s"
  "object (s\<lparr>slow := sl\<rparr>) = object s" "object (s\<lparr>cached := c\<rparr>) = object s"
  "told (s\<lparr>handles := hs\<rparr>) = told s" "told (s\<lparr>leaked := ls\<rparr>) = told s"
  "told (s\<lparr>slow := sl\<rparr>) = told s" "told (s\<lparr>cached := c\<rparr>) = told s" "told (s\<lparr>heap := h\<rparr>) = told s"
  by (simp_all add: object_def told_def fun_eq_iff)

lemma object_heap_set:
  "object (s\<lparr>heap := (heap s)[a := i]\<rparr>) b = (if b = a \<and> object s a \<noteq> None then Some i else object s b)"
  by (auto simp: object_def nth_list_update)

lemma heap_ok_get:
  assumes "heap_ok x s" and "0 < x a"
  obtains i where "heap_get s a = Inr i" "object s a = Some (Some i)" "unat (ref_count i) = x a"
    "ref_count i \<noteq> NOT 0" "told s a = (1, 0)"
proof -
  have "count_ok (x a) (object s a)" "told s a = told_of (object s a)"
    using assms(1) by (simp_all add: heap_ok_def obj_ok_def)
  with assms(2) that show thesis
    by (cases "(x a, object s a)" rule: count_ok.cases) (auto simp: heap_get_object)
qed

text \<open>A change of one object.\<close>

lemma heap_ok_upd:
  assumes "heap_ok x s" and "obj_ok n s' a"
    and "\<And>b. b \<noteq> a \<Longrightarrow> object s' b = object s b \<and> told s' b = told s b"
    and "\<And>b. cached s' = Some b \<or> slow s' = Alive b \<Longrightarrow> clears s' b"
  shows "heap_ok (x(a := n)) s'"
  unfolding heap_ok_def
proof (intro conjI allI impI)
  fix b show "obj_ok ((x(a := n)) b) s' b"
  proof (cases "b = a")
    case False
    have "obj_ok (x b) s b" using assms(1) by (simp add: heap_ok_def)
    with assms(3) [OF False] False show ?thesis by (simp add: obj_ok_def)
  qed (simp add: assms(2))
qed (rule assms(4))

lemma clears_other: "object s' b = object s b \<Longrightarrow> clears s b \<Longrightarrow> clears s' b"
  by (simp add: clears_def)

lemma heap_okD: "heap_ok x s \<Longrightarrow> cached s = Some a \<or> slow s = Alive a \<Longrightarrow> clears s a"
  unfolding heap_ok_def by blast

lemma heap_ok_new:
  assumes h: "heap_ok x s"
  shows "heap_ok (x(length (heap s) := 1)) (s\<lparr>heap := heap s @ [Some \<lparr>ref_count = 1, clear_tls = c\<rparr>],
     hooks := hooks s @ [Subscribe (length (heap s))]\<rparr>)" (is "heap_ok _ ?s")
proof (rule heap_ok_upd [OF h])
  have "told s (length (heap s)) = (0, 0)"
    using h by (simp add: heap_ok_def obj_ok_def object_def)
  then show "obj_ok 1 ?s (length (heap s))"
    by (simp add: obj_ok_def object_def told_def)
  show o: "object ?s b = object s b \<and> told ?s b = told s b" if "b \<noteq> length (heap s)" for b
    using that by (auto simp: object_def told_def nth_append)
  show "clears ?s b" if "cached ?s = Some b \<or> slow ?s = Alive b" for b
  proof -
    have "clears s b" using heap_okD [OF h, of b] that by simp
    then show ?thesis by (auto simp: clears_def object_def nth_append split: if_splits)
  qed
qed

lemma heap_ok_count:
  assumes h: "heap_ok x s" and o: "object s a = Some (Some i)" and t: "told s a = (1, 0)"
    and n: "0 < n" "unat r = n" "r \<noteq> NOT 0"
  shows "heap_ok (x(a := n)) (s\<lparr>heap := (heap s)[a := Some (i\<lparr>ref_count := r\<rparr>)]\<rparr>)" (is "heap_ok _ ?s")
proof (rule heap_ok_upd [OF h])
  show "obj_ok n ?s a" using t n o by (simp add: obj_ok_def object_heap_set)
  show "object ?s b = object s b \<and> told ?s b = told s b" if "b \<noteq> a" for b
    using that by (simp add: object_heap_set)
  show "clears ?s b" if "cached ?s = Some b \<or> slow ?s = Alive b" for b
  proof -
    have "clears s b" using heap_okD [OF h, of b] that by simp
    then show ?thesis using o by (auto simp: clears_def object_heap_set)
  qed
qed

lemma heap_ok_clone:
  assumes h: "heap_ok x s" and a: "0 < x a"
  shows "phoenix_clone a s = Inl Abort \<or>
    (\<exists>i. phoenix_clone a s = Inr (a, s\<lparr>heap := i\<rparr>) \<and> heap_ok (x(a := Suc (x a))) (s\<lparr>heap := i\<rparr>))"
proof -
  obtain i where i: "heap_get s a = Inr i" "object s a = Some (Some i)" "unat (ref_count i) = x a"
    "ref_count i \<noteq> NOT 0" "told s a = (1, 0)" by (rule heap_ok_get [OF assms])
  show ?thesis
  proof (cases "ref_count i + 1 = NOT 0")
    case True
    with i show ?thesis by (simp add: phoenix_clone_def Let_def)
  next
    case False
    have "ref_count i < NOT 0" using i(4) by (simp add: order.not_eq_order_implies_strict)
    then have "unat (ref_count i + 1) = Suc (x a)"
      using i(3) unat_Suc_less_usize by metis
    note ok = heap_ok_count [OF h i(2,5) _ this False]
    have "phoenix_clone a s = Inr (a, s\<lparr>heap := (heap s)[a := Some (i\<lparr>ref_count := ref_count i + 1\<rparr>)]\<rparr>)"
      using i(1) False by (simp only: phoenix_clone_def heap_set_def Let_def sum.case if_False)
    with ok show ?thesis by blast
  qed
qed

lemma heap_ok_drop:
  assumes h: "heap_ok x s" and a: "0 < x a" and own: "slow s = Alive a \<Longrightarrow> 1 < x a"
  shows "\<exists>s'. phoenix_drop a s = Inr s' \<and> heap_ok (x(a := x a - 1)) s' \<and>
    slow s' = slow s \<and> handles s' = handles s \<and> leaked s' = leaked s"
proof -
  obtain i where i: "heap_get s a = Inr i" "object s a = Some (Some i)" "unat (ref_count i) = x a"
    "ref_count i \<noteq> NOT 0" "told s a = (1, 0)" by (rule heap_ok_get [OF h a])
  let ?s1 = "s\<lparr>heap := (heap s)[a := Some (i\<lparr>ref_count := ref_count i - 1\<rparr>)]\<rparr>"
  show ?thesis
  proof (cases "ref_count i = 1")
    case True
    then have x: "x a = 1" using i(3) by simp
    let ?s = "phoenix_dealloc a i ?s1"
    have obj: "object ?s b = (if b = a then Some None else object s b)" for b
      using i(2) by (auto simp: phoenix_dealloc_def heap_set_def object_def nth_list_update)
    have tld: "told ?s b = (if b = a then (1, 1) else told s b)" for b
      using i(5) by (auto simp: phoenix_dealloc_def heap_set_def told_def)
    have "heap_ok (x(a := 0)) ?s"
    proof (rule heap_ok_upd [OF h])
      show "obj_ok 0 ?s a" by (simp add: obj_ok_def obj tld)
      show "object ?s b = object s b \<and> told ?s b = told s b" if "b \<noteq> a" for b
        using that by (simp add: obj tld)
      fix b assume b: "cached ?s = Some b \<or> slow ?s = Alive b"
      then have "cached s = Some b \<and> \<not> clear_tls i \<or> slow s = Alive b"
        by (auto simp: phoenix_dealloc_def heap_set_def split: if_splits)
      then have c: "clears s b" and "b \<noteq> a"
        using heap_okD [OF h, of b] own x i(2) by (auto simp: clears_def)
      then show "clears ?s b" by (simp add: clears_def obj)
    qed
    with i(1) True x show ?thesis
      by (simp add: phoenix_drop_def heap_set_def Let_def) (simp add: phoenix_dealloc_def heap_set_def)
  next
    case False
    have "unat (ref_count i) \<noteq> 1" using False by (metis unat_1 unsigned_word_eqI)
    then have x: "0 < x a - 1" using a i(3) by simp
    have "ref_count i \<noteq> 0" using i(3) a by auto
    then have c: "unat (ref_count i - 1) = x a - 1" using i(3) unat_minus_one [of "ref_count i"] by simp
    have "ref_count i - 1 \<noteq> NOT 0"
    proof
      assume "ref_count i - 1 = NOT 0"
      then have "ref_count i = 0" by simp
      with \<open>ref_count i \<noteq> 0\<close> show False by simp
    qed
    from heap_ok_count [OF h i(2,5) x c this] i(1) False show ?thesis
      by (simp add: phoenix_drop_def heap_set_def Let_def)
  qed
qed

section \<open>Every operation keeps it\<close>

lemma tls_inv_start: "tls_inv tls_start"
  by (simp add: tls_inv_def heap_ok_def obj_ok_def object_def told_def tls_start_def owners_def)

text \<open>Fields that are not of the heap.\<close>

lemma heap_ok_fields [simp]:
  "heap_ok x (s\<lparr>handles := hs\<rparr>) = heap_ok x s" "heap_ok x (s\<lparr>leaked := ls\<rparr>) = heap_ok x s"
  by (simp_all add: heap_ok_def obj_ok_def clears_def)

lemma heap_ok_slow: "heap_ok x s \<Longrightarrow> (\<And>a. sl = Alive a \<Longrightarrow> clears s a) \<Longrightarrow> heap_ok x (s\<lparr>slow := sl\<rparr>)"
  by (auto simp: heap_ok_def obj_ok_def clears_def)

lemma heap_ok_cached: "heap_ok x s \<Longrightarrow> clears s a \<Longrightarrow> heap_ok x (s\<lparr>cached := Some a\<rparr>)"
  by (auto simp: heap_ok_def obj_ok_def clears_def)

lemma clears_owned:
  assumes "heap_ok x s" and "clears s a"
  shows "0 < x a"
proof -
  have "count_ok (x a) (object s a)" using assms(1) by (simp add: heap_ok_def obj_ok_def)
  with assms(2) show ?thesis by (auto simp: clears_def)
qed

lemma heap_ok_fresh: "heap_ok x s \<Longrightarrow> x (length (heap s)) = 0"
  by (auto simp: heap_ok_def obj_ok_def object_def dest: spec [of _ "length (heap s)"])

lemma inv_clone:
  assumes i: "tls_inv s" and a: "0 < owners s a"
  shows "phoenix_clone a s = Inl Abort \<or>
    (\<exists>h. phoenix_clone a s = Inr (a, s\<lparr>heap := h\<rparr>) \<and> tls_inv (s\<lparr>heap := h, handles := a # handles s\<rparr>))"
proof -
  have "heap_ok (owners s) s" using i by (simp add: tls_inv_def)
  from heap_ok_clone [of "owners s", OF this a] show ?thesis
  proof (elim disjE exE conjE)
    fix h assume c: "phoenix_clone a s = Inr (a, s\<lparr>heap := h\<rparr>)"
      and ok: "heap_ok ((owners s)(a := Suc (owners s a))) (s\<lparr>heap := h\<rparr>)"
    have "(owners s)(a := Suc (owners s a)) = owners (s\<lparr>heap := h, handles := a # handles s\<rparr>)"
      by (auto simp: owners_def)
    with ok have "tls_inv (s\<lparr>heap := h, handles := a # handles s\<rparr>)"
      by (simp add: tls_inv_def)
    with c show ?thesis by blast
  qed simp
qed

text \<open>A handle that is given up: the state no longer names it, the object still counts it.\<close>

lemma inv_drop:
  assumes "heap_ok ((owners s)(a := Suc (owners s a))) s"
  shows "\<exists>s'. phoenix_drop a s = Inr s' \<and> tls_inv s'"
proof -
  have "\<exists>s'. phoenix_drop a s = Inr s' \<and>
      heap_ok (((owners s)(a := Suc (owners s a)))(a := ((owners s)(a := Suc (owners s a))) a - 1)) s' \<and>
      slow s' = slow s \<and> handles s' = handles s \<and> leaked s' = leaked s"
    by (rule heap_ok_drop [OF assms]) (simp_all add: owners_def)
  then obtain s' where d: "phoenix_drop a s = Inr s'" "heap_ok (owners s) s'"
      and same: "slow s' = slow s" "handles s' = handles s" "leaked s' = leaked s" by auto
  have "owners s' = owners s" using same by (simp add: owners_def fun_eq_iff)
  with d show ?thesis by (simp add: tls_inv_def)
qed

lemma inv_handle_drop:
  assumes i: "tls_inv s" and a: "a \<in> set (handles s)"
  shows "\<exists>s'. phoenix_drop a (s\<lparr>handles := remove1 a (handles s)\<rparr>) = Inr s' \<and> tls_inv s'"
proof (rule inv_drop)
  let ?s = "s\<lparr>handles := remove1 a (handles s)\<rparr>"
  have "0 < Multiset.count (mset (handles s)) a" using a by (simp add: count_greater_zero_iff)
  then have "(owners ?s)(a := Suc (owners ?s a)) = owners s"
    by (auto simp: owners_def fun_eq_iff)
  then show "heap_ok ((owners ?s)(a := Suc (owners ?s a))) ?s"
    using i by (simp add: tls_inv_def)
qed

lemma inv_exit:
  assumes i: "tls_inv s"
  shows "\<exists>s'. tls_exit s = Inr s' \<and> tls_inv s'"
proof (cases "slow s")
  case (Alive a)
  let ?s = "s\<lparr>slow := Destroyed\<rparr>"
  have "(owners ?s)(a := Suc (owners ?s a)) = owners s"
    using Alive by (auto simp: owners_def fun_eq_iff)
  then have "heap_ok ((owners ?s)(a := Suc (owners ?s a))) ?s"
    using i by (auto simp: tls_inv_def intro: heap_ok_slow)
  from inv_drop [OF this] Alive show ?thesis by (simp add: tls_exit_def)
next
  case Uninit
  then have "owners (s\<lparr>slow := Destroyed\<rparr>) = owners s" by (simp add: owners_def fun_eq_iff)
  with Uninit i show ?thesis by (auto simp: tls_exit_def tls_inv_def intro: heap_ok_slow)
next
  case Destroyed
  then have "owners (s\<lparr>slow := Destroyed\<rparr>) = owners s" by (simp add: owners_def fun_eq_iff)
  with Destroyed i show ?thesis by (auto simp: tls_exit_def tls_inv_def intro: heap_ok_slow)
qed

lemma inv_get:
  assumes i: "tls_inv s"
  shows "tls_get s = Inl Abort \<or> (\<exists>a s'. tls_get s = Inr (a, s') \<and> tls_inv (s'\<lparr>handles := a # handles s'\<rparr>))"
proof -
  have h: "heap_ok (owners s) s" using i by (simp add: tls_inv_def)
  have clone: "phoenix_clone_raw a t = Inl Abort \<or>
      (\<exists>b s'. phoenix_clone_raw a t = Inr (b, s') \<and> tls_inv (s'\<lparr>handles := b # handles s'\<rparr>))"
    if "tls_inv t" "clears t a" for t a
    using inv_clone [OF that(1), of a] clears_owned [of "owners t" t a] that
    by (auto simp: phoenix_clone_raw_def tls_inv_def)
  show ?thesis
  proof (cases "cached s")
    case (Some a)
    then have "clears s a" using heap_okD [OF h] by simp
    with clone [OF i this] Some show ?thesis by (simp add: tls_get_def tls_with_def)
  next
    case none: None
    let ?n = "length (heap s)"
    let ?new = "\<lambda>c. s\<lparr>heap := heap s @ [Some \<lparr>ref_count = 1, clear_tls = c\<rparr>], hooks := hooks s @ [Subscribe ?n]\<rparr>"
    have n: "owners s ?n = 0" by (rule heap_ok_fresh [OF h])
    show ?thesis
    proof (cases "slow s")
      case Uninit
      let ?s = "?new True\<lparr>slow := Alive ?n, cached := Some ?n\<rparr>"
      have c: "clears (?new True) ?n" by (simp add: clears_def object_def)
      have "owners ?s = (owners s)(?n := 1)"
        using Uninit n by (auto simp: owners_def fun_eq_iff)
      moreover have "heap_ok ((owners s)(?n := 1)) ?s"
        by (rule heap_ok_cached [OF heap_ok_slow [OF heap_ok_new [OF h]]]) (use c in \<open>auto simp: clears_def\<close>)
      ultimately have "tls_inv ?s" by (simp add: tls_inv_def)
      from clone [OF this, of ?n] c have "phoenix_clone_raw ?n ?s = Inl Abort \<or>
          (\<exists>b s'. phoenix_clone_raw ?n ?s = Inr (b, s') \<and> tls_inv (s'\<lparr>handles := b # handles s'\<rparr>))"
        by (simp add: clears_def)
      with none Uninit show ?thesis
        by (simp add: tls_get_def tls_with_def tls_init_def phoenix_new_def)
    next
      case (Alive a)
      then have c: "clears s a" using heap_okD [OF h] by simp
      have "owners (s\<lparr>cached := Some a\<rparr>) = owners s" by (simp add: owners_def fun_eq_iff)
      then have "tls_inv (s\<lparr>cached := Some a\<rparr>)" using heap_ok_cached [OF h c] by (simp add: tls_inv_def)
      from clone [OF this, of a] c none Alive show ?thesis
        by (simp add: tls_get_def tls_with_def tls_init_def clears_def)
    next
      case Destroyed
      have get: "tls_get s = (case phoenix_clone_raw ?n (?new False) of
          Inl e \<Rightarrow> Inl e | Inr (r, s'') \<Rightarrow> map_sum id (Pair r) (phoenix_drop ?n s''))"
        using none Destroyed by (simp add: tls_get_def tls_with_def tls_init_def phoenix_new_def)
      have pos: "0 < ((owners s)(?n := 1)) ?n" by simp
      from heap_ok_clone [OF heap_ok_new [OF h, of False], OF pos] show ?thesis
      proof (elim disjE exE conjE)
        fix k assume c: "phoenix_clone ?n (?new False) = Inr (?n, (?new False)\<lparr>heap := k\<rparr>)"
          and ok: "heap_ok ((owners s)(?n := 1, ?n := Suc (((owners s)(?n := 1)) ?n))) ((?new False)\<lparr>heap := k\<rparr>)"
        let ?t = "(?new False)\<lparr>heap := k\<rparr>"
        have "\<exists>s'. phoenix_drop ?n ?t = Inr s' \<and> heap_ok ((owners s)(?n := 1)) s' \<and>
            slow s' = slow ?t \<and> handles s' = handles ?t \<and> leaked s' = leaked ?t"
          using heap_ok_drop [OF ok, of ?n] Destroyed by simp
        then obtain s' where d: "phoenix_drop ?n ?t = Inr s'" "heap_ok ((owners s)(?n := 1)) s'"
            and same: "slow s' = slow s" "handles s' = handles s" "leaked s' = leaked s" by auto
        have "owners (s'\<lparr>handles := ?n # handles s'\<rparr>) = (owners s)(?n := 1)"
          using same n Destroyed by (auto simp: owners_def fun_eq_iff)
        then have "tls_inv (s'\<lparr>handles := ?n # handles s'\<rparr>)" using d(2) by (simp add: tls_inv_def)
        with get c d(1) show ?thesis by (simp add: phoenix_clone_raw_def)
      qed (use get in \<open>simp_all add: phoenix_clone_raw_def\<close>)
    qed
  qed
qed

lemma tls_inv_step:
  assumes i: "tls_inv s" and ok: "tls_op_ok op s"
  shows "tls_op_apply op s = Inl Abort \<or> (\<exists>s'. tls_op_apply op s = Inr s' \<and> tls_inv s')"
proof (cases op)
  case Get
  with inv_get [OF i] show ?thesis by auto
next
  case (Clone a)
  with ok have "0 < owners s a" by (simp add: owners_def)
  from inv_clone [OF i this] Clone show ?thesis by auto
next
  case (Drop a)
  with ok inv_handle_drop [OF i, of a] show ?thesis by auto
next
  case (Forget_handle a)
  let ?s = "s\<lparr>handles := remove1 a (handles s), leaked := a # leaked s\<rparr>"
  have "0 < Multiset.count (mset (handles s)) a" using ok Forget_handle by (simp add: count_greater_zero_iff)
  then have "owners ?s = owners s" by (auto simp: owners_def fun_eq_iff)
  with i have "tls_inv ?s" by (simp add: tls_inv_def)
  with Forget_handle show ?thesis by simp
next
  case Exit
  with inv_exit [OF i] show ?thesis by auto
qed

lemma tls_inv_steps:
  assumes "tls_inv s" and "tls_step s s'"
  shows "tls_inv s'"
  using assms(2)
proof cases
  case (1 op)
  from tls_inv_step [OF assms(1) 1(1)] 1(2) show ?thesis by simp
qed

interpretation phx: protocol "\<lambda>s. s = tls_start" tls_step tls_inv
  by unfold_locales (simp add: tls_inv_start, rule tls_inv_steps)

section \<open>Properties\<close>

text \<open>
  Property C34: thread locals that survive the thread's end. Whatever a thread does with its handles, before or after its locals are
  destroyed, nothing reads a freed object: every operation comes back, or aborts because a
  count would overflow. An object lives exactly as long as it has an owner, is
  subscribed once, unsubscribed once when it is freed and not before, and the cached pointer
  never points at a freed one.
\<close>

theorem phoenix_lives_while_owned:
  assumes "reach (\<lambda>s. s = tls_start) tls_step s" and "tls_op_ok op s"
  shows "(tls_op_apply op s = Inl Abort \<or> (\<exists>s'. tls_op_apply op s = Inr s')) \<and>
    (\<forall>a<length (heap s). (heap s ! a = None \<longleftrightarrow> owners s a = 0) \<and>
       Multiset.count (mset (hooks s)) (Subscribe a) = 1 \<and>
       Multiset.count (mset (hooks s)) (Unsubscribe a) = (if heap s ! a = None then 1 else 0)) \<and>
    (\<forall>a. cached s = Some a \<longrightarrow> heap s ! a \<noteq> None)"
proof (intro conjI allI impI)
  have i: "tls_inv s" by (rule phx.inv_reach [OF assms(1)])
  show "tls_op_apply op s = Inl Abort \<or> (\<exists>s'. tls_op_apply op s = Inr s')"
    using tls_inv_step [OF i assms(2)] by blast
  fix a
  have o: "count_ok (owners s a) (object s a)" "told s a = told_of (object s a)"
    using i by (simp_all add: tls_inv_def heap_ok_def obj_ok_def)
  show "heap s ! a = None \<longleftrightarrow> owners s a = 0" "Multiset.count (mset (hooks s)) (Subscribe a) = 1"
    "Multiset.count (mset (hooks s)) (Unsubscribe a) = (if heap s ! a = None then 1 else 0)" if "a < length (heap s)"
    using o that by (cases "heap s ! a"; simp add: object_def told_def)+
  show "heap s ! a \<noteq> None" if "cached s = Some a"
    using i that by (auto simp: tls_inv_def heap_ok_def clears_def object_def split: if_splits)
qed

text \<open>A handle taken before the thread ends outlives its local, and the cache with it.\<close>

lemma phoenix_lives_while_owned_witness:
  "\<exists>s s'. reach (\<lambda>s. s = tls_start) tls_step s \<and> slow s = Destroyed \<and> cached s = Some 0 \<and> heap s ! 0 \<noteq> None \<and>
     tls_op_apply (Drop 0) s = Inr s' \<and> heap s' = [None] \<and> cached s' = None \<and> hooks s' = [Subscribe 0, Unsubscribe 0]"
proof -
  let ?s1 = "\<lparr>heap = [Some \<lparr>ref_count = 2, clear_tls = True\<rparr>], cached = Some 0, slow = Alive 0, handles = [0], leaked = [],
    hooks = [Subscribe 0]\<rparr>"
  let ?s2 = "?s1\<lparr>heap := [Some \<lparr>ref_count = 1, clear_tls = True\<rparr>], slow := Destroyed\<rparr>"
  have "tls_step tls_start ?s1"
    by (rule tls_step.intros [of Get])
      (simp_all add: tls_start_def tls_get_def tls_with_def tls_init_def phoenix_new_def phoenix_clone_raw_def
        phoenix_clone_def heap_get_def heap_set_def Let_def)
  moreover have "tls_step ?s1 ?s2"
    by (rule tls_step.intros [of Exit])
      (simp_all add: tls_exit_def phoenix_drop_def heap_get_def heap_set_def Let_def)
  ultimately have r: "reach (\<lambda>s. s = tls_start) tls_step ?s2"
    using reach.extend [OF reach.extend [OF reach.start [of "\<lambda>s. s = tls_start" tls_start tls_step]]] by simp
  let ?s3 = "\<lparr>heap = [None], cached = None, slow = Destroyed, handles = [], leaked = [],
    hooks = [Subscribe 0, Unsubscribe 0]\<rparr>"
  have "tls_op_apply (Drop 0) ?s2 = Inr ?s3"
    by (simp add: phoenix_drop_def phoenix_dealloc_def heap_get_def heap_set_def Let_def)
  moreover have "heap ?s2 ! 0 \<noteq> None"
    using phoenix_lives_while_owned [OF r, of "Drop 0"] by (simp add: owners_def)
  ultimately show ?thesis
    using r by (intro exI [of _ ?s2] exI [of _ ?s3]) simp
qed

end
