(* ===== verification/Wakeup.thy ===== *)
theory Wakeup
  imports Stm_Theorems
begin

text \<open>
  No wake-up is lost: the threads of theory \<open>Stm\<close> with \<open>src/internal/parking.rs\<close>, in every interleaving of their
  atomic steps. A thread whose transaction returned \<open>AWAIT_RETRY\<close> clears the unpark bits of its cells one by one, holding
  the lock of the parking lot's queue, and sleeps; a commit remembers in its \<open>park_status\<close>
  whether one of the words it locked had the bit cleared, and if so passes over the sleepers after it has published,
  again under the queue lock, loading the cells of each one by one.

  The queue lock, the order of the queue and the removal of the threads that the filter chooses are the documented behaviour of
  \<open>parking_lot_core\<close>; a thread taken out of the queue runs again at some later step.
\<close>

section \<open>State\<close>

text \<open>A sleeper: its thread, its pin, and the cells of its read log and its write log.\<close>

type_synonym sleeper = "tid \<times> quiesce_epoch \<times> cell list"

text \<open>
  Where a thread is outside its transactions: waiting for the queue lock; in \<open>try_clear_unpark_bits\<close>, with the
  statuses so far and the word loaded from the next cell; in \<open>park_failure_cleanup\<close>, with the cells
  still to set; in the queue; about to call \<open>unpark\<close>; in \<open>unpark\<close>, with the
  sleepers still to look at and what is left of their cells.
\<close>

datatype wpc =
    Awake
  | Waiting quiesce_epoch "cell list"
  | Clearing quiesce_epoch "cell list" "park_status list" "epoch_lock option"
  | Cleaning "cell list"
  | Parked
  | Owing
  | Scanning "(sleeper \<times> cell list) list"

record wk =
  mem :: stm
  pstat :: "tid \<Rightarrow> park_status"
  wpc :: "tid \<Rightarrow> wpc"
  qlock :: "tid option"
  queue :: "sleeper list"

abbreviation xpc :: "wk \<Rightarrow> tid \<Rightarrow> pc" where
  "xpc g t \<equiv> pc (th (mem g) t)"

text \<open>\<open>read_log.epoch_locks().chain(write_log.epoch_locks())\<close>\<close>

definition thr_cells :: "thr \<Rightarrow> cell list" where
  "thr_cells x = map fst (rlog x) @ map fst (wlog x)"

text \<open>
  The variable \<open>park_status\<close> of a commit: reset when the commit starts, merged with the status of each word that it locks; a hardware
  commit merges those of all words at once.
\<close>

definition noted :: "stm \<Rightarrow> thr \<Rightarrow> pc \<Rightarrow> park_status \<Rightarrow> park_status" where
  "noted s x p' st =
     (case pc x of
        Running \<Rightarrow> if p' = Ticking then foldl merge NoParked (map (\<lambda>w. park_status_of (lk s (fst w))) (wlog x)) else NoParked
      | Locking i (Some a) \<Rightarrow>
          (case fst (try_lock (pin x) a (lk s (wcell x i))) of Some cur_status \<Rightarrow> merge st cur_status | None \<Rightarrow> st)
      | _ \<Rightarrow> st)"

text \<open>The cells whose bit a parker that gives up has to set again.\<close>

definition cleared_by_us :: "cell list \<Rightarrow> park_status list \<Rightarrow> cell list" where
  "cleared_by_us cells sts =
     List.map_filter (\<lambda>(c, status). if status = NoParked then Some c else None) (zip cells sts)"

section \<open>Steps\<close>

fun published :: "pc \<Rightarrow> pc \<Rightarrow> bool" where
  "published (Publishing i sync) Idle = True"
| "published _ _ = False"

inductive wk_step :: "(cell \<Rightarrow> nat) \<Rightarrow> wk \<Rightarrow> wk \<Rightarrow> bool" for csz where
  tx_step: "\<lbrakk>wpc g t = Awake; stm_step csz (mem g) s'; th s' t \<noteq> th (mem g) t;
      st = noted (mem g) (th (mem g) t) (pc (th s' t)) (pstat g t)\<rbrakk> \<Longrightarrow>
    wk_step csz g (g\<lparr>mem := s', pstat := (pstat g)(t := st),
      wpc := (wpc g)(t := if published (xpc g t) (pc (th s' t)) \<and> st = HasParked then Owing else Awake)\<rparr>)"
| await_retry: "\<lbrakk>wpc g t = Awake; x = th (mem g) t; pc x = Running; thr_cells x \<noteq> []\<rbrakk> \<Longrightarrow>
    wk_step csz g (g\<lparr>mem := upd (mem g) t (x\<lparr>pc := Idle\<rparr>), wpc := (wpc g)(t := Waiting (pin x) (thr_cells x))\<rparr>)"
| park_lock: "\<lbrakk>wpc g t = Waiting p cells; qlock g = None\<rbrakk> \<Longrightarrow>
    wk_step csz g (g\<lparr>wpc := (wpc g)(t := Clearing p cells [] None), qlock := Some t\<rparr>)"
| clear_load: "\<lbrakk>wpc g t = Clearing p cells sts None; length sts < length cells\<rbrakk> \<Longrightarrow>
    wk_step csz g (g\<lparr>wpc := (wpc g)(t := Clearing p cells sts (Some (lk (mem g) (cells ! length sts))))\<rparr>)"
| clear_cas: "\<lbrakk>wpc g t = Clearing p cells sts (Some a); c = cells ! length sts;
      try_clear_unpark_bit p a (lk (mem g) c) = (Some status, w)\<rbrakk> \<Longrightarrow>
    wk_step csz g (g\<lparr>mem := set_lk (mem g) c w, wpc := (wpc g)(t := Clearing p cells (sts @ [status]) None)\<rparr>)"
| clear_fail: "\<lbrakk>wpc g t = Clearing p cells sts (Some a); c = cells ! length sts;
      try_clear_unpark_bit p a (lk (mem g) c) = (None, w)\<rbrakk> \<Longrightarrow>
    wk_step csz g (g\<lparr>mem := set_lk (mem g) c w, wpc := (wpc g)(t := Cleaning (cleared_by_us cells sts))\<rparr>)"
| clear_hard: "\<lbrakk>wpc g t = Clearing p cells [] None; \<forall>c\<in>set cells. clear_unpark_bit_htm p (lk (mem g) c) \<noteq> None\<rbrakk> \<Longrightarrow>
    wk_step csz g (g\<lparr>mem := (mem g)\<lparr>lk := (\<lambda>c. if c \<in> set cells then the (clear_unpark_bit_htm p (lk (mem g) c)) else lk (mem g) c)\<rparr>,
      wpc := (wpc g)(t := Clearing p cells (replicate (length cells) HasParked) None)\<rparr>)"
| clear_abort: "wpc g t = Clearing p cells [] None \<Longrightarrow>
    wk_step csz g (g\<lparr>wpc := (wpc g)(t := Cleaning [])\<rparr>)"
| go_to_sleep: "\<lbrakk>wpc g t = Clearing p cells sts None; length sts = length cells\<rbrakk> \<Longrightarrow>
    wk_step csz g (g\<lparr>wpc := (wpc g)(t := Parked), qlock := None, queue := queue g @ [(t, p, cells)]\<rparr>)"
| clean: "wpc g t = Cleaning (c # cs) \<Longrightarrow>
    wk_step csz g (g\<lparr>mem := set_lk (mem g) c (set_unpark_bit (lk (mem g) c)), wpc := (wpc g)(t := Cleaning cs)\<rparr>)"
| clean_done: "wpc g t = Cleaning [] \<Longrightarrow>
    wk_step csz g (g\<lparr>wpc := (wpc g)(t := Awake), qlock := None\<rparr>)"
| unpark_lock: "\<lbrakk>wpc g t = Owing; qlock g = None\<rbrakk> \<Longrightarrow>
    wk_step csz g (g\<lparr>wpc := (wpc g)(t := Scanning (map (\<lambda>sl. (sl, snd (snd sl))) (queue g))), qlock := Some t\<rparr>)"
| scan_valid: "\<lbrakk>wpc g t = Scanning (((u, p, cells), c # cs) # todo); read_write_valid_lockable p (lk (mem g) c)\<rbrakk> \<Longrightarrow>
    wk_step csz g (g\<lparr>wpc := (wpc g)(t := Scanning (((u, p, cells), cs) # todo))\<rparr>)"
| scan_skip: "wpc g t = Scanning ((sl, []) # todo) \<Longrightarrow>
    wk_step csz g (g\<lparr>wpc := (wpc g)(t := Scanning todo)\<rparr>)"
| scan_unpark: "\<lbrakk>wpc g t = Scanning (((u, p, cells), c # cs) # todo); \<not> read_write_valid_lockable p (lk (mem g) c)\<rbrakk> \<Longrightarrow>
    wk_step csz g (g\<lparr>wpc := (wpc g)(t := Scanning todo), queue := filter (\<lambda>sl. sl \<noteq> (u, p, cells)) (queue g)\<rparr>)"
| unpark_done: "wpc g t = Scanning [] \<Longrightarrow>
    wk_step csz g (g\<lparr>wpc := (wpc g)(t := Awake), qlock := None\<rparr>)"
| wake: "\<lbrakk>wpc g t = Parked; t \<notin> fst ` set (queue g)\<rbrakk> \<Longrightarrow>
    wk_step csz g (g\<lparr>wpc := (wpc g)(t := Awake)\<rparr>)"

definition wk_init :: "(cell \<Rightarrow> nat) \<Rightarrow> (cell \<Rightarrow> usize list) \<Rightarrow> wk \<Rightarrow> bool" where
  "wk_init csz vals g \<longleftrightarrow> stm_init csz vals (mem g) \<and> pstat g = (\<lambda>_. NoParked) \<and> wpc g = (\<lambda>_. Awake) \<and>
     qlock g = None \<and> queue g = []"

section \<open>The invariant\<close>

text \<open>
  A cell that somebody has cleared is watched: by a sleeper, or by a parker on its way. A word that a parker has loaded with the
  bit already cleared is watched from then on.
\<close>

fun watches :: "wpc \<Rightarrow> quiesce_epoch \<Rightarrow> cell \<Rightarrow> bool" where
  "watches (Clearing q cells sts a) p c \<longleftrightarrow> q = p \<and> (c \<in> set (take (length sts) cells) \<or>
     (\<exists>w. a = Some w \<and> read_write_valid q w \<and> \<not> unpark_bit_set w \<and> c = cells ! length sts))"
| "watches _ p c \<longleftrightarrow> False"

definition watched :: "wk \<Rightarrow> tid \<Rightarrow> quiesce_epoch \<Rightarrow> cell list \<Rightarrow> cell \<Rightarrow> bool" where
  "watched g u p cells c \<longleftrightarrow> (u, p, cells) \<in> set (queue g) \<and> c \<in> set cells \<or> watches (wpc g u) p c"

text \<open>
  A watched cell either is as the watcher left it, or is locked by a commit that knows of the watcher, will publish a later time
  than the watcher's pin, or will put back a word with the bit cleared.
\<close>

fun tells :: "pc \<Rightarrow> thr \<Rightarrow> quiesce_epoch \<Rightarrow> cell \<Rightarrow> bool" where
  "tells (Publishing i sync) x p c \<longleftrightarrow> ver (qget p) \<le> ver (qget sync)"
| "tells (Undoing j n (Some w)) x p c \<longleftrightarrow> (wcell x j = c \<longrightarrow> \<not> unpark_bit_set w)"
| "tells _ x p c \<longleftrightarrow> True"

definition cell_ok :: "stm \<Rightarrow> (tid \<Rightarrow> park_status) \<Rightarrow> quiesce_epoch \<Rightarrow> cell \<Rightarrow> bool" where
  "cell_ok s st p c \<longleftrightarrow> ver (lk s c) \<le> ver (qget p) \<and> \<not> unpark_bit_set (lk s c) \<and>
     (\<forall>K. c \<in> held (th s K) \<longrightarrow> st K = HasParked \<and> tells (pc (th s K)) (th s K) p c)"

text \<open>Or a commit has published it, and still has to pass over the watcher.\<close>

fun will_scan :: "wpc \<Rightarrow> sleeper \<Rightarrow> cell \<Rightarrow> bool" where
  "will_scan Owing sl c = True"
| "will_scan (Scanning todo) sl c \<longleftrightarrow> (\<exists>left. (sl, left) \<in> set todo \<and> c \<in> set left)"
| "will_scan _ sl c = False"

fun publishing :: "pc \<Rightarrow> bool" where
  "publishing (Publishing i sync) = True"
| "publishing _ = False"

definition owes :: "wk \<Rightarrow> tid \<Rightarrow> sleeper \<Rightarrow> cell \<Rightarrow> bool" where
  "owes g K sl c \<longleftrightarrow> pstat g K = HasParked \<and> publishing (xpc g K) \<or> will_scan (wpc g K) sl c"

definition time_past :: "stm \<Rightarrow> quiesce_epoch \<Rightarrow> bool" where
  "time_past s p \<longleftrightarrow> time_ok p \<and> ver (qget p) \<le> ver (clk s)"

definition seen_to :: "wk \<Rightarrow> sleeper \<Rightarrow> cell \<Rightarrow> bool" where
  "seen_to g sl c \<longleftrightarrow> time_past (mem g) (fst (snd sl)) \<and>
     (cell_ok (mem g) (pstat g) (fst (snd sl)) c \<or>
       ver (qget (fst (snd sl))) < ver (lk (mem g) c) \<and> (\<exists>K. owes g K sl c))"

definition watch_ok :: "wk \<Rightarrow> bool" where
  "watch_ok g \<longleftrightarrow> (\<forall>u p cells c. watched g u p cells c \<longrightarrow> seen_to g (u, p, cells) c)"

fun critical :: "wpc \<Rightarrow> bool" where
  "critical (Clearing p cells sts a) = True"
| "critical (Cleaning cs) = True"
| "critical (Scanning todo) = True"
| "critical _ = False"

fun wpc_ok :: "stm \<Rightarrow> wpc \<Rightarrow> bool" where
  "wpc_ok s (Waiting p cells) \<longleftrightarrow> time_past s p"
| "wpc_ok s (Clearing p cells sts a) \<longleftrightarrow> time_past s p \<and> length sts \<le> length cells \<and>
     (a \<noteq> None \<longrightarrow> length sts < length cells)"
| "wpc_ok s _ \<longleftrightarrow> True"

text \<open>Setting a bit again harms nobody: the sleepers on that cell are late already.\<close>

fun undoes :: "wpc \<Rightarrow> cell \<Rightarrow> bool" where
  "undoes (Clearing p cells sts a) c \<longleftrightarrow> c \<in> set (cleared_by_us cells sts)"
| "undoes (Cleaning cs) c \<longleftrightarrow> c \<in> set cs"
| "undoes _ c \<longleftrightarrow> False"

definition undo_ok :: "wk \<Rightarrow> bool" where
  "undo_ok g \<longleftrightarrow> (\<forall>t u p cells c. undoes (wpc g t) c \<longrightarrow> (u, p, cells) \<in> set (queue g) \<longrightarrow> c \<in> set cells \<longrightarrow>
     ver (qget p) < ver (lk (mem g) c))"

definition wk_inv :: "(cell \<Rightarrow> nat) \<Rightarrow> (cell \<Rightarrow> usize list) \<Rightarrow> wk \<Rightarrow> bool" where
  "wk_inv csz vals g \<longleftrightarrow> stm_inv csz vals (mem g) \<and> watch_ok g \<and> undo_ok g \<and>
     (\<forall>t. wpc_ok (mem g) (wpc g t) \<and> (critical (wpc g t) \<longrightarrow> qlock g = Some t))"

lemma wk_invD:
  assumes "wk_inv csz vals g"
  shows "stm_inv csz vals (mem g)" "watch_ok g" "undo_ok g" "wpc_ok (mem g) (wpc g t)"
    "critical (wpc g t) \<Longrightarrow> qlock g = Some t"
  using assms by (simp_all add: wk_inv_def)

section \<open>Steps of transactions\<close>

lemma step_clk:
  assumes "stm_inv csz vals s" and "stm_step csz s s'"
  shows "ver (clk s) \<le> ver (clk s')"
  using assms(2)
proof cases
  case (tick x t sync clk')
  with stm_invD(9) [OF assms(1)] show ?thesis
    using clock_ok_tick(4) [of "clk s" sync clk'] by (simp add: locks_inv_def)
qed simp_all

lemma try_lock_held:
  assumes "stm_inv csz vals s" and "try_lock q a (lk s c) = (Some st, w)" and "time_ok q"
  shows "w = toggle_lock_bit (lk s c)" "st = park_status_of (lk s c)" "c \<notin> held (th s u)"
  using try_lock_Some [OF assms(2)] held_locked [OF assms(1), of c u] assms(3) by (auto simp: read_write_valid_iff)

lemma step_ver:
  assumes i: "stm_inv csz vals s" and "stm_step csz s s'"
  shows "ver (lk s c) \<le> ver (lk s' c)"
  using assms(2)
proof cases
  case (lock_cas x t i a st w)
  then show ?thesis using try_lock_Some [of "pin x" a "lk s (wcell x i)" st w] by auto
next
  case (lock_fail x t i a w)
  then show ?thesis using try_lock_None [of "pin x" a "lk s (wcell x i)" w] by auto
next
  case (publish x t i sync)
  then have "wcell x i \<in> held x" by (simp add: held_def)
  with publish stm_invD(1,2) [OF i, of t] show ?thesis
    by (auto simp: unlock_publish_def thr_ok_def lock_ok_def intro: le_SucI)
next
  case (undo_store x t j n w)
  with stm_invD(2) [OF i, of t] show ?thesis by (auto simp: unlock_undo_def lock_ok_def)
next
  case (park_clear q a c r w)
  then show ?thesis using try_clear_unpark_bit_word [of q a "lk s c" r w] by auto
qed (auto simp: set_unpark_bit_def)

lemma foldl_merge: "foldl merge st sts = HasParked \<longleftrightarrow> st = HasParked \<or> HasParked \<in> set sts"
  by (induction sts arbitrary: st) (auto simp: merge_HasParked)

text \<open>A cell that keeps its word, in a step in which the thread takes no cell and stays silent.\<close>

lemma cell_ok_same:
  assumes "cell_ok s st p c" and "lk s' c = lk s c" and "\<And>u. u \<noteq> t \<Longrightarrow> th s' u = th s u"
    and "c \<in> held (th s' t) \<Longrightarrow> c \<in> held (th s t) \<and> (st t = HasParked \<longrightarrow> n = HasParked) \<and>
      (tells (pc (th s t)) (th s t) p c \<longrightarrow> tells (pc (th s' t)) (th s' t) p c)"
  shows "cell_ok s' (st(t := n)) p c"
  using assms unfolding cell_ok_def by (metis fun_upd_apply)

text \<open>A cell that only this thread may hold.\<close>

lemma cell_ok_own:
  assumes "ver (lk s' c) = ver (lk s c)" and "unpark_bit_set (lk s' c) = unpark_bit_set (lk s c)" and "cell_ok s st p c"
    and "\<And>u. c \<in> held (th s' u) \<Longrightarrow> u = t \<and> n = HasParked" and "tells (pc (th s' t)) (th s' t) p c"
  shows "cell_ok s' (st(t := n)) p c"
  using assms by (auto simp: cell_ok_def)

lemma cell_ok_step:
  assumes i: "stm_inv csz vals s" and step: "stm_step csz s s'" and t: "th s' t \<noteq> th s t"
    and c: "cell_ok s st p c" and p: "time_past s p"
    and n: "n = noted s (th s t) (pc (th s' t)) (st t)"
  shows "cell_ok s' (st(t := n)) p c \<or>
    ver (qget p) < ver (lk s' c) \<and> n = HasParked \<and> publishing (pc (th s' t))"
proof -
  have others: "th s' u = th s u" if "u \<noteq> t" for u
    using step_others [OF step t that] .
  have quiet: ?thesis if "lk s' c = lk s c" "held (th s' t) \<subseteq> held (th s t)" "pc (th s t) = Running \<Longrightarrow> held (th s' t) = {}"
      "tells (pc (th s t)) (th s t) p c \<Longrightarrow> tells (pc (th s' t)) (th s' t) p c"
      "\<And>i a. pc (th s t) = Locking i (Some a) \<Longrightarrow> fst (try_lock (pin (th s t)) a (lk s (wcell (th s t) i))) = None"
    using cell_ok_same [OF c that(1) others, of t n] that n
    by (auto simp: noted_def split: pc.splits option.splits)
  from step show ?thesis
  proof cases
    case (lock_cas x t' i a st' w)
    with t have t': "t' = t" by (auto split: if_splits)
    have x: "x = th s t" using lock_cas t' by simp
    have "time_ok (pin x)" using stm_invD(1) [OF i, of t] lock_cas t' by (simp add: thr_ok_def)
    note l = try_lock_held [OF i lock_cas(5) this]
    have h: "held (x\<lparr>pc := Locking (Suc i) None\<rparr>) = insert (wcell x i) (held x)"
      using lock_cas(3) by (auto simp: held_def atLeast0_lessThan_Suc)
    have st: "n = merge (st t) (park_status_of (lk s (wcell x i)))"
      using n lock_cas(3,5) l t' x by (simp add: noted_def)
    show ?thesis
    proof (cases "c = wcell x i")
      case True
      have "u = t" if "c \<in> held (th s' u)" for u
        using that True l(3) [of u] others [of u] x by (cases "u = t") auto
      moreover have "n = HasParked"
        using st c True by (simp add: cell_ok_def park_status_of_def merge_HasParked)
      moreover have "lk s' c = toggle_lock_bit (lk s c)" "pc (th s' t) = Locking (Suc i) None"
        using True l(1) lock_cas(1) t' by simp_all
      ultimately have "cell_ok s' (st(t := n)) p c"
        by (intro cell_ok_own [OF _ _ c]) simp_all
      then show ?thesis ..
    next
      case False
      have "cell_ok s' (st(t := n)) p c"
        by (rule cell_ok_same [OF c _ others])
          (use False lock_cas(1,3) t' x h st in \<open>auto simp: merge_HasParked\<close>)
      then show ?thesis ..
    qed
  next
    case (lock_fail x t' i a w)
    then have "w = lk s (wcell x i)" by (auto dest: try_lock_None)
    with lock_fail t quiet show ?thesis by (auto simp: held_def split: if_splits)
  next
    case (publish x t' i sync)
    with t have t': "t' = t" by (auto split: if_splits)
    have x: "x = th s t" using publish t' by simp
    have d: "wcell x i \<in> held x" using publish(3,4) by (simp add: held_def)
    show ?thesis
    proof (cases "c = wcell x i")
      case True
      then have "st t = HasParked" "ver (qget p) \<le> ver (qget sync)"
        using c d x publish(3) by (auto simp: cell_ok_def)
      then show ?thesis
        using True publish n x t' stm_invD(1) [OF i, of t]
        by (auto simp: noted_def unlock_publish_def thr_ok_def)
    next
      case False
      moreover have "held (th s' t) \<subseteq> held (th s t)"
        using publish(1,3) t' x by (auto simp: held_def intro!: image_mono)
      ultimately show ?thesis using quiet x t' publish(1,3) by simp
    qed
  next
    case (undo_load x t' j n')
    with t have t': "t' = t" by (auto split: if_splits)
    have "\<not> unpark_bit_set (lk s c)" using c by (simp add: cell_ok_def)
    with t' quiet undo_load show ?thesis by (auto simp: held_def)
  next
    case (undo_store x t' j n' w)
    with t have t': "t' = t" by (auto split: if_splits)
    have x: "x = th s t" using undo_store t' by simp
    have thr: "thr_ok csz s x" and lk: "lock_ok s x" using stm_invD(1,2) [OF i, of t] x by simp_all
    have j: "j < n'" "n' \<le> length (wlog x)" "distinct (map fst (wlog x))"
      using thr undo_store(3) by (auto simp: thr_ok_def)
    have d: "wcell x j \<in> held x" using undo_store(3) j by (simp add: held_def)
    have h: "held (x\<lparr>pc := Undoing (Suc j) n' None\<rparr>) = held x - {wcell x j}"
      using wcell_range [OF j(3,1,2)] undo_store(3) by (auto simp: held_def)
    show ?thesis
    proof (cases "c = wcell x j")
      case True
      have "c \<notin> held (th s' u)" for u
        using held_other [OF i _ d [unfolded x], of u] h True undo_store(1) t' x by (cases "u = t") auto
      moreover have "\<not> unpark_bit_set w" using c d True x undo_store(3) by (auto simp: cell_ok_def)
      ultimately show ?thesis
        using c True lk undo_store t' x by (auto simp: cell_ok_def unlock_undo_def lock_ok_def)
    next
      case False
      with quiet x t' undo_store h show ?thesis by auto
    qed
  next
    case (commit_hard x t')
    with t have t': "t' = t" by (auto split: if_splits)
    have x: "x = th s t" using commit_hard t' by simp
    have "time_ok (pin x)" using stm_invD(1) [OF i, of t] commit_hard t' by (simp add: thr_ok_def)
    then have free: "d \<notin> held (th s u)" if "d \<in> wcells x" for d u
      using that commit_hard(5) held_locked [OF i, of d u] by (auto simp: valid_def valid_lockable_iff)
    have h: "held (x\<lparr>pc := Ticking, ent := length (hist s)\<rparr>) = wcells x" by (rule trans [OF held_all]) simp_all
    have st: "n = HasParked" if "c \<in> wcells x"
      using that c n commit_hard(1,3) t' x by (auto simp: noted_def foldl_merge cell_ok_def park_status_of_def image_iff)
    have "c \<notin> held (th s' u)" if "u \<noteq> t" "c \<in> wcells x" for u
      using free [OF that(2)] others [OF that(1)] by simp
    then show ?thesis
      using c st h commit_hard(1) t' x by (auto simp: cell_ok_def others)
  next
    case (tick x t' sync clk')
    with t have t': "t' = t" by (auto split: if_splits)
    have "sync = QuiesceEpoch (clk s)" using tick by (simp add: fetch_and_tick_def new_unchecked_def)
    with p t' tick quiet show ?thesis by (auto simp: held_def time_past_def)
  qed (insert t quiet, auto simp: held_def split: if_splits)
qed

section \<open>Every step keeps the invariant\<close>

lemma step_publishing_on:
  assumes "stm_step csz s s'" and "th s' t \<noteq> th s t" and "publishing (pc (th s t))"
  shows "publishing (pc (th s' t)) \<or> published (pc (th s t)) (pc (th s' t))"
  using assms by cases (auto split: if_splits)

lemma time_past_mono: "time_past s p \<Longrightarrow> ver (clk s) \<le> ver (clk s') \<Longrightarrow> time_past s' p"
  by (auto simp: time_past_def)

lemma wpc_ok_mono: "wpc_ok s w \<Longrightarrow> ver (clk s) \<le> ver (clk s') \<Longrightarrow> wpc_ok s' w"
  by (cases w) (auto intro: time_past_mono)

lemma watch_okD: "watch_ok g \<Longrightarrow> watched g u p cells c \<Longrightarrow> seen_to g (u, p, cells) c"
  by (simp add: watch_ok_def)

lemma undo_ok_keep:
  assumes "undo_ok g" and "\<And>t c. undoes (wpc g' t) c \<Longrightarrow> \<exists>t'. undoes (wpc g t') c"
    and "set (queue g') \<subseteq> set (queue g)" and "\<And>c. ver (lk (mem g) c) \<le> ver (lk (mem g') c)"
  shows "undo_ok g'"
  unfolding undo_ok_def
proof (intro allI impI)
  fix t u p cells c assume "undoes (wpc g' t) c" "(u, p, cells) \<in> set (queue g')" "c \<in> set cells"
  with assms(1-3) have "ver (qget p) < ver (lk (mem g) c)" unfolding undo_ok_def by blast
  with assms(4) [of c] show "ver (qget p) < ver (lk (mem g') c)" by simp
qed

lemma inv_tx:
  assumes inv: "wk_inv csz vals g" and w: "wpc g t = Awake" and step: "stm_step csz (mem g) s'"
    and t: "th s' t \<noteq> th (mem g) t" and st: "st = noted (mem g) (th (mem g) t) (pc (th s' t)) (pstat g t)"
  shows "wk_inv csz vals (g\<lparr>mem := s', pstat := (pstat g)(t := st),
      wpc := (wpc g)(t := if published (xpc g t) (pc (th s' t)) \<and> st = HasParked then Owing else Awake)\<rparr>)"
    (is "wk_inv csz vals ?g")
proof -
  note I = wk_invD [OF inv]
  note clk = step_clk [OF I(1) step] and vers = step_ver [OF I(1) step]
  have "watch_ok ?g"
    unfolding watch_ok_def
  proof (intro allI impI)
    fix u p cells c assume "watched ?g u p cells c"
    then have "watched g u p cells c" by (auto simp: watched_def split: if_splits)
    then have s: "seen_to g (u, p, cells) c" by (rule watch_okD [OF I(2)])
    then have p: "time_past (mem g) p" by (simp add: seen_to_def)
    show "seen_to ?g (u, p, cells) c"
    proof (cases "cell_ok (mem g) (pstat g) p c")
      case True
      from cell_ok_step [OF I(1) step t True p st] show ?thesis
        using time_past_mono [OF p clk] by (auto simp: seen_to_def owes_def)
    next
      case False
      with s obtain K where l: "ver (qget p) < ver (lk (mem g) c)" and o: "owes g K (u, p, cells) c"
        by (auto simp: seen_to_def)
      have "owes ?g K (u, p, cells) c"
      proof (cases "K = t")
        case True
        with o w have "pstat g t = HasParked" "publishing (xpc g t)" by (auto simp: owes_def)
        moreover from this have "st = HasParked" by (cases "xpc g t") (simp_all add: st noted_def)
        ultimately show ?thesis
          using step_publishing_on [OF step t] True by (auto simp: owes_def)
      next
        case False
        with o step_others [OF step t False] show ?thesis by (simp add: owes_def)
      qed
      with l vers [of c] time_past_mono [OF p clk] show ?thesis by (auto simp: seen_to_def)
    qed
  qed
  moreover have "undo_ok ?g"
    by (rule undo_ok_keep [OF I(3)]) (auto simp: vers split: if_splits)
  ultimately show ?thesis
    using I(4,5) stm_inv_step [OF I(1) step] wpc_ok_mono [OF I(4) clk] by (simp add: wk_inv_def)
qed

lemma inv_await:
  assumes inv: "wk_inv csz vals g" and w: "wpc g t = Awake" and x: "x = th (mem g) t" and r: "pc x = Running"
  shows "wk_inv csz vals (g\<lparr>mem := upd (mem g) t (x\<lparr>pc := Idle\<rparr>), wpc := (wpc g)(t := Waiting (pin x) cells)\<rparr>)"
    (is "wk_inv csz vals ?g")
proof -
  note I = wk_invD [OF inv]
  have h: "held (th (mem ?g) K) = held (th (mem g) K)" "tells (xpc ?g K) (th (mem ?g) K) = tells (xpc g K) (th (mem g) K)"
      "publishing (xpc ?g K) = publishing (xpc g K)" for K
    using x r by (auto simp: held_none fun_eq_iff)
  then have s: "seen_to ?g sl c = seen_to g sl c" for sl c
    using w by (simp add: seen_to_def cell_ok_def time_past_def owes_def cong: conj_cong)
      (metis will_scan.simps(3,4))
  have "time_past (mem g) (pin x)"
    using stm_invD(1) [OF I(1), of t] x r by (simp add: thr_ok_def time_past_def)
  moreover have "wpc_ok (upd (mem g) t (x\<lparr>pc := Idle\<rparr>)) v = wpc_ok (mem g) v" for v
    by (cases v) (simp_all add: time_past_def)
  moreover have "watch_ok ?g"
    using I(2) w unfolding watch_ok_def s by (auto simp: watched_def split: if_splits)
  ultimately show ?thesis
    using I inv_end_tx [OF I(1), of t] x r by (simp add: wk_inv_def undo_ok_def time_past_def)
qed

text \<open>The steps of parkers and of \<open>unpark\<close> change flags of lock words at most.\<close>

lemma inv_flag_step:
  assumes inv: "wk_inv csz vals g" and g': "g' = g\<lparr>mem := (mem g)\<lparr>lk := lk'\<rparr>, wpc := (wpc g)(t := w), qlock := q, queue := qu\<rparr>"
    and l: "\<And>d. ver (lk' d) = ver (lk (mem g) d) \<and> lock_bit_set (lk' d) = lock_bit_set (lk (mem g) d)"
    and w: "wpc_ok (mem g) w" "critical w \<Longrightarrow> q = Some t" "\<And>u. u \<noteq> t \<Longrightarrow> critical (wpc g u) \<Longrightarrow> q = Some u"
    and watch: "\<And>u p cells c. watched g' u p cells c \<Longrightarrow> seen_to g' (u, p, cells) c" and undo: "undo_ok g'"
  shows "wk_inv csz vals g'"
proof -
  note I = wk_invD [OF inv]
  have "wpc_ok (s\<lparr>lk := lk'\<rparr>) v = wpc_ok s v" for s v
    by (cases v) (simp_all add: time_past_def)
  then show ?thesis
    using I(4,5) w inv_flags [OF I(1) l] watch undo by (simp add: wk_inv_def g' watch_ok_def)
qed

lemma seen_to_flags:
  assumes "seen_to g sl c" and "mem g' = (mem g)\<lparr>lk := lk'\<rparr>" "pstat g' = pstat g" and "ver (lk' c) = ver (lk (mem g) c)"
    and "unpark_bit_set (lk' c) \<Longrightarrow> unpark_bit_set (lk (mem g) c) \<or> ver (qget (fst (snd sl))) < ver (lk (mem g) c)"
    and "\<And>K. will_scan (wpc g K) sl c \<Longrightarrow> ver (qget (fst (snd sl))) < ver (lk (mem g) c) \<Longrightarrow>
      \<exists>K. will_scan (wpc g' K) sl c"
  shows "seen_to g' sl c"
proof (cases "ver (qget (fst (snd sl))) < ver (lk (mem g) c)")
  case True
  with assms(1) obtain K where "owes g K sl c" by (auto simp: seen_to_def cell_ok_def)
  then have "\<exists>K. owes g' K sl c"
    using assms(2,3) assms(6) [OF _ True] unfolding owes_def by (elim disjE conjE) auto
  with True assms(1,2,4) show ?thesis by (auto simp: seen_to_def time_past_def)
next
  case False
  with assms(1-5) show ?thesis by (auto simp: seen_to_def time_past_def cell_ok_def)
qed

text \<open>Only one thread is between taking and releasing the queue lock.\<close>

lemma critical_unique:
  assumes "wk_inv csz vals g" and "critical (wpc g t)" and "u \<noteq> t"
  shows "\<not> critical (wpc g u)" "\<not> watches (wpc g u) p c" "\<not> undoes (wpc g u) c"
proof -
  show n: "\<not> critical (wpc g u)"
    using wk_invD(5) [OF assms(1), of t] wk_invD(5) [OF assms(1), of u] assms(2,3) by auto
  then show "\<not> watches (wpc g u) p c" "\<not> undoes (wpc g u) c" by (cases "wpc g u"; simp)+
qed

lemma critical_none:
  assumes "wk_inv csz vals g" and "qlock g = None"
  shows "\<not> critical (wpc g u)" "\<not> watches (wpc g u) p c" "\<not> undoes (wpc g u) c"
proof -
  show n: "\<not> critical (wpc g u)"
    using wk_invD(5) [OF assms(1), of u] assms(2) by auto
  then show "\<not> watches (wpc g u) p c" "\<not> undoes (wpc g u) c" by (cases "wpc g u"; simp)+
qed

lemma try_clear_Some:
  assumes "try_clear_unpark_bit p a w = (Some st, w')"
  shows "read_write_valid p a \<and> (\<not> unpark_bit_set a \<and> st = HasParked \<and> w' = w \<or>
    unpark_bit_set a \<and> st = NoParked \<and> w = a \<and> w' = clear_unpark_bit w)"
  using assms by (auto simp: try_clear_unpark_bit_def compare_exchange_def split: if_splits)

lemma try_clear_None: "try_clear_unpark_bit p a w = (None, w') \<Longrightarrow> w' = w"
  by (auto simp: try_clear_unpark_bit_def compare_exchange_def split: if_splits)

lemma set_cleared_by_us: "set (cleared_by_us cells sts) = {c. (c, NoParked) \<in> set (zip cells sts)}"
  by (auto simp: cleared_by_us_def map_filter_def image_iff split: if_splits)

lemma cleared_by_us_snoc:
  "set (cleared_by_us cells (sts @ [st])) =
     set (cleared_by_us cells sts) \<union> (if length sts < length cells \<and> st = NoParked then {cells ! length sts} else {})"
proof -
  have "zip cells (sts @ [st]) = zip cells sts @ (if length sts < length cells then [(cells ! length sts, st)] else [])"
  proof (induction cells arbitrary: sts)
    case (Cons c cells)
    then show ?case by (cases sts) simp_all
  qed simp
  then show ?thesis by (auto simp: set_cleared_by_us)
qed

lemma cleared_by_us_simps [simp]:
  "cleared_by_us cells [] = []" "cleared_by_us cells (replicate n HasParked) = []"
proof -
  have "set (cleared_by_us cells (replicate n HasParked)) = {}"
    by (auto simp: set_cleared_by_us dest: set_zip_rightD)
  then show "cleared_by_us cells (replicate n HasParked) = []" by simp
qed (simp add: cleared_by_us_def map_filter_def)

text \<open>A free cell whose bit is cleared, and whose version the pin covers.\<close>

lemma seen_to_valid:
  assumes inv: "wk_inv csz vals g" and p: "time_past (mem g) p" and v: "read_write_valid p (lk (mem g) c)"
    and m: "mem g' = (mem g)\<lparr>lk := lk'\<rparr>"
    and l: "ver (lk' c) = ver (lk (mem g) c)" "\<not> unpark_bit_set (lk' c)"
  shows "seen_to g' (u, p, cells) c"
proof -
  have "\<not> lock_bit_set (lk (mem g) c)" "ver (lk (mem g) c) \<le> ver (qget p)"
    using v p by (simp_all add: read_write_valid_iff time_past_def)
  then show ?thesis
    using held_locked [OF wk_invD(1) [OF inv], of c] p m l by (auto simp: seen_to_def cell_ok_def time_past_def)
qed

text \<open>A step that only moves thread \<open>t\<close> on.\<close>

lemma inv_wpc_step:
  assumes inv: "wk_inv csz vals g"
    and w: "wpc_ok (mem g) w" "critical w \<Longrightarrow> q = Some t" "\<And>u. u \<noteq> t \<Longrightarrow> critical (wpc g u) \<Longrightarrow> q = Some u"
    and watch: "\<And>u p cells c. watched (g\<lparr>wpc := (wpc g)(t := w), qlock := q\<rparr>) u p cells c \<Longrightarrow>
      watched g u p cells c \<and> (will_scan (wpc g t) (u, p, cells) c \<longrightarrow> ver (qget p) < ver (lk (mem g) c) \<longrightarrow>
        will_scan w (u, p, cells) c) \<or>
      seen_to (g\<lparr>wpc := (wpc g)(t := w), qlock := q\<rparr>) (u, p, cells) c"
    and undo: "\<And>c. undoes w c \<Longrightarrow> undoes (wpc g t) c"
  shows "wk_inv csz vals (g\<lparr>wpc := (wpc g)(t := w), qlock := q\<rparr>)" (is "wk_inv csz vals ?g")
proof (rule inv_flag_step [OF inv, where lk' = "lk (mem g)" and t = t and w = w and q = q and qu = "queue g"])
  note I = wk_invD [OF inv]
  show "seen_to ?g (u, p, cells) c" if "watched ?g u p cells c" for u p cells c
    using watch [OF that]
  proof
    assume k: "watched g u p cells c \<and> (will_scan (wpc g t) (u, p, cells) c \<longrightarrow>
        ver (qget p) < ver (lk (mem g) c) \<longrightarrow> will_scan w (u, p, cells) c)"
    then have s: "seen_to g (u, p, cells) c" by (simp add: watch_okD [OF I(2)])
    have scan: "\<exists>K. will_scan (wpc ?g K) (u, p, cells) c"
      if "will_scan (wpc g K) (u, p, cells) c" "ver (qget (fst (snd (u, p, cells)))) < ver (lk (mem g) c)" for K
      using k that by (intro exI [of _ K]) auto
    show ?thesis
      by (rule seen_to_flags [where lk' = "lk (mem g)", OF s]) (simp, simp, simp, simp, rule scan)
  qed
  have "\<exists>t'. undoes (wpc g t') c" if "undoes (wpc ?g u) c" for u c
    using that undo [of c] by (auto split: if_splits)
  then show "undo_ok ?g" by (intro undo_ok_keep [OF I(3)]) auto
qed (use w in auto)

lemma inv_clear_load:
  assumes inv: "wk_inv csz vals g" and w: "wpc g t = Clearing p cells sts None" and n: "length sts < length cells"
  shows "wk_inv csz vals (g\<lparr>wpc := (wpc g)(t := Clearing p cells sts (Some (lk (mem g) (cells ! length sts))))\<rparr>)"
    (is "wk_inv csz vals ?g")
proof -
  note I = wk_invD [OF inv]
  have p: "time_past (mem g) p" using I(4) [of t] w by simp
  have "wk_inv csz vals (?g\<lparr>qlock := qlock g\<rparr>)"
  proof (rule inv_wpc_step [OF inv], goal_cases)
    case (4 u q cs c)
    show ?case
    proof (cases "watched g u q cs c")
      case False
      with 4 w have "q = p" "c = cells ! length sts" "read_write_valid p (lk (mem g) c)" "\<not> unpark_bit_set (lk (mem g) c)"
        by (auto simp: watched_def split: if_splits)
      with seen_to_valid [OF inv p, of c ?g "lk (mem g)"] show ?thesis by simp
    qed (use w in \<open>auto split: if_splits\<close>)
  qed (use I(4) [of t] I(5) w n in auto)
  then show ?thesis by simp
qed

lemma inv_park_lock:
  assumes inv: "wk_inv csz vals g" and w: "wpc g t = Waiting p cells" and q: "qlock g = None"
  shows "wk_inv csz vals (g\<lparr>wpc := (wpc g)(t := Clearing p cells [] None), qlock := Some t\<rparr>)"
  by (rule inv_wpc_step [OF inv])
    (use critical_none [OF inv q] wk_invD(4) [OF inv, of t] w in \<open>auto simp: watched_def split: if_splits\<close>)

lemma inv_clear_abort:
  assumes inv: "wk_inv csz vals g" and w: "wpc g t = Clearing p cells [] None"
  shows "wk_inv csz vals (g\<lparr>wpc := (wpc g)(t := Cleaning [])\<rparr>)"
proof -
  have "wk_inv csz vals (g\<lparr>wpc := (wpc g)(t := Cleaning []), qlock := qlock g\<rparr>)"
    by (rule inv_wpc_step [OF inv]) (use wk_invD(5) [OF inv] w in \<open>auto simp: watched_def split: if_splits\<close>)
  then show ?thesis by simp
qed

text \<open>The lock is released.\<close>

lemma inv_release:
  assumes inv: "wk_inv csz vals g" and w: "wpc g t = Cleaning [] \<or> wpc g t = Scanning []"
  shows "wk_inv csz vals (g\<lparr>wpc := (wpc g)(t := Awake), qlock := None\<rparr>)"
  by (rule inv_wpc_step [OF inv])
    (use critical_unique [OF inv, of t] w in \<open>auto simp: watched_def split: if_splits\<close>)

lemma inv_unpark_lock:
  assumes inv: "wk_inv csz vals g" and w: "wpc g t = Owing" and q: "qlock g = None"
  shows "wk_inv csz vals (g\<lparr>wpc := (wpc g)(t := Scanning (map (\<lambda>sl. (sl, snd (snd sl))) (queue g))), qlock := Some t\<rparr>)"
  by (rule inv_wpc_step [OF inv])
    (use critical_none [OF inv q] w in \<open>force simp: watched_def split: if_splits\<close>)+

lemma inv_scan_skip:
  assumes inv: "wk_inv csz vals g" and w: "wpc g t = Scanning ((sl, []) # todo)"
  shows "wk_inv csz vals (g\<lparr>wpc := (wpc g)(t := Scanning todo)\<rparr>)"
proof -
  have "wk_inv csz vals (g\<lparr>wpc := (wpc g)(t := Scanning todo), qlock := qlock g\<rparr>)"
    by (rule inv_wpc_step [OF inv]) (use wk_invD(5) [OF inv] w in \<open>auto simp: watched_def split: if_splits\<close>)
  then show ?thesis by simp
qed

lemma inv_scan_valid:
  assumes inv: "wk_inv csz vals g" and w: "wpc g t = Scanning (((u, p, cells), c # cs) # todo)"
    and v: "read_write_valid_lockable p (lk (mem g) c)"
  shows "wk_inv csz vals (g\<lparr>wpc := (wpc g)(t := Scanning (((u, p, cells), cs) # todo))\<rparr>)" (is "wk_inv csz vals ?g")
proof -
  note I = wk_invD [OF inv]
  have "wk_inv csz vals (?g\<lparr>qlock := qlock g\<rparr>)"
  proof (rule inv_wpc_step [OF inv], goal_cases)
    case (4 u' p' cells' d)
    then have d: "watched g u' p' cells' d" by (auto simp: watched_def split: if_splits)
    then have "time_ok p'" using watch_okD [OF I(2)] by (auto simp: seen_to_def time_past_def)
    then have "\<not> (p' = p \<and> d = c \<and> ver (qget p') < ver (lk (mem g) d))" using v by (auto simp: valid_lockable_iff)
    with d w show ?case by auto
  qed (use I(5) w in auto)
  then show ?thesis by simp
qed

lemma inv_wake:
  assumes inv: "wk_inv csz vals g" and w: "wpc g t = Parked"
  shows "wk_inv csz vals (g\<lparr>wpc := (wpc g)(t := Awake)\<rparr>)"
proof -
  have "wk_inv csz vals (g\<lparr>wpc := (wpc g)(t := Awake), qlock := qlock g\<rparr>)"
    by (rule inv_wpc_step [OF inv]) (use wk_invD(5) [OF inv] w in \<open>auto simp: watched_def split: if_splits\<close>)
  then show ?thesis by simp
qed

lemma inv_clear_fail:
  assumes inv: "wk_inv csz vals g" and w: "wpc g t = Clearing p cells sts a"
  shows "wk_inv csz vals (g\<lparr>wpc := (wpc g)(t := Cleaning (cleared_by_us cells sts))\<rparr>)"
proof -
  have "wk_inv csz vals (g\<lparr>wpc := (wpc g)(t := Cleaning (cleared_by_us cells sts)), qlock := qlock g\<rparr>)"
    by (rule inv_wpc_step [OF inv]) (use wk_invD(5) [OF inv] w in \<open>auto simp: watched_def split: if_splits\<close>)
  then show ?thesis by simp
qed

text \<open>What the parkers do to the lock words.\<close>

lemma seen_to_clear:
  assumes "seen_to g sl c" and "mem g' = (mem g)\<lparr>lk := lk'\<rparr>" "pstat g' = pstat g" "wpc g' = (wpc g)(t := w)"
    and "lk' c = lk (mem g) c \<or> lk' c = clear_unpark_bit (lk (mem g) c)" and "\<And>sl c. \<not> will_scan (wpc g t) sl c"
  shows "seen_to g' sl c"
proof (rule seen_to_flags [OF assms(1-3)])
  fix K assume k: "will_scan (wpc g K) sl c"
  with assms(6) [of sl c] have "K \<noteq> t" by auto
  with k have "will_scan (wpc g' K) sl c" by (simp add: assms(4))
  then show "\<exists>K. will_scan (wpc g' K) sl c" ..
qed (use assms(5) in auto)

lemma inv_clear_cas:
  assumes inv: "wk_inv csz vals g" and w: "wpc g t = Clearing p cells sts (Some a)" and c: "c = cells ! length sts"
    and r: "try_clear_unpark_bit p a (lk (mem g) c) = (Some status, v)"
  shows "wk_inv csz vals (g\<lparr>mem := set_lk (mem g) c v, wpc := (wpc g)(t := Clearing p cells (sts @ [status]) None)\<rparr>)"
    (is "wk_inv csz vals ?g")
proof -
  note I = wk_invD [OF inv]
  have p: "time_past (mem g) p" and n: "length sts < length cells" and q: "qlock g = Some t"
    using I(4) [of t] I(5) [of t] w by auto
  have tk: "set (take (Suc (length sts)) cells) = insert c (set (take (length sts) cells))"
    using n c by (simp add: take_Suc_conv_app_nth)
  have v: "v = lk (mem g) c \<or> v = clear_unpark_bit (lk (mem g) c)" using try_clear_Some [OF r] by auto
  show ?thesis
  proof (rule inv_flag_step [OF inv, where lk' = "(lk (mem g))(c := v)" and t = t and q = "qlock g" and qu = "queue g"
        and w = "Clearing p cells (sts @ [status]) None"])
    show "seen_to ?g (u, q, cs) d" if "watched ?g u q cs d" for u q cs d
    proof (cases "watched g u q cs d")
      case True
      show ?thesis
        by (rule seen_to_clear [OF watch_okD [OF I(2) True], where lk' = "(lk (mem g))(c := v)" and t = t])
          (use v w in auto)
    next
      case False
      with that w tk try_clear_Some [OF r] have "q = p" "d = c" "read_write_valid p (lk (mem g) c)" "\<not> unpark_bit_set v"
        by (auto simp: watched_def c split: if_splits)
      with seen_to_valid [OF inv p, of c ?g "(lk (mem g))(c := v)"] v show ?thesis by auto
    qed
    show "undo_ok ?g"
      unfolding undo_ok_def
    proof (intro allI impI)
      fix t' u q cs d assume u: "undoes (wpc ?g t') d" and s: "(u, q, cs) \<in> set (queue ?g)" and d: "d \<in> set cs"
      have old: "ver (qget q) < ver (lk (mem g) d)" if "undoes (wpc g t') d"
        using I(3) that s d by (auto simp: undo_ok_def)
      have "ver (qget q) < ver (lk (mem g) d)"
      proof (cases "undoes (wpc g t') d")
        case False
        with u w n c have "d = c" "status = NoParked" by (auto simp: cleared_by_us_snoc split: if_splits)
        then have "unpark_bit_set (lk (mem g) d)" using try_clear_Some [OF r] by auto
        moreover have "seen_to g (u, q, cs) d" by (rule watch_okD [OF I(2)]) (use s d in \<open>simp add: watched_def\<close>)
        ultimately show ?thesis by (auto simp: seen_to_def cell_ok_def)
      qed (rule old)
      then show "ver (qget q) < ver (lk (mem ?g) d)" using v by auto
    qed
  qed (use I(5) v p n q w in auto)
qed

lemma inv_clear_hard:
  assumes inv: "wk_inv csz vals g" and w: "wpc g t = Clearing p cells [] None"
    and v: "\<forall>c\<in>set cells. clear_unpark_bit_htm p (lk (mem g) c) \<noteq> None"
  shows "wk_inv csz vals (g\<lparr>mem := (mem g)\<lparr>lk := (\<lambda>c. if c \<in> set cells then the (clear_unpark_bit_htm p (lk (mem g) c)) else lk (mem g) c)\<rparr>,
      wpc := (wpc g)(t := Clearing p cells (replicate (length cells) HasParked) None)\<rparr>)" (is "wk_inv csz vals ?g")
proof -
  note I = wk_invD [OF inv]
  let ?l = "\<lambda>c. if c \<in> set cells then the (clear_unpark_bit_htm p (lk (mem g) c)) else lk (mem g) c"
  have p: "time_past (mem g) p" and q: "qlock g = Some t" using I(4) [of t] I(5) [of t] w by auto
  have l: "read_write_valid p (lk (mem g) c)" "?l c = lk (mem g) c \<or> ?l c = clear_unpark_bit (lk (mem g) c)"
      "\<not> unpark_bit_set (?l c)" if "c \<in> set cells" for c
    using v that by (auto simp: clear_unpark_bit_htm_def split: if_splits)
  then have l': "?l c = lk (mem g) c \<or> ?l c = clear_unpark_bit (lk (mem g) c)" for c by (cases "c \<in> set cells") auto
  then have flags: "ver (?l c) = ver (lk (mem g) c) \<and> lock_bit_set (?l c) = lock_bit_set (lk (mem g) c)" for c
    using l' [of c] by (elim disjE) (simp_all only: ver_clear_unpark lock_bit_clear_unpark simp_thms)
  show ?thesis
  proof (rule inv_flag_step [OF inv, where lk' = ?l and t = t and q = "qlock g" and qu = "queue g"
        and w = "Clearing p cells (replicate (length cells) HasParked) None"])
    show "seen_to ?g (u, q, cs) d" if "watched ?g u q cs d" for u q cs d
    proof (cases "watched g u q cs d")
      case True
      show ?thesis
        by (rule seen_to_clear [OF watch_okD [OF I(2) True], where lk' = ?l and t = t]) (use l' w in \<open>simp_all del: if_splits\<close>)
    next
      case False
      with that w have "q = p" and d: "d \<in> set cells" by (auto simp: watched_def split: if_splits)
      moreover have "seen_to ?g (u, p, cs) d"
        by (rule seen_to_valid [OF inv p l(1) [OF d], where lk' = ?l]) (simp, rule conjunct1 [OF flags], rule l(3) [OF d])
      ultimately show ?thesis by simp
    qed
    show "undo_ok ?g"
      by (rule undo_ok_keep [OF I(3)]) (use flags in \<open>auto split: if_splits\<close>)
  qed (use I(5) flags p q w in auto)
qed

lemma inv_go_to_sleep:
  assumes inv: "wk_inv csz vals g" and w: "wpc g t = Clearing p cells sts None" and n: "length sts = length cells"
  shows "wk_inv csz vals (g\<lparr>wpc := (wpc g)(t := Parked), qlock := None, queue := queue g @ [(t, p, cells)]\<rparr>)"
    (is "wk_inv csz vals ?g")
proof (rule inv_flag_step [OF inv, where lk' = "lk (mem g)" and t = t and q = None and w = Parked])
  note I = wk_invD [OF inv] and unique = critical_unique [OF inv, of t]
  show "seen_to ?g (u, q, cs) c" if "watched ?g u q cs c" for u q cs c
  proof -
    have "watched g u q cs c" using that w n by (auto simp: watched_def split: if_splits)
    then show ?thesis
      by (intro seen_to_clear [OF watch_okD [OF I(2)], where lk' = "lk (mem g)" and t = t]) (use w in auto)
  qed
  show "undo_ok ?g" using unique(3) w by (auto simp: undo_ok_def)
qed (use critical_unique [OF inv, of t] w in auto)

lemma inv_clean:
  assumes inv: "wk_inv csz vals g" and w: "wpc g t = Cleaning (c # cs)"
  shows "wk_inv csz vals (g\<lparr>mem := set_lk (mem g) c (set_unpark_bit (lk (mem g) c)), wpc := (wpc g)(t := Cleaning cs)\<rparr>)"
    (is "wk_inv csz vals ?g")
proof (rule inv_flag_step [OF inv, where lk' = "(lk (mem g))(c := set_unpark_bit (lk (mem g) c))" and t = t
      and q = "qlock g" and qu = "queue g" and w = "Cleaning cs"])
  note I = wk_invD [OF inv] and unique = critical_unique [OF inv, of t]
  show "seen_to ?g (u, q, ds) d" if "watched ?g u q ds d" for u q ds d
  proof (rule seen_to_flags [where lk' = "(lk (mem g))(c := set_unpark_bit (lk (mem g) c))"])
    have wd: "watched g u q ds d" using that w by (auto simp: watched_def split: if_splits)
    then show "seen_to g (u, q, ds) d" by (rule watch_okD [OF I(2)])
    have "ver (qget q) < ver (lk (mem g) c)" if "d = c"
      using wd that I(3) w unique(2) [of u q c] unfolding watched_def undo_ok_def
      by (cases "u = t") (auto dest: spec [of _ t])
    then show "unpark_bit_set (((lk (mem g))(c := set_unpark_bit (lk (mem g) c))) d) \<Longrightarrow>
        unpark_bit_set (lk (mem g) d) \<or> ver (qget (fst (snd (u, q, ds)))) < ver (lk (mem g) d)"
      by (auto split: if_splits)
    fix K assume "will_scan (wpc g K) (u, q, ds) d"
    with w have "will_scan (wpc ?g K) (u, q, ds) d" by auto
    then show "\<exists>K. will_scan (wpc ?g K) (u, q, ds) d" ..
  qed (auto simp: set_unpark_bit_def)
  have "\<exists>t'. undoes (wpc g t') d" if "undoes (wpc ?g u) d" for u d
    by (rule exI [of _ u]) (use that w in \<open>auto split: if_splits\<close>)
  then show "undo_ok ?g"
    by (rule undo_ok_keep [OF I(3)]) (auto simp: set_unpark_bit_def)
qed (use wk_invD(5) [OF inv] w in \<open>auto simp: set_unpark_bit_def\<close>)

lemma inv_scan_unpark:
  assumes inv: "wk_inv csz vals g" and w: "wpc g t = Scanning ((sl, cs) # todo)"
  shows "wk_inv csz vals (g\<lparr>wpc := (wpc g)(t := Scanning todo), queue := filter (\<lambda>sl'. sl' \<noteq> sl) (queue g)\<rparr>)"
    (is "wk_inv csz vals ?g")
proof (rule inv_flag_step [OF inv, where lk' = "lk (mem g)" and t = t and q = "qlock g" and w = "Scanning todo"])
  note I = wk_invD [OF inv] and unique = critical_unique [OF inv, of t]
  show "seen_to ?g (u, q, ds) d" if "watched ?g u q ds d" for u q ds d
  proof (rule seen_to_flags [where lk' = "lk (mem g)"])
    have "(u, q, ds) \<in> set (queue g)" "d \<in> set ds" and other: "(u, q, ds) \<noteq> sl"
      using that w unique(2) [of u q d] by (cases "u = t"; auto simp: watched_def)+
    then show "seen_to g (u, q, ds) d" by (intro watch_okD [OF I(2)]) (simp add: watched_def)
    fix K assume "will_scan (wpc g K) (u, q, ds) d"
    with w other have "will_scan (wpc ?g K) (u, q, ds) d" by auto
    then show "\<exists>K. will_scan (wpc ?g K) (u, q, ds) d" ..
  qed simp_all
  show "undo_ok ?g"
    by (rule undo_ok_keep [OF I(3)]) (use w in \<open>auto split: if_splits\<close>)
qed (use wk_invD(5) [OF inv] w in auto)

section \<open>The invariant is inductive\<close>

lemma wk_inv_init: "wk_init csz vals g \<Longrightarrow> wk_inv csz vals g"
  using stm_inv_init [of csz vals "mem g"]
  by (auto simp: wk_init_def wk_inv_def watch_ok_def watched_def undo_ok_def)

lemma wk_inv_step:
  assumes inv: "wk_inv csz vals g" and step: "wk_step csz g g'"
  shows "wk_inv csz vals g'"
  using step
proof cases
  case (tx_step t s' st)
  with inv show ?thesis by (simp add: inv_tx)
next
  case (clear_cas t p cells sts a c status w)
  with inv show ?thesis by (simp add: inv_clear_cas)
next
  case (clear_fail t p cells sts a c w)
  then have "set_lk (mem g) c w = mem g" by (auto dest: try_clear_None)
  with clear_fail inv show ?thesis by (simp add: inv_clear_fail)
next
  case (clear_hard t p cells)
  with inv show ?thesis by (simp only: inv_clear_hard)
qed (simp_all only: inv inv_await inv_park_lock inv_clear_load inv_clear_abort inv_go_to_sleep inv_clean inv_release
  inv_unpark_lock inv_scan_valid inv_scan_skip inv_scan_unpark inv_wake simp_thms)

interpretation wku: protocol "wk_init csz vals" "wk_step csz" "wk_inv csz vals" for csz vals
  by unfold_locales (rule wk_inv_init, assumption, rule wk_inv_step)

section \<open>Properties\<close>

text \<open>
  Property C5: no wake-up is lost. Take any cell of any sleeper, in any interleaving. Either no commit has published it since the sleeper's
  pin; then its unpark bit is cleared, and a commit that holds its lock has noted that somebody sleeps. Or one
  has, and then some thread, which has noted it too, is still publishing, is about to call \<open>unpark\<close>, or is in \<open>unpark\<close> and has
  not yet come to that cell of that sleeper, which it will find invalid.
\<close>

theorem no_wakeup_is_lost:
  assumes "reach (wk_init csz vals) (wk_step csz) g" and "(u, p, cells) \<in> set (queue g)" and "c \<in> set cells"
  shows "ver (lk (mem g) c) \<le> ver (qget p) \<and> \<not> unpark_bit_set (lk (mem g) c) \<and>
      (\<forall>K. c \<in> held (th (mem g) K) \<longrightarrow> pstat g K = HasParked) \<or>
    \<not> read_write_valid_lockable p (lk (mem g) c) \<and>
      (\<exists>K. pstat g K = HasParked \<and> publishing (xpc g K) \<or> wpc g K = Owing \<or>
        (\<exists>todo left. wpc g K = Scanning todo \<and> ((u, p, cells), left) \<in> set todo \<and> c \<in> set left))"
proof -
  have "watch_ok g" by (rule wk_invD(2) [OF wku.inv_reach [OF assms(1)]])
  moreover have "watched g u p cells c" using assms(2,3) by (simp add: watched_def)
  ultimately have s: "seen_to g (u, p, cells) c" by (rule watch_okD)
  then have "time_ok p" by (simp add: seen_to_def time_past_def)
  moreover have "wpc g K = Owing \<or> (\<exists>todo left. wpc g K = Scanning todo \<and> (sl, left) \<in> set todo \<and> d \<in> set left)"
    if "will_scan (wpc g K) sl d" for K sl d
    using that by (cases "wpc g K") auto
  ultimately show ?thesis
    using s by (fastforce simp: seen_to_def cell_ok_def owes_def valid_lockable_iff)
qed

text \<open>Thread 0 has read cell 0 and sleeps; thread 1 has overwritten the cell and has not yet called \<open>unpark\<close>.\<close>

definition nap_mem :: "epoch_clock \<Rightarrow> epoch_lock \<Rightarrow> (cell \<Rightarrow> nat \<Rightarrow> usize) \<Rightarrow> entry list \<Rightarrow> thr \<Rightarrow> thr \<Rightarrow> stm" where
  "nap_mem k l d h x y = \<lparr>clk = k, lk = (\<lambda>_. FIRST)(0 := l), dat = d, th = (\<lambda>_. idle_thr)(0 := x, 1 := y), hist = h\<rparr>"

definition nap_thr :: "pc \<Rightarrow> (cell \<times> usize list) list \<Rightarrow> (cell \<times> usize list) list \<Rightarrow> thr" where
  "nap_thr q r w = \<lparr>pc = q, pin = QuiesceEpoch FIRST, rlog = r, wlog = w, seen = r, vis = {}, ppos = 0, ent = 0\<rparr>"

definition nap :: "stm \<Rightarrow> park_status \<Rightarrow> wpc \<Rightarrow> tid option \<Rightarrow> sleeper list \<Rightarrow> wk" where
  "nap m st w q qu = \<lparr>mem = m, pstat = (\<lambda>_. NoParked)(1 := st), wpc = (\<lambda>_. Awake)(0 := w), qlock = q, queue = qu\<rparr>"

lemmas nap_simps = nap_mem_def nap_thr_def nap_def

lemma nap_words:
  "read_write_valid (QuiesceEpoch FIRST) FIRST" "read_write_valid (QuiesceEpoch FIRST) (clear_unpark_bit FIRST)"
  "try_clear_unpark_bit (QuiesceEpoch FIRST) FIRST FIRST = (Some NoParked, clear_unpark_bit FIRST)"
  "park_status_of (clear_unpark_bit FIRST) = HasParked"
  "fetch_and_tick FIRST = (QuiesceEpoch FIRST, FIRST + TICK_SIZE)" "\<not> lock_bit_set (FIRST + TICK_SIZE)"
  "ver FIRST = 1" "ver (FIRST + TICK_SIZE) = 2"
  by (simp_all add: read_write_valid_def read_write_valid_raw_def try_clear_unpark_bit_def compare_exchange_def FIRST_flags
      park_status_of_def fetch_and_tick_def new_unchecked_def)
    (simp_all add: FIRST_def TICK_SIZE_def UNPARK_BIT_def LOCK_BIT_def clear_unpark_bit_def lock_bit_set_def ver_eq)

lemma nap_tx0:
  assumes "reach i (wk_step csz) (nap m st Awake q qu)" and "stm_step csz m m'" and "th m' 0 \<noteq> th m 0"
    and "\<not> publishing (pc (th m 0))" and "\<And>i a. pc (th m 0) \<noteq> Locking i (Some a)" and "pc (th m' 0) \<noteq> Ticking"
  shows "reach i (wk_step csz) (nap m' st Awake q qu)"
proof -
  have n: "noted m (th m 0) (pc (th m' 0)) NoParked = NoParked"
    using assms(4-6) by (auto simp: noted_def split: pc.splits option.splits)
  have "\<not> published (pc (th m 0)) (pc (th m' 0))"
    using assms(4) by (cases "pc (th m 0)"; cases "pc (th m' 0)") auto
  note n = n this
  have "wk_step csz (nap m st Awake q qu) (nap m' st Awake q qu)"
    using wk_step.tx_step [of "nap m st Awake q qu" 0 csz m' NoParked] assms(2,3) n by (simp add: nap_def fun_upd_idem)
  with assms(1) show ?thesis by (rule reach.extend)
qed

lemma nap_tx1:
  assumes "reach i (wk_step csz) (nap m st w q qu)" and "stm_step csz m m'" and "th m' 1 \<noteq> th m 1"
    and "st' = noted m (th m 1) (pc (th m' 1)) st" and "pc (th m' 1) \<noteq> Idle"
  shows "reach i (wk_step csz) (nap m' st' w q qu)"
proof -
  have n: "\<not> published (pc (th m 1)) (pc (th m' 1))"
    using assms(5) by (cases "pc (th m 1)"; cases "pc (th m' 1)") auto
  have "wk_step csz (nap m st w q qu) (nap m' st' w q qu)"
    using wk_step.tx_step [of "nap m st w q qu" 1 csz m' st'] assms(2-4) n by (simp add: nap_def fun_upd_idem)
  with assms(1) show ?thesis by (rule reach.extend)
qed

lemma no_wakeup_is_lost_witness:
  "\<exists>g K. reach (wk_init (\<lambda>_. 1) (\<lambda>_. [0])) (wk_step (\<lambda>_. 1)) g \<and> queue g = [(0, QuiesceEpoch FIRST, [0])] \<and>
     lk (mem g) 0 = FIRST + TICK_SIZE \<and> pstat g K = HasParked \<and> publishing (xpc g K)"
proof -
  let ?R = "reach (wk_init (\<lambda>_. 1) (\<lambda>_. [0])) (wk_step (\<lambda>_. 1))"
  let ?p = "QuiesceEpoch FIRST" let ?d = "\<lambda>(c :: cell) k. [0] ! k :: usize"
  let ?m = "\<lambda>q r. nap_mem FIRST FIRST ?d [] (nap_thr q r []) idle_thr"
  let ?c = "clear_unpark_bit FIRST" let ?r = "[(0, [0])] :: (cell \<times> usize list) list"
  have "?R (nap (nap_mem FIRST FIRST ?d [] idle_thr idle_thr) NoParked Awake None [])"
    by (rule reach.start) (simp add: wk_init_def stm_init_def nap_simps epoch_clock_new_def epoch_lock_first_def fun_upd_idem)
  then have "?R (nap (?m Running []) NoParked Awake None [])"
    by (rule nap_tx0) (use stm_step.begin_tx [of idle_thr "nap_mem FIRST FIRST ?d [] idle_thr idle_thr" 0 ?p "\<lambda>_. 1"] in
      \<open>simp_all add: nap_simps idle_thr_def clock_now_Some ticked_def fun_upd_twist\<close>)
  then have "?R (nap (?m (Reading 0 [] True) []) NoParked Awake None [])"
    by (rule nap_tx0) (use stm_step.read_start [of "nap_thr Running [] []" "?m Running []" 0 0 "\<lambda>_. 1" True] in
      \<open>simp_all add: nap_simps fun_upd_twist\<close>)
  then have "?R (nap (?m (Reading 0 [0] True) []) NoParked Awake None [])"
    by (rule nap_tx0) (use stm_step.read_word [of "nap_thr (Reading 0 [] True) [] []" "?m (Reading 0 [] True) []" 0 0 "[]" True "\<lambda>_. 1"] in
      \<open>simp_all add: nap_simps fun_upd_twist\<close>)
  then have "?R (nap (?m Running ?r) NoParked Awake None [])"
    by (rule nap_tx0) (use stm_step.read_ok [of "nap_thr (Reading 0 [0] True) [] []" "?m (Reading 0 [0] True) []" 0 0 "[0]" True "\<lambda>_. 1"] in
      \<open>simp_all add: nap_simps fun_upd_twist valid_def read_write_valid_lockable_def nap_words\<close>)
  then have "?R (nap (?m Idle ?r) NoParked (Waiting ?p [0]) None [])"
    by (rule reach.extend) (use wk_step.await_retry [of "nap (?m Running ?r) NoParked Awake None []" 0 "nap_thr Running ?r []" "\<lambda>_. 1"] in
      \<open>simp add: nap_simps thr_cells_def fun_upd_twist\<close>)
  then have "?R (nap (?m Idle ?r) NoParked (Clearing ?p [0] [] None) (Some 0) [])"
    by (rule reach.extend) (use wk_step.park_lock [of "nap (?m Idle ?r) NoParked (Waiting ?p [0]) None []" 0 ?p "[0]" "\<lambda>_. 1"] in
      \<open>simp add: nap_simps\<close>)
  then have "?R (nap (?m Idle ?r) NoParked (Clearing ?p [0] [] (Some FIRST)) (Some 0) [])"
    by (rule reach.extend) (use wk_step.clear_load [of "nap (?m Idle ?r) NoParked (Clearing ?p [0] [] None) (Some 0) []" 0 ?p "[0]" "[]" "\<lambda>_. 1"] in
      \<open>simp add: nap_simps\<close>)
  then have "?R (nap (nap_mem FIRST ?c ?d [] (nap_thr Idle ?r []) idle_thr) NoParked (Clearing ?p [0] [NoParked] None) (Some 0) [])"
    by (rule reach.extend) (use wk_step.clear_cas [of "nap (?m Idle ?r) NoParked (Clearing ?p [0] [] (Some FIRST)) (Some 0) []" 0 ?p "[0]" "[]" FIRST 0 NoParked ?c "\<lambda>_. 1"] in
      \<open>simp add: nap_simps nap_words\<close>)
  then have "?R (nap (nap_mem FIRST ?c ?d [] (nap_thr Idle ?r []) idle_thr) NoParked Parked None [(0, ?p, [0])])"
    by (rule reach.extend) (use wk_step.go_to_sleep [of "nap (nap_mem FIRST ?c ?d [] (nap_thr Idle ?r []) idle_thr) NoParked (Clearing ?p [0] [NoParked] None) (Some 0) []" 0 ?p "[0]" "[NoParked]" "\<lambda>_. 1"] in
      \<open>simp add: nap_simps\<close>)
  let ?n = "\<lambda>k l d h y st. nap (nap_mem k l d h (nap_thr Idle ?r []) y) st Parked None [(0, ?p, [0])]"
  let ?w = "[(0, [1])] :: (cell \<times> usize list) list" let ?c' = "toggle_lock_bit ?c" let ?k = "FIRST + TICK_SIZE"
  let ?d' = "\<lambda>c k. case map_of ?w c of Some v \<Rightarrow> if k < length v then v ! k else ?d c k | None \<Rightarrow> ?d c k"
  let ?h = "\<lambda>st. [\<lparr>etid = 1, erd = [], ewr = [(0, [1])], est = st\<rparr>]"
  have "?R (?n FIRST ?c ?d [] (nap_thr Running [] []) NoParked)"
    by (rule nap_tx1 [OF \<open>?R (nap _ NoParked Parked None _)\<close>])
      (use stm_step.begin_tx [of idle_thr "nap_mem FIRST ?c ?d [] (nap_thr Idle ?r []) idle_thr" 1 ?p "\<lambda>_. 1"] in
        \<open>simp_all add: nap_simps idle_thr_def clock_now_Some ticked_def noted_def\<close>)
  then have "?R (?n FIRST ?c ?d [] (nap_thr Running [] ?w) NoParked)"
    by (rule nap_tx1) (use stm_step.set_first [of "nap_thr Running [] []" "nap_mem FIRST ?c ?d [] (nap_thr Idle ?r []) (nap_thr Running [] [])" 1 0 "[1]" "\<lambda>_. 1"] in
      \<open>simp_all add: nap_simps valid_def read_write_valid_lockable_def nap_words noted_def\<close>)
  then have "?R (?n FIRST ?c' ?d' (?h Effective) (nap_thr Ticking [] ?w) HasParked)"
  proof (rule nap_tx1)
    have "(\<lambda>_. FIRST)(0 := ?c') = (\<lambda>c. if c \<in> wcells (nap_thr Running [] ?w) then toggle_lock_bit (((\<lambda>_. FIRST)(0 := ?c)) c) else ((\<lambda>_. FIRST)(0 := ?c)) c)"
      by (auto simp: nap_thr_def)
    then show "stm_step (\<lambda>_. 1) (nap_mem FIRST ?c ?d [] (nap_thr Idle ?r []) (nap_thr Running [] ?w))
        (nap_mem FIRST ?c' ?d' (?h Effective) (nap_thr Idle ?r []) (nap_thr Ticking [] ?w))"
      using stm_step.commit_hard [of "nap_thr Running [] ?w" "nap_mem FIRST ?c ?d [] (nap_thr Idle ?r []) (nap_thr Running [] ?w)" 1 "\<lambda>_. 1"]
      by (simp add: nap_simps valid_def read_write_valid_lockable_def nap_words cong: if_cong option.case_cong)
  qed (simp_all add: nap_simps noted_def nap_words)
  then have "?R (?n ?k ?c' ?d' (?h Ticked) (nap_thr (Publishing 0 ?p) [] ?w) HasParked)"
    by (rule nap_tx1) (use stm_step.tick [of "nap_thr Ticking [] ?w" "nap_mem FIRST ?c' ?d' (?h Effective) (nap_thr Idle ?r []) (nap_thr Ticking [] ?w)" 1 ?p ?k "\<lambda>_. 1"] in
      \<open>simp_all add: nap_simps nap_words set_status_def noted_def\<close>)
  then have r: "?R (?n ?k ?k ?d' (?h Ticked) (nap_thr (Publishing 1 ?p) [] ?w) HasParked)"
    by (rule nap_tx1) (use stm_step.publish [of "nap_thr (Publishing 0 ?p) [] ?w" "nap_mem ?k ?c' ?d' (?h Ticked) (nap_thr Idle ?r []) (nap_thr (Publishing 0 ?p) [] ?w)" 1 0 ?p "\<lambda>_. 1"] in
      \<open>simp_all add: nap_simps unlock_publish_def quiesce_next_def new_unchecked_def noted_def\<close>)
  let ?g = "?n ?k ?k ?d' (?h Ticked) (nap_thr (Publishing 1 ?p) [] ?w) HasParked"
  have "wpc ?g K \<noteq> Owing \<and> wpc ?g K \<noteq> Scanning todo" for K todo
    by (simp add: nap_def)
  with no_wakeup_is_lost [OF r, of 0 ?p "[0]" 0] obtain K where "pstat ?g K = HasParked" "publishing (xpc ?g K)"
    by (auto simp: nap_def nap_mem_def nap_words)
  with r show ?thesis
    by (intro exI [of _ ?g] exI [of _ K]) (simp add: nap_def nap_mem_def)
qed

end
