(* ===== verification/Global_List.thy ===== *)
theory Global_List
  imports Synch
begin

text \<open>
  \<open>src/internal/gc/quiesce/global.rs\<close> and the locks of \<open>gc/quiesce/synch.rs\<close>: the list of threads is guarded by one
  reader-writer lock per thread. To walk the list a thread takes its own lock for reading; to change it,
  a thread takes the mutex of the list and then the locks of all threads in it, one by one. The steps of any number of threads
  are interleaved. A thread registers when it is created and unregisters when it ends.

  The locks are those of \<open>parking_lot\<close>, with what its documentation says of them. What \<open>unlock_exclusive\<close> does to a lock that
  is not held exclusively is not documented: it is the parameter \<open>ux\<close>, about which nothing is assumed.
\<close>

section \<open>State\<close>

datatype rw_lock = Free | Shared nat | Exclusive

fun lock_shared :: "rw_lock \<Rightarrow> rw_lock option" where
  "lock_shared Free = Some (Shared 1)"
| "lock_shared (Shared n) = Some (Shared (Suc n))"
| "lock_shared Exclusive = None"

fun unlock_shared :: "rw_lock \<Rightarrow> rw_lock" where
  "unlock_shared (Shared n) = (if n = 1 then Free else Shared (n - 1))"
| "unlock_shared l = l"

fun lock_exclusive :: "rw_lock \<Rightarrow> rw_lock option" where
  "lock_exclusive Free = Some Exclusive"
| "lock_exclusive _ = None"

definition unlock_exclusive :: "(rw_lock \<Rightarrow> rw_lock) \<Rightarrow> rw_lock \<Rightarrow> rw_lock" where
  "unlock_exclusive ux l = (if l = Exclusive then Free else ux l)"

text \<open>\<open>Synch::new\<close>, \<open>Synch::lock\<close> and \<open>unlock\<close>, and the lock in \<open>FreezeList::new\<close> and its \<open>drop\<close>.\<close>

definition synch_new :: "rw_lock option" where
  "synch_new = lock_shared Free"

definition synch_lock :: "rw_lock \<Rightarrow> rw_lock option" where
  "synch_lock l = lock_exclusive l"

definition synch_unlock :: "(rw_lock \<Rightarrow> rw_lock) \<Rightarrow> rw_lock \<Rightarrow> rw_lock" where
  "synch_unlock ux l = unlock_exclusive ux l"

definition freeze_lock :: "rw_lock \<Rightarrow> rw_lock option" where
  "freeze_lock l = lock_shared l"

definition freeze_unlock :: "rw_lock \<Rightarrow> rw_lock" where
  "freeze_unlock l = unlock_shared l"

lemma synch_locks [simp]:
  "synch_new = Some (Shared 1)" "synch_lock l = lock_exclusive l" "synch_unlock ux l = unlock_exclusive ux l"
  "freeze_lock l = lock_shared l" "freeze_unlock l = unlock_shared l"
  by (simp_all add: synch_new_def synch_lock_def synch_unlock_def freeze_lock_def freeze_unlock_def)

datatype change = Register | Unregister

text \<open>
  A thread outside the list; waiting for the mutex; in \<open>Write::new\<close>, with the locks still to take; holding the write
  guard; in the guard's \<open>drop\<close>, with the locks still to release; walking the list in a \<open>FreezeList\<close>, with
  the threads still to visit.
\<close>

datatype gl_pc =
    Outside
  | Wanting change
  | Locking change "nat list"
  | Changing change
  | Unlocking "nat list"
  | Walking "nat list"

record global_list =
  gl_list :: synch_list
  gl_mutex :: "nat option"
  gl_locks :: "nat \<Rightarrow> rw_lock"
  gl_pcs :: "nat \<Rightarrow> gl_pc"
  created :: "nat set"

section \<open>Steps\<close>

fun apply_change :: "change \<Rightarrow> synch_list \<Rightarrow> nat \<Rightarrow> synch_list" where
  "apply_change Register l t = register l t"
| "apply_change Unregister l t = fst (unregister l t)"

inductive gl_step :: "(rw_lock \<Rightarrow> rw_lock) \<Rightarrow> global_list \<Rightarrow> global_list \<Rightarrow> bool" for ux where
  new_synch: "\<lbrakk>t \<notin> created g; synch_new = Some l\<rbrakk> \<Longrightarrow>
    gl_step ux g (g\<lparr>gl_locks := (gl_locks g)(t := l), gl_pcs := (gl_pcs g)(t := Wanting Register), created := insert t (created g)\<rparr>)"
| leave: "\<lbrakk>gl_pcs g t = Outside; t \<in> set (synch_iter (gl_list g))\<rbrakk> \<Longrightarrow>
    gl_step ux g (g\<lparr>gl_pcs := (gl_pcs g)(t := Wanting Unregister)\<rparr>)"
| mutex_lock: "\<lbrakk>gl_pcs g t = Wanting ch; gl_mutex g = None\<rbrakk> \<Longrightarrow>
    gl_step ux g (g\<lparr>gl_mutex := Some t, gl_pcs := (gl_pcs g)(t := Locking ch (synch_iter (gl_list g)))\<rparr>)"
| lock_synch: "\<lbrakk>gl_pcs g t = Locking ch (u # us); synch_lock (gl_locks g u) = Some l\<rbrakk> \<Longrightarrow>
    gl_step ux g (g\<lparr>gl_locks := (gl_locks g)(u := l), gl_pcs := (gl_pcs g)(t := Locking ch us)\<rparr>)"
| all_locked: "gl_pcs g t = Locking ch [] \<Longrightarrow>
    gl_step ux g (g\<lparr>gl_pcs := (gl_pcs g)(t := Changing ch)\<rparr>)"
| change_list: "\<lbrakk>gl_pcs g t = Changing ch; l = apply_change ch (gl_list g) t\<rbrakk> \<Longrightarrow>
    gl_step ux g (g\<lparr>gl_list := l, gl_pcs := (gl_pcs g)(t := Unlocking (synch_iter l))\<rparr>)"
| unlock_synch: "gl_pcs g t = Unlocking (u # us) \<Longrightarrow>
    gl_step ux g (g\<lparr>gl_locks := (gl_locks g)(u := synch_unlock ux (gl_locks g u)), gl_pcs := (gl_pcs g)(t := Unlocking us)\<rparr>)"
| mutex_unlock: "gl_pcs g t = Unlocking [] \<Longrightarrow>
    gl_step ux g (g\<lparr>gl_mutex := None, gl_pcs := (gl_pcs g)(t := Outside)\<rparr>)"
| freeze: "\<lbrakk>gl_pcs g t = Outside; t \<in> set (synch_iter (gl_list g)); freeze_lock (gl_locks g t) = Some l\<rbrakk> \<Longrightarrow>
    gl_step ux g (g\<lparr>gl_locks := (gl_locks g)(t := l), gl_pcs := (gl_pcs g)(t := Walking (synch_iter (gl_list g)))\<rparr>)"
| visit: "gl_pcs g t = Walking (u # us) \<Longrightarrow>
    gl_step ux g (g\<lparr>gl_pcs := (gl_pcs g)(t := Walking us)\<rparr>)"
| unfreeze: "gl_pcs g t = Walking [] \<Longrightarrow>
    gl_step ux g (g\<lparr>gl_locks := (gl_locks g)(t := freeze_unlock (gl_locks g t)), gl_pcs := (gl_pcs g)(t := Outside)\<rparr>)"

definition gl_start :: global_list where
  "gl_start = \<lparr>gl_list = synch_list_new, gl_mutex = None, gl_locks = (\<lambda>_. Free), gl_pcs = (\<lambda>_. Outside), created = {}\<rparr>"

section \<open>The invariant\<close>

fun holds_mutex :: "gl_pc \<Rightarrow> bool" where
  "holds_mutex (Locking ch us) = True"
| "holds_mutex (Changing ch) = True"
| "holds_mutex (Unlocking us) = True"
| "holds_mutex _ = False"

text \<open>A thread that has been created and not registered: its lock has been taken for reading.\<close>

fun registering :: "gl_pc \<Rightarrow> bool" where
  "registering (Wanting ch) \<longleftrightarrow> ch = Register"
| "registering (Locking ch us) \<longleftrightarrow> ch = Register"
| "registering (Changing ch) \<longleftrightarrow> ch = Register"
| "registering _ = False"

text \<open>The locks that a writer holds, and those of them that are not taken for writing.\<close>

fun gl_pc_ok :: "global_list \<Rightarrow> nat \<Rightarrow> gl_pc \<Rightarrow> bool" where
  "gl_pc_ok g t (Locking ch us) \<longleftrightarrow> set us \<subseteq> set (synch_iter (gl_list g)) \<and> (\<forall>u\<in>set (synch_iter (gl_list g)). u \<in> set us \<or> gl_locks g u = Exclusive)"
| "gl_pc_ok g t (Changing ch) \<longleftrightarrow> (\<forall>u\<in>set (synch_iter (gl_list g)). gl_locks g u = Exclusive)"
| "gl_pc_ok g t (Unlocking us) \<longleftrightarrow> distinct us \<and> set us \<subseteq> set (synch_iter (gl_list g)) \<and>
     (\<forall>u\<in>set us. gl_locks g u = (if u = t then Shared 1 else Exclusive))"
| "gl_pc_ok g t (Walking us) \<longleftrightarrow> t \<in> set (synch_iter (gl_list g)) \<and> set us \<subseteq> set (synch_iter (gl_list g)) \<and>
     (\<exists>n. gl_locks g t = Shared n)"
| "gl_pc_ok g t _ \<longleftrightarrow> True"

definition gl_inv :: "global_list \<Rightarrow> bool" where
  "gl_inv g \<longleftrightarrow> distinct (synch_iter (gl_list g)) \<and> set (synch_iter (gl_list g)) \<subseteq> created g \<and>
     (\<forall>t. (holds_mutex (gl_pcs g t) \<longrightarrow> gl_mutex g = Some t) \<and> gl_pc_ok g t (gl_pcs g t) \<and>
       (t \<notin> created g \<longrightarrow> gl_pcs g t = Outside \<and> gl_locks g t = Free) \<and>
       (registering (gl_pcs g t) \<longrightarrow> t \<notin> set (synch_iter (gl_list g)) \<and> gl_locks g t = Shared 1))"

lemma gl_invD:
  assumes "gl_inv g"
  shows "distinct (synch_iter (gl_list g))" "set (synch_iter (gl_list g)) \<subseteq> created g"
    "holds_mutex (gl_pcs g t) \<Longrightarrow> gl_mutex g = Some t" "gl_pc_ok g t (gl_pcs g t)"
    "t \<notin> created g \<Longrightarrow> gl_pcs g t = Outside \<and> gl_locks g t = Free"
    "registering (gl_pcs g t) \<Longrightarrow> t \<notin> set (synch_iter (gl_list g)) \<and> gl_locks g t = Shared 1"
  using assms by (simp_all add: gl_inv_def)

section \<open>The invariant is inductive\<close>

text \<open>What a step does to the others: a lock that is held stays held, or its holder is not one of them.\<close>

lemma gl_pc_ok_more:
  assumes "gl_pc_ok g u p" and "gl_list g' = gl_list g"
    and "\<And>d. gl_locks g d = Exclusive \<Longrightarrow> gl_locks g' d = Exclusive \<or> \<not> holds_mutex p"
    and "\<And>n. gl_locks g u = Shared n \<Longrightarrow> gl_locks g' u = Shared n"
  shows "gl_pc_ok g' u p"
  using assms by (cases p) auto

lemma gl_pc_ok_fields [simp]:
  "gl_pc_ok (g\<lparr>gl_pcs := x\<rparr>) t p = gl_pc_ok g t p" "gl_pc_ok (g\<lparr>gl_mutex := m\<rparr>) t p = gl_pc_ok g t p"
  "gl_pc_ok (g\<lparr>created := c\<rparr>) t p = gl_pc_ok g t p"
  by (cases p; simp)+

lemma gl_inv_upd:
  assumes inv: "gl_inv g" and g': "gl_list g' = gl_list g" "gl_pcs g' = (gl_pcs g)(t := p)" "created g' = created g"
    and t: "t \<in> created g" "gl_pc_ok g' t p" "holds_mutex p \<Longrightarrow> gl_mutex g' = Some t"
      "registering p \<Longrightarrow> t \<notin> set (synch_iter (gl_list g)) \<and> gl_locks g' t = Shared 1"
    and mutex: "\<And>u. u \<noteq> t \<Longrightarrow> holds_mutex (gl_pcs g u) \<Longrightarrow> gl_mutex g' = Some u"
    and excl: "\<And>u d. u \<noteq> t \<Longrightarrow> gl_locks g d = Exclusive \<Longrightarrow> gl_locks g' d = Exclusive \<or> \<not> holds_mutex (gl_pcs g u)"
    and shared: "\<And>u n. u \<noteq> t \<Longrightarrow> gl_locks g u = Shared n \<Longrightarrow> gl_locks g' u = Shared n"
    and free: "\<And>u. u \<notin> created g \<Longrightarrow> gl_locks g' u = gl_locks g u"
  shows "gl_inv g'"
  unfolding gl_inv_def
proof (intro conjI allI impI)
  note I = gl_invD [OF inv]
  show "distinct (synch_iter (gl_list g'))" "set (synch_iter (gl_list g')) \<subseteq> created g'" using I(1,2) by (simp_all add: g')
  fix u
  show "gl_mutex g' = Some u" if "holds_mutex (gl_pcs g' u)"
    using that t(3) mutex [of u] by (cases "u = t") (simp_all add: g')
  show "gl_pc_ok g' u (gl_pcs g' u)"
  proof (cases "u = t")
    case False
    then show ?thesis
      using gl_pc_ok_more [OF I(4) [of u] g'(1)] excl [OF False] shared [OF False] by (simp add: g')
  qed (simp add: g' t)
  show "gl_pcs g' u = Outside" "gl_locks g' u = Free" if "u \<notin> created g'"
    using that I(5) [of u] free [of u] t(1) by (auto simp: g')
  show "u \<notin> set (synch_iter (gl_list g'))" "gl_locks g' u = Shared 1" if "registering (gl_pcs g' u)"
    using that t(4) I(6) [of u] shared [of u 1] by (cases "u = t"; simp add: g')+
qed

lemma gl_inv_new:
  assumes inv: "gl_inv g" and t: "t \<notin> created g"
  shows "gl_inv (g\<lparr>gl_locks := (gl_locks g)(t := Shared 1), gl_pcs := (gl_pcs g)(t := Wanting Register), created := insert t (created g)\<rparr>)"
    (is "gl_inv ?g")
proof -
  note I = gl_invD [OF inv]
  have "gl_pc_ok (g\<lparr>gl_locks := (gl_locks g)(t := Shared 1)\<rparr>) u (gl_pcs g u)" for u
    by (rule gl_pc_ok_more [OF I(4)]) (use I(5) [OF t] in auto)
  then have "gl_pc_ok ?g u (gl_pcs ?g u)" for u by simp
  then show ?thesis
    using I t unfolding gl_inv_def by auto
qed

lemma gl_inv_change:
  assumes inv: "gl_inv g" and t: "gl_pcs g t = Changing ch"
  shows "gl_inv (g\<lparr>gl_list := apply_change ch (gl_list g) t, gl_pcs := (gl_pcs g)(t := Unlocking (synch_iter (apply_change ch (gl_list g) t)))\<rparr>)"
    (is "gl_inv (?g (apply_change ch (gl_list g) t))")
proof -
  note I = gl_invD [OF inv]
  let ?l = "apply_change ch (gl_list g) t"
  have c: "t \<in> created g" and m: "gl_mutex g = Some t" and x: "\<forall>u\<in>set (synch_iter (gl_list g)). gl_locks g u = Exclusive"
    using I(3) [of t] I(4) [of t] I(5) [of t] t by auto
  have l: "distinct (synch_iter ?l)" "set (synch_iter ?l) \<subseteq> insert t (set (synch_iter (gl_list g)))"
      "ch = Register \<Longrightarrow> gl_locks g t = Shared 1" "ch = Unregister \<Longrightarrow> t \<notin> set (synch_iter ?l)"
    using I(1) I(6) [of t] t set_unregister [OF I(1), of t] by (cases ch; auto)+
  have "gl_pc_ok (?g ?l) u (gl_pcs (?g ?l) u)" for u
  proof (cases "u = t")
    case True
    then show ?thesis using l x by (cases ch) auto
  next
    case False
    then show ?thesis using I(3) [of u] I(4) [of u] m x by (cases "gl_pcs g u") auto
  qed
  moreover have "u \<notin> set (synch_iter ?l)" if "u \<noteq> t" "registering (gl_pcs g u)" for u
    using that l(2) I(6) [of u] by auto
  ultimately show ?thesis
    using I(2,3,5,6) l(1,2) c m unfolding gl_inv_def by (simp add: subset_iff) blast
qed

lemma gl_inv_step:
  assumes inv: "gl_inv g" and step: "gl_step ux g g'"
  shows "gl_inv g'"
proof -
  note I = gl_invD [OF inv]
  have made: "t \<in> created g" if "gl_pcs g t \<noteq> Outside \<or> t \<in> set (synch_iter (gl_list g))" for t
    using that I(2) I(5) [of t] by auto
  have alone: "\<not> holds_mutex (gl_pcs g u)" if "holds_mutex (gl_pcs g t)" "u \<noteq> t" for t u
    using that I(3) [of t] I(3) [of u] by auto
  show ?thesis
    using step
  proof cases
    case (new_synch t l)
    with gl_inv_new [OF inv] show ?thesis by simp
  next
    case (change_list t ch l)
    with gl_inv_change [OF inv] show ?thesis by simp
  next
    case (leave t)
    show ?thesis unfolding leave(1)
      by (rule gl_inv_upd [OF inv, where t = t and p = "Wanting Unregister"]) (use leave I(3) made [of t] in auto)
  next
    case (mutex_lock t ch)
    have "\<not> holds_mutex (gl_pcs g u)" for u using mutex_lock(3) I(3) [of u] by auto
    then show ?thesis unfolding mutex_lock(1)
      by (intro gl_inv_upd [OF inv, where t = t and p = "Locking ch (synch_iter (gl_list g))"])
        (use mutex_lock I(6) [of t] made [of t] in auto)
  next
    case (lock_synch t ch u us l)
    have l: "gl_locks g u = Free" "l = Exclusive" using lock_synch(3) by (cases "gl_locks g u"; simp)+
    show ?thesis unfolding lock_synch(1)
      by (rule gl_inv_upd [OF inv, where t = t and p = "Locking ch us"])
        (use lock_synch(2) l I(2,3) I(4) [of t] I(6) [of t] alone [of t] made [of t] in auto)
  next
    case (all_locked t ch)
    show ?thesis unfolding all_locked(1)
      by (rule gl_inv_upd [OF inv, where t = t and p = "Changing ch"])
        (use all_locked(2) I(3) I(4) [of t] I(6) [of t] made [of t] in auto)
  next
    case (unlock_synch t u us)
    have l: "gl_locks g u = (if u = t then Shared 1 else Exclusive)" "u \<in> created g"
      using unlock_synch(2) I(2) I(4) [of t] by auto
    show ?thesis unfolding unlock_synch(1)
      by (rule gl_inv_upd [OF inv, where t = t and p = "Unlocking us"])
        (use unlock_synch(2) l I(3) I(4) [of t] alone [of t] made [of t] in \<open>auto split: if_splits\<close>)
  next
    case (mutex_unlock t)
    show ?thesis unfolding mutex_unlock(1)
      by (rule gl_inv_upd [OF inv, where t = t and p = Outside])
        (use mutex_unlock(2) alone [of t] made [of t] in auto)
  next
    case (freeze t l)
    have l: "gl_locks g t \<noteq> Exclusive" "\<exists>n. l = Shared n" using freeze(4) by (cases "gl_locks g t"; auto)+
    show ?thesis unfolding freeze(1)
      by (rule gl_inv_upd [OF inv, where t = t and p = "Walking (synch_iter (gl_list g))"])
        (use freeze(2,3) l I(3) made [of t] in auto)
  next
    case (visit t u us)
    show ?thesis unfolding visit(1)
      by (rule gl_inv_upd [OF inv, where t = t and p = "Walking us"])
        (use visit(2) I(3) I(4) [of t] made [of t] in auto)
  next
    case (unfreeze t)
    show ?thesis unfolding unfreeze(1)
      by (rule gl_inv_upd [OF inv, where t = t and p = Outside])
        (use unfreeze(2) I(3) I(4) [of t] made [of t] in auto)
  qed
qed

lemma gl_inv_start: "gl_inv gl_start"
  by (simp add: gl_inv_def gl_start_def)

interpretation gls: protocol "\<lambda>g. g = gl_start" "gl_step ux" gl_inv for ux
  by unfold_locales (simp add: gl_inv_start, rule gl_inv_step)

section \<open>Properties\<close>

text \<open>
  Property C6: the list of threads never changes while somebody walks it, whatever the threads do and in whatever order.
  A thread that holds the write guard is the only one, and holds the lock of every thread in the
  list; a thread that walks the list is registered, finds only threads that are, and meets nobody who holds the write guard.
\<close>

theorem list_never_changes_under_a_walk:
  assumes "reach (\<lambda>g. g = gl_start) (gl_step ux) g"
  shows "(\<forall>w ch. gl_pcs g w = Changing ch \<longrightarrow>
      (\<forall>u\<in>set (synch_iter (gl_list g)). gl_locks g u = Exclusive) \<and> (\<forall>t. t \<noteq> w \<longrightarrow> \<not> holds_mutex (gl_pcs g t))) \<and>
    (\<forall>t us. gl_pcs g t = Walking us \<longrightarrow>
      insert t (set us) \<subseteq> set (synch_iter (gl_list g)) \<and> (\<forall>w ch. gl_pcs g w \<noteq> Changing ch))"
proof -
  note I = gl_invD [OF gls.inv_reach [OF assms]]
  have x: "\<forall>u\<in>set (synch_iter (gl_list g)). gl_locks g u = Exclusive" "gl_mutex g = Some w"
    if "gl_pcs g w = Changing ch" for w ch
    using I(3) [of w] I(4) [of w] that by simp_all
  have y: "t \<in> set (synch_iter (gl_list g))" "set us \<subseteq> set (synch_iter (gl_list g))" "\<exists>n. gl_locks g t = Shared n"
    if "gl_pcs g t = Walking us" for t us
    using I(4) [of t] that by simp_all
  show ?thesis
  proof (intro conjI allI impI)
    show "\<not> holds_mutex (gl_pcs g t)" if "gl_pcs g w = Changing ch" "t \<noteq> w" for w ch t
      using x(2) [OF that(1)] I(3) [of t] that(2) by auto
    show "gl_pcs g w \<noteq> Changing ch" if "gl_pcs g t = Walking us" for t us w ch
      using x(1) [of w ch] y(1,3) [OF that] by fastforce
  qed (use x(1) y(1,2) in auto)
qed

text \<open>
  What \<open>Synch::new\<close> says does not hold: the lock of a new \<open>Synch\<close> is taken for reading, and
  whenever the write guard that registers it comes to release that lock, it releases it as a
  lock taken for writing, which it is not.
\<close>

theorem registering_unlocks_a_shared_lock:
  assumes "reach (\<lambda>g. g = gl_start) (gl_step ux) g" and "gl_pcs g t = Unlocking (t # us)"
  shows "gl_locks g t = Shared 1 \<and> unlock_exclusive ux (gl_locks g t) = ux (Shared 1)"
  using gl_invD(4) [OF gls.inv_reach [OF assms(1)], of t] assms(2) by (simp add: unlock_exclusive_def)

text \<open>Thread 0 registers.\<close>

definition gl_at :: "synch_list \<Rightarrow> nat option \<Rightarrow> rw_lock \<Rightarrow> rw_lock \<Rightarrow> gl_pc \<Rightarrow> gl_pc \<Rightarrow> nat set \<Rightarrow> global_list" where
  "gl_at l m l0 l1 p0 p1 cr = \<lparr>gl_list = l, gl_mutex = m, gl_locks = (\<lambda>_. Free)(0 := l0, 1 := l1),
     gl_pcs = (\<lambda>_. Outside)(0 := p0, 1 := p1), created = cr\<rparr>"

lemma gl_run:
  "reach (\<lambda>g. g = gl_start) (gl_step ux)
     (gl_at (register synch_list_new 0) (Some 0) (Shared 1) Free (Unlocking [0]) Outside {0})"
proof -
  let ?R = "reach (\<lambda>g. g = gl_start) (gl_step ux)" let ?l = synch_list_new
  have "?R (gl_at ?l None Free Free Outside Outside {})"
    by (rule reach.start) (simp add: gl_at_def gl_start_def fun_upd_idem)
  then have "?R (gl_at ?l None (Shared 1) Free (Wanting Register) Outside {0})"
    by (rule reach.extend) (use gl_step.new_synch [of 0 "gl_at ?l None Free Free Outside Outside {}" "Shared 1" ux] in
      \<open>simp add: gl_at_def fun_upd_twist\<close>)
  then have "?R (gl_at ?l (Some 0) (Shared 1) Free (Locking Register []) Outside {0})"
    by (rule reach.extend) (use gl_step.mutex_lock [of "gl_at ?l None (Shared 1) Free (Wanting Register) Outside {0}" 0 Register ux] in
      \<open>simp add: gl_at_def fun_upd_twist\<close>)
  then have "?R (gl_at ?l (Some 0) (Shared 1) Free (Changing Register) Outside {0})"
    by (rule reach.extend) (use gl_step.all_locked [of "gl_at ?l (Some 0) (Shared 1) Free (Locking Register []) Outside {0}" 0 Register ux] in
      \<open>simp add: gl_at_def fun_upd_twist\<close>)
  then show ?thesis
    by (rule reach.extend) (use gl_step.change_list [of "gl_at ?l (Some 0) (Shared 1) Free (Changing Register) Outside {0}" 0 Register
        "register ?l 0" ux] in \<open>simp add: gl_at_def fun_upd_twist\<close>)
qed

lemma registering_unlocks_a_shared_lock_witness:
  "\<exists>g. gl_pcs g 0 = Unlocking [0] \<and> gl_locks g 0 = Shared 1 \<and> reach (\<lambda>g. g = gl_start) (gl_step (\<lambda>_. Free)) g"
  using registering_unlocks_a_shared_lock [OF gl_run [of "\<lambda>_. Free"], of 0 "[]"] gl_run [of "\<lambda>_. Free"]
  by (intro exI [of _ "gl_at (register synch_list_new 0) (Some 0) (Shared 1) Free (Unlocking [0]) Outside {0}"])
    (simp add: gl_at_def)

text \<open>Then thread 1 registers, and holds the write guard.\<close>

lemma list_never_changes_under_a_walk_witness:
  "\<exists>g. reach (\<lambda>g. g = gl_start) (gl_step (\<lambda>_. Free)) g \<and> gl_pcs g 1 = Changing Register \<and> synch_iter (gl_list g) = [0] \<and>
     gl_locks g 0 = Exclusive \<and> \<not> holds_mutex (gl_pcs g 0)"
proof -
  let ?R = "reach (\<lambda>g. g = gl_start) (gl_step (\<lambda>_. Free))" let ?l = "register synch_list_new 0"
  let ?g = "gl_at ?l (Some 1) Exclusive (Shared 1) Outside (Changing Register) {0, 1}"
  have "?R (gl_at ?l (Some 0) Free Free (Unlocking []) Outside {0})"
    by (rule reach.extend [OF gl_run]) (use gl_step.unlock_synch [of "gl_at ?l (Some 0) (Shared 1) Free (Unlocking [0]) Outside {0}" 0 0 "[]" "\<lambda>_. Free"] in
      \<open>simp add: gl_at_def fun_upd_twist unlock_exclusive_def\<close>)
  then have "?R (gl_at ?l None Free Free Outside Outside {0})"
    by (rule reach.extend) (use gl_step.mutex_unlock [of "gl_at ?l (Some 0) Free Free (Unlocking []) Outside {0}" 0 "\<lambda>_. Free"] in
      \<open>simp add: gl_at_def fun_upd_twist\<close>)
  then have "?R (gl_at ?l None Free (Shared 1) Outside (Wanting Register) {0, 1})"
    by (rule reach.extend) (use gl_step.new_synch [of 1 "gl_at ?l None Free Free Outside Outside {0}" "Shared 1" "\<lambda>_. Free"] in
      \<open>simp add: gl_at_def insert_commute\<close>)
  then have "?R (gl_at ?l (Some 1) Free (Shared 1) Outside (Locking Register [0]) {0, 1})"
    by (rule reach.extend) (use gl_step.mutex_lock [of "gl_at ?l None Free (Shared 1) Outside (Wanting Register) {0, 1}" 1 Register "\<lambda>_. Free"] in
      \<open>simp add: gl_at_def\<close>)
  then have "?R (gl_at ?l (Some 1) Exclusive (Shared 1) Outside (Locking Register []) {0, 1})"
    by (rule reach.extend) (use gl_step.lock_synch [of "gl_at ?l (Some 1) Free (Shared 1) Outside (Locking Register [0]) {0, 1}" 1 Register 0 "[]" Exclusive "\<lambda>_. Free"] in
      \<open>simp add: gl_at_def fun_upd_twist\<close>)
  then have r: "?R ?g"
    by (rule reach.extend) (use gl_step.all_locked [of "gl_at ?l (Some 1) Exclusive (Shared 1) Outside (Locking Register []) {0, 1}" 1 Register "\<lambda>_. Free"] in
      \<open>simp add: gl_at_def\<close>)
  from list_never_changes_under_a_walk [OF r] r show ?thesis
    by (intro exI [of _ ?g]) (simp add: gl_at_def)
qed

end
