(* ===== verification/Thread_Life.thy ===== *)
theory Thread_Life
  imports Thread
begin

text \<open>
  A thread from its registration to its end (\<open>subscribe\<close> and \<open>unsubscribe\<close> of \<open>src/internal/thread.rs\<close>): what it leaves
  behind is nothing.
\<close>

section \<open>The registry\<close>

text \<open>Every thread once, and four units of the clock for each.\<close>

definition registry_ok :: "registry \<Rightarrow> bool" where
  "registry_ok reg \<longleftrightarrow> distinct (synch_iter (reg_list reg)) \<and>
     reg_estimate reg = of_nat (4 * length (synch_iter (reg_list reg)))"

lemma estimate_unit: "TICK_SIZE * EPOCH_BUFFER_ROOM = (4 :: usize)"
  by (simp add: TICK_SIZE_def EPOCH_BUFFER_ROOM_def)

lemma subscribe_ok:
  "registry_ok reg \<Longrightarrow> t \<notin> set (synch_iter (reg_list reg)) \<Longrightarrow> registry_ok (thread_subscribe t reg)"
  by (simp add: registry_ok_def thread_subscribe_def inc_thread_estimate_def estimate_unit)

lemma subscribe_list [simp]: "synch_iter (reg_list (thread_subscribe t reg)) = synch_iter (reg_list reg) @ [t]"
  by (simp add: thread_subscribe_def)

lemma subscribe_all:
  assumes "registry_ok reg" and "distinct us" and "set us \<inter> set (synch_iter (reg_list reg)) = {}"
  shows "registry_ok (fold thread_subscribe us reg) \<and>
    synch_iter (reg_list (fold thread_subscribe us reg)) = synch_iter (reg_list reg) @ us"
  using assms by (induction us arbitrary: reg) (auto simp: subscribe_ok)

lemma unregister_ok:
  assumes "registry_ok reg" and "t \<in> set (synch_iter (reg_list reg))"
  shows "registry_ok (reg\<lparr>reg_list := fst (unregister (reg_list reg) t), reg_estimate := dec_thread_estimate (reg_estimate reg)\<rparr>)"
proof -
  let ?l = "synch_iter (reg_list reg)" and ?l' = "synch_iter (fst (unregister (reg_list reg) t))"
  have d: "distinct ?l" and e: "reg_estimate reg = of_nat (4 * length ?l)" using assms(1) by (simp_all add: registry_ok_def)
  have "length ?l' = card (set ?l')" using set_unregister(1) [OF d, of t] by (simp add: distinct_card)
  also have "\<dots> = length ?l - 1"
    using set_unregister(2) [OF d, of t] assms(2) distinct_card [OF d] by (simp add: card_Diff_singleton)
  finally have "length ?l = Suc (length ?l')" using assms(2) length_pos_if_in_set [OF assms(2)] by simp
  then show ?thesis
    using set_unregister(1) [OF d, of t] e by (simp add: registry_ok_def dec_thread_estimate_def estimate_unit)
qed

section \<open>Properties\<close>



end
