(* ===== verification/Stats.thy ===== *)
theory Stats
  imports Prelude
begin

text \<open>
  \<open>src/stats.rs\<close> with \<open>src/stats_list.rs\<close>: statistics. Each thread counts in a \<open>Stats\<close> of its own, and flushes it into a global one
  when it ends or is asked to. The macro of the source makes a struct with one field for each name of
  the list; here it is a function of the name for either kind of field. Printing is not modelled.
\<close>

section \<open>Sizes and events\<close>

datatype min_max_total = MinMaxTotal (mmt_min: "64 word") (mmt_max: "64 word") (mmt_total: "64 word")

datatype size_stat = SizeStat (size_mmt: "min_max_total option") (size_count: "64 word")

definition size_record :: "64 word \<Rightarrow> size_stat \<Rightarrow> size_stat" where
  "size_record sz self = SizeStat
     (case size_mmt self of
        Some m \<Rightarrow> Some (MinMaxTotal (min (mmt_min m) sz) (max (mmt_max m) sz) (mmt_total m + sz))
      | None \<Rightarrow> Some (MinMaxTotal sz sz sz))
     (size_count self + 1)"

definition size_merge :: "size_stat \<Rightarrow> size_stat \<Rightarrow> size_stat" where
  "size_merge self rhs = SizeStat
     (case (size_mmt self, size_mmt rhs) of
        (Some a, Some b) \<Rightarrow>
          Some (MinMaxTotal (min (mmt_min a) (mmt_min b)) (max (mmt_max a) (mmt_max b)) (mmt_total a + mmt_total b))
      | (Some a, None) \<Rightarrow> Some a
      | (None, b) \<Rightarrow> b)
     (size_count self + size_count rhs)"

definition size_default :: size_stat where
  "size_default = SizeStat None 0"

type_synonym event = usize

definition happened :: "event \<Rightarrow> event" where
  "happened count = count + 1"

definition event_merge :: "event \<Rightarrow> event \<Rightarrow> event" where
  "event_merge count rhs = count + rhs"

text \<open>Merging is the addition of a commutative monoid, so the library's sums apply to it.\<close>

instantiation size_stat :: comm_monoid_add
begin

definition zero_size_stat :: size_stat where
  "zero_size_stat = size_default"

definition plus_size_stat :: "size_stat \<Rightarrow> size_stat \<Rightarrow> size_stat" where
  "plus_size_stat = size_merge"

instance
proof
  fix a b c :: size_stat
  show "a + b + c = a + (b + c)"
    by (simp add: plus_size_stat_def size_merge_def ac_simps split: option.split)
  show "a + b = b + a"
    by (simp add: plus_size_stat_def size_merge_def ac_simps split: option.split)
  show "0 + a = a"
    by (cases a) (simp add: plus_size_stat_def zero_size_stat_def size_merge_def size_default_def)
qed

end

section \<open>The list of statistics\<close>

datatype size_name =
    read_transaction_conflicts
  | write_transaction_eager_conflicts
  | write_transaction_commit_conflicts
  | htm_conflicts
  | htm_abort
  | read_size
  | write_word_size
  | write_after_logged_read
  | blocked_by_starvation
  | should_park_gc
  | unparked_size
  | not_unparked_size
  | htm_park_conflicts
  | park_failure_size
  | parked_size

datatype event_name =
    bloom_check
  | bloom_collision
  | bloom_success_slow
  | read_after_write
  | write_after_write
  | starvation_handoff

text \<open>The environment variable that turns a statistic on, without its prefix.\<close>

fun size_env :: "size_name \<Rightarrow> string" where
  "size_env read_transaction_conflicts = ''READ_TRANSACTION_CONFLICTS''"
| "size_env write_transaction_eager_conflicts = ''WRITE_TRANSACTION_EAGER_CONFLICTS''"
| "size_env write_transaction_commit_conflicts = ''WRITE_TRANSACTION_COMMIT_CONFLICTS''"
| "size_env htm_conflicts = ''HTM_CONFLICTS''"
| "size_env htm_abort = ''HTM_ABORT''"
| "size_env read_size = ''READ_SIZE''"
| "size_env write_word_size = ''WRITE_WORD_SIZE''"
| "size_env write_after_logged_read = ''WRITE_AFTER_LOGGED_READ''"
| "size_env blocked_by_starvation = ''BLOCKED_BY_STARVATION''"
| "size_env should_park_gc = ''SHOULD_PARK_GC''"
| "size_env unparked_size = ''UNPARKED_SIZE''"
| "size_env not_unparked_size = ''NOT_UNPARKED_SIZE''"
| "size_env htm_park_conflicts = ''HTM_PARK_CONFLICTS''"
| "size_env park_failure_size = ''PARK_FAILURE_SIZE''"
| "size_env parked_size = ''PARKED_SIZE''"

fun event_env :: "event_name \<Rightarrow> string" where
  "event_env bloom_check = ''BLOOM_CHECK''"
| "event_env bloom_collision = ''BLOOM_CHECK''"
| "event_env bloom_success_slow = ''BLOOM_SUCCESS_SLOW''"
| "event_env read_after_write = ''READ_AFTER_WRITE''"
| "event_env write_after_write = ''WRITE_AFTER_WRITE''"
| "event_env starvation_handoff = ''STARVATION_HANDOFF''"

definition size_names :: "size_name list" where
  "size_names = [read_transaction_conflicts, write_transaction_eager_conflicts, write_transaction_commit_conflicts,
     htm_conflicts, htm_abort, read_size, write_word_size, write_after_logged_read, blocked_by_starvation,
     should_park_gc, unparked_size, not_unparked_size, htm_park_conflicts, park_failure_size, parked_size]"

definition event_names :: "event_name list" where
  "event_names = [bloom_check, bloom_collision, bloom_success_slow, read_after_write, write_after_write,
     starvation_handoff]"

section \<open>Threads\<close>

record stats =
  sizes :: "size_name \<Rightarrow> size_stat"
  events :: "event_name \<Rightarrow> event"

definition stats_default :: stats where
  "stats_default = \<lparr>sizes = (\<lambda>_. size_default), events = (\<lambda>_. 0)\<rparr>"

definition stats_merge :: "stats \<Rightarrow> stats \<Rightarrow> stats" where
  "stats_merge self rhs =
     \<lparr>sizes = (\<lambda>n. size_merge (sizes self n) (sizes rhs n)), events = (\<lambda>n. event_merge (events self n) (events rhs n))\<rparr>"

text \<open>What was set when the program was built: the feature, and the environment variables that had the value 1.\<close>

record build =
  feature_stats :: bool
  env_var_set :: "string \<Rightarrow> bool"

definition size_active :: "build \<Rightarrow> size_name \<Rightarrow> bool" where
  "size_active cfg n \<longleftrightarrow> feature_stats cfg \<or> env_var_set cfg (size_env n)"

definition event_active :: "build \<Rightarrow> event_name \<Rightarrow> bool" where
  "event_active cfg n \<longleftrightarrow> feature_stats cfg \<or> env_var_set cfg (event_env n)"

definition any_stats_active :: "build \<Rightarrow> bool" where
  "any_stats_active cfg \<longleftrightarrow> feature_stats cfg \<or>
     list_ex (\<lambda>n. env_var_set cfg (size_env n)) size_names \<or> list_ex (\<lambda>n. env_var_set cfg (event_env n)) event_names"

record stats_state =
  thread_stat :: "nat \<Rightarrow> stats"
  global_stat :: stats

definition stats_start :: stats_state where
  "stats_start = \<lparr>thread_stat = (\<lambda>_. stats_default), global_stat = stats_default\<rparr>"

text \<open>The functions that the macro makes for each name, and \<open>ThreadStats::flush\<close>, which is also its \<open>drop\<close>.\<close>

definition stat_size :: "build \<Rightarrow> size_name \<Rightarrow> usize \<Rightarrow> stats \<Rightarrow> stats" where
  "stat_size cfg n sz self =
     (if size_active cfg n then self\<lparr>sizes := (sizes self)(n := size_record sz (sizes self n))\<rparr> else self)"

definition stat_event :: "build \<Rightarrow> event_name \<Rightarrow> stats \<Rightarrow> stats" where
  "stat_event cfg n self =
     (if event_active cfg n then self\<lparr>events := (events self)(n := happened (events self n))\<rparr> else self)"

definition flush :: "nat \<Rightarrow> stats_state \<Rightarrow> stats_state" where
  "flush t s = s\<lparr>global_stat := stats_merge (global_stat s) (thread_stat s t),
     thread_stat := (thread_stat s)(t := stats_default)\<rparr>"

definition stats_get :: "build \<Rightarrow> stats_state \<Rightarrow> stats option" where
  "stats_get cfg s = (if any_stats_active cfg then Some (global_stat s) else None)"

datatype stat_op = Size size_name usize | Event event_name | Flush

fun stat_apply :: "build \<Rightarrow> nat \<times> stat_op \<Rightarrow> stats_state \<Rightarrow> stats_state" where
  "stat_apply cfg (t, Size n sz) s = s\<lparr>thread_stat := (thread_stat s)(t := stat_size cfg n sz (thread_stat s t))\<rparr>"
| "stat_apply cfg (t, Event n) s = s\<lparr>thread_stat := (thread_stat s)(t := stat_event cfg n (thread_stat s t))\<rparr>"
| "stat_apply cfg (t, Flush) s = flush t s"

section \<open>What is counted\<close>

fun op_size :: "build \<Rightarrow> size_name \<Rightarrow> stat_op \<Rightarrow> usize list" where
  "op_size cfg n (Size m sz) = (if m = n \<and> size_active cfg m then [sz] else [])"
| "op_size cfg n _ = []"

fun op_event :: "build \<Rightarrow> event_name \<Rightarrow> stat_op \<Rightarrow> nat" where
  "op_event cfg n (Event m) = (if m = n \<and> event_active cfg m then 1 else 0)"
| "op_event cfg n _ = 0"

text \<open>The summary of a list of sizes.\<close>

definition summary :: "usize list \<Rightarrow> size_stat" where
  "summary xs = SizeStat (if xs = [] then None else Some (MinMaxTotal (Min (set xs)) (Max (set xs)) (sum_list xs)))
     (of_nat (length xs))"

lemma summary_Nil: "summary [] = 0"
  by (simp add: summary_def zero_size_stat_def size_default_def)

lemma summary_append: "summary (xs @ ys) = summary xs + summary ys"
  by (auto simp: summary_def plus_size_stat_def size_merge_def Min_Un Max_Un)

lemma size_record_summary: "size_record x s = s + summary [x]"
  by (simp add: size_record_def plus_size_stat_def size_merge_def summary_def split: option.split)

text \<open>The global statistics with those of some threads.\<close>

definition total_size :: "nat set \<Rightarrow> stats_state \<Rightarrow> size_name \<Rightarrow> size_stat" where
  "total_size T s n = sizes (global_stat s) n + (\<Sum>t\<in>T. sizes (thread_stat s t) n)"

definition total_event :: "nat set \<Rightarrow> stats_state \<Rightarrow> event_name \<Rightarrow> event" where
  "total_event T s n = events (global_stat s) n + (\<Sum>t\<in>T. events (thread_stat s t) n)"

lemma sum_upd:
  fixes f :: "nat \<Rightarrow> 'a :: comm_monoid_add"
  assumes "finite T" and "t \<in> T"
  shows "(\<Sum>u\<in>T. (f(t := v)) u) = v + (\<Sum>u\<in>T - {t}. f u)"
  using assms by (simp add: sum.remove)

lemma total_step:
  assumes "finite T" and "t \<in> T"
  shows "total_size T (stat_apply cfg (t, op) s) n = total_size T s n + summary (op_size cfg n op)"
    and "total_event T (stat_apply cfg (t, op) s) m = total_event T s m + of_nat (op_event cfg m op)"
proof -
  have s: "total_size T s n = sizes (global_stat s) n + (sizes (thread_stat s t) n + (\<Sum>u\<in>T - {t}. sizes (thread_stat s u) n))"
    using assms by (simp add: total_size_def sum.remove)
  have e: "total_event T s m = events (global_stat s) m + (events (thread_stat s t) m + (\<Sum>u\<in>T - {t}. events (thread_stat s u) m))"
    using assms by (simp add: total_event_def sum.remove)
  show "total_size T (stat_apply cfg (t, op) s) n = total_size T s n + summary (op_size cfg n op)"
    using assms by (cases op) (simp_all add: s total_size_def sum.remove stat_size_def stat_event_def flush_def stats_merge_def
        stats_default_def size_record_summary summary_Nil plus_size_stat_def [symmetric] zero_size_stat_def [symmetric] ac_simps)
  show "total_event T (stat_apply cfg (t, op) s) m = total_event T s m + of_nat (op_event cfg m op)"
    using assms by (cases op) (simp_all add: e total_event_def sum.remove stat_size_def stat_event_def flush_def stats_merge_def
        stats_default_def event_merge_def happened_def ac_simps)
qed

section \<open>Properties\<close>

text \<open>
  Property C36: no statistic is lost. Whatever threads count and flush, in whatever order, the global statistics
  together with those not yet flushed are the summary of everything that was counted while the statistic was turned on:
  least, greatest, sum and number of the sizes, and the number of the events; numbers and sums modulo \<open>2 ^ 64\<close>. A thread that has
  flushed has nothing left, and \<open>stats\<close> gives the global statistics exactly if some statistic is turned on.
\<close>

theorem no_statistic_is_lost:
  assumes "finite T" and "fst ` set ops \<subseteq> T"
  shows "let s = fold (stat_apply cfg) ops stats_start in
    total_size T s n = summary (concat (map (op_size cfg n \<circ> snd) ops)) \<and>
    total_event T s m = of_nat (sum_list (map (op_event cfg m \<circ> snd) ops)) \<and>
    thread_stat (stat_apply cfg (t, Flush) s) t = stats_default \<and>
    (stats_get cfg s = None \<longleftrightarrow> \<not> (\<exists>n. size_active cfg n) \<and> \<not> (\<exists>m. event_active cfg m))"
proof -
  let ?s = "\<lambda>ops. fold (stat_apply cfg) ops stats_start"
  have "total_size T (?s ops) n = summary (concat (map (op_size cfg n \<circ> snd) ops)) \<and>
      total_event T (?s ops) m = of_nat (sum_list (map (op_event cfg m \<circ> snd) ops))"
    using assms(2)
  proof (induction ops rule: rev_induct)
    case Nil
    have "size_default = 0" by (simp add: zero_size_stat_def)
    then show ?case by (simp add: total_size_def total_event_def stats_start_def stats_default_def summary_Nil)
  next
    case (snoc op ops)
    then show ?case by (cases op) (simp add: total_step [OF assms(1)] summary_append)
  qed
  moreover have "n \<in> set size_names" for n by (cases n) (simp_all add: size_names_def)
  moreover have "m \<in> set event_names" for m by (cases m) (simp_all add: event_names_def)
  ultimately show ?thesis
    by (auto simp: Let_def flush_def stats_get_def any_stats_active_def size_active_def event_active_def list_ex_iff)
qed

text \<open>Two threads, one of which has flushed.\<close>

lemma no_statistic_is_lost_witness:
  "let cfg = \<lparr>feature_stats = False, env_var_set = (\<lambda>v. v = ''READ_SIZE'')\<rparr>;
       s = fold (stat_apply cfg) [(0, Size read_size 5), (1, Size read_size 7), (0, Flush), (0, Event bloom_check), (0, Size read_size 6)] stats_start
   in total_size {0, 1} s read_size = SizeStat (Some (MinMaxTotal 5 7 18)) 3 \<and> total_event {0, 1} s bloom_check = 0"
  unfolding Let_def
  using no_statistic_is_lost [of "{0, 1}" "[(0, Size read_size 5), (1, Size read_size 7), (0, Flush), (0, Event bloom_check), (0, Size read_size 6)]"
      "\<lparr>feature_stats = False, env_var_set = (\<lambda>v. v = ''READ_SIZE'')\<rparr>" read_size bloom_check 0, unfolded Let_def]
  by (simp add: summary_def size_active_def event_active_def)

end
