(* ===== verification/Rb_Atomic.thy ===== *)
theory Rb_Atomic
  imports Rb_Theorems
begin

text \<open>
  \<open>RBTreeMap\<close> and \<open>RBTreeWith\<close> of \<open>src/swym-rbtree/src/lib.rs\<close>: the map whose operations are transactions of their
  own. The run loop of theory \<open>Thread\<close> runs the operation until an attempt commits. Here an attempt is the store that its
  transaction sees, the oracle for its conflicts, the address at which it allocates a node and whether its commit succeeds.
\<close>

section \<open>The operations with a transaction\<close>

text \<open>What the raw map passes on to its tree, and the entry that falls back to a default value.\<close>

definition raw_contains_key :: "'k :: linorder \<Rightarrow> ('k, 'v, bool) rb" where
  "raw_contains_key key = rb_contains_key rb_fuel key"

definition raw_verify :: "('k :: linorder, 'v, unit) rb" where
  "raw_verify = rb_verify rb_fuel"

definition or_default :: "node_ptr \<Rightarrow> (unit \<Rightarrow> 'v) \<Rightarrow> 'k entry \<Rightarrow> ('k :: linorder, 'v, map_value) rb" where
  "or_default n dflt e = or_insert_with rb_fuel n dflt e"

text \<open>\<open>RBTreeWith\<close> passes its transaction on.\<close>

definition with_get :: "'k :: linorder \<Rightarrow> ('k, 'v, 'v option) rb" where
  "with_get key = map_get rb_fuel key"

definition with_contains_key :: "'k :: linorder \<Rightarrow> ('k, 'v, bool) rb" where
  "with_contains_key key = raw_contains_key key"

definition with_entry :: "'k :: linorder \<Rightarrow> ('k, 'v, 'k entry) rb" where
  "with_entry key = map_entry rb_fuel key"

definition with_insert :: "node_ptr \<Rightarrow> 'k :: linorder \<Rightarrow> 'v \<Rightarrow> ('k, 'v, 'v option) rb" where
  "with_insert n key value = map_insert rb_fuel n key value"

definition with_remove :: "'k :: linorder \<Rightarrow> ('k, 'v, 'v option) rb" where
  "with_remove key = map_remove rb_fuel key"

section \<open>The operations as transactions\<close>

record ('k, 'v) map_attempt =
  ma_store :: "('k, 'v) rb_store"
  ma_oracle :: "nat option"
  ma_box :: node_ptr
  ma_commits :: bool

text \<open>
  A call that returns with its result and the store of its transaction, or has used up the attempts; one that stops at an
  \<open>unreachable\<close>; and one inside another transaction, which panics.
\<close>

datatype ('k, 'v, 'r) map_run = Returned 'r "('k, 'v) rb_store" | Trying | Stopped rb_stop | Nested

fun atomic_loop :: "(node_ptr \<Rightarrow> ('k, 'v, 'r) rb) \<Rightarrow> ('k, 'v) map_attempt list \<Rightarrow> ('k, 'v, 'r) map_run" where
  "atomic_loop f [] = Trying"
| "atomic_loop f (a # as) =
     (case f (ma_box a) (ma_store a, ma_oracle a) of
        Inl (Err CONFLICT) \<Rightarrow> atomic_loop f as
      | Inl e \<Rightarrow> Stopped e
      | Inr (r, s', n', w) \<Rightarrow> if ma_commits a then Returned r s' else atomic_loop f as)"

definition atomic ::
  "bool \<Rightarrow> (node_ptr \<Rightarrow> ('k, 'v, 'r) rb) \<Rightarrow> ('k, 'v) map_attempt list \<Rightarrow> ('k, 'v, 'r) map_run" where
  "atomic pinned f as = (if pinned then Nested else atomic_loop f as)"

text \<open>A read only transaction has no commit that could fail.\<close>

definition read_atomic :: "bool \<Rightarrow> ('k, 'v, 'r) rb \<Rightarrow> ('k, 'v) map_attempt list \<Rightarrow> ('k, 'v, 'r) map_run" where
  "read_atomic pinned f as = (if pinned then Nested else atomic_loop (\<lambda>_. f) (map (\<lambda>a. a\<lparr>ma_commits := True\<rparr>) as))"

definition rbmap_contains_key :: "bool \<Rightarrow> 'k :: linorder \<Rightarrow> ('k, 'v) map_attempt list \<Rightarrow> ('k, 'v, bool) map_run" where
  "rbmap_contains_key pinned key = read_atomic pinned (raw_contains_key key)"

definition rbmap_get :: "bool \<Rightarrow> 'k :: linorder \<Rightarrow> ('k, 'v) map_attempt list \<Rightarrow> ('k, 'v, 'v option) map_run" where
  "rbmap_get pinned key = read_atomic pinned (map_get rb_fuel key)"

definition rbmap_insert ::
  "bool \<Rightarrow> 'k :: linorder \<Rightarrow> 'v \<Rightarrow> ('k, 'v) map_attempt list \<Rightarrow> ('k, 'v, 'v option) map_run" where
  "rbmap_insert pinned key value = atomic pinned (\<lambda>n. with_insert n key value)"

definition rbmap_remove :: "bool \<Rightarrow> 'k :: linorder \<Rightarrow> ('k, 'v) map_attempt list \<Rightarrow> ('k, 'v, 'v option) map_run" where
  "rbmap_remove pinned key = atomic pinned (\<lambda>_. with_remove key)"

section \<open>A call against a finite map\<close>

text \<open>The attempts of a call see trees, and allocate nodes that those trees do not have.\<close>

definition attempts_ok :: "('k :: linorder, 'v) map_attempt list \<Rightarrow> bool" where
  "attempts_ok as \<longleftrightarrow> (\<forall>a\<in>set as. (\<exists>m. represents (ma_store a) m) \<and> fresh_node (ma_store a) (ma_box a))"

text \<open>Nothing gets in the way of an attempt.\<close>

definition undisturbed :: "('k, 'v) map_attempt \<Rightarrow> bool" where
  "undisturbed a \<longleftrightarrow> ma_oracle a = None \<and> ma_commits a"

text \<open>
  What a call promises, given result and map of the specification: it returns what the finite map of
  its last attempt gives, or every attempt was disturbed.
\<close>

fun call_ok ::
  "('k :: linorder, 'v) map_attempt list \<Rightarrow> (('k \<rightharpoonup> 'v) \<Rightarrow> 'r) \<Rightarrow> (('k \<rightharpoonup> 'v) \<Rightarrow> ('k \<rightharpoonup> 'v)) \<Rightarrow>
     ('k, 'v, 'r) map_run \<Rightarrow> bool" where
  "call_ok as res upd (Returned r s') \<longleftrightarrow>
     (\<exists>bs a cs m. as = bs @ a # cs \<and> (\<forall>b\<in>set bs. \<not> undisturbed b) \<and> ma_commits a \<and>
        represents (ma_store a) m \<and> r = res m \<and> represents s' (upd m))"
| "call_ok as res upd Trying \<longleftrightarrow> (\<forall>a\<in>set as. \<not> undisturbed a)"
| "call_ok as res upd _ \<longleftrightarrow> False"

lemma call_ok_Cons:
  assumes "call_ok as res upd x" and "\<not> undisturbed a"
  shows "call_ok (a # as) res upd x"
proof (cases x)
  case (Returned r s')
  with assms obtain bs b cs m where "a # as = (a # bs) @ b # cs" "\<forall>c\<in>set (a # bs). \<not> undisturbed c" "ma_commits b"
      "represents (ma_store b) m" "r = res m" "represents s' (upd m)"
    by auto
  with Returned show ?thesis by (metis call_ok.simps(1))
qed (use assms in simp_all)

lemma atomic_loop_ok:
  assumes "attempts_ok as"
    and op: "\<And>s m n. represents s m \<Longrightarrow> fresh_node s n \<Longrightarrow> wp (f n) (\<lambda>r s'. r = res m \<and> represents s' (upd m)) s"
  shows "call_ok as res upd (atomic_loop f as)"
  using assms(1)
proof (induction as)
  case (Cons a as)
  then obtain m where m: "represents (ma_store a) m" "fresh_node (ma_store a) (ma_box a)" and as: "attempts_ok as"
    by (auto simp: attempts_ok_def)
  show ?case
  proof (cases "f (ma_box a) (ma_store a, ma_oracle a)")
    case (Inl e)
    then have "e = Err CONFLICT" "\<not> undisturbed a"
      using op [OF m] by (auto simp: wp_def undisturbed_def split: sum.splits)
    then show ?thesis using call_ok_Cons [OF Cons.IH [OF as]] Inl by simp
  next
    case (Inr y)
    obtain r s' n' w where y: "y = (r, s', n', w)" by (cases y) auto
    have r: "r = res m" "represents s' (upd m)"
      using op [OF m, unfolded wp_def, rule_format, of "ma_oracle a"] by (simp_all add: Inr y)
    show ?thesis
    proof (cases "ma_commits a")
      case True
      then have "call_ok (a # as) res upd (Returned r s')"
        using r m(1) unfolding call_ok.simps
        by (intro exI [of _ "[]"] exI [of _ a] exI [of _ as] exI [of _ m]) (simp add: True)
      with True show ?thesis by (simp add: Inr y)
    next
      case False
      then have "\<not> undisturbed a" by (simp add: undisturbed_def)
      with False show ?thesis using call_ok_Cons [OF Cons.IH [OF as]] by (simp add: Inr y)
    qed
  qed
qed simp

lemma atomic_ok:
  assumes "attempts_ok as"
    and "\<And>s m n. represents s m \<Longrightarrow> fresh_node s n \<Longrightarrow> wp (f n) (\<lambda>r s'. r = res m \<and> represents s' (upd m)) s"
  shows "call_ok as res upd (atomic False f as)"
  using atomic_loop_ok [OF assms] by (simp add: atomic_def)

text \<open>For a read, an attempt is undisturbed as soon as it has no conflict.\<close>

abbreviation committing :: "('k, 'v) map_attempt list \<Rightarrow> ('k, 'v) map_attempt list" where
  "committing as \<equiv> map (\<lambda>a. a\<lparr>ma_commits := True\<rparr>) as"

lemma read_atomic_ok:
  assumes "attempts_ok as" and op: "\<And>s m. represents s m \<Longrightarrow> wp f (\<lambda>r s'. r = res m \<and> s' = s) s"
  shows "call_ok (committing as) res id (read_atomic False f as)"
proof -
  have "attempts_ok (committing as)" using assms(1) by (simp add: attempts_ok_def)
  moreover have "wp f (\<lambda>r s'. r = res m \<and> represents s' (id m)) s" if "represents s m" for s m
    by (rule wp_conseq [OF op [OF that]]) (use that in simp)
  ultimately show ?thesis using atomic_loop_ok [of _ "\<lambda>_. f"] by (simp add: read_atomic_def)
qed

section \<open>Properties\<close>

text \<open>
  Property C37: the map is a finite map whatever conflicts there are. A call outside other transactions returns what a
  finite map gives in the state that its committed attempt has seen, and that attempt leaves the updated map; all attempts
  before it were disturbed. It fails to return only while every attempt is disturbed, by a conflict of an
  access or in its commit, and for a read by a conflict only. A call inside another transaction panics.
\<close>

theorem rbmap_calls_refine_map:
  assumes "attempts_ok as"
  shows "call_ok as (\<lambda>m. m key) (\<lambda>m. m(key \<mapsto> value)) (rbmap_insert False key value as) \<and>
    call_ok as (\<lambda>m. m key) (\<lambda>m. m(key := None)) (rbmap_remove False key as) \<and>
    call_ok (committing as) (\<lambda>m. m key) id (rbmap_get False key as) \<and>
    call_ok (committing as) (\<lambda>m. m key \<noteq> None) id (rbmap_contains_key False key as) \<and>
    rbmap_insert True key value as = Nested \<and> rbmap_remove True key as = Nested \<and>
    rbmap_get True key as = Nested \<and> rbmap_contains_key True key as = Nested"
proof (intro conjI)
  show "call_ok as (\<lambda>m. m key) (\<lambda>m. m(key \<mapsto> value)) (rbmap_insert False key value as)"
    unfolding rbmap_insert_def with_insert_def by (rule atomic_ok [OF assms]) (rule rb.put)
  show "call_ok as (\<lambda>m. m key) (\<lambda>m. m(key := None)) (rbmap_remove False key as)"
    unfolding rbmap_remove_def with_remove_def by (rule atomic_ok [OF assms]) (rule rb.del)
  show "call_ok (committing as) (\<lambda>m. m key) id (rbmap_get False key as)"
    unfolding rbmap_get_def by (rule read_atomic_ok [OF assms]) (rule rb.look)
  show "call_ok (committing as) (\<lambda>m. m key \<noteq> None) id (rbmap_contains_key False key as)"
    unfolding rbmap_contains_key_def raw_contains_key_def by (rule read_atomic_ok [OF assms]) (rule rb_contains_key_wp)
qed (simp_all add: rbmap_insert_def rbmap_remove_def rbmap_get_def rbmap_contains_key_def atomic_def read_atomic_def)

text \<open>
  An insertion whose first attempt meets a conflict at its first access and whose second is undisturbed, and the
  lookup after it.
\<close>

lemma rbmap_calls_refine_map_witness:
  "let as = [\<lparr>ma_store = no_nodes, ma_oracle = Some 0, ma_box = Node_ptr 8, ma_commits = True\<rparr>,
             \<lparr>ma_store = no_nodes, ma_oracle = None, ma_box = Node_ptr 16, ma_commits = True\<rparr>]
   in call_ok as (\<lambda>m. m 3) (\<lambda>m. m(3 \<mapsto> 4)) (rbmap_insert False 3 4 as) \<and> rbmap_insert False 3 4 as \<noteq> Trying"
proof -
  let ?as = "[\<lparr>ma_store = no_nodes, ma_oracle = Some 0, ma_box = Node_ptr 8, ma_commits = True\<rparr>,
             \<lparr>ma_store = no_nodes, ma_oracle = None, ma_box = Node_ptr 16, ma_commits = True\<rparr>]"
  have "attempts_ok ?as" using no_nodes_tree by (auto simp: attempts_ok_def)
  from rbmap_calls_refine_map [OF this, of 3 4] show ?thesis
    by (auto simp: Let_def undisturbed_def)
qed

end
