(* ===== verification/Rb_Replay.thy ===== *)
theory Rb_Replay
  imports Rb_Races
begin

text \<open>
  A run of an operation is determined by the cells that it reads. Two runs of the same operation, on stores that
  agree on those cells, return the same result, make the same accesses and write the same values. The operations stay within
  the nodes that can be reached by links; the stores have to agree on the keys of those, which are plain fields. And what an
  operation reads without a check by commit, it later writes, so that commit checks it after all.
\<close>

section \<open>Cells and nodes\<close>

fun same_cell :: "('k, 'v) rb_store \<Rightarrow> ('k, 'v) rb_store \<Rightarrow> rb_cell \<Rightarrow> bool" where
  "same_cell s t Root_Cell \<longleftrightarrow> root_cell s = root_cell t"
| "same_cell s t (Left_Cell a) \<longleftrightarrow> lefts s a = lefts t a"
| "same_cell s t (Right_Cell a) \<longleftrightarrow> rights s a = rights t a"
| "same_cell s t (Parent_Color_Cell a) \<longleftrightarrow> parent_colors s a = parent_colors t a"
| "same_cell s t (Value_Cell a) \<longleftrightarrow> rb_val s a = rb_val t a"

lemma same_cell_refl [simp]: "same_cell s s c"
  by (cases c) simp_all

lemma same_cell_sym: "same_cell s t c \<Longrightarrow> same_cell t s c"
  by (cases c) simp_all

lemma same_cell_trans: "same_cell s t c \<Longrightarrow> same_cell t u c \<Longrightarrow> same_cell s u c"
  by (cases c) simp_all

text \<open>The cells of nodes that are still boxes, which are written without the transaction.\<close>

fun box_cells :: "node_ptr set \<Rightarrow> rb_cell \<Rightarrow> bool" where
  "box_cells N Root_Cell \<longleftrightarrow> False"
| "box_cells N (Left_Cell a) \<longleftrightarrow> a \<in> N"
| "box_cells N (Right_Cell a) \<longleftrightarrow> a \<in> N"
| "box_cells N (Parent_Color_Cell a) \<longleftrightarrow> a \<in> N"
| "box_cells N (Value_Cell a) \<longleftrightarrow> a \<in> N"

definition reads :: "access list \<Rightarrow> rb_cell set" where
  "reads w = {c. \<exists>ord. Read_Access ord c \<in> set w}"

lemma reads_simps [simp]:
  "reads [] = {}" "reads (w @ w') = reads w \<union> reads w'" "reads [Read_Access ord c] = {c}" "reads [Write_Access c] = {}"
  by (auto simp: reads_def)

lemma written_simps [simp]:
  "written [] = {}" "written (w @ w') = written w \<union> written w'" "written [Read_Access ord c] = {}" "written [Write_Access c] = {c}"
  by (auto simp: written_def)

text \<open>A set of nodes that no link leads out of.\<close>

fun ref_in :: "node_ptr set \<Rightarrow> rbref \<Rightarrow> bool" where
  "ref_in A (Valid a) \<longleftrightarrow> a \<in> A"
| "ref_in A Null \<longleftrightarrow> True"

definition parent_in :: "node_ptr set \<Rightarrow> usize \<Rightarrow> bool" where
  "parent_in A w \<longleftrightarrow> ref_in A (fst (as_ref_color_word w))"

definition closed :: "node_ptr set \<Rightarrow> ('k, 'v) rb_store \<Rightarrow> bool" where
  "closed A s \<longleftrightarrow> ref_in A (root_cell s) \<and>
     (\<forall>a\<in>A. ref_in A (lefts s a) \<and> ref_in A (rights s a) \<and> parent_in A (parent_colors s a))"

lemma parent_in_pack [simp]: "parent_in A (pack r c) \<longleftrightarrow> ref_in A r"
  by (simp add: parent_in_def)

text \<open>What commit does not check of the reads: those with an ordering other than \<open>ReadWrite\<close>.\<close>

definition relaxed :: "access list \<Rightarrow> rb_cell set" where
  "relaxed w = {c. \<exists>ord. ord \<noteq> ReadWrite \<and> Read_Access ord c \<in> set w}"

lemma relaxed_simps [simp]:
  "relaxed [] = {}" "relaxed (w @ w') = relaxed w \<union> relaxed w'" "relaxed [Write_Access c] = {}"
  "relaxed [Read_Access Read c] = {c}" "relaxed [Read_Access ReadWrite c] = {}"
  by (auto simp: relaxed_def)

lemma validated_simps [simp]:
  "validated [] = {}" "validated (w @ w') = validated w \<union> validated w'" "validated [Write_Access c] = {c}"
  "validated [Read_Access Read c] = {}" "validated [Read_Access ReadWrite c] = {c}"
  by (auto simp: validated_def)

lemma written_validated: "written w \<subseteq> validated w"
  by (auto simp: validated_def)

lemma reads_checked: "reads w \<subseteq> validated w \<union> relaxed w"
proof
  fix c
  assume "c \<in> reads w"
  then obtain ord where "Read_Access ord c \<in> set w" by (auto simp: reads_def)
  then show "c \<in> validated w \<union> relaxed w"
    by (cases "ord = ReadWrite") (auto simp: validated_def relaxed_def)
qed

section \<open>Two runs of one operation\<close>

text \<open>
  What a run from \<open>s\<close> to \<open>s'\<close> with the accesses \<open>w\<close> leaves alone, when the nodes \<open>N\<close> are boxes; and two stores that
  agree on the cells \<open>C\<close>, on the boxes, and on the keys of the nodes \<open>A\<close>.
\<close>

definition unchanged :: "node_ptr set \<Rightarrow> access list \<Rightarrow> ('k, 'v) rb_store \<Rightarrow> ('k, 'v) rb_store \<Rightarrow> bool" where
  "unchanged N w s s' \<longleftrightarrow> (\<forall>c. c \<notin> written w \<longrightarrow> \<not> box_cells N c \<longrightarrow> same_cell s s' c) \<and>
     (\<forall>a. a \<notin> N \<longrightarrow> rb_key s' a = rb_key s a)"

definition alike :: "node_ptr set \<Rightarrow> node_ptr set \<Rightarrow> rb_cell set \<Rightarrow> ('k, 'v) rb_store \<Rightarrow> ('k, 'v) rb_store \<Rightarrow> bool" where
  "alike A N C s t \<longleftrightarrow> (\<forall>c. c \<in> C \<or> box_cells N c \<longrightarrow> same_cell s t c) \<and> (\<forall>a\<in>A. rb_key s a = rb_key t a)"

lemma box_cells_mono: "box_cells N c \<Longrightarrow> N \<subseteq> M \<Longrightarrow> box_cells M c"
  by (cases c) auto

lemma unchanged_refl [simp]: "unchanged N w s s"
  by (simp add: unchanged_def)

lemma unchanged_append:
  assumes "unchanged N w s s'" and "unchanged M w' s' s''" and "N \<subseteq> M"
  shows "unchanged M (w @ w') s s''"
  using assms unfolding unchanged_def written_simps by (metis UnCI box_cells_mono same_cell_trans subsetD)

lemma alike_subset: "alike A N C s t \<Longrightarrow> C' \<subseteq> C \<Longrightarrow> alike A N C' s t"
  by (auto simp: alike_def)

lemma alike_middle:
  assumes "alike A N C s t" and "alike A' M (written w) s' t'" and "unchanged M w s s'" and "unchanged M w t t'"
    and "\<And>c. c \<in> C' \<Longrightarrow> \<not> box_cells M c \<Longrightarrow> c \<in> C"
  shows "alike A' M C' s' t'"
  unfolding alike_def
proof (intro conjI allI impI ballI)
  fix c
  assume c: "c \<in> C' \<or> box_cells M c"
  show "same_cell s' t' c"
  proof (cases "c \<in> written w \<or> box_cells M c")
    case False
    then have "same_cell s' s c" "same_cell s t c" "same_cell t t' c"
      using assms(1,3-5) c by (auto simp: unchanged_def alike_def intro: same_cell_sym)
    then show ?thesis by (blast intro: same_cell_trans)
  qed (use assms(2) in \<open>auto simp: alike_def\<close>)
qed (use assms(2) in \<open>auto simp: alike_def\<close>)

lemma alike_final:
  assumes "alike A N (written w) s' t'" and "alike A' M (written w') s'' t''" and "unchanged M w' s' s''" and "unchanged M w' t' t''"
  shows "alike A' M (written (w @ w')) s'' t''"
  unfolding alike_def
proof (intro conjI allI impI ballI)
  fix c
  assume c: "c \<in> written (w @ w') \<or> box_cells M c"
  show "same_cell s'' t'' c"
  proof (cases "c \<in> written w' \<or> box_cells M c")
    case False
    then have "same_cell s'' s' c" "same_cell s' t' c" "same_cell t' t'' c"
      using assms(1,3,4) c by (auto simp: unchanged_def alike_def intro: same_cell_sym)
    then show ?thesis by (blast intro: same_cell_trans)
  qed (use assms(2) in \<open>auto simp: alike_def\<close>)
qed (use assms(2) in \<open>auto simp: alike_def\<close>)

text \<open>
  The run of \<open>m\<close> from \<open>s\<close> to \<open>s'\<close>, in which the boxes \<open>B\<close> have been allocated, reads cells of the nodes \<open>A\<close> and of these boxes.
  Any store that is like \<open>s\<close> in what the run reads elsewhere gives the same run.
\<close>

definition replay ::
  "node_ptr set \<Rightarrow> node_ptr set \<Rightarrow> node_ptr set \<Rightarrow> ('k, 'v, 'a) rb \<Rightarrow> ('k, 'v) rb_store \<Rightarrow> 'a \<Rightarrow> ('k, 'v) rb_store \<Rightarrow>
     access list \<Rightarrow> bool" where
  "replay A N B m s x s' w \<longleftrightarrow>
     m (s, None) = Inr (x, s', None, w) \<and> closed (A \<union> B) s' \<and> unchanged (N \<union> B) w s s' \<and>
     (\<forall>c\<in>reads w. c = Root_Cell \<or> box_cells (A \<union> B) c) \<and>
     (\<forall>t. alike A N {c \<in> reads w. \<not> box_cells B c} s t \<longrightarrow>
       (\<exists>t'. m (t, None) = Inr (x, t', None, w) \<and> alike (A \<union> B) (N \<union> B) (written w) s' t' \<and> unchanged (N \<union> B) w t t'))"

lemma box_cells_Un [simp]: "box_cells (N \<union> M) c \<longleftrightarrow> box_cells N c \<or> box_cells M c"
  by (cases c) auto

lemma box_cells_empty [simp]: "\<not> box_cells {} c"
  by (cases c) auto

lemma box_cells_disjoint: "box_cells N c \<Longrightarrow> box_cells M c \<Longrightarrow> N \<inter> M \<noteq> {}"
  by (cases c) auto

lemma replay_bind:
  assumes m: "replay A N B m s x s1 w1" and f: "replay (A \<union> B) (N \<union> B) B' (f x) s1 y s2 w2" and new: "A \<inter> B' = {}"
  shows "replay A N (B \<union> B') (and_then m f) s y s2 (w1 @ w2)"
  unfolding replay_def
proof (intro conjI allI impI ballI)
  show "and_then m f (s, None) = Inr (y, s2, None, w1 @ w2)"
    using m f by (simp add: replay_def and_then_def)
  show "closed (A \<union> (B \<union> B')) s2"
    using f by (simp add: replay_def Un_assoc)
  have u: "unchanged (N \<union> B) w1 s s1" "unchanged (N \<union> B \<union> B') w2 s1 s2"
    using m f by (simp_all add: replay_def)
  show "unchanged (N \<union> (B \<union> B')) (w1 @ w2) s s2"
    using unchanged_append [OF u Un_upper1] by (simp add: Un_assoc)
  show "c = Root_Cell \<or> box_cells (A \<union> (B \<union> B')) c" if "c \<in> reads (w1 @ w2)" for c
    using that m f by (auto simp: replay_def)
  fix t
  let ?C = "{c \<in> reads (w1 @ w2). \<not> box_cells (B \<union> B') c}"
  assume t: "alike A N ?C s t"
  have "{c \<in> reads w1. \<not> box_cells B c} \<subseteq> ?C"
  proof
    fix c
    assume c: "c \<in> {c \<in> reads w1. \<not> box_cells B c}"
    then have "c = Root_Cell \<or> box_cells A c" using m by (auto simp: replay_def)
    then have "\<not> box_cells B' c" using new box_cells_disjoint [of A c B'] by auto
    with c show "c \<in> ?C" by simp
  qed
  with t have "alike A N {c \<in> reads w1. \<not> box_cells B c} s t" by (rule alike_subset)
  then obtain t1 where t1: "m (t, None) = Inr (x, t1, None, w1)" "alike (A \<union> B) (N \<union> B) (written w1) s1 t1" "unchanged (N \<union> B) w1 t t1"
    using m unfolding replay_def by blast
  have "alike (A \<union> B) (N \<union> B) {c \<in> reads w2. \<not> box_cells B' c} s1 t1"
    by (rule alike_middle [OF t t1(2) u(1) t1(3)]) auto
  then obtain t2 where t2: "f x (t1, None) = Inr (y, t2, None, w2)" "alike (A \<union> B \<union> B') (N \<union> B \<union> B') (written w2) s2 t2"
      "unchanged (N \<union> B \<union> B') w2 t1 t2"
    using f unfolding replay_def by blast
  have "alike (A \<union> B \<union> B') (N \<union> B \<union> B') (written (w1 @ w2)) s2 t2"
    by (rule alike_final [OF t1(2) t2(2) u(2) t2(3)])
  with t1 t2 unchanged_append [OF t1(3) t2(3) Un_upper1]
  show "\<exists>t'. and_then m f (t, None) = Inr (y, t', None, w1 @ w2) \<and> alike (A \<union> (B \<union> B')) (N \<union> (B \<union> B')) (written (w1 @ w2)) s2 t' \<and>
      unchanged (N \<union> (B \<union> B')) (w1 @ w2) t t'"
    by (intro exI [of _ t2]) (simp add: and_then_def Un_assoc)
qed

section \<open>Tidy operations\<close>

text \<open>
  The one read that nothing checks: \<open>insert\<close> finds that a node is the root by its parent, which is null.
\<close>

fun root_word :: "node_ptr set \<Rightarrow> ('k, 'v) rb_store \<Rightarrow> rb_cell \<Rightarrow> bool" where
  "root_word A s (Parent_Color_Cell a) \<longleftrightarrow> a \<in> A \<and> parent_colors s a = 0"
| "root_word A s _ \<longleftrightarrow> False"

definition excused :: "node_ptr set \<Rightarrow> node_ptr set \<Rightarrow> ('k, 'v) rb_store \<Rightarrow> rb_cell set" where
  "excused A N s = {c. root_word A s c \<or> box_cells N c}"

lemma excused_step:
  assumes "unchanged N w s s'" and "N \<subseteq> M"
  shows "excused A N s' \<subseteq> excused A N s \<union> written w"
proof
  fix c
  assume c: "c \<in> excused A N s'"
  show "c \<in> excused A N s \<union> written w"
  proof (cases "c \<in> written w \<or> box_cells N c")
    case False
    then have "same_cell s s' c" using assms by (simp add: unchanged_def)
    with c False show ?thesis by (cases c) (auto simp: excused_def)
  qed (auto simp: excused_def)
qed

text \<open>
  \<open>pays A N G D m P\<close>: on the nodes \<open>A\<close>, every run of \<open>m\<close> can be replayed and has a result with \<open>P\<close>; after it commit has
  no need to check the cells \<open>G x\<close> again, and of what it reads it checks all but the cells \<open>D x\<close>. And \<open>tidy A N V D m P\<close>: after a run of \<open>m\<close>, commit
  checks all that it reads and the cells \<open>D\<close>, if it checks the cells \<open>V\<close>.
\<close>

definition pays ::
  "node_ptr set \<Rightarrow> node_ptr set \<Rightarrow> ('a \<Rightarrow> rb_cell set) \<Rightarrow> ('a \<Rightarrow> rb_cell set) \<Rightarrow> ('k, 'v, 'a) rb \<Rightarrow> ('a \<Rightarrow> bool) \<Rightarrow> bool"
  where
  "pays A N G D m P \<longleftrightarrow> (\<forall>s x s' n w. closed A s \<longrightarrow> m (s, None) = Inr (x, s', n, w) \<longrightarrow>
     n = None \<and> P x \<and> replay A N {} m s x s' w \<and> G x \<subseteq> validated w \<union> excused A N s \<and>
     relaxed w \<subseteq> validated w \<union> D x \<union> excused A N s)"

definition tidy ::
  "node_ptr set \<Rightarrow> node_ptr set \<Rightarrow> rb_cell set \<Rightarrow> rb_cell set \<Rightarrow> ('k, 'v, 'a) rb \<Rightarrow> ('a \<Rightarrow> bool) \<Rightarrow> bool" where
  "tidy A N V D m P \<longleftrightarrow> (\<forall>s x s' n w. closed A s \<longrightarrow> m (s, None) = Inr (x, s', n, w) \<longrightarrow>
     n = None \<and> P x \<and> replay A N {} m s x s' w \<and> D \<union> relaxed w \<subseteq> V \<union> validated w \<union> excused A N s)"

lemma tidy_pays: "tidy A N {} G m P \<Longrightarrow> pays A N (\<lambda>_. G) (\<lambda>_. {}) m P"
  unfolding tidy_def pays_def by fast

lemma tidy_bind:
  assumes m: "pays A N G D' m Q" and f: "\<And>x. Q x \<Longrightarrow> tidy A N (G x \<union> V) (D' x \<union> D) (f x) P"
  shows "tidy A N V D (and_then m f) P"
  unfolding tidy_def
proof (intro allI impI)
  fix s y s2 n w
  assume s: "closed A s" and run: "and_then m f (s, None) = Inr (y, s2, n, w)"
  obtain x s1 n1 w1 where m1: "m (s, None) = Inr (x, s1, n1, w1)"
    using run by (auto simp: and_then_def split: sum.splits prod.splits)
  from m [unfolded pays_def, rule_format, OF s m1]
  have 1: "n1 = None" "Q x" "replay A N {} m s x s1 w1" "G x \<subseteq> validated w1 \<union> excused A N s" "relaxed w1 \<subseteq> validated w1 \<union> D' x \<union> excused A N s"
    by blast+
  obtain w2 where f1: "f x (s1, None) = Inr (y, s2, n, w2)" and w: "w = w1 @ w2"
    using run m1 1(1) by (auto simp: and_then_def split: sum.splits prod.splits)
  have s1: "closed A s1" "unchanged N w1 s s1" using 1(3) by (simp_all add: replay_def)
  from f [OF 1(2), unfolded tidy_def, rule_format, OF s1(1) f1]
  have 2: "n = None" "P y" "replay A N {} (f x) s1 y s2 w2"
    "D' x \<union> D \<union> relaxed w2 \<subseteq> G x \<union> V \<union> validated w2 \<union> excused A N s1"
    by blast+
  have "D \<union> relaxed w \<subseteq> V \<union> validated w \<union> excused A N s"
    using 1(4,5) 2(4) excused_step [OF s1(2) subset_refl] written_validated [of w1] unfolding w relaxed_simps validated_simps
    by fast
  moreover have "replay A N {} (and_then m f) s y s2 w"
    using replay_bind [OF 1(3), of "{}" f y s2 w2] 2(3) by (simp add: w)
  ultimately show "n = None \<and> P y \<and> replay A N {} (and_then m f) s y s2 w \<and> D \<union> relaxed w \<subseteq> V \<union> validated w \<union> excused A N s"
    using 2(1,2) by blast
qed

end
