(* ===== verification/Rb_Tidy.thy ===== *)
theory Rb_Tidy
  imports Rb_Replay
begin

text \<open>
  That the operations of the tree are tidy, from the accesses up: rules for each access, one for each kind of branch, and
  then the operations of theory \<open>Rb_Base\<close>, each by these rules and those of the operations it calls.
\<close>

section \<open>Rules for the accesses\<close>

lemma pays_read:
  assumes "\<And>s. closed A s \<Longrightarrow> R (h s)" and "\<And>s t. same_cell s t c \<Longrightarrow> h s = h t" and "c = Root_Cell \<or> box_cells A c"
  shows "pays A N (\<lambda>_. validated [Read_Access ord c]) (\<lambda>_. relaxed [Read_Access ord c]) (tx_access (Read_Access ord c) (\<lambda>s. (h s, s))) R"
proof -
  have "h t = h s" if "alike A N {c} s t" for s t
    using that assms(2) [of s t] by (simp add: alike_def)
  then show ?thesis
    using assms(1,3) by (auto simp: pays_def replay_def tx_access_def alike_def)
qed

lemma pays_write:
  assumes "\<And>s. closed A s \<Longrightarrow> closed A (f s)" and "\<And>s c'. c' \<noteq> c \<Longrightarrow> same_cell s (f s) c'"
    and "\<And>s t. same_cell (f s) (f t) c" and "\<And>s. rb_key (f s) = rb_key s"
  shows "pays A N (\<lambda>_. {c}) (\<lambda>_. {}) (tx_access (Write_Access c) (\<lambda>s. ((), f s))) (\<lambda>_. True)"
proof -
  have "same_cell (f s) (f t) c'" if "box_cells N c'" "alike A N {} s t" for s t c'
    using that assms(2) [of c' s] assms(2) [of c' t] assms(3) [of s t] unfolding alike_def
    by (metis same_cell_trans same_cell_sym)
  then show ?thesis
    using assms by (auto simp: pays_def replay_def tx_access_def unchanged_def alike_def)
qed

lemma pays_mut:
  assumes "\<And>s. closed A s \<Longrightarrow> closed A (f s)" and "\<And>s c'. \<not> box_cells N c' \<Longrightarrow> same_cell s (f s) c'"
    and "\<And>s t c'. same_cell s t c' \<Longrightarrow> same_cell (f s) (f t) c'" and "\<And>s. rb_key (f s) = rb_key s"
  shows "pays A N (\<lambda>_. {}) (\<lambda>_. {}) (mut_access f) (\<lambda>_. True)"
  using assms by (auto simp: pays_def replay_def mut_access_def unchanged_def alike_def)

lemma tidy_ok: "P x \<Longrightarrow> D \<subseteq> V \<Longrightarrow> tidy A N V D (ok x) P"
  by (auto simp: tidy_def replay_def ok_def alike_def)

lemma tidy_stuck: "tidy A N V D (stuck e) P"
  by (simp add: tidy_def stuck_def)

lemma tidy_tail:
  assumes "tidy A N V' G m P" and "V' \<subseteq> V" and "D \<subseteq> V \<union> G"
  shows "tidy A N V D m P"
proof -
  have "D \<union> X \<subseteq> V \<union> Y \<union> Z" if "G \<union> X \<subseteq> V' \<union> Y \<union> Z" for X Y Z
    using that assms(2,3) by fast
  with assms(1) show ?thesis unfolding tidy_def by metis
qed

lemma tidy_mono: "tidy A N V D m P \<Longrightarrow> V \<subseteq> V' \<Longrightarrow> tidy A N V' D m P"
  by (rule tidy_tail) auto

lemma tidy_conseq:
  assumes "tidy A N V D m P" and "\<And>x. P x \<Longrightarrow> Q x"
  shows "tidy A N V D m Q"
  using assms unfolding tidy_def by blast

text \<open>An operation that is tidy on its own, in front of another.\<close>

lemma tidy_call:
  assumes "tidy A N {} G m Q" and "\<And>x. Q x \<Longrightarrow> tidy A N (G \<union> V) D (f x) P"
  shows "tidy A N V D (and_then m f) P"
  by (rule tidy_bind [OF tidy_pays [OF assms(1)]]) (use assms(2) in simp)

text \<open>Reads that commit checks, relaxed reads, and writes.\<close>

lemma tidy_get_root:
  "(\<And>x. ref_in A x \<Longrightarrow> tidy A N (insert Root_Cell V) D (g x) P) \<Longrightarrow> tidy A N V D (and_then (get_root ReadWrite) g) P"
  unfolding get_root_def by (rule tidy_bind [OF pays_read [where R = "ref_in A"]]) (auto simp: closed_def)

lemma tidy_get_left:
  "a \<in> A \<Longrightarrow> (\<And>x. ref_in A x \<Longrightarrow> tidy A N (insert (Left_Cell a) V) D (g x) P) \<Longrightarrow> tidy A N V D (and_then (get_left ReadWrite a) g) P"
  "a \<in> A \<Longrightarrow> (\<And>x. ref_in A x \<Longrightarrow> tidy A N V (insert (Left_Cell a) D) (g x) P) \<Longrightarrow> tidy A N V D (and_then (get_left Read a) g) P"
  unfolding get_left_def by (rule tidy_bind [OF pays_read [where R = "ref_in A"]]; auto simp: closed_def)+

lemma tidy_get_right:
  "a \<in> A \<Longrightarrow> (\<And>x. ref_in A x \<Longrightarrow> tidy A N (insert (Right_Cell a) V) D (g x) P) \<Longrightarrow> tidy A N V D (and_then (get_right ReadWrite a) g) P"
  "a \<in> A \<Longrightarrow> (\<And>x. ref_in A x \<Longrightarrow> tidy A N V (insert (Right_Cell a) D) (g x) P) \<Longrightarrow> tidy A N V D (and_then (get_right Read a) g) P"
  unfolding get_right_def by (rule tidy_bind [OF pays_read [where R = "ref_in A"]]; auto simp: closed_def)+

lemma tidy_as_ref_color:
  "a \<in> A \<Longrightarrow> (\<And>x c. ref_in A x \<Longrightarrow> tidy A N (insert (Parent_Color_Cell a) V) D (g (x, c)) P) \<Longrightarrow>
     tidy A N V D (and_then (as_ref_color ReadWrite a) g) P"
  "a \<in> A \<Longrightarrow> (\<And>x c. ref_in A x \<Longrightarrow> tidy A N V (insert (Parent_Color_Cell a) D) (g (x, c)) P) \<Longrightarrow>
     tidy A N V D (and_then (as_ref_color Read a) g) P"
  unfolding as_ref_color_def
  by (rule tidy_bind [OF pays_read [where R = "\<lambda>p. ref_in A (fst p)"]]; auto simp: closed_def parent_in_def)+

lemma tidy_get_color:
  "a \<in> A \<Longrightarrow> (\<And>c. tidy A N (insert (Parent_Color_Cell a) V) D (g c) P) \<Longrightarrow> tidy A N V D (and_then (get_color ReadWrite a) g) P"
  "a \<in> A \<Longrightarrow> (\<And>c. tidy A N V (insert (Parent_Color_Cell a) D) (g c) P) \<Longrightarrow> tidy A N V D (and_then (get_color Read a) g) P"
  unfolding get_color_def by (rule tidy_bind [OF pays_read [where R = "\<lambda>_. True"]]; auto)+

lemma tidy_get_value:
  "a \<in> A \<Longrightarrow> (\<And>v. tidy A N (insert (Value_Cell a) V) D (g v) P) \<Longrightarrow> tidy A N V D (and_then (get_value ReadWrite a) g) P"
  "a \<in> A \<Longrightarrow> (\<And>v. tidy A N V (insert (Value_Cell a) D) (g v) P) \<Longrightarrow> tidy A N V D (and_then (get_value Read a) g) P"
  unfolding get_value_def by (rule tidy_bind [OF pays_read [where R = "\<lambda>_. True"]]; auto)+

lemma same_cell_update [simp]:
  "c \<noteq> Root_Cell \<Longrightarrow> same_cell s (s\<lparr>root_cell := v\<rparr>) c"
  "c \<noteq> Left_Cell a \<Longrightarrow> same_cell s (s\<lparr>lefts := (lefts s)(a := v)\<rparr>) c"
  "c \<noteq> Right_Cell a \<Longrightarrow> same_cell s (s\<lparr>rights := (rights s)(a := v)\<rparr>) c"
  "c \<noteq> Parent_Color_Cell a \<Longrightarrow> same_cell s (s\<lparr>parent_colors := (parent_colors s)(a := w)\<rparr>) c"
  "c \<noteq> Value_Cell a \<Longrightarrow> same_cell s (s\<lparr>rb_val := (rb_val s)(a := x)\<rparr>) c"
  by (cases c; simp)+

lemma same_cell_updates:
  "same_cell s t c \<Longrightarrow> same_cell (s\<lparr>lefts := (lefts s)(a := v)\<rparr>) (t\<lparr>lefts := (lefts t)(a := v)\<rparr>) c"
  "same_cell s t c \<Longrightarrow> same_cell (s\<lparr>rights := (rights s)(a := v)\<rparr>) (t\<lparr>rights := (rights t)(a := v)\<rparr>) c"
  "same_cell s t c \<Longrightarrow> same_cell (s\<lparr>parent_colors := (parent_colors s)(a := w)\<rparr>) (t\<lparr>parent_colors := (parent_colors t)(a := w)\<rparr>) c"
  by (cases c; simp)+

lemma tidy_set_root:
  "ref_in A v \<Longrightarrow> tidy A N (insert Root_Cell V) D (g ()) P \<Longrightarrow> tidy A N V D (and_then (set_root v) g) P"
  unfolding set_root_def by (rule tidy_bind [OF pays_write]) (auto simp: closed_def)

lemma tidy_set_left:
  "ref_in A v \<Longrightarrow> tidy A N (insert (Left_Cell a) V) D (g ()) P \<Longrightarrow> tidy A N V D (and_then (set_left a v) g) P"
  unfolding set_left_def by (rule tidy_bind [OF pays_write]) (auto simp: closed_def)

lemma tidy_set_right:
  "ref_in A v \<Longrightarrow> tidy A N (insert (Right_Cell a) V) D (g ()) P \<Longrightarrow> tidy A N V D (and_then (set_right a v) g) P"
  unfolding set_right_def by (rule tidy_bind [OF pays_write]) (auto simp: closed_def)

lemma tidy_set_parent_color:
  "ref_in A v \<Longrightarrow> tidy A N (insert (Parent_Color_Cell a) V) D (g ()) P \<Longrightarrow>
     tidy A N V D (and_then (set_parent_color a v c) g) P"
  unfolding set_parent_color_def by (rule tidy_bind [OF pays_write]) (auto simp: closed_def)

lemma tidy_set_value:
  "tidy A N (insert (Value_Cell a) V) D (g ()) P \<Longrightarrow> tidy A N V D (and_then (set_value a x) g) P"
  unfolding set_value_def by (rule tidy_bind [OF pays_write]) (auto simp: closed_def)

lemma same_cell_privatized [simp]:
  "same_cell (s\<lparr>privatized := xs\<rparr>) t c = same_cell s t c" "same_cell s (t\<lparr>privatized := xs\<rparr>) c = same_cell s t c"
  by (cases c; simp)+

lemma tidy_privatize: "tidy A N V D (g ()) P \<Longrightarrow> tidy A N V D (and_then (privatize_as_box a) g) P"
  unfolding privatize_as_box_def by (rule tidy_bind [OF pays_mut]) (auto simp: closed_def)

text \<open>The fields of a box.\<close>

lemma tidy_mut:
  "a \<in> N \<Longrightarrow> v \<in> A \<Longrightarrow> tidy A N V D (g ()) P \<Longrightarrow> tidy A N V D (and_then (set_left_mut a v) g) P"
  "a \<in> N \<Longrightarrow> v \<in> A \<Longrightarrow> tidy A N V D (g ()) P \<Longrightarrow> tidy A N V D (and_then (set_right_mut a v) g) P"
  "a \<in> N \<Longrightarrow> v \<in> A \<Longrightarrow> tidy A N V D (g ()) P \<Longrightarrow> tidy A N V D (and_then (set_red_parent_mut a v) g) P"
  "a \<in> N \<Longrightarrow> v \<in> A \<Longrightarrow> tidy A N V D (g ()) P \<Longrightarrow> tidy A N V D (and_then (set_black_parent_mut a v) g) P"
  unfolding set_left_mut_def set_right_mut_def set_red_parent_mut_def set_black_parent_mut_def set_mut_pack
  by (rule tidy_bind [OF pays_mut]; (rule same_cell_updates same_cell_update)?; auto simp: closed_def)+

section \<open>Rules for what has no access\<close>

lemma tidy_unwrap:
  "(\<And>x. r = Valid x \<Longrightarrow> tidy A N V D (g x) P) \<Longrightarrow> tidy A N V D (and_then (unwrap r) g) P"
  by (cases r) (simp_all add: unwrap_simps and_then_ok and_then_stuck tidy_stuck)

lemma tidy_debug_assert: "(b \<Longrightarrow> tidy A N V D (g ()) P) \<Longrightarrow> tidy A N V D (and_then (debug_assert b) g) P"
  by (cases b) (simp_all add: debug_assert_simps and_then_ok and_then_stuck tidy_stuck)

lemma tidy_get_key: "a \<in> A \<Longrightarrow> (\<And>k. tidy A N V D (g k) P) \<Longrightarrow> tidy A N V D (and_then (get_key a) g) P"
proof (rule tidy_bind)
  show "a \<in> A \<Longrightarrow> pays A N (\<lambda>_. {}) (\<lambda>_. {}) (get_key a) (\<lambda>_. True)"
    by (auto simp: pays_def replay_def get_key_def alike_def)
qed simp

lemma tidy_key_less:
  "a \<in> A \<Longrightarrow> b \<in> A \<Longrightarrow> (\<And>k. tidy A N V D (g k) P) \<Longrightarrow> tidy A N V D (and_then (key_less a b) g) P"
  unfolding key_less_def and_then_assoc and_then_ok by (intro tidy_get_key)

lemma tidy_if: "(b \<Longrightarrow> tidy A N V D m P) \<Longrightarrow> (\<not> b \<Longrightarrow> tidy A N V D m' P) \<Longrightarrow> tidy A N V D (if b then m else m') P"
  by simp

lemma tidy_ref:
  "(\<And>x. r = Valid x \<Longrightarrow> tidy A N V D (f x) P) \<Longrightarrow> (r = Null \<Longrightarrow> tidy A N V D m P) \<Longrightarrow>
     tidy A N V D (case r of Valid x \<Rightarrow> f x | Null \<Rightarrow> m) P"
  by (cases r) simp_all

lemma tidy_option:
  "(\<And>x. r = Some x \<Longrightarrow> tidy A N V D (f x) P) \<Longrightarrow> (r = None \<Longrightarrow> tidy A N V D m P) \<Longrightarrow>
     tidy A N V D (case r of None \<Rightarrow> m | Some x \<Rightarrow> f x) P"
  by (cases r) simp_all

lemma tidy_prod: "(\<And>x y. p = (x, y) \<Longrightarrow> tidy A N V D (f x y) P) \<Longrightarrow> tidy A N V D (case p of (x, y) \<Rightarrow> f x y) P"
  by (cases p) simp

lemma tidy_let: "tidy A N V D (f x) P \<Longrightarrow> tidy A N V D (Let x f) P"
  by simp

lemma ref_of_even: "w AND 1 = 0 \<Longrightarrow> ref_of_ptr w = fst (as_ref_color_word w)"
proof -
  assume w: "w AND 1 = 0"
  have "w AND NOT 1 = w"
    using w by (simp add: bit_eq_iff bit_simps) (metis bit_0 bit_1_iff)
  then show ?thesis by (simp add: as_ref_color_word_def ptr_ptr_def)
qed

text \<open>
  A parent that has to be black. If there is none the word is that of a root, and commit need not check it.
\<close>

lemma black_parent_run:
  "black_parent ord a (s, None) =
     (if parent_colors s a AND 1 = 0
      then Inr (ref_of_ptr (parent_colors s a), s, None, [Read_Access ord (Parent_Color_Cell a)]) else Inl Unreachable)"
  by (simp add: black_parent_def and_then_def tx_access_def debug_assert_def ok_def stuck_def)

lemma pays_black_parent:
  assumes "a \<in> A"
  shows "pays A N (\<lambda>x. if x = Null then {Parent_Color_Cell a} else {}) (\<lambda>_. {Parent_Color_Cell a}) (black_parent Read a) (ref_in A)"
proof -
  have "ref_in A (ref_of_ptr (parent_colors s a))" if "closed A s" "parent_colors s a AND 1 = 0" for s :: "('k, 'v) rb_store"
    using that assms by (simp add: ref_of_even closed_def parent_in_def)
  moreover have "parent_colors s a = 0" if "ref_of_ptr (parent_colors s a) = Null" for s :: "('k, 'v) rb_store"
    using that by (simp add: ref_of_ptr_def split: if_splits)
  ultimately show ?thesis
    using assms by (auto simp: pays_def replay_def black_parent_run alike_def excused_def split: if_splits)
qed

lemma tidy_black_parent_null:
  assumes "a \<in> A" and "\<And>x. ref_in A x \<Longrightarrow> tidy A N (if x = Null then insert (Parent_Color_Cell a) V else V) (insert (Parent_Color_Cell a) D) (g x) P"
  shows "tidy A N V D (and_then (black_parent Read a) g) P"
  by (rule tidy_bind [OF pays_black_parent [OF assms(1)]]) (drule assms(2), simp split: if_split_asm)

lemma tidy_black_parent:
  assumes "a \<in> A" and "\<And>x. ref_in A x \<Longrightarrow> tidy A N V (insert (Parent_Color_Cell a) D) (g x) P"
  shows "tidy A N V D (and_then (black_parent Read a) g) P"
  by (rule tidy_black_parent_null [OF assms(1)], drule assms(2)) (auto elim: tidy_mono)

section \<open>The operations\<close>

lemmas tidy_rules = tidy_get_root tidy_get_left tidy_get_right tidy_as_ref_color tidy_get_color tidy_get_value
  tidy_set_root tidy_set_left tidy_set_right tidy_set_parent_color tidy_set_value tidy_privatize tidy_mut
  tidy_unwrap tidy_debug_assert tidy_get_key tidy_key_less tidy_if tidy_ref tidy_option tidy_prod tidy_let
  tidy_black_parent tidy_ok tidy_stuck

lemma and_then_ref: "and_then (case r of Valid x \<Rightarrow> f x | Null \<Rightarrow> m) g = (case r of Valid x \<Rightarrow> and_then (f x) g | Null \<Rightarrow> and_then m g)"
  by (cases r) simp_all

lemma and_then_prod: "and_then (case p of (x, y) \<Rightarrow> f x y) g = (case p of (x, y) \<Rightarrow> and_then (f x y) g)"
  by (cases p) simp

lemma and_then_option: "and_then (case r of None \<Rightarrow> m | Some x \<Rightarrow> f x) g = (case r of None \<Rightarrow> and_then m g | Some x \<Rightarrow> and_then (f x) g)"
  by (cases r) simp_all

lemmas tidy_norm = and_then_assoc and_then_ok and_then_if and_then_ref and_then_prod and_then_option

text \<open>An access at the end of an operation.\<close>

lemma tidy_last: "tidy A N V D (and_then m ok) P \<Longrightarrow> tidy A N V D m P"
  by (simp add: and_then_ok_right)

lemmas tidy_lasts = tidy_last [where m = "set_left a v"] tidy_last [where m = "set_right a v"]
  tidy_last [where m = "set_parent_color a v c"] tidy_last [where m = "debug_assert b"] tidy_last [where m = "get_value ord a"] for a v c b ord

fun place_in :: "node_ptr set \<Rightarrow> location \<Rightarrow> bool" where
  "place_in A (Occupied_By a) \<longleftrightarrow> a \<in> A"
| "place_in A (Vacant_At At_Root) \<longleftrightarrow> True"
| "place_in A (Vacant_At (Left_Of a)) \<longleftrightarrow> a \<in> A"
| "place_in A (Vacant_At (Right_Of a)) \<longleftrightarrow> a \<in> A"

lemma tidy_find_impl:
  "a \<in> A \<Longrightarrow> tidy A N {} {} (find_impl fuel ReadWrite key a) (place_in A)"
proof (induction fuel arbitrary: a)
  case (Suc fuel)
  show ?case
    unfolding find_impl.simps
    by (intro tidy_rules tidy_tail [OF Suc.IH]) (use Suc.prems in auto)
qed (simp add: tidy_stuck)

lemma tidy_location: "tidy A N {} {Root_Cell} (rb_location fuel key default_ordering) (place_in A)"
  unfolding rb_location_def location_readwrite_def location_with_def default_ordering_def ordering.case
  by (intro tidy_rules tidy_tail [OF tidy_find_impl]) auto

fun opt_in :: "node_ptr set \<Rightarrow> node_ptr option \<Rightarrow> bool" where
  "opt_in A (Some a) \<longleftrightarrow> a \<in> A"
| "opt_in A None \<longleftrightarrow> True"

lemma ref_in_eq: "r = Valid a \<Longrightarrow> ref_in A r \<Longrightarrow> a \<in> A"
  by simp

lemma tidy_set_link:
  "ref_in A v \<Longrightarrow> tidy A N {} {} (set_link b a v) (\<lambda>_. True)"
  unfolding set_link_def by (intro tidy_rules tidy_lasts) auto

lemma tidy_set_parent_link:
  "self \<in> A \<Longrightarrow> ref_in A parent \<Longrightarrow> ref_in A v \<Longrightarrow> tidy A N {} {} (set_parent_link self parent v) (\<lambda>_. True)"
  unfolding set_parent_link_def by (intro tidy_rules tidy_tail [OF tidy_set_link]) (auto dest: ref_in_eq)

lemma tidy_set_parent_color_if:
  "ref_in A v \<Longrightarrow> tidy A N {} {} (set_parent_color_if r v c) (\<lambda>_. True)"
  unfolding set_parent_color_if_def by (intro tidy_rules tidy_lasts) auto

lemma tidy_rotate_left_red_helper:
  assumes "self \<in> A" and "right \<in> A" and "ref_in A right_left"
  shows "tidy A N {} {Left_Cell right, Right_Cell self, Parent_Color_Cell right, Parent_Color_Cell self}
    (rotate_left_red_helper self right right_left) (opt_in A)"
  unfolding rotate_left_red_helper_def
  by (intro tidy_rules tidy_call [OF tidy_set_parent_color_if] tidy_call [OF tidy_set_parent_link]) (use assms in auto)

lemma tidy_rotate_right_red_helper:
  assumes "self \<in> A" and "left \<in> A" and "ref_in A left_right"
  shows "tidy A N {} {Right_Cell left, Left_Cell self, Parent_Color_Cell left, Parent_Color_Cell self}
    (rotate_right_red_helper self left left_right) (opt_in A)"
  unfolding rotate_right_red_helper_def
  by (intro tidy_rules tidy_call [OF tidy_set_parent_color_if] tidy_call [OF tidy_set_parent_link]) (use assms in auto)

lemma tidy_insert_case4:
  assumes "self \<in> A" "parent \<in> A" "gp \<in> A" "left \<in> A" "right \<in> A"
  shows "tidy A N {} {Parent_Color_Cell self} (insert_case4 self parent gp b left right) (opt_in A)"
  unfolding insert_case4_def partial_rotate_right_red_helper_def partial_rotate_left_red_helper_def tidy_norm prod.case
  by (intro tidy_rules tidy_tail [OF tidy_rotate_left_red_helper] tidy_tail [OF tidy_rotate_right_red_helper]) (use assms in auto)

fun repair_in :: "node_ptr set \<Rightarrow> repair_result \<Rightarrow> bool" where
  "repair_in A (NewRoot a) \<longleftrightarrow> a \<in> A"
| "repair_in A (PublishRoot a) \<longleftrightarrow> a \<in> A"
| "repair_in A RootUnchanged \<longleftrightarrow> True"

lemma repair_in_of [simp]: "repair_in A (repair_of r) \<longleftrightarrow> opt_in A r"
  by (cases r) (simp_all add: repair_of_def)

lemma tidy_repair:
  "(\<And>a. r = NewRoot a \<Longrightarrow> tidy A N V D (f a) P) \<Longrightarrow> (\<And>a. r = PublishRoot a \<Longrightarrow> tidy A N V D (g a) P) \<Longrightarrow>
     (r = RootUnchanged \<Longrightarrow> tidy A N V D m P) \<Longrightarrow>
     tidy A N V D (case r of NewRoot a \<Rightarrow> f a | PublishRoot a \<Rightarrow> g a | RootUnchanged \<Rightarrow> m) P"
  by (cases r) simp_all

lemma tidy_insert_case4_mut:
  assumes "self \<in> N" "self \<in> A" "parent \<in> A" "gp \<in> A"
  shows "tidy A N {} {} (insert_case4_mut self parent gp b b') (repair_in A)"
  unfolding insert_case4_mut_def publish_left_def publish_right_def tidy_norm
  by (intro tidy_rules tidy_call [OF tidy_set_parent_link] tidy_call [OF tidy_rotate_left_red_helper]
      tidy_call [OF tidy_rotate_right_red_helper]) (use assms in auto)

lemma tidy_red_uncle: "ref_in A uncle \<Longrightarrow> tidy A N {} {} (red_uncle uncle) (opt_in A)"
  unfolding red_uncle_def default_ordering_def by (intro tidy_rules) auto

lemma tidy_insert_loop:
  assumes "this \<in> A" "left \<in> A" "right \<in> A"
  shows "tidy A N {} {} (insert_loop fuel this left right) (repair_in A)"
  using assms
proof (induction fuel arbitrary: this left right)
  case (Suc fuel)
  show ?case
    unfolding insert_loop.simps default_ordering_def tidy_norm
    by (rule tidy_black_parent_null, rule Suc.prems,
      intro tidy_rules tidy_call [OF tidy_red_uncle] tidy_call [OF tidy_insert_case4] tidy_tail [OF Suc.IH])
      (use Suc.prems in auto)
qed (simp add: tidy_stuck)

lemma tidy_insert_fixup:
  assumes "self \<in> N" "self \<in> A" "parent \<in> A"
  shows "tidy A N {} {} (insert_fixup fuel self parent b) (repair_in A)"
  unfolding insert_fixup_def publish_left_def publish_right_def default_ordering_def tidy_norm
  by (intro tidy_rules tidy_call [OF tidy_red_uncle] tidy_tail [OF tidy_insert_loop] tidy_tail [OF tidy_insert_case4_mut])
    (use assms in auto)

text \<open>\<open>insert\<close> after the allocation of the box.\<close>

definition place_box :: "nat \<Rightarrow> node_ptr \<Rightarrow> vacant_location \<Rightarrow> ('k :: linorder, 'v, node_ptr) rb" where
  "place_box fuel n loc =
     (case loc of
        At_Root \<Rightarrow> and_then (publish_root n) (\<lambda>_. ok n)
      | Left_Of parent \<Rightarrow>
          and_then (insert_fixup fuel n parent True) (\<lambda>new_root.
          case new_root of
            NewRoot new_root \<Rightarrow> and_then (set_root (Valid new_root)) (\<lambda>_. ok n)
          | PublishRoot root \<Rightarrow> and_then (publish_root root) (\<lambda>_. ok n)
          | RootUnchanged \<Rightarrow> ok n)
      | Right_Of parent \<Rightarrow>
          and_then (insert_fixup fuel n parent False) (\<lambda>new_root.
          case new_root of
            NewRoot new_root \<Rightarrow> and_then (set_root (Valid new_root)) (\<lambda>_. ok n)
          | PublishRoot root \<Rightarrow> and_then (publish_root root) (\<lambda>_. ok n)
          | RootUnchanged \<Rightarrow> ok n))"

lemma rb_insert_box: "rb_insert fuel n key v loc = and_then (new_node n key v) (\<lambda>_. place_box fuel n loc)"
  by (simp add: rb_insert_def place_box_def)

lemma tidy_place_box:
  assumes "n \<in> N" "n \<in> A" "place_in A (Vacant_At loc)"
  shows "tidy A N {} {} (place_box fuel n loc) (\<lambda>x. x = n)"
  using assms unfolding place_box_def publish_root_def
  by (cases loc; simp only: vacant_location.case; intro tidy_rules tidy_repair tidy_call [OF tidy_insert_fixup]) auto

lemma tidy_leftmost_loop:
  "a \<in> A \<Longrightarrow> ref_in A r \<Longrightarrow> tidy A N {} {} (leftmost_loop fuel a r) (\<lambda>(x, y). x \<in> A \<and> y \<in> A)"
proof (induction fuel arbitrary: a r)
  case (Suc fuel)
  show ?case
    unfolding leftmost_loop.simps default_ordering_def
    by (intro tidy_rules tidy_tail [OF Suc.IH]) (use Suc.prems in auto)
qed (simp add: tidy_stuck)

definition unlink_in :: "node_ptr set \<Rightarrow> rbref option \<times> rbref \<Rightarrow> bool" where
  "unlink_in A r \<longleftrightarrow> (case fst r of Some x \<Rightarrow> ref_in A x | None \<Rightarrow> True) \<and> ref_in A (snd r)"

lemma tidy_remove_nofix:
  assumes "self \<in> A"
  shows "tidy A N {} {} (remove_nofix fuel self) (unlink_in A)"
  unfolding remove_nofix_def default_ordering_def Let_def tidy_norm
  by (intro tidy_rules tidy_call [OF tidy_set_parent_link] tidy_call [OF tidy_leftmost_loop])
    (use assms in \<open>auto simp: unlink_in_def\<close>)

lemma tidy_ref_black: "ref_in A r \<Longrightarrow> tidy A N {} {} (ref_black r) (\<lambda>_. True)"
  unfolding ref_black_def default_ordering_def by (intro tidy_rules) auto

lemma tidy_reparent_if: "ref_in A r \<Longrightarrow> p \<in> A \<Longrightarrow> tidy A N {} {} (reparent_if r p) (\<lambda>_. True)"
  unfolding reparent_if_def by (intro tidy_rules tidy_lasts) auto

lemma tidy_take_place_of:
  "sibling \<in> A \<Longrightarrow> ref_in A gp \<Longrightarrow> opt_in A result \<Longrightarrow> tidy A N {} {} (take_place_of sibling gp c result) (opt_in A)"
  unfolding take_place_of_def by (intro tidy_rules tidy_call [OF tidy_set_parent_link]) auto

lemma tidy_fixup_rotate_left:
  assumes "parent \<in> A" "sibling \<in> A" "ref_in A sibling_right" "opt_in A result"
  shows "tidy A N {} {} (fixup_rotate_left parent sibling sibling_right result) (opt_in A)"
  unfolding fixup_rotate_left_def
  by (intro tidy_rules tidy_call [OF tidy_reparent_if] tidy_tail [OF tidy_take_place_of]) (use assms in auto)

lemma tidy_fixup_rotate_right:
  assumes "parent \<in> A" "sibling \<in> A" "ref_in A sibling_left" "opt_in A result"
  shows "tidy A N {} {} (fixup_rotate_right parent sibling sibling_left result) (opt_in A)"
  unfolding fixup_rotate_right_def
  by (intro tidy_rules tidy_call [OF tidy_reparent_if] tidy_tail [OF tidy_take_place_of]) (use assms in auto)

lemma or_else_in [simp]: "opt_in A x \<Longrightarrow> opt_in A y \<Longrightarrow> opt_in A (or_else x y)"
  by (cases x) (simp_all add: or_else_def)

text \<open>The assertion on the node was checked in the turn before, where the node was the parent.\<close>

fun parent_cell :: "rbref \<Rightarrow> rb_cell set" where
  "parent_cell (Valid a) = {Parent_Color_Cell a}"
| "parent_cell Null = {}"

lemma tidy_remove_loop_rb:
  assumes "ref_in A node" "parent \<in> A" "opt_in A result"
  shows "tidy A N (parent_cell node) {} (remove_loop_rb fuel node parent result) (opt_in A)"
  using assms
proof (induction fuel arbitrary: node parent result)
  case (Suc fuel)
  show ?case
    unfolding remove_loop_rb.simps default_ordering_def tidy_norm
    by (intro tidy_rules tidy_call [OF tidy_ref_black] tidy_call [OF tidy_rotate_left_red_helper]
        tidy_call [OF tidy_rotate_right_red_helper] tidy_call [OF tidy_set_parent_color_if]
        tidy_tail [OF tidy_fixup_rotate_left] tidy_tail [OF tidy_fixup_rotate_right] tidy_tail [OF Suc.IH])
      (use Suc.prems in auto)
qed (simp add: tidy_stuck)

lemma tidy_remove_fixup:
  "a \<in> A \<Longrightarrow> tidy A N {} {} (remove_fixup fuel a) (opt_in A)"
  unfolding remove_fixup_def by (intro tidy_tail [OF tidy_remove_loop_rb]) auto

lemma tidy_rb_remove:
  assumes "a \<in> A"
  shows "tidy A N {} {} (rb_remove fuel a) (\<lambda>x. x = a)"
  unfolding rb_remove_def tidy_norm
  by (intro tidy_rules tidy_call [OF tidy_remove_nofix] tidy_call [OF tidy_remove_fixup])
    (use assms in \<open>auto simp: unlink_in_def or_else_def split: option.splits\<close>)

end
