(* ===== verification/Rb_Serial.thy ===== *)
theory Rb_Serial
  imports Rb_Tidy Rb_Theorems
begin

text \<open>
  Transactions on a map that go through its entries. What their commit checks is enough: one that ran on an older state and
  finds the checked cells unchanged has the same effect as a run on the state it is committed to.
\<close>

section \<open>Transactions\<close>

text \<open>
  The calls a client makes: \<open>get\<close>; \<open>entry\<close>, then \<open>insert\<close> on either kind of entry, or \<open>remove\<close> on an occupied one; and
  \<open>entry(k).or_insert(d)\<close>, then a read of the value through its cell if the entry was occupied. The result is the
  value that was there.
\<close>

datatype ('k, 'v) map_op = Get 'k | Put 'k 'v | Take 'k | Or_Insert 'k 'v

fun run_op :: "node_ptr \<Rightarrow> ('k :: linorder, 'v) map_op \<Rightarrow> ('k, 'v, 'v option) rb" where
  "run_op n (Get key) = map_get rb_fuel key"
| "run_op n (Put key value) =
     and_then (map_entry rb_fuel key) (\<lambda>e.
     case e of
       Occupied_Entry node key \<Rightarrow> and_then (occupied_entry_insert node value) (\<lambda>v. ok (Some v))
     | Vacant_Entry location key \<Rightarrow> and_then (vacant_entry_insert rb_fuel n location key value) (\<lambda>_. ok None))"
| "run_op n (Take key) =
     and_then (map_entry rb_fuel key) (\<lambda>e.
     case e of
       Occupied_Entry node key \<Rightarrow> and_then (occupied_entry_remove rb_fuel node) (\<lambda>v. ok (Some v))
     | Vacant_Entry location key \<Rightarrow> ok None)"
| "run_op n (Or_Insert key value) =
     and_then (map_entry rb_fuel key) (\<lambda>e.
     and_then (or_insert rb_fuel n value e) (\<lambda>v.
     case v of
       Shared node \<Rightarrow> and_then (get_value default_ordering node) (\<lambda>v. ok (Some v))
     | Owned node \<Rightarrow> ok None))"

text \<open>A client chooses each call by the results of those before; every call has an address for the box it may need.\<close>

datatype ('k, 'v) client = Return | Call "('k, 'v) map_op" "'v option \<Rightarrow> ('k, 'v) client"

primrec run_client :: "('k :: linorder, 'v) client \<Rightarrow> node_ptr list \<Rightarrow> ('k, 'v, 'v option list) rb" where
  "run_client Return = (\<lambda>bs. ok [])"
| "run_client (Call c next_call) = (\<lambda>bs.
     case bs of
       [] \<Rightarrow> stuck No_Fuel
     | b # bs \<Rightarrow> and_then (run_op b c) (\<lambda>r. and_then (run_client (next_call r) bs) (\<lambda>rs. ok (r # rs))))"

text \<open>The boxes that a run has put into the tree, by its results.\<close>

fun op_boxes :: "node_ptr \<Rightarrow> ('k, 'v) map_op \<Rightarrow> 'v option \<Rightarrow> node_ptr set" where
  "op_boxes n (Put key value) None = {n}"
| "op_boxes n (Or_Insert key value) None = {n}"
| "op_boxes n c r = {}"

primrec client_boxes :: "('k, 'v) client \<Rightarrow> node_ptr list \<Rightarrow> 'v option list \<Rightarrow> node_ptr set" where
  "client_boxes Return = (\<lambda>bs rs. {})"
| "client_boxes (Call c next_call) = (\<lambda>bs rs.
     case (bs, rs) of
       (b # bs, r # rs) \<Rightarrow> op_boxes b c r \<union> client_boxes (next_call r) bs rs
     | _ \<Rightarrow> {})"

text \<open>The same calls on a finite map.\<close>

fun spec_op :: "('k, 'v) map_op \<Rightarrow> ('k \<rightharpoonup> 'v) \<Rightarrow> 'v option \<times> ('k \<rightharpoonup> 'v)" where
  "spec_op (Get key) m = (m key, m)"
| "spec_op (Put key value) m = (m key, m(key \<mapsto> value))"
| "spec_op (Take key) m = (m key, m(key := None))"
| "spec_op (Or_Insert key value) m = (m key, if m key = None then m(key \<mapsto> value) else m)"

primrec spec_client :: "('k, 'v) client \<Rightarrow> ('k \<rightharpoonup> 'v) \<Rightarrow> 'v option list \<times> ('k \<rightharpoonup> 'v)" where
  "spec_client Return = (\<lambda>m. ([], m))"
| "spec_client (Call c next_call) = (\<lambda>m.
     case spec_op c m of (r, m') \<Rightarrow> (case spec_client (next_call r) m' of (rs, m'') \<Rightarrow> (r # rs, m'')))"

text \<open>
  The cells after the commit: those written have what the transaction wrote, the boxes what it made of them, and the rest
  what they had when it was committed.
\<close>

definition commit_boxes ::
  "('k, 'v) rb_store \<Rightarrow> ('k, 'v) rb_store \<Rightarrow> access list \<Rightarrow> node_ptr set \<Rightarrow> ('k, 'v) rb_store" where
  "commit_boxes now run w B =
     now\<lparr>root_cell := (if Root_Cell \<in> written w then root_cell run else root_cell now),
       lefts := (\<lambda>a. if a \<in> B \<or> Left_Cell a \<in> written w then lefts run a else lefts now a),
       rights := (\<lambda>a. if a \<in> B \<or> Right_Cell a \<in> written w then rights run a else rights now a),
       parent_colors := (\<lambda>a. if a \<in> B \<or> Parent_Color_Cell a \<in> written w then parent_colors run a else parent_colors now a),
       rb_key := (\<lambda>a. if a \<in> B then rb_key run a else rb_key now a),
       rb_val := (\<lambda>a. if a \<in> B \<or> Value_Cell a \<in> written w then rb_val run a else rb_val now a)\<rparr>"

section \<open>Each call can be replayed\<close>

text \<open>A run that can be replayed, of which commit checks all reads but that of the parent of a root.\<close>

definition tidy_run ::
  "node_ptr set \<Rightarrow> node_ptr set \<Rightarrow> node_ptr set \<Rightarrow> ('k, 'v, 'a) rb \<Rightarrow> ('k, 'v) rb_store \<Rightarrow> 'a \<Rightarrow> ('k, 'v) rb_store \<Rightarrow>
     access list \<Rightarrow> bool" where
  "tidy_run A N B m s x s' w \<longleftrightarrow> replay A N B m s x s' w \<and> relaxed w \<subseteq> validated w \<union> excused A (N \<union> B) s"

lemma excused_boxes:
  assumes "unchanged (N \<union> B) w s s'"
  shows "excused (A \<union> B) (N \<union> B \<union> B') s' \<subseteq> excused A (N \<union> (B \<union> B')) s \<union> written w"
proof
  fix c
  assume c: "c \<in> excused (A \<union> B) (N \<union> B \<union> B') s'"
  show "c \<in> excused A (N \<union> (B \<union> B')) s \<union> written w"
  proof (cases "c \<in> written w \<or> box_cells (N \<union> B) c")
    case False
    then have "same_cell s s' c" using assms by (simp add: unchanged_def)
    with c False show ?thesis by (cases c) (auto simp: excused_def)
  qed (auto simp: excused_def)
qed

lemma excused_mono: "N \<subseteq> M \<Longrightarrow> excused A N s \<subseteq> excused A M s"
  unfolding excused_def using box_cells_mono by blast

lemma tidy_run_bind:
  assumes m: "tidy_run A N B m s x s1 w1" and f: "tidy_run (A \<union> B) (N \<union> B) B' (f x) s1 y s2 w2" and new: "A \<inter> B' = {}"
  shows "tidy_run A N (B \<union> B') (and_then m f) s y s2 (w1 @ w2)"
proof -
  have r: "replay A N B m s x s1 w1" "replay (A \<union> B) (N \<union> B) B' (f x) s1 y s2 w2"
    and d: "relaxed w1 \<subseteq> validated w1 \<union> excused A (N \<union> B) s" "relaxed w2 \<subseteq> validated w2 \<union> excused (A \<union> B) (N \<union> B \<union> B') s1"
    using m f by (simp_all add: tidy_run_def)
  have "excused (A \<union> B) (N \<union> B \<union> B') s1 \<subseteq> excused A (N \<union> (B \<union> B')) s \<union> validated w1"
    using r(1) excused_boxes [of N B w1 s s1 A B'] written_validated [of w1] unfolding replay_def by blast
  moreover have "excused A (N \<union> B) s \<subseteq> excused A (N \<union> (B \<union> B')) s"
    by (rule excused_mono) blast
  ultimately show ?thesis
    using d replay_bind [where f = f, OF r new] unfolding tidy_run_def relaxed_simps validated_simps by blast
qed

lemma tidy_run:
  assumes "tidy A N {} D m P" and "closed A s" and "m (s, None) = Inr (x, s', n, w)"
  shows "n = None \<and> P x \<and> tidy_run A N {} m s x s' w \<and> D \<subseteq> validated w \<union> excused A N s"
  using assms(1) [unfolded tidy_def, rule_format, OF assms(2,3)] by (simp add: tidy_run_def)

text \<open>The allocation of a box.\<close>

lemma ref_in_mono: "ref_in A r \<Longrightarrow> ref_in (insert n A) r"
  by (cases r) simp_all

lemma tidy_run_new_node:
  assumes "closed A s" and "new_node n key value (s, None) = Inr (x, s', k, w)"
  shows "k = None \<and> tidy_run A N {n} (new_node n key value) s x s' w"
proof -
  let ?f = "\<lambda>s. s\<lparr>lefts := (lefts s)(n := Null), rights := (rights s)(n := Null), parent_colors := (parent_colors s)(n := null_black),
      rb_key := (rb_key s)(n := key), rb_val := (rb_val s)(n := value)\<rparr>"
  have run: "new_node n key value (t, None) = Inr ((), ?f t, None, [])" for t :: "('a, 'b) rb_store"
    by (simp add: new_node_def mut_access_def)
  have s': "x = ()" "s' = ?f s" "k = None" "w = []" using assms(2) by (auto simp: run)
  have u: "unchanged (N \<union> {n}) [] t (?f t)" for t :: "('a, 'b) rb_store"
  proof -
    have "same_cell t (?f t) c" if "\<not> box_cells (N \<union> {n}) c" for c
      using that by (cases c) auto
    then show ?thesis by (simp add: unchanged_def)
  qed
  have a: "alike (A \<union> {n}) (N \<union> {n}) {} (?f s) (?f t)" if "alike A N {} s t" for t
  proof -
    have "same_cell (?f s) (?f t) c" if "box_cells (N \<union> {n}) c" for c
      using that \<open>alike A N {} s t\<close> [unfolded alike_def, THEN conjunct1, rule_format, of c] by (cases c) auto
    then show ?thesis using that by (simp add: alike_def)
  qed
  have "closed (A \<union> {n}) (?f s)"
    using assms(1) by (auto simp: closed_def null_black_pack parent_in_def intro: ref_in_mono)
  with u a show ?thesis by (auto simp: tidy_run_def replay_def run s')
qed

lemma run_bind:
  assumes "and_then m f (s, None) = Inr (y, s2, k, w)"
  obtains x s1 k1 w1 w2 where "m (s, None) = Inr (x, s1, k1, w1)" and "k1 = None \<Longrightarrow> f x (s1, None) = Inr (y, s2, k, w2)" and "w = w1 @ w2"
  using assms by (auto simp: and_then_def split: sum.splits prod.splits)

lemma alloc_run:
  assumes s: "closed A s" and n: "n \<notin> A" and g: "tidy (insert n A) (insert n N) {} {} g P"
    and run: "and_then (new_node n key value) (\<lambda>_. g) (s, None) = Inr (r, s', k, w)"
  shows "k = None \<and> P r \<and> tidy_run A N {n} (and_then (new_node n key value) (\<lambda>_. g)) s r s' w"
proof -
  obtain x s1 k1 w1 w2 where 1: "new_node n key value (s, None) = Inr (x, s1, k1, w1)"
    "k1 = None \<Longrightarrow> g (s1, None) = Inr (r, s', k, w2)" "w = w1 @ w2"
    by (rule run_bind [OF run]) blast
  from tidy_run_new_node [OF s 1(1)] have m: "k1 = None" "tidy_run A N {n} (new_node n key value) s x s1 w1" by blast+
  then have "closed (insert n A) s1" by (simp add: tidy_run_def replay_def)
  from tidy_run [OF g this 1(2) [OF m(1)]] have "k = None" "P r" "tidy_run (A \<union> {n}) (N \<union> {n}) {} g s1 r s' w2" by simp_all
  with tidy_run_bind [OF m(2), of "{}" "\<lambda>_. g"] 1(3) show ?thesis by simp
qed

fun entry_in :: "node_ptr set \<Rightarrow> 'k entry \<Rightarrow> bool" where
  "entry_in A (Occupied_Entry node key) \<longleftrightarrow> node \<in> A"
| "entry_in A (Vacant_Entry location key) \<longleftrightarrow> place_in A (Vacant_At location)"

lemma tidy_map_entry: "tidy A N {} {Root_Cell} (map_entry fuel key) (entry_in A)"
  unfolding map_entry_def
  by (rule tidy_call [OF tidy_location]) (rule tidy_ok; auto split: location.splits)

text \<open>A call that goes on from an entry.\<close>

lemma entry_run:
  assumes s: "closed A s" and run: "and_then (map_entry fuel key) g (s, None) = Inr (r, s', k, w)" and new: "A \<inter> B = {}"
    and g: "\<And>e s1 w2. entry_in A e \<Longrightarrow> closed A s1 \<Longrightarrow> g e (s1, None) = Inr (r, s', k, w2) \<Longrightarrow> k = None \<and> tidy_run A N B (g e) s1 r s' w2"
  shows "k = None \<and> tidy_run A N B (and_then (map_entry fuel key) g) s r s' w \<and> Root_Cell \<in> validated w"
proof -
  obtain e s1 k1 w1 w2 where 1: "map_entry fuel key (s, None) = Inr (e, s1, k1, w1)"
    "k1 = None \<Longrightarrow> g e (s1, None) = Inr (r, s', k, w2)" "w = w1 @ w2"
    by (rule run_bind [OF run]) blast
  from tidy_run [OF tidy_map_entry s 1(1)] have m: "k1 = None" "entry_in A e" "tidy_run A N {} (map_entry fuel key) s e s1 w1"
      "Root_Cell \<in> validated w1 \<union> excused A N s"
    by blast+
  have "closed A s1" using m(3) by (simp add: tidy_run_def replay_def)
  from g [OF m(2) this 1(2) [OF m(1)]] have "k = None" "tidy_run (A \<union> {}) (N \<union> {}) B (g e) s1 r s' w2" by simp_all
  with tidy_run_bind [OF m(3), of B g] new m(4) 1(3) show ?thesis by (simp add: excused_def)
qed

lemma op_boxes_some: "r \<noteq> None \<Longrightarrow> op_boxes n c r = {}"
  by (cases "(n, c, r)" rule: op_boxes.cases) auto

lemma op_boxes_subset: "op_boxes n c r \<subseteq> {n}"
  by (cases "(n, c, r)" rule: op_boxes.cases) auto

lemma vacant_insert_box:
  "and_then (vacant_entry_insert fuel n location key v) f =
     and_then (new_node n key v) (\<lambda>_. and_then (place_box fuel n location) f)"
  by (simp add: rb_insert_box and_then_assoc)

lemma tidy_occupied_insert: "a \<in> A \<Longrightarrow> tidy A N {} {} (and_then (occupied_entry_insert a v) (\<lambda>v. ok (Some v))) (\<lambda>r. r \<noteq> None)"
  unfolding occupied_entry_insert_def replace_value_def tidy_norm by (intro tidy_rules) auto

lemma tidy_occupied_remove:
  "a \<in> A \<Longrightarrow> tidy A N {} {} (and_then (occupied_entry_remove fuel a) (\<lambda>v. ok (Some v))) (\<lambda>r. r \<noteq> None)"
  unfolding occupied_entry_remove_def default_ordering_def tidy_norm by (intro tidy_rules tidy_call [OF tidy_rb_remove]) auto

lemma tidy_shared_value:
  "a \<in> A \<Longrightarrow> tidy A N {} {} (and_then (get_value default_ordering a) (\<lambda>v. ok (Some v))) (\<lambda>r. r \<noteq> None)"
  unfolding default_ordering_def by (intro tidy_rules) auto

lemma tidy_placed:
  "n \<in> N \<Longrightarrow> n \<in> A \<Longrightarrow> place_in A (Vacant_At location) \<Longrightarrow>
     tidy A N {} {} (and_then (place_box fuel n location) (\<lambda>_. ok None)) (\<lambda>r. r = None)"
  by (intro tidy_call [OF tidy_place_box] tidy_ok) auto

lemma place_in_mono: "place_in A x \<Longrightarrow> place_in (insert n A) x"
  by (cases "(A, x)" rule: place_in.cases) auto

lemma tidy_map_get: "tidy A N {} {Root_Cell} (map_get fuel key) (\<lambda>_. True)"
  unfolding map_get_def default_ordering_def
  by (rule tidy_call [OF tidy_location [unfolded default_ordering_def]])
    (auto split: location.splits intro!: tidy_rules)

lemma run_op_tidy:
  assumes s: "closed A s" and n: "n \<notin> A" and run: "run_op n c (s, None) = Inr (r, s', k, w)"
  shows "k = None \<and> tidy_run A N (op_boxes n c r) (run_op n c) s r s' w \<and> Root_Cell \<in> validated w"
proof (cases c)
  case (Get key)
  from tidy_run [OF tidy_map_get s run [unfolded Get run_op.simps]] show ?thesis
    by (auto simp: Get excused_def)
next
  case (Put key v)
  show ?thesis
    unfolding Put run_op.simps
  proof (rule entry_run [OF s run [unfolded Put run_op.simps]])
    fix e s1 w2
    assume e: "entry_in A e" and s1: "closed A s1"
      and g: "(case e of Occupied_Entry node key \<Rightarrow> and_then (occupied_entry_insert node v) (\<lambda>v. ok (Some v))
        | Vacant_Entry location key \<Rightarrow> and_then (vacant_entry_insert rb_fuel n location key v) (\<lambda>_. ok None)) (s1, None) = Inr (r, s', k, w2)"
    show "k = None \<and> tidy_run A N (op_boxes n (Put key v) r) (case e of Occupied_Entry node key \<Rightarrow> and_then (occupied_entry_insert node v) (\<lambda>v. ok (Some v))
        | Vacant_Entry location key \<Rightarrow> and_then (vacant_entry_insert rb_fuel n location key v) (\<lambda>_. ok None)) s1 r s' w2"
    proof (cases e)
      case (Occupied_Entry a key')
      from tidy_run [OF tidy_occupied_insert s1 g [unfolded Occupied_Entry entry.case]] e Occupied_Entry show ?thesis
        by (simp add: op_boxes_some)
    next
      case (Vacant_Entry location key')
      from alloc_run [OF s1 n tidy_placed g [unfolded Vacant_Entry entry.case vacant_insert_box]] e Vacant_Entry show ?thesis
        by (simp only: Vacant_Entry entry.case vacant_insert_box) (auto simp: place_in_mono)
    qed
  qed (use n op_boxes_subset [of n] in blast)
next
  case (Take key)
  show ?thesis
    unfolding Take run_op.simps
  proof (rule entry_run [OF s run [unfolded Take run_op.simps]])
    fix e s1 w2
    assume e: "entry_in A e" and s1: "closed A s1"
      and g: "(case e of Occupied_Entry node key \<Rightarrow> and_then (occupied_entry_remove rb_fuel node) (\<lambda>v. ok (Some v))
        | Vacant_Entry location key \<Rightarrow> ok None) (s1, None) = Inr (r, s', k, w2)"
    have "tidy A N {} {} (case e of Occupied_Entry node key \<Rightarrow> and_then (occupied_entry_remove rb_fuel node) (\<lambda>v. ok (Some v))
        | Vacant_Entry location key \<Rightarrow> ok None) (\<lambda>_. True)"
      using e by (cases e) (auto intro: tidy_ok tidy_conseq [OF tidy_occupied_remove])
    from tidy_run [OF this s1 g]
    show "k = None \<and> tidy_run A N (op_boxes n (Take key) r) (case e of Occupied_Entry node key \<Rightarrow> and_then (occupied_entry_remove rb_fuel node) (\<lambda>v. ok (Some v))
        | Vacant_Entry location key \<Rightarrow> ok None) s1 r s' w2"
      by simp
  qed simp
next
  case (Or_Insert key v)
  let ?g = "\<lambda>e. and_then (or_insert rb_fuel n v e) (\<lambda>v. case v of
     Shared node \<Rightarrow> and_then (get_value default_ordering node) (\<lambda>v. ok (Some v)) | Owned node \<Rightarrow> ok None)"
  show ?thesis
    unfolding Or_Insert run_op.simps
  proof (rule entry_run [OF s run [unfolded Or_Insert run_op.simps]])
    fix e s1 w2
    assume e: "entry_in A e" and s1: "closed A s1" and g: "?g e (s1, None) = Inr (r, s', k, w2)"
    show "k = None \<and> tidy_run A N (op_boxes n (Or_Insert key v) r) (?g e) s1 r s' w2"
    proof (cases e)
      case (Occupied_Entry a key')
      then have ge: "?g e = and_then (get_value default_ordering a) (\<lambda>v. ok (Some v))"
        by (simp add: or_insert_def or_insert_with_def and_then_ok)
      from tidy_run [OF tidy_shared_value s1 g [unfolded ge]] e Occupied_Entry show ?thesis
        unfolding ge by (simp add: op_boxes_some)
    next
      case (Vacant_Entry location key')
      then have ge: "?g e = and_then (new_node n key' v) (\<lambda>_. and_then (place_box rb_fuel n location) (\<lambda>_. ok None))"
        by (simp add: or_insert_def or_insert_with_def and_then_ok and_then_assoc rb_insert_box)
      from alloc_run [OF s1 n tidy_placed g [unfolded ge]] e Vacant_Entry show ?thesis
        unfolding ge by (auto simp: place_in_mono)
    qed
  qed (use n op_boxes_subset [of n] in blast)
qed

section \<open>A transaction can be replayed\<close>

lemma client_boxes_subset: "client_boxes p bs rs \<subseteq> set bs"
proof (induction p arbitrary: bs rs)
  case (Call c next_call)
  have "client_boxes (next_call r) bs' rs' \<subseteq> set bs'" for r bs' rs' by (rule Call.IH) simp
  then show ?case using op_boxes_subset [of _ c] by (fastforce split: list.splits)
qed simp

lemma run_client_tidy:
  assumes "closed A s" and "set bs \<inter> A = {}" and "distinct bs" and "run_client p bs (s, None) = Inr (rs, s', k, w)"
  shows "k = None \<and> tidy_run A N (client_boxes p bs rs) (run_client p bs) s rs s' w \<and> (p = Return \<or> Root_Cell \<in> validated w)"
  using assms
proof (induction p arbitrary: A N s bs rs s' k w)
  case Return
  then show ?case
    by (auto simp: ok_def tidy_run_def replay_def alike_def)
next
  case (Call c next_call)
  then obtain b bs' where bs: "bs = b # bs'" by (cases bs) (auto simp: stuck_def)
  let ?f = "\<lambda>r. and_then (run_client (next_call r) bs') (\<lambda>rs. ok (r # rs))"
  have run: "and_then (run_op b c) ?f (s, None) = Inr (rs, s', k, w)"
    using Call.prems(4) by (simp add: bs)
  obtain r s1 k1 w1 w2 where 1: "run_op b c (s, None) = Inr (r, s1, k1, w1)"
    "k1 = None \<Longrightarrow> ?f r (s1, None) = Inr (rs, s', k, w2)" "w = w1 @ w2"
    by (rule run_bind [OF run]) blast
  let ?B = "op_boxes b c r"
  have b: "b \<notin> A" "b \<notin> set bs'" "set bs' \<inter> A = {}" "distinct bs'" using Call.prems by (auto simp: bs)
  from run_op_tidy [OF Call.prems(1) b(1) 1(1)]
  have m: "k1 = None" "tidy_run A N ?B (run_op b c) s r s1 w1" "Root_Cell \<in> validated w1" by blast+
  obtain rs' s2 k2 w3 w4 where 2: "run_client (next_call r) bs' (s1, None) = Inr (rs', s2, k2, w3)"
    "k2 = None \<Longrightarrow> ok (r # rs') (s2, None) = Inr (rs, s', k, w4)" "w2 = w3 @ w4"
    by (rule run_bind [OF 1(2) [OF m(1)]]) blast
  have s1: "closed (A \<union> ?B) s1" using m(2) by (simp add: tidy_run_def replay_def)
  have "set bs' \<inter> (A \<union> ?B) = {}" using b op_boxes_subset [of b c r] by blast
  from Call.IH [OF _ s1 this b(4) 2(1)] have rest: "k2 = None"
      "tidy_run (A \<union> ?B) (N \<union> ?B) (client_boxes (next_call r) bs' rs') (run_client (next_call r) bs') s1 rs' s2 w3"
    by simp_all
  have last: "rs = r # rs'" "s' = s2" "k = None" "w4 = []" using 2(2) [OF rest(1)] by (auto simp: ok_def)
  have B: "client_boxes (next_call r) bs' rs' \<subseteq> set bs'" by (rule client_boxes_subset)
  have "closed (A \<union> ?B \<union> client_boxes (next_call r) bs' rs') s2"
    using rest(2) by (simp add: tidy_run_def replay_def)
  then have "tidy_run (A \<union> ?B \<union> client_boxes (next_call r) bs' rs') (N \<union> ?B \<union> client_boxes (next_call r) bs' rs') {}
      (ok (r # rs')) s2 rs s2 []"
    by (auto simp: tidy_run_def replay_def alike_def ok_def last)
  from tidy_run_bind [where f = "\<lambda>rs. ok (r # rs)", OF rest(2) this]
  have "tidy_run (A \<union> ?B) (N \<union> ?B) (client_boxes (next_call r) bs' rs') (?f r) s1 rs s' w3"
    by (simp add: last)
  moreover have "A \<inter> client_boxes (next_call r) bs' rs' = {}" using B b(3) by blast
  ultimately have "tidy_run A N (client_boxes (Call c next_call) bs rs) (run_client (Call c next_call) bs) s rs s' w"
    using tidy_run_bind [where f = ?f, OF m(2)] by (simp add: bs last 1(3) 2(3))
  with m(3) show ?case by (simp add: last 1(3))
qed

section \<open>A transaction on a finite map\<close>

lemma tree_in_nodes:
  assumes "tree_in ls rs pcs p t" and "ref_in A (root_of t)" and "\<And>a. a \<in> A \<Longrightarrow> ref_in A (ls a) \<and> ref_in A (rs a)"
  shows "set (inorder t) \<subseteq> A"
  using assms by (induction t arbitrary: p) force+

lemma closed_nodes: "closed A s \<Longrightarrow> holds_tree s t \<Longrightarrow> set (inorder t) \<subseteq> A"
  unfolding holds_tree_def closed_def using tree_in_nodes [of "lefts s" "rights s" "parent_colors s" Null t A] by auto

lemma tree_in_closed:
  assumes "tree_in ls rs pcs p t" and "ref_in A p" and "set (inorder t) \<subseteq> A"
  shows "\<forall>a\<in>set (inorder t). ref_in A (ls a) \<and> ref_in A (rs a) \<and> parent_in A (pcs a)"
  using assms
proof (induction t arbitrary: p)
  case (Node l c a r)
  have "ref_in A (root_of u)" if "set (inorder u) \<subseteq> A" for u
    using that by (cases u) auto
  with Node.prems Node.IH(1) [of "Valid a"] Node.IH(2) [of "Valid a"] show ?case by auto
qed simp

lemma nodes_closed: "holds_tree s t \<Longrightarrow> closed (set (inorder t)) s"
  using tree_in_closed [of "lefts s" "rights s" "parent_colors s" Null t "set (inorder t)"]
  by (cases t) (auto simp: closed_def holds_tree_def)

lemma closed_fresh: "closed A s \<Longrightarrow> n \<notin> A \<Longrightarrow> fresh_node s n"
  unfolding fresh_node_def using closed_nodes by blast

text \<open>The four ways on from an entry.\<close>

lemma occupied_insert_wp:
  assumes "holds_tree s t" and "a \<in> set (inorder t)" and "rb_map s (inorder t) (rb_key s a) = Some (rb_val s a)"
  shows "wp (and_then (occupied_entry_insert a v) (\<lambda>v. ok (Some v)))
    (\<lambda>r s'. r = rb_map s (inorder t) (rb_key s a) \<and> represents s' ((rb_map s (inorder t))(rb_key s a \<mapsto> v))) s"
  using represents_update [OF assms(1,2)] assms(3) by (simp add: occupied_entry_insert_def wp_rules)

lemma vacant_insert_wp:
  assumes "holds_tree s (fill Leaf fs)" and "slot_for (rb_key s) key fs" and "fresh_node s n"
  shows "wp (and_then (vacant_entry_insert rb_fuel n (slot_of fs) key v) (\<lambda>_. ok None))
    (\<lambda>r s'. r = None \<and> represents s' ((rb_map s (inorder (fill Leaf fs)))(key \<mapsto> v))) s"
  by (simp, intro wp_and_then wp_conseq [OF insert_at_wp [OF assms]]) (auto simp: wp_ok represents_def)

lemma occupied_remove_wp:
  assumes h: "holds_tree s (fill (Node l c a r) fs)" and m: "m = rb_map s (inorder (fill (Node l c a r) fs))"
    and "m (rb_key s a) = Some (rb_val s a)"
  shows "wp (and_then (occupied_entry_remove rb_fuel a) (\<lambda>v. ok (Some v)))
    (\<lambda>x s'. x = m (rb_key s a) \<and> represents s' (m(rb_key s a := None))) s"
proof -
  have "wp (rb_remove rb_fuel a) (\<lambda>v. wp (and_then (get_value default_ordering v) (\<lambda>v. ok (Some v)))
      (\<lambda>x s'. x = m (rb_key s a) \<and> represents s' (m(rb_key s a := None)))) s"
    by (rule wp_conseq [OF rb_remove_wp [OF h represents_height [OF h]]])
      (use shrunk_map [OF _ h] assms(2,3) in \<open>auto simp: wp_rules shrunk_def\<close>)
  then show ?thesis by (simp add: occupied_entry_remove_def and_then_assoc wp_and_then)
qed

lemma run_op_wp:
  assumes rep: "represents s m" and n: "fresh_node s n"
  shows "wp (run_op n c) (\<lambda>r s'. r = fst (spec_op c m) \<and> represents s' (snd (spec_op c m))) s"
proof (cases c)
  case (Get key)
  show ?thesis unfolding Get by simp (rule wp_conseq [OF map_get_wp [OF rep]], use rep in simp)
next
  case (Put key v)
  show ?thesis
    unfolding Put run_op.simps map_entry_def and_then_assoc and_then_ok
  proof (rule after_location [OF rep])
    fix l cl a r fs
    assume "holds_tree s (fill (Node l cl a r) fs)" "m = rb_map s (inorder (fill (Node l cl a r) fs))" "rb_key s a = key"
      "m key = Some (rb_val s a)"
    with occupied_insert_wp [of s "fill (Node l cl a r) fs" a v]
    show "wp (case case Occupied_By a of Vacant_At location \<Rightarrow> Vacant_Entry location key | Occupied_By node \<Rightarrow> Occupied_Entry node key of
        Occupied_Entry node key \<Rightarrow> and_then (occupied_entry_insert node v) (\<lambda>v. ok (Some v))
      | Vacant_Entry location key \<Rightarrow> and_then (vacant_entry_insert rb_fuel n location key v) (\<lambda>_. ok None))
        (\<lambda>r s'. r = fst (spec_op (Put key v) m) \<and> represents s' (snd (spec_op (Put key v) m))) s"
      by (simp add: inorder_fill)
  qed (use vacant_insert_wp [OF _ _ n] in simp_all)
next
  case (Take key)
  show ?thesis
    unfolding Take run_op.simps map_entry_def and_then_assoc and_then_ok
  proof (rule after_location [OF rep])
    fix l cl a r fs
    assume "holds_tree s (fill (Node l cl a r) fs)" "m = rb_map s (inorder (fill (Node l cl a r) fs))" "rb_key s a = key"
      "m key = Some (rb_val s a)"
    with occupied_remove_wp [of s l cl a r fs m]
    show "wp (case case Occupied_By a of Vacant_At location \<Rightarrow> Vacant_Entry location key | Occupied_By node \<Rightarrow> Occupied_Entry node key of
        Occupied_Entry node key \<Rightarrow> and_then (occupied_entry_remove rb_fuel node) (\<lambda>v. ok (Some v))
      | Vacant_Entry location key \<Rightarrow> ok None)
        (\<lambda>r s'. r = fst (spec_op (Take key) m) \<and> represents s' (snd (spec_op (Take key) m))) s"
      by simp
  qed (use rep in \<open>simp_all add: wp_ok fun_upd_idem\<close>)
next
  case (Or_Insert key v)
  show ?thesis
    unfolding Or_Insert run_op.simps map_entry_def and_then_assoc and_then_ok
  proof (rule after_location [OF rep])
    fix fs
    assume "holds_tree s (fill Leaf fs)" "m = rb_map s (inorder (fill Leaf fs))" "slot_for (rb_key s) key fs" "m key = None"
    with vacant_insert_wp [OF _ _ n, of fs key v]
    show "wp (and_then (or_insert rb_fuel n v (case Vacant_At (slot_of fs) of Vacant_At location \<Rightarrow> Vacant_Entry location key
          | Occupied_By node \<Rightarrow> Occupied_Entry node key)) (\<lambda>v. case v of
          Shared node \<Rightarrow> and_then (get_value default_ordering node) (\<lambda>v. ok (Some v)) | Owned node \<Rightarrow> ok None))
        (\<lambda>r s'. r = fst (spec_op (Or_Insert key v) m) \<and> represents s' (snd (spec_op (Or_Insert key v) m))) s"
      by (simp add: or_insert_def or_insert_with_def and_then_assoc and_then_ok)
  next
    fix l cl a r fs
    assume "m key = Some (rb_val s a)"
    with rep
    show "wp (and_then (or_insert rb_fuel n v (case Occupied_By a of Vacant_At location \<Rightarrow> Vacant_Entry location key
          | Occupied_By node \<Rightarrow> Occupied_Entry node key)) (\<lambda>v. case v of
          Shared node \<Rightarrow> and_then (get_value default_ordering node) (\<lambda>v. ok (Some v)) | Owned node \<Rightarrow> ok None))
        (\<lambda>r s'. r = fst (spec_op (Or_Insert key v) m) \<and> represents s' (snd (spec_op (Or_Insert key v) m))) s"
      by (simp add: or_insert_def or_insert_with_def and_then_ok wp_rules)
  qed simp
qed

text \<open>The whole transaction.\<close>

lemma run_client_refines:
  assumes "closed A s" and "represents s m" and "set bs \<inter> A = {}" and "distinct bs"
    and "run_client p bs (s, None) = Inr (rs, s', k, w)"
  shows "rs = fst (spec_client p m) \<and> represents s' (snd (spec_client p m))"
  using assms
proof (induction p arbitrary: A s m bs rs s' k w)
  case Return
  then show ?case by (simp add: ok_def)
next
  case (Call c next_call)
  then obtain b bs' where bs: "bs = b # bs'" by (cases bs) (auto simp: stuck_def)
  have run: "and_then (run_op b c) (\<lambda>r. and_then (run_client (next_call r) bs') (\<lambda>rs. ok (r # rs))) (s, None) = Inr (rs, s', k, w)"
    using Call.prems(5) by (simp add: bs)
  obtain r s1 k1 w1 w2 where 1: "run_op b c (s, None) = Inr (r, s1, k1, w1)"
    "k1 = None \<Longrightarrow> and_then (run_client (next_call r) bs') (\<lambda>rs. ok (r # rs)) (s1, None) = Inr (rs, s', k, w2)" "w = w1 @ w2"
    by (rule run_bind [OF run]) blast
  have b: "b \<notin> A" "b \<notin> set bs'" "set bs' \<inter> A = {}" "distinct bs'" using Call.prems by (auto simp: bs)
  from run_op_tidy [OF Call.prems(1) b(1) 1(1), of "{}"]
  have m: "k1 = None" "closed (A \<union> op_boxes b c r) s1" by (simp_all add: tidy_run_def replay_def)
  from run_op_wp [OF Call.prems(2) closed_fresh [OF Call.prems(1) b(1)], of c, unfolded wp_def, rule_format, of None] 1(1)
  have r: "r = fst (spec_op c m)" "represents s1 (snd (spec_op c m))" by simp_all
  obtain rs' s2 k2 w3 w4 where 2: "run_client (next_call r) bs' (s1, None) = Inr (rs', s2, k2, w3)"
    "k2 = None \<Longrightarrow> ok (r # rs') (s2, None) = Inr (rs, s', k, w4)" "w2 = w3 @ w4"
    by (rule run_bind [OF 1(2) [OF m(1)]]) blast
  have d: "set bs' \<inter> (A \<union> op_boxes b c r) = {}" using b op_boxes_subset [of b c r] by blast
  from run_client_tidy [OF m(2) d b(4) 2(1)] have "k2 = None" by blast
  with 2(2) have "rs = r # rs'" "s' = s2" by (simp_all add: ok_def)
  with Call.IH [OF _ m(2) r(2) d b(4) 2(1)] r(1) show ?case by (simp add: split_beta)
qed

section \<open>Commit\<close>

text \<open>Root words need no check: a node without a parent is the root of its tree, and the root cell is checked.\<close>

lemma pack_zero: "pack p c = 0 \<longleftrightarrow> p = Null \<and> c = Black"
proof -
  have "pack Null Black = 0" by (simp add: pack_def)
  then show ?thesis by (metis as_ref_color_pack prod.inject)
qed

lemma zero_parent_root:
  "tree_in ls rs pcs p t \<Longrightarrow> a \<in> set (inorder t) \<Longrightarrow> pcs a = 0 \<Longrightarrow> p = Null \<and> root_of t = Valid a"
proof (induction t arbitrary: p)
  case (Node l c b r)
  then show ?case using Node.IH [of "Valid b"] by (auto simp: pack_zero)
qed simp

lemma root_words_agree:
  assumes s: "holds_tree s t" and now: "holds_tree now t'" and root: "same_cell s now Root_Cell"
    and c: "root_word (set (inorder t)) s c"
  shows "same_cell s now c"
proof -
  obtain a where a: "c = Parent_Color_Cell a" "a \<in> set (inorder t)" "parent_colors s a = 0"
    using c by (cases c) auto
  from zero_parent_root [of "lefts s" "rights s" "parent_colors s" Null t a] s a(2,3) have "root_cell s = Valid a" by (simp add: holds_tree_def)
  then have "root_of t' = Valid a" using root now by (simp add: holds_tree_def)
  then obtain l col r where "t' = Node l col a r" by (cases t') auto
  with now have "parent_colors now a = 0" by (simp add: holds_tree_def rb_tree_def pack_zero)
  with a show ?thesis by simp
qed

text \<open>What is committed is what a run on the present state leaves.\<close>

lemma commit_is_run:
  assumes "alike (A \<union> B) B (written w) run now'" and "unchanged B w now now'"
  shows "commit_boxes now run w B = now'\<lparr>privatized := privatized now\<rparr>"
proof -
  have same: "same_cell (commit_boxes now run w B) now' c" for c
  proof (cases "c \<in> written w \<or> box_cells B c")
    case True
    then have "same_cell run now' c" using assms(1) by (auto simp: alike_def)
    with True show ?thesis by (cases c) (auto simp: commit_boxes_def)
  next
    case False
    then have "same_cell now now' c" using assms(2) by (auto simp: unchanged_def)
    with False show ?thesis by (cases c) (auto simp: commit_boxes_def)
  qed
  have "rb_key (commit_boxes now run w B) a = rb_key now' a" for a
    using assms by (auto simp: commit_boxes_def alike_def unchanged_def)
  then show ?thesis
    using same [of Root_Cell] same [of "Left_Cell _"] same [of "Right_Cell _"] same [of "Parent_Color_Cell _"] same [of "Value_Cell _"]
    by (intro rb_store.equality) (auto simp: fun_eq_iff commit_boxes_def)
qed

lemma represents_privatized [simp]: "represents (s\<lparr>privatized := xs\<rparr>) m \<longleftrightarrow> represents s m"
  by (simp add: represents_def holds_tree_def rb_map_def)

lemma checked_reads_suffice:
  assumes "holds_tree s t" and "represents now m"
    and "distinct bs" and "\<forall>b\<in>set bs. fresh_node s b \<and> fresh_node now b"
    and "\<forall>a\<in>set (inorder t). rb_key now a = rb_key s a"
    and "run_client p bs (s, None) = Inr (rs, run, None, w)" and "\<forall>c\<in>validated w. same_cell s now c"
  shows "(\<exists>now'. run_client p bs (now, None) = Inr (rs, now', None, w) \<and>
      commit_boxes now run w (client_boxes p bs rs) = now'\<lparr>privatized := privatized now\<rparr>) \<and>
    rs = fst (spec_client p m) \<and> represents (commit_boxes now run w (client_boxes p bs rs)) (snd (spec_client p m))"
proof -
  let ?A = "set (inorder t)" and ?B = "client_boxes p bs rs"
  obtain t' where t': "holds_tree now t'" using assms(2) by (auto simp: represents_def)
  have new: "set bs \<inter> ?A = {}" "set bs \<inter> set (inorder t') = {}"
    using assms(1,4) t' by (auto simp: fresh_node_def)
  from run_client_tidy [OF nodes_closed [OF assms(1)] new(1) assms(3,6), of "{}"]
  have tidy: "replay ?A {} ?B (run_client p bs) s rs run w" "relaxed w \<subseteq> validated w \<union> excused ?A ?B s"
    and root: "p = Return \<or> Root_Cell \<in> validated w"
    by (simp_all add: tidy_run_def)
  have "same_cell s now c" if c: "c \<in> reads w" "\<not> box_cells ?B c" for c
  proof (cases "c \<in> validated w")
    case False
    with c tidy(2) reads_checked [of w] have e: "root_word ?A s c" by (auto simp: excused_def)
    have "Root_Cell \<in> validated w" using root c(1) assms(6) by (auto simp: ok_def)
    then have "same_cell s now Root_Cell" using assms(7) by blast
    from root_words_agree [OF assms(1) t' this e] show ?thesis .
  qed (use assms(7) in blast)
  then have "alike ?A {} {c \<in> reads w. \<not> box_cells ?B c} s now"
    using assms(5) by (simp add: alike_def)
  then obtain now' where now': "run_client p bs (now, None) = Inr (rs, now', None, w)"
      "alike (?A \<union> ?B) ({} \<union> ?B) (written w) run now'" "unchanged ({} \<union> ?B) w now now'"
    using tidy(1) unfolding replay_def by blast
  have "commit_boxes now run w ?B = now'\<lparr>privatized := privatized now\<rparr>"
    by (rule commit_is_run [of ?A]) (use now' in simp_all)
  with now'(1) run_client_refines [OF nodes_closed [OF t'] assms(2) new(2) assms(3) now'(1)] show ?thesis
    by simp
qed

text \<open>
  Property C10: the checks of commit are enough for transactions that use the entries of a map. Such a transaction may make its
  calls in any order and choose each by the results of those before. It runs on a state \<open>s\<close>, and commits when the
  state is \<open>now\<close>; all cells that commit checks, those written or read with \<open>Ordering::ReadWrite\<close>, are as they
  were. Then the same calls on \<open>now\<close> give the same results and leave what the commit leaves, and that is what the calls
  give on a finite map, whatever other transactions have done in between.
\<close>

theorem entry_transactions_are_atomic:
  assumes "holds_tree s t" and "represents now m"
    and "distinct bs" and "\<forall>b\<in>set bs. fresh_node s b \<and> fresh_node now b"
    and "\<forall>a\<in>set (inorder t). rb_key now a = rb_key s a"
    and "run_client p bs (s, None) = Inr (rs, run, None, w)" and "\<forall>c\<in>validated w. same_cell s now c"
  shows "(\<exists>now'. run_client p bs (now, None) = Inr (rs, now', None, w) \<and>
      commit_boxes now run w (client_boxes p bs rs) = now'\<lparr>privatized := privatized now\<rparr>) \<and>
    rs = fst (spec_client p m) \<and> represents (commit_boxes now run w (client_boxes p bs rs)) (snd (spec_client p m))"
  by (rule checked_reads_suffice [OF assms])

text \<open>
  In the tree with the keys 10, 20 and 30, a transaction inserts 5 while another one, which commits first, gives 30 a new
  value. Nothing that the first checks has changed.
\<close>

lemma put_run:
  assumes "distinct [g, p, q, n]"
  shows "run_client (Call (Put 5 7) (\<lambda>_. Return)) [n] (three_nodes g p q, None) =
    Inr ([None], (three_nodes g p q)\<lparr>lefts := (lefts (three_nodes g p q))(n := Null, p := Valid n),
        rights := (rights (three_nodes g p q))(n := Null),
        parent_colors := (parent_colors (three_nodes g p q))(n := pack (Valid p) Red),
        rb_key := (rb_key (three_nodes g p q))(n := 5), rb_val := (rb_val (three_nodes g p q))(n := 7)\<rparr>, None,
      [Read_Access ReadWrite Root_Cell, Read_Access ReadWrite (Left_Cell g), Read_Access ReadWrite (Left_Cell p),
       Read_Access ReadWrite (Parent_Color_Cell p), Write_Access (Left_Cell p)])"
proof -
  obtain f where f: "rb_fuel = Suc (Suc (Suc f))"
    by (rule that [of 124]) (simp add: rb_fuel_def)
  have "g \<noteq> p" "p \<noteq> g" "g \<noteq> q" "q \<noteq> g" "p \<noteq> q" "q \<noteq> p" "n \<noteq> g" "n \<noteq> p" "n \<noteq> q" "g \<noteq> n" "p \<noteq> n" "q \<noteq> n"
    using assms by auto
  then show ?thesis
    by (simp add: f map_entry_def rb_location_def location_readwrite_def location_with_def rb_insert_def insert_fixup_def
      exec_defs three_nodes_def default_ordering_def)
qed

lemma entry_transactions_are_atomic_witness:
  "\<exists>(s :: (nat, nat) rb_store) now run w n. represents s [10 \<mapsto> 1, 20 \<mapsto> 2, 30 \<mapsto> 3] \<and>
     run_client (Call (Put 5 7) (\<lambda>_. Return)) [n] (s, None) = Inr ([None], run, None, w) \<and>
     represents now [10 \<mapsto> 1, 20 \<mapsto> 2, 30 \<mapsto> 9] \<and>
     represents (commit_boxes now run w {n}) [5 \<mapsto> 7, 10 \<mapsto> 1, 20 \<mapsto> 2, 30 \<mapsto> 9]"
proof -
  obtain g p q n :: node_ptr where d: "distinct [g, p, q, n]" using four_nodes by blast
  then have d3: "distinct [g, p, q]" by simp
  let ?s = "three_nodes g p q" and ?t = "Node (Node Leaf Black p Leaf) Black g (Node Leaf Black q Leaf)"
  let ?now = "?s\<lparr>rb_val := (rb_val ?s)(q := 9)\<rparr>"
  have s: "holds_tree ?s ?t" by (rule three_nodes_tree(1) [OF d3])
  have now: "holds_tree ?now ?t" using s by (simp add: holds_tree_def)
  have q: "rb_key ?s q = 30" using d by (auto simp: three_nodes_def)
  have m: "represents ?now [10 \<mapsto> 1, 20 \<mapsto> 2, 30 \<mapsto> 9]"
    using represents_update [OF s, of q 9] q three_nodes_tree(2) [OF d3] by (simp add: fun_upd_twist)
  obtain run w where r: "run_client (Call (Put 5 7) (\<lambda>_. Return)) [n] (?s, None) = Inr ([None], run, None, w)"
      and v: "validated w = {Root_Cell, Left_Cell g, Left_Cell p, Parent_Color_Cell p}"
    by (rule that [OF put_run [OF d]]) (auto simp: validated_def written_def)
  have "fresh_node ?s n \<and> fresh_node ?now n"
    using d fresh_node_iff [OF s] fresh_node_iff [OF now] by auto
  then have "represents (commit_boxes ?now run w (client_boxes (Call (Put 5 7) (\<lambda>_. Return)) [n] [None]))
      (snd (spec_client (Call (Put 5 7) (\<lambda>_. Return)) [10 \<mapsto> 1, 20 \<mapsto> 2, 30 \<mapsto> 9]))"
    using entry_transactions_are_atomic [OF s m, of "[n]" "Call (Put 5 7) (\<lambda>_. Return)", OF _ _ _ r] by (simp add: v)
  moreover have "represents ?s [10 \<mapsto> 1, 20 \<mapsto> 2, 30 \<mapsto> 3]" by (rule three_nodes_map [OF d3])
  ultimately show ?thesis
    using r m by (intro exI [of _ ?s] exI [of _ ?now] exI [of _ run] exI [of _ w] exI [of _ n]) (simp add: fun_upd_twist)
qed

end
