(* ===== verification/Rb_World.thy ===== *)
theory Rb_World
  imports Rb_Serial
begin

text \<open>
  Any number of threads with transactions on one map. A transaction runs on the state in which it was pinned and commits
  over the last state, if the cells that commit checks have not changed in between. Theories \<open>Stm\<close> and \<open>Reclaim\<close> show
  that the transactions of the library do that, and that a node is not freed while a transaction that could reach it
  is running.
\<close>

section \<open>Threads and committed states\<close>

text \<open>
  The committed states in their order, the state in which each running transaction was pinned, the transactions
  that have committed, with their results, and those that only looked, with the state they have seen.
\<close>

record ('k, 'v) tree_world =
  tw_states :: "('k, 'v) rb_store list"
  tw_pins :: "nat \<Rightarrow> nat option"
  tw_log :: "(('k, 'v) client \<times> 'v option list) list"
  tw_looks :: "(nat \<times> ('k, 'v) client \<times> 'v option list) list"

definition tw_start :: "('k :: linorder, 'v) rb_store \<Rightarrow> ('k, 'v) tree_world" where
  "tw_start s = \<lparr>tw_states = [s], tw_pins = \<lambda>_. None, tw_log = [], tw_looks = []\<rparr>"

text \<open>
  The allocator may use an address again when no running transaction was pinned in a state that still had a node there, or
  before such a state.
\<close>

definition unused :: "('k :: linorder, 'v) tree_world \<Rightarrow> node_ptr \<Rightarrow> bool" where
  "unused W b \<longleftrightarrow> (\<forall>t i j. tw_pins W t = Some i \<longrightarrow> i \<le> j \<longrightarrow> j < length (tw_states W) \<longrightarrow> fresh_node (tw_states W ! j) b)"

inductive tw_step :: "('k :: linorder, 'v) tree_world \<Rightarrow> ('k, 'v) tree_world \<Rightarrow> bool" where
  tw_pin: "tw_pins W t = None \<Longrightarrow> tw_step W (W\<lparr>tw_pins := (tw_pins W)(t \<mapsto> length (tw_states W) - 1)\<rparr>)"
| tw_fail: "tw_pins W t = Some i \<Longrightarrow> tw_step W (W\<lparr>tw_pins := (tw_pins W)(t := None)\<rparr>)"
| tw_look:
    "tw_pins W t = Some i \<Longrightarrow> distinct bs \<Longrightarrow> \<forall>b\<in>set bs. unused W b \<Longrightarrow>
     run_client p bs (tw_states W ! i, None) = Inr (rs, run, None, w) \<Longrightarrow> written w = {} \<Longrightarrow>
     tw_step W (W\<lparr>tw_pins := (tw_pins W)(t := None), tw_looks := tw_looks W @ [(i, p, rs)]\<rparr>)"
| tw_commit:
    "tw_pins W t = Some i \<Longrightarrow> distinct bs \<Longrightarrow> \<forall>b\<in>set bs. unused W b \<Longrightarrow>
     run_client p bs (tw_states W ! i, None) = Inr (rs, run, None, w) \<Longrightarrow>
     \<forall>c\<in>validated w. same_cell (tw_states W ! i) (last (tw_states W)) c \<Longrightarrow>
     tw_step W (W\<lparr>tw_states := tw_states W @ [commit_boxes (last (tw_states W)) run w (client_boxes p bs rs)],
       tw_pins := (tw_pins W)(t := None), tw_log := tw_log W @ [(p, rs)]\<rparr>)"

text \<open>The log, one transaction after the other on a finite map: the map after it, if each returns what it has returned.\<close>

fun serially :: "(('k, 'v) client \<times> 'v option list) list \<Rightarrow> ('k \<rightharpoonup> 'v) \<Rightarrow> ('k \<rightharpoonup> 'v) option" where
  "serially [] m = Some m"
| "serially ((p, rs) # l) m =
     (case spec_client p m of (rs', m') \<Rightarrow> if rs' = rs then serially l m' else None)"

lemma serially_snoc:
  "serially l m = Some m' \<Longrightarrow> rs = fst (spec_client p m') \<Longrightarrow> serially (l @ [(p, rs)]) m = Some (snd (spec_client p m'))"
  by (induction l m rule: serially.induct) (auto split: prod.splits if_splits)

section \<open>The invariant\<close>

text \<open>
  Every committed state is a tree for what the log up to it gives, and while a transaction runs no node that it
  could reach has got another key.
\<close>

definition maps_ok :: "('k :: linorder \<rightharpoonup> 'v) \<Rightarrow> ('k, 'v) rb_store list \<Rightarrow> (('k, 'v) client \<times> 'v option list) list \<Rightarrow> bool" where
  "maps_ok m0 ss l \<longleftrightarrow> length ss = Suc (length l) \<and>
     (\<forall>k \<le> length l. \<exists>m. serially (take k l) m0 = Some m \<and> represents (ss ! k) m)"

definition keys_stay :: "('k :: linorder, 'v) rb_store list \<Rightarrow> nat \<Rightarrow> bool" where
  "keys_stay ss i \<longleftrightarrow> i < length ss \<and>
     (\<forall>j u a. i \<le> j \<longrightarrow> j < length ss \<longrightarrow> holds_tree (ss ! i) u \<longrightarrow> a \<in> set (inorder u) \<longrightarrow> rb_key (ss ! j) a = rb_key (ss ! i) a)"

lemma keys_stayD:
  assumes "keys_stay ss i"
  shows "i < length ss"
    and "i \<le> j \<Longrightarrow> j < length ss \<Longrightarrow> holds_tree (ss ! i) u \<Longrightarrow> a \<in> set (inorder u) \<Longrightarrow> rb_key (ss ! j) a = rb_key (ss ! i) a"
  using assms unfolding keys_stay_def by blast+

definition look_ok ::
  "('k \<rightharpoonup> 'v) \<Rightarrow> (('k, 'v) client \<times> 'v option list) list \<Rightarrow> nat \<times> ('k, 'v) client \<times> 'v option list \<Rightarrow> bool" where
  "look_ok m0 l = (\<lambda>(i, p, rs). i \<le> length l \<and> (\<exists>m. serially (take i l) m0 = Some m \<and> rs = fst (spec_client p m)))"

definition tw_inv :: "('k :: linorder \<rightharpoonup> 'v) \<Rightarrow> ('k, 'v) tree_world \<Rightarrow> bool" where
  "tw_inv m0 W \<longleftrightarrow> maps_ok m0 (tw_states W) (tw_log W) \<and> (\<forall>t i. tw_pins W t = Some i \<longrightarrow> keys_stay (tw_states W) i) \<and>
     (\<forall>x\<in>set (tw_looks W). look_ok m0 (tw_log W) x)"

lemma tw_inv_start: "represents s m \<Longrightarrow> tw_inv m (tw_start s)"
  by (simp add: tw_inv_def tw_start_def maps_ok_def)

lemma maps_okD:
  assumes "maps_ok m0 ss l"
  shows "length ss = Suc (length l)" and "last ss = ss ! length l"
    and "k \<le> length l \<Longrightarrow> \<exists>m. serially (take k l) m0 = Some m \<and> represents (ss ! k) m"
proof -
  show len: "length ss = Suc (length l)" using assms by (simp add: maps_ok_def)
  then show "last ss = ss ! length l" by (cases ss rule: rev_cases) (auto simp: nth_append)
  show "k \<le> length l \<Longrightarrow> \<exists>m. serially (take k l) m0 = Some m \<and> represents (ss ! k) m" using assms by (simp add: maps_ok_def)
qed

lemma maps_ok_last:
  assumes "maps_ok m0 ss l"
  obtains m where "serially l m0 = Some m" and "represents (last ss) m"
  using maps_okD(3) [OF assms, of "length l"] that unfolding maps_okD(2) [OF assms] by (metis order_refl take_all)

lemma tw_inv_unpin: "tw_inv m0 W \<Longrightarrow> tw_inv m0 (W\<lparr>tw_pins := (tw_pins W)(t := None)\<rparr>)"
  by (simp add: tw_inv_def)

lemma tw_inv_pin:
  assumes "tw_inv m0 W"
  shows "tw_inv m0 (W\<lparr>tw_pins := (tw_pins W)(t \<mapsto> length (tw_states W) - 1)\<rparr>)"
proof -
  have "keys_stay (tw_states W) (length (tw_states W) - 1)"
    unfolding keys_stay_def
  proof (intro conjI allI impI)
    show "length (tw_states W) - 1 < length (tw_states W)" using assms by (simp add: tw_inv_def maps_ok_def)
    fix j u a
    assume "length (tw_states W) - 1 \<le> j" "j < length (tw_states W)"
    then have "j = length (tw_states W) - 1" by simp
    then show "rb_key (tw_states W ! j) a = rb_key (tw_states W ! (length (tw_states W) - 1)) a" by simp
  qed
  with assms show ?thesis by (simp add: tw_inv_def)
qed

text \<open>What a transaction sees of the state in which it was pinned.\<close>

lemma pinned_state:
  assumes inv: "tw_inv m0 W" and t: "tw_pins W t = Some i" and bs: "\<forall>b\<in>set bs. unused W b"
  obtains m u where "i \<le> length (tw_log W)" "serially (take i (tw_log W)) m0 = Some m" "represents (tw_states W ! i) m"
    "holds_tree (tw_states W ! i) u" "set bs \<inter> set (inorder u) = {}" "\<forall>b\<in>set bs. fresh_node (tw_states W ! i) b \<and> fresh_node (last (tw_states W)) b"
proof -
  have ok: "maps_ok m0 (tw_states W) (tw_log W)" and k: "keys_stay (tw_states W) i"
    using inv t by (simp_all add: tw_inv_def)
  then have i: "i \<le> length (tw_log W)" by (simp add: keys_stay_def maps_ok_def)
  from maps_okD(3) [OF ok i] obtain m where m: "serially (take i (tw_log W)) m0 = Some m" "represents (tw_states W ! i) m" by blast
  then obtain u where u: "holds_tree (tw_states W ! i) u" by (auto simp: represents_def)
  have fresh: "fresh_node (tw_states W ! j) b" if "b \<in> set bs" "i \<le> j" "j < length (tw_states W)" for b j
    using bs t that unfolding unused_def by blast
  have "fresh_node (tw_states W ! i) b \<and> fresh_node (last (tw_states W)) b" if "b \<in> set bs" for b
    using fresh [OF that, of i] fresh [OF that, of "length (tw_log W)"] i maps_okD(1,2) [OF ok] by simp
  moreover from this have "set bs \<inter> set (inorder u) = {}" using u by (auto simp: fresh_node_def)
  ultimately show thesis using that [OF i m u] by simp
qed

lemma tw_inv_look:
  assumes inv: "tw_inv m0 W" and t: "tw_pins W t = Some i" and bs: "distinct bs" "\<forall>b\<in>set bs. unused W b"
    and run: "run_client p bs (tw_states W ! i, None) = Inr (rs, run, None, w)"
  shows "tw_inv m0 (W\<lparr>tw_pins := (tw_pins W)(t := None), tw_looks := tw_looks W @ [(i, p, rs)]\<rparr>)"
proof -
  obtain m u where m: "i \<le> length (tw_log W)" "serially (take i (tw_log W)) m0 = Some m" "represents (tw_states W ! i) m"
    and u: "holds_tree (tw_states W ! i) u" "set bs \<inter> set (inorder u) = {}"
    by (rule pinned_state [OF inv t bs(2)])
  from run_client_refines [OF nodes_closed [OF u(1)] m(3) u(2) bs(1) run] have "rs = fst (spec_client p m)" by blast
  with m(1,2) have "look_ok m0 (tw_log W) (i, p, rs)" by (simp add: look_ok_def)
  with inv show ?thesis by (simp add: tw_inv_def)
qed

text \<open>A commit: the log goes on, the keys of nodes in use stay.\<close>

lemma maps_ok_snoc:
  assumes "maps_ok m0 ss l" and "serially l m0 = Some m" and "rs = fst (spec_client p m)" and "represents s (snd (spec_client p m))"
  shows "maps_ok m0 (ss @ [s]) (l @ [(p, rs)])"
  unfolding maps_ok_def
proof (intro conjI allI impI)
  show "length (ss @ [s]) = Suc (length (l @ [(p, rs)]))" using maps_okD(1) [OF assms(1)] by simp
  fix k
  assume k: "k \<le> length (l @ [(p, rs)])"
  show "\<exists>m. serially (take k (l @ [(p, rs)])) m0 = Some m \<and> represents ((ss @ [s]) ! k) m"
  proof (cases "k = Suc (length l)")
    case True
    then show ?thesis using serially_snoc [OF assms(2,3)] assms(4) maps_okD(1) [OF assms(1)] by (simp add: nth_append)
  next
    case False
    with k maps_okD(1,3) [OF assms(1)] show ?thesis by (simp add: nth_append)
  qed
qed

lemma keys_stay_snoc:
  assumes "keys_stay ss i" and "ss \<noteq> []"
    and "\<And>u a. holds_tree (ss ! i) u \<Longrightarrow> a \<in> set (inorder u) \<Longrightarrow> rb_key s a = rb_key (last ss) a"
  shows "keys_stay (ss @ [s]) i"
  unfolding keys_stay_def
proof (intro conjI allI impI)
  have i: "i < length ss" using assms(1) by (simp add: keys_stay_def)
  then show "i < length (ss @ [s])" by simp
  fix j u a
  assume j: "i \<le> j" "j < length (ss @ [s])" and u: "holds_tree ((ss @ [s]) ! i) u" "a \<in> set (inorder u)"
  have u': "holds_tree (ss ! i) u" using u(1) i by (simp add: nth_append)
  have old: "rb_key (ss ! j') a = rb_key (ss ! i) a" if "i \<le> j'" "j' < length ss" for j'
    using assms(1) that u' u(2) unfolding keys_stay_def by blast
  have "rb_key s a = rb_key (ss ! i) a"
    using assms(3) [OF u' u(2)] old [of "length ss - 1"] i assms(2) by (simp add: last_conv_nth)
  then show "rb_key ((ss @ [s]) ! j) a = rb_key ((ss @ [s]) ! i) a"
    using old [of j] i j by (cases "j < length ss") (simp_all add: nth_append)
qed

lemma look_ok_snoc: "look_ok m0 l x \<Longrightarrow> look_ok m0 (l @ [y]) x"
  by (cases x) (auto simp: look_ok_def)

lemma tw_inv_commit:
  assumes inv: "tw_inv m0 W" and t: "tw_pins W t = Some i" and bs: "distinct bs" "\<forall>b\<in>set bs. unused W b"
    and run: "run_client p bs (tw_states W ! i, None) = Inr (rs, run, None, w)"
    and checked: "\<forall>c\<in>validated w. same_cell (tw_states W ! i) (last (tw_states W)) c"
  shows "tw_inv m0 (W\<lparr>tw_states := tw_states W @ [commit_boxes (last (tw_states W)) run w (client_boxes p bs rs)],
       tw_pins := (tw_pins W)(t := None), tw_log := tw_log W @ [(p, rs)]\<rparr>)"
proof -
  let ?now = "last (tw_states W)" and ?B = "client_boxes p bs rs"
  let ?new = "commit_boxes ?now run w ?B"
  have ok: "maps_ok m0 (tw_states W) (tw_log W)" and k: "keys_stay (tw_states W) i"
    using inv t by (simp_all add: tw_inv_def)
  have ne: "tw_states W \<noteq> []" using maps_okD(1) [OF ok] by auto
  obtain u where u: "holds_tree (tw_states W ! i) u"
    and fresh: "\<forall>b\<in>set bs. fresh_node (tw_states W ! i) b \<and> fresh_node ?now b"
    by (rule pinned_state [OF inv t bs(2)])
  obtain m where m: "serially (tw_log W) m0 = Some m" "represents ?now m"
    by (rule maps_ok_last [OF ok])
  have "i \<le> length (tw_log W)" "length (tw_log W) < length (tw_states W)"
    using keys_stayD(1) [OF k] maps_okD(1) [OF ok] by simp_all
  then have keys: "\<forall>a\<in>set (inorder u). rb_key ?now a = rb_key (tw_states W ! i) a"
    unfolding maps_okD(2) [OF ok] using keys_stayD(2) [OF k _ _ u] by blast
  from checked_reads_suffice [OF u m(2) bs(1) fresh keys run checked]
  have new: "rs = fst (spec_client p m)" "represents ?new (snd (spec_client p m))" by blast+
  have "keys_stay (tw_states W @ [?new]) i'" if t': "tw_pins W t' = Some i'" for t' i'
  proof (rule keys_stay_snoc [OF _ ne])
    show k': "keys_stay (tw_states W) i'" using inv t' by (simp add: tw_inv_def)
    fix u' a
    assume u': "holds_tree (tw_states W ! i') u'" "a \<in> set (inorder u')"
    have "a \<notin> set bs"
    proof
      assume "a \<in> set bs"
      then have "fresh_node (tw_states W ! i') a"
        using bs(2) t' k' unfolding unused_def keys_stay_def by blast
      with u' show False by (simp add: fresh_node_def)
    qed
    then show "rb_key ?new a = rb_key ?now a"
      using client_boxes_subset [of p bs rs] by (auto simp: commit_boxes_def)
  qed
  moreover have "maps_ok m0 (tw_states W @ [?new]) (tw_log W @ [(p, rs)])"
    by (rule maps_ok_snoc [OF ok m(1) new])
  moreover have "\<forall>x\<in>set (tw_looks W). look_ok m0 (tw_log W @ [(p, rs)]) x"
    using inv look_ok_snoc unfolding tw_inv_def by blast
  ultimately show ?thesis by (simp add: tw_inv_def)
qed

lemma tw_inv_step:
  assumes "tw_inv m0 W" and "tw_step W W'"
  shows "tw_inv m0 W'"
  using assms(2)
proof cases
  case (tw_pin t)
  then show ?thesis by (simp only: tw_inv_pin [OF assms(1)])
next
  case (tw_fail t i)
  then show ?thesis by (simp only: tw_inv_unpin [OF assms(1)])
next
  case (tw_look t i bs p rs run w)
  from tw_inv_look [OF assms(1) tw_look(2-5)] show ?thesis by (simp only: tw_look(1))
next
  case (tw_commit t i bs p rs run w)
  from tw_inv_commit [OF assms(1) tw_commit(2-6)] show ?thesis by (simp only: tw_commit(1))
qed

interpretation twp: protocol "\<lambda>W. \<exists>s. represents s m0 \<and> W = tw_start s" tw_step "tw_inv m0" for m0 :: "'k :: linorder \<rightharpoonup> 'v"
  by unfold_locales (auto intro: tw_inv_start tw_inv_step)

section \<open>Every history is serial\<close>

text \<open>
  Property C4: transactions on a map are serializable in the order of their commits. However the threads interleave, the transactions
  that have committed, each with any number of lookups, entries, insertions and removals chosen by earlier results, have returned what they
  return when they run one after the other on a finite map, and the last state is a red-black tree for the map that is left.
  One that only looks has seen the map as it was, after the commits up to that one, when the transaction was pinned.
\<close>

theorem map_histories_are_serial:
  assumes "represents s m0" and "reach (\<lambda>W. W = tw_start s) tw_step W"
  shows "(\<exists>m. serially (tw_log W) m0 = Some m \<and> represents (last (tw_states W)) m) \<and>
    (\<forall>(i, p, rs)\<in>set (tw_looks W). \<exists>m. i \<le> length (tw_log W) \<and> serially (take i (tw_log W)) m0 = Some m \<and> rs = fst (spec_client p m))"
proof -
  have "reach (\<lambda>W. \<exists>s. represents s m0 \<and> W = tw_start s) tw_step W"
    using assms(2,1) by (induction rule: reach.induct) (auto intro: reach.intros)
  then have inv: "tw_inv m0 W" by (rule twp.inv_reach)
  then have ok: "maps_ok m0 (tw_states W) (tw_log W)" and looks: "\<forall>x\<in>set (tw_looks W). look_ok m0 (tw_log W) x"
    by (simp_all add: tw_inv_def)
  have "\<exists>m. serially (tw_log W) m0 = Some m \<and> represents (last (tw_states W)) m"
    using maps_ok_last [OF ok] by metis
  with looks show ?thesis by (auto simp: look_ok_def)
qed

text \<open>
  Two transactions are pinned in the tree with the keys 10, 20 and 30. One gives 30 a new value and commits, and then the
  other inserts 5.
\<close>

lemma update_run:
  assumes "distinct [g, p, q, n]"
  shows "run_client (Call (Put 30 9) (\<lambda>_. Return)) [n] (three_nodes g p q, None) =
    Inr ([Some 3], (three_nodes g p q)\<lparr>rb_val := (rb_val (three_nodes g p q))(q := 9)\<rparr>, None,
      [Read_Access ReadWrite Root_Cell, Read_Access ReadWrite (Right_Cell g), Read_Access Read (Value_Cell q),
       Write_Access (Value_Cell q)])"
proof -
  obtain f where f: "rb_fuel = Suc (Suc (Suc f))"
    by (rule that [of 124]) (simp add: rb_fuel_def)
  have "g \<noteq> p" "p \<noteq> g" "g \<noteq> q" "q \<noteq> g" "p \<noteq> q" "q \<noteq> p"
    using assms by auto
  then show ?thesis
    by (simp add: f map_entry_def rb_location_def location_readwrite_def location_with_def occupied_entry_insert_def
      exec_defs three_nodes_def default_ordering_def)
qed

lemma map_histories_are_serial_witness:
  "\<exists>(s :: (nat, nat) rb_store) W. represents s [10 \<mapsto> 1, 20 \<mapsto> 2, 30 \<mapsto> 3] \<and> reach (\<lambda>W. W = tw_start s) tw_step W \<and>
     tw_log W = [(Call (Put 30 9) (\<lambda>_. Return), [Some 3]), (Call (Put 5 7) (\<lambda>_. Return), [None])] \<and>
     represents (last (tw_states W)) [5 \<mapsto> 7, 10 \<mapsto> 1, 20 \<mapsto> 2, 30 \<mapsto> 9]"
proof -
  obtain g p q n :: node_ptr where d: "distinct [g, p, q, n]" using four_nodes by blast
  then have d3: "distinct [g, p, q]" by simp
  let ?s = "three_nodes g p q" and ?t = "Node (Node Leaf Black p Leaf) Black g (Node Leaf Black q Leaf)"
  let ?s' = "?s\<lparr>rb_val := (rb_val ?s)(q := 9)\<rparr>"
  let ?p = "Call (Put 30 9) (\<lambda>_. Return)" and ?p' = "Call (Put 5 7) (\<lambda>_. Return)"
  obtain run w where r: "run_client ?p' [n] (?s, None) = Inr ([None], run, None, w)"
      and v: "validated w = {Root_Cell, Left_Cell g, Left_Cell p, Parent_Color_Cell p}"
    by (rule that [OF put_run [OF d]]) (auto simp: validated_def written_def)
  have s: "holds_tree ?s ?t" by (rule three_nodes_tree(1) [OF d3])
  have s': "holds_tree ?s' ?t" using s by (simp add: holds_tree_def)
  have fresh: "fresh_node ?s n" "fresh_node ?s' n"
    using d fresh_node_iff [OF s] fresh_node_iff [OF s'] by auto
  let ?W1 = "\<lparr>tw_states = [?s], tw_pins = (\<lambda>_. None)(0 \<mapsto> 0), tw_log = [], tw_looks = []\<rparr>"
  let ?W2 = "\<lparr>tw_states = [?s], tw_pins = (\<lambda>_. None)(0 \<mapsto> 0, 1 \<mapsto> 0), tw_log = [], tw_looks = []\<rparr>"
  let ?W3 = "\<lparr>tw_states = [?s, ?s'], tw_pins = (\<lambda>_. None)(0 \<mapsto> 0), tw_log = [(?p, [Some 3])], tw_looks = []\<rparr>"
  let ?W4 = "\<lparr>tw_states = [?s, ?s', commit_boxes ?s' run w {n}], tw_pins = \<lambda>_. None,
      tw_log = [(?p, [Some 3]), (?p', [None])], tw_looks = []\<rparr>"
  have 1: "tw_step (tw_start ?s) ?W1"
    using tw_pin [of "tw_start ?s" 0] by (simp add: tw_start_def)
  have 2: "tw_step ?W1 ?W2"
    using tw_pin [of ?W1 1] by simp
  have 3: "tw_step ?W2 ?W3"
  proof -
    have "commit_boxes ?s (?s\<lparr>rb_val := (rb_val ?s)(q := 9)\<rparr>) [Read_Access ReadWrite Root_Cell, Read_Access ReadWrite (Right_Cell g),
        Read_Access Read (Value_Cell q), Write_Access (Value_Cell q)] {} = ?s'"
      by (intro rb_store.equality) (simp_all add: commit_boxes_def written_def fun_eq_iff)
    moreover have "(\<lambda>_. None)(0 \<mapsto> 0, Suc 0 := None) = (\<lambda>_. None)(0 \<mapsto> (0 :: nat))" by (auto simp: fun_eq_iff)
    ultimately show ?thesis
      using tw_commit [of ?W2 1 0 "[n]" ?p, where rs = "[Some 3]"] update_run [OF d] fresh
      by (simp add: unused_def)
  qed
  have 4: "tw_step ?W3 ?W4"
    using tw_commit [of ?W3 0 0 "[n]" ?p' "[None]" run w] r fresh
    by (simp add: unused_def v less_Suc_eq)
  have reach: "reach (\<lambda>W. W = tw_start ?s) tw_step ?W4"
    by (rule reach.extend [OF reach.extend [OF reach.extend [OF reach.extend [OF reach.start]]]]) (rule refl 1 2 3 4)+
  have m: "represents ?s [10 \<mapsto> 1, 20 \<mapsto> 2, 30 \<mapsto> 3]" by (rule three_nodes_map [OF d3])
  have "serially (tw_log ?W4) [10 \<mapsto> 1, 20 \<mapsto> 2, 30 \<mapsto> 3] = Some [5 \<mapsto> 7, 10 \<mapsto> 1, 20 \<mapsto> 2, 30 \<mapsto> 9]"
    by (simp add: fun_upd_twist)
  with map_histories_are_serial [OF m reach] have "represents (last (tw_states ?W4)) [5 \<mapsto> 7, 10 \<mapsto> 1, 20 \<mapsto> 2, 30 \<mapsto> 9]"
    by simp
  with m reach show ?thesis by (intro exI [of _ ?s] exI [of _ ?W4]) simp
qed

end
