(* ===== verification/Htm_Targets.thy ===== *)
theory Htm_Targets
  imports Htm Commit Parking
begin

text \<open>
  \<open>swym-htm/src/lib.rs\<close> over its three back ends, \<open>powerpc64.rs\<close>, \<open>x86_64.rs\<close> and \<open>unsupported.rs\<close>, of which the build
  chooses one. Theory \<open>Htm\<close> has the front end for x86\_64; here the back end is an argument, and a query that it
  does not implement panics. The intrinsics of PowerPC are a parameter.
\<close>

definition on_ok :: "'a outcome \<Rightarrow> ('a \<Rightarrow> 'b outcome) \<Rightarrow> 'b outcome" where
  "on_ok x f = (case x of Inl e \<Rightarrow> Inl e | Inr y \<Rightarrow> f y)"

lemma on_ok_simps [simp]: "on_ok (Inl e) f = Inl e" "on_ok (Inr y) f = f y"
  by (simp_all add: on_ok_def)

section \<open>PowerPC\<close>

type_synonym i32 = "32 word"
type_synonym i64 = "64 word"

record 'm ppc_intrinsics =
  i_tbegin :: "i32 \<Rightarrow> 'm \<Rightarrow> i32 \<times> 'm"
  i_tend :: "i32 \<Rightarrow> 'm \<Rightarrow> i32 \<times> 'm"
  i_ttest :: "'m \<Rightarrow> i64 \<times> 'm"
  i_tabort :: "i32 \<Rightarrow> 'm \<Rightarrow> i32 \<times> 'm"
  i_tabortdc :: "i32 \<Rightarrow> i32 \<Rightarrow> i32 \<Rightarrow> 'm \<Rightarrow> i32 \<times> 'm"
  i_tabortdci :: "i32 \<Rightarrow> i32 \<Rightarrow> i32 \<Rightarrow> 'm \<Rightarrow> i32 \<times> 'm"
  i_tabortwc :: "i32 \<Rightarrow> i32 \<Rightarrow> i32 \<Rightarrow> 'm \<Rightarrow> i32 \<times> 'm"
  i_tabortwci :: "i32 \<Rightarrow> i32 \<Rightarrow> i32 \<Rightarrow> 'm \<Rightarrow> i32 \<times> 'm"
  i_tendall :: "'m \<Rightarrow> i32 \<times> 'm"
  i_tresume :: "'m \<Rightarrow> i32 \<times> 'm"
  i_tsuspend :: "'m \<Rightarrow> i32 \<times> 'm"
  i_set_texasr :: "i64 \<Rightarrow> 'm \<Rightarrow> 'm"
  i_set_texasru :: "i64 \<Rightarrow> 'm \<Rightarrow> 'm"
  i_set_tfhar :: "i64 \<Rightarrow> 'm \<Rightarrow> 'm"
  i_set_tfiar :: "i64 \<Rightarrow> 'm \<Rightarrow> 'm"
  i_get_texasr :: "'m \<Rightarrow> i64"
  i_get_texasru :: "'m \<Rightarrow> i64"
  i_get_tfhar :: "'m \<Rightarrow> i64"
  i_get_tfiar :: "'m \<Rightarrow> i64"

definition ppc_tbegin :: "'m ppc_intrinsics \<Rightarrow> i32 \<Rightarrow> 'm \<Rightarrow> i32 \<times> 'm" where
  "ppc_tbegin ii b = i_tbegin ii b"

definition ppc_tend :: "'m ppc_intrinsics \<Rightarrow> i32 \<Rightarrow> 'm \<Rightarrow> i32 \<times> 'm" where
  "ppc_tend ii e = i_tend ii e"

definition ppc_ttest :: "'m ppc_intrinsics \<Rightarrow> 'm \<Rightarrow> i64 \<times> 'm" where
  "ppc_ttest ii = i_ttest ii"

definition ppc_tabort :: "'m ppc_intrinsics \<Rightarrow> i32 \<Rightarrow> 'm \<Rightarrow> i32 \<times> 'm" where
  "ppc_tabort ii a = i_tabort ii a"

definition ppc_tabortdc :: "'m ppc_intrinsics \<Rightarrow> i32 \<Rightarrow> i32 \<Rightarrow> i32 \<Rightarrow> 'm \<Rightarrow> i32 \<times> 'm" where
  "ppc_tabortdc ii a b c = i_tabortdc ii a b c"

definition ppc_tabortdci :: "'m ppc_intrinsics \<Rightarrow> i32 \<Rightarrow> i32 \<Rightarrow> i32 \<Rightarrow> 'm \<Rightarrow> i32 \<times> 'm" where
  "ppc_tabortdci ii a b c = i_tabortdci ii a b c"

definition ppc_tabortwc :: "'m ppc_intrinsics \<Rightarrow> i32 \<Rightarrow> i32 \<Rightarrow> i32 \<Rightarrow> 'm \<Rightarrow> i32 \<times> 'm" where
  "ppc_tabortwc ii a b c = i_tabortwc ii a b c"

definition ppc_tabortwci :: "'m ppc_intrinsics \<Rightarrow> i32 \<Rightarrow> i32 \<Rightarrow> i32 \<Rightarrow> 'm \<Rightarrow> i32 \<times> 'm" where
  "ppc_tabortwci ii a b c = i_tabortwci ii a b c"

definition ppc_tendall :: "'m ppc_intrinsics \<Rightarrow> 'm \<Rightarrow> i32 \<times> 'm" where
  "ppc_tendall ii = i_tendall ii"

definition ppc_tresume :: "'m ppc_intrinsics \<Rightarrow> 'm \<Rightarrow> i32 \<times> 'm" where
  "ppc_tresume ii = i_tresume ii"

definition ppc_tsuspend :: "'m ppc_intrinsics \<Rightarrow> 'm \<Rightarrow> i32 \<times> 'm" where
  "ppc_tsuspend ii = i_tsuspend ii"

text \<open>All four setters call the intrinsic of \<open>TEXASR\<close>.\<close>

definition set_texasr :: "'m ppc_intrinsics \<Rightarrow> i64 \<Rightarrow> 'm \<Rightarrow> 'm" where
  "set_texasr ii exasr = i_set_texasr ii exasr"

definition set_texasru :: "'m ppc_intrinsics \<Rightarrow> i64 \<Rightarrow> 'm \<Rightarrow> 'm" where
  "set_texasru ii exasru = i_set_texasr ii exasru"

definition set_tfhar :: "'m ppc_intrinsics \<Rightarrow> i64 \<Rightarrow> 'm \<Rightarrow> 'm" where
  "set_tfhar ii fhar = i_set_texasr ii fhar"

definition set_tfiar :: "'m ppc_intrinsics \<Rightarrow> i64 \<Rightarrow> 'm \<Rightarrow> 'm" where
  "set_tfiar ii fiar = i_set_texasr ii fiar"

definition get_texasr :: "'m ppc_intrinsics \<Rightarrow> 'm \<Rightarrow> i64" where
  "get_texasr ii = i_get_texasr ii"

definition get_texasru :: "'m ppc_intrinsics \<Rightarrow> 'm \<Rightarrow> i64" where
  "get_texasru ii = i_get_texasru ii"

definition get_tfhar :: "'m ppc_intrinsics \<Rightarrow> 'm \<Rightarrow> i64" where
  "get_tfhar ii = i_get_tfhar ii"

definition get_tfiar :: "'m ppc_intrinsics \<Rightarrow> 'm \<Rightarrow> i64" where
  "get_tfiar ii = i_get_tfiar ii"

text \<open>The state that \<open>ttest\<close> returns; the shift of an \<open>i64\<close> is arithmetic.\<close>

definition HTM_STATE :: "i64 \<Rightarrow> i64" where
  "HTM_STATE CR0 = signed_drop_bit 1 CR0 AND 3"

definition HTM_NONTRANSACTIONAL :: i64 where
  "HTM_NONTRANSACTIONAL = 0"

definition HTM_SUSPENDED :: i64 where
  "HTM_SUSPENDED = 1"

definition HTM_TRANSACTIONAL :: i64 where
  "HTM_TRANSACTIONAL = 2"

definition ppc_is_started :: "i32 \<Rightarrow> bool" where
  "ppc_is_started code \<longleftrightarrow> code \<noteq> 0"

definition ppc_in_transaction :: "i64 \<Rightarrow> bool" where
  "ppc_in_transaction code \<longleftrightarrow> HTM_STATE code = HTM_TRANSACTIONAL"

definition ppc_is_suspended :: "i64 \<Rightarrow> bool" where
  "ppc_is_suspended code \<longleftrightarrow> HTM_STATE code = HTM_SUSPENDED"

definition ppc_begin :: "'m ppc_intrinsics \<Rightarrow> 'm \<Rightarrow> i32 \<times> 'm" where
  "ppc_begin ii = ppc_tbegin ii 0"

text \<open>What follows \<open>tabort\<close> is \<open>unreachable_unchecked\<close>.\<close>

definition ppc_abort :: "'m ppc_intrinsics \<Rightarrow> 'm \<Rightarrow> unit outcome" where
  "ppc_abort ii m = (case ppc_tabort ii 0 m of _ \<Rightarrow> Inl Undefined)"

definition ppc_test :: "'m ppc_intrinsics \<Rightarrow> 'm \<Rightarrow> i64 \<times> 'm" where
  "ppc_test ii = ppc_ttest ii"

definition ppc_end :: "'m ppc_intrinsics \<Rightarrow> 'm \<Rightarrow> 'm" where
  "ppc_end ii m = snd (ppc_tend ii 0 m)"

section \<open>The front end\<close>

datatype target = PowerPC64 | X86_64 | Unsupported

text \<open>The choice of the back end, from the architecture and the features.\<close>

definition back_end :: "string \<Rightarrow> bool \<Rightarrow> bool \<Rightarrow> target" where
  "back_end target_arch htm nightly =
     (if target_arch = ''powerpc64'' \<and> htm then PowerPC64
      else if (target_arch = ''x86'' \<or> target_arch = ''x86_64'') \<and> nightly then X86_64
      else Unsupported)"

text \<open>The target without hardware transactions: everything panics but \<open>htm_supported\<close> and the queries of a \<open>TestCode\<close>.\<close>

definition unsupported :: "'a outcome" where
  "unsupported = Inl Panic"

definition uns_is_started :: "8 word \<Rightarrow> bool outcome" where
  "uns_is_started code = unsupported"

definition uns_is_explicit_abort :: "8 word \<Rightarrow> bool outcome" where
  "uns_is_explicit_abort code = unsupported"

definition uns_is_retry :: "8 word \<Rightarrow> bool outcome" where
  "uns_is_retry code = unsupported"

definition uns_is_conflict :: "8 word \<Rightarrow> bool outcome" where
  "uns_is_conflict code = unsupported"

definition uns_is_capacity :: "8 word \<Rightarrow> bool outcome" where
  "uns_is_capacity code = unsupported"

definition uns_in_transaction :: "8 word \<Rightarrow> bool" where
  "uns_in_transaction code = False"

definition uns_is_suspended :: "8 word \<Rightarrow> bool" where
  "uns_is_suspended code = False"

definition uns_begin :: "8 word outcome" where
  "uns_begin = unsupported"

definition uns_abort :: "unit outcome" where
  "uns_abort = unsupported"

definition uns_test :: "8 word outcome" where
  "uns_test = unsupported"

definition uns_end :: "unit outcome" where
  "uns_end = unsupported"

definition uns_htm_supported :: bool where
  "uns_htm_supported = False"

text \<open>The queries that the PowerPC back end leaves unimplemented.\<close>

definition ppc_is_explicit_abort :: "i32 \<Rightarrow> bool outcome" where
  "ppc_is_explicit_abort code = Inl Panic"

definition ppc_is_retry :: "i32 \<Rightarrow> bool outcome" where
  "ppc_is_retry code = Inl Panic"

definition ppc_is_conflict :: "i32 \<Rightarrow> bool outcome" where
  "ppc_is_conflict code = Inl Panic"

definition ppc_is_capacity :: "i32 \<Rightarrow> bool outcome" where
  "ppc_is_capacity code = Inl Panic"

definition ppc_htm_supported :: bool where
  "ppc_htm_supported = False"

text \<open>On x86\_64 the processor is asked at run time.\<close>

definition x86_htm_supported :: "bool \<Rightarrow> bool" where
  "x86_htm_supported rtm = rtm"

text \<open>
  The codes of the front end wrap those of its back end; those of a target without hardware transactions
  are bytes, of which none is ever made.
\<close>

datatype target_code = Ppc_Begin i32 | X86_Begin begin_code | Uns_Begin "8 word"

datatype target_test = Ppc_Test i64 | X86_Test "8 word" | Uns_Test "8 word"

fun htm_supported_on :: "target \<Rightarrow> bool \<Rightarrow> bool" where
  "htm_supported_on PowerPC64 rtm = ppc_htm_supported"
| "htm_supported_on X86_64 rtm = x86_htm_supported rtm"
| "htm_supported_on Unsupported rtm = uns_htm_supported"

fun is_started_on :: "target_code \<Rightarrow> bool outcome" where
  "is_started_on (Ppc_Begin c) = Inr (ppc_is_started c)"
| "is_started_on (X86_Begin c) = Inr (is_started c)"
| "is_started_on (Uns_Begin c) = uns_is_started c"

fun is_explicit_abort_on :: "target_code \<Rightarrow> bool outcome" where
  "is_explicit_abort_on (Ppc_Begin c) = ppc_is_explicit_abort c"
| "is_explicit_abort_on (X86_Begin c) = Inr (is_explicit_abort c)"
| "is_explicit_abort_on (Uns_Begin c) = uns_is_explicit_abort c"

fun is_retry_on :: "target_code \<Rightarrow> bool outcome" where
  "is_retry_on (Ppc_Begin c) = ppc_is_retry c"
| "is_retry_on (X86_Begin c) = Inr (is_retry c)"
| "is_retry_on (Uns_Begin c) = uns_is_retry c"

fun is_conflict_on :: "target_code \<Rightarrow> bool outcome" where
  "is_conflict_on (Ppc_Begin c) = ppc_is_conflict c"
| "is_conflict_on (X86_Begin c) = Inr (is_conflict_code c)"
| "is_conflict_on (Uns_Begin c) = uns_is_conflict c"

fun is_capacity_on :: "target_code \<Rightarrow> bool outcome" where
  "is_capacity_on (Ppc_Begin c) = ppc_is_capacity c"
| "is_capacity_on (X86_Begin c) = Inr (is_capacity c)"
| "is_capacity_on (Uns_Begin c) = uns_is_capacity c"

fun in_transaction_on :: "target_test \<Rightarrow> bool" where
  "in_transaction_on (Ppc_Test c) = ppc_in_transaction c"
| "in_transaction_on (X86_Test c) = in_transaction c"
| "in_transaction_on (Uns_Test c) = uns_in_transaction c"

fun is_suspended_on :: "target_test \<Rightarrow> bool" where
  "is_suspended_on (Ppc_Test c) = ppc_is_suspended c"
| "is_suspended_on (X86_Test c) = is_suspended c"
| "is_suspended_on (Uns_Test c) = uns_is_suspended c"

text \<open>
  \<open>begin\<close>, from the codes that the processor will give: the next of them, and the rest. \<open>None\<close> is that no
  code is left, as in theory \<open>Htm\<close>.
\<close>

fun begin_on :: "target \<Rightarrow> i32 list \<Rightarrow> (target_code \<times> i32 list) option outcome" where
  "begin_on Unsupported cs = map_sum id (\<lambda>c. Some (Uns_Begin c, cs)) uns_begin"
| "begin_on t [] = Inr None"
| "begin_on PowerPC64 (c # cs) = Inr (Some (Ppc_Begin c, cs))"
| "begin_on X86_64 (c # cs) = Inr (Some (X86_Begin c, cs))"

text \<open>The loop of \<open>do_retry\<close>, and \<open>HardwareTx::new\<close>, whose assertion is only there in a debug build.\<close>

fun retry_loop_on ::
  "target \<Rightarrow> (target_code \<Rightarrow> 's \<Rightarrow> ('s \<times> ('e + unit)) outcome) \<Rightarrow> i32 list \<Rightarrow> 's \<Rightarrow>
     ('s \<times> ('e + unit)) option outcome" where
  "retry_loop_on t h [] s = on_ok (begin_on t []) (\<lambda>_. Inr None)"
| "retry_loop_on t h (i # js) s =
     on_ok (begin_on t (i # js)) (\<lambda>bo.
       case bo of
         None \<Rightarrow> Inr None
       | Some (b, rest) \<Rightarrow>
           on_ok (is_started_on b) (\<lambda>started.
             if started then Inr (Some (s, Inr ()))
             else on_ok (h b s) (\<lambda>(s', r).
               case r of Inl e \<Rightarrow> Inr (Some (s', Inl e)) | Inr u \<Rightarrow> retry_loop_on t h js s')))"

definition hardware_tx_on ::
  "bool \<Rightarrow> target \<Rightarrow> bool \<Rightarrow> (target_code \<Rightarrow> 's \<Rightarrow> ('s \<times> ('e + unit)) outcome) \<Rightarrow> i32 list \<Rightarrow> 's \<Rightarrow>
     ('s \<times> ('e + unit)) option outcome" where
  "hardware_tx_on debug t rtm h codes s =
     (if debug \<and> \<not> htm_supported_on t rtm then Inl Panic
      else on_ok (begin_on t codes) (\<lambda>bo.
        case bo of
          None \<Rightarrow> Inr None
        | Some (b, bs) \<Rightarrow>
            on_ok (is_started_on b) (\<lambda>started.
              if started then Inr (Some (s, Inr ()))
              else on_ok (h b s) (\<lambda>(s', r).
                case r of Inl e \<Rightarrow> Inr (Some (s', Inl e)) | Inr u \<Rightarrow> retry_loop_on t h bs s'))))"

definition bounded_handler_on ::
  "8 word \<Rightarrow> target_code \<Rightarrow> 8 word \<Rightarrow> (8 word \<times> (bounded_htx_err + unit)) outcome" where
  "bounded_handler_on max_failures code failure_count =
     on_ok (is_explicit_abort_on code) (\<lambda>explicit.
     on_ok (if explicit then Inr True
            else on_ok (is_conflict_on code) (\<lambda>conflict.
              if conflict then on_ok (is_retry_on code) (\<lambda>retry. Inr (\<not> retry)) else Inr False)) (\<lambda>stop.
       if stop then Inr (failure_count, Inl AbortOrConflict)
       else on_ok (is_retry_on code) (\<lambda>retry.
         if retry \<and> failure_count < max_failures then Inr (failure_count + 1, Inr ())
         else Inr (failure_count, Inl SoftwareFallback))))"

definition bounded_on ::
  "bool \<Rightarrow> target \<Rightarrow> bool \<Rightarrow> 8 word \<Rightarrow> i32 list \<Rightarrow> 8 word \<Rightarrow>
     (8 word \<times> (bounded_htx_err + unit)) option outcome" where
  "bounded_on debug t rtm max_failures = hardware_tx_on debug t rtm (bounded_handler_on max_failures)"

section \<open>Lemmas\<close>

lemma bounded_handler_on_X86 [simp]: "bounded_handler_on m (X86_Begin c) f = Inr (bounded_handler m c f)"
  by (simp add: bounded_handler_on_def bounded_handler_def)

lemma retry_loop_on_X86:
  "retry_loop_on X86_64 (bounded_handler_on m) cs f = Inr (do_retry_loop (bounded_handler m) cs f)"
  by (induction cs arbitrary: f) (simp_all split: prod.split sum.split)

lemma bounded_on_X86: "bounded_on debug X86_64 True m codes f = Inr (bounded m codes f)"
  by (cases codes) (simp_all add: bounded_on_def hardware_tx_on_def bounded_def hardware_tx_new_def do_retry_def
      retry_loop_on_X86 x86_htm_supported_def split: prod.split sum.split)

lemma software_only:
  fixes stream stream' :: "nat \<Rightarrow> begin_code"
  shows "commit vts False stream sh lg synch obs = commit vts False stream' sh lg synch obs"
    and "try_clear_unpark_bits vts False stream ls lg p = try_clear_unpark_bits vts False stream' ls lg p"
  by (simp_all add: commit_def commit_slow_def start_htx_def try_clear_unpark_bits_def begin_htx_park_def)

section \<open>Properties\<close>

text \<open>
  Property C38: hardware transactions are used where they work. Where \<open>htm_supported\<close> says yes, the back end is x86\_64 on
  a processor that has them, and the bounded retry never panics: it is the one of theory \<open>Htm\<close>. Everywhere else, commits
  and parking do not ask the processor for anything, whatever codes it would give; and that is needed, since there
  the bounded retry panics at every code but a start on PowerPC, and always without a back end.
\<close>

theorem hardware_only_where_supported:
  "(if htm_supported_on t rtm
    then t = X86_64 \<and> rtm \<and> bounded_on debug t rtm m codes f = Inr (bounded m codes f)
    else commit vts (htm_supported_on t rtm) stream sh lg synch obs = commit vts False stream' sh lg synch obs \<and>
      try_clear_unpark_bits vts (htm_supported_on t rtm) stream ls lg p = try_clear_unpark_bits vts False stream' ls lg p) \<and>
   bounded_on False PowerPC64 rtm m (c # cs) f = (if c = 0 then Inl Panic else Inr (Some (f, Inr ()))) \<and>
   bounded_on debug Unsupported rtm m codes f = Inl Panic"
proof (intro conjI)
  show "if htm_supported_on t rtm
    then t = X86_64 \<and> rtm \<and> bounded_on debug t rtm m codes f = Inr (bounded m codes f)
    else commit vts (htm_supported_on t rtm) stream sh lg synch obs = commit vts False stream' sh lg synch obs \<and>
      try_clear_unpark_bits vts (htm_supported_on t rtm) stream ls lg p = try_clear_unpark_bits vts False stream' ls lg p"
    using software_only(1) [of vts stream sh lg synch obs stream'] software_only(2) [of vts stream ls lg p stream'] by (cases t) (simp_all add: bounded_on_X86 ppc_htm_supported_def x86_htm_supported_def uns_htm_supported_def)
  show "bounded_on False PowerPC64 rtm m (c # cs) f = (if c = 0 then Inl Panic else Inr (Some (f, Inr ())))"
    by (simp add: bounded_on_def hardware_tx_on_def bounded_handler_on_def ppc_is_started_def ppc_is_explicit_abort_def)
  show "bounded_on debug Unsupported rtm m codes f = Inl Panic"
    by (simp add: bounded_on_def hardware_tx_on_def uns_begin_def unsupported_def)
qed

text \<open>
  Setting \<open>TFHAR\<close>, \<open>TFIAR\<close> or \<open>TEXASRU\<close> of PowerPC sets \<open>TEXASR\<close>: with intrinsics that are independent registers, the
  register keeps its value.
\<close>

lemma setters_write_texasr:
  assumes "\<And>v m. i_get_tfhar ii (i_set_texasr ii v m) = i_get_tfhar ii m"
    and "\<And>v m. i_get_tfiar ii (i_set_texasr ii v m) = i_get_tfiar ii m"
    and "\<And>v m. i_get_texasr ii (i_set_texasr ii v m) = v"
  shows "get_tfhar ii (set_tfhar ii v m) = get_tfhar ii m" and "get_tfiar ii (set_tfiar ii v m) = get_tfiar ii m"
    and "get_texasr ii (set_tfhar ii v m) = v"
  using assms by (simp_all add: get_tfhar_def set_tfhar_def get_tfiar_def set_tfiar_def get_texasr_def)

end
