(* ===== verification/Global_Live.thy ===== *)
theory Global_Live
  imports Global_List
begin

text \<open>
  That the locks of \<open>src/internal/gc/quiesce/global.rs\<close> do not block each other for ever. It depends on what
  \<open>unlock_exclusive\<close> does to the lock of a new thread, which is taken for reading.
\<close>

section \<open>Who holds a lock\<close>

text \<open>The lock of a thread in the list is taken for reading by that thread, when it walks the list or has just been registered.\<close>

fun shared_by :: "nat \<Rightarrow> gl_pc \<Rightarrow> bool" where
  "shared_by u (Walking us) = True"
| "shared_by u (Unlocking us) \<longleftrightarrow> u \<in> set us"
| "shared_by u _ = False"

text \<open>It is taken for writing by the thread that holds the mutex.\<close>

fun excl_by :: "nat \<Rightarrow> gl_pc \<Rightarrow> bool" where
  "excl_by u (Locking ch us) \<longleftrightarrow> u \<notin> set us"
| "excl_by u (Changing ch) = True"
| "excl_by u (Unlocking us) \<longleftrightarrow> u \<in> set us"
| "excl_by u _ = False"

fun held :: "global_list \<Rightarrow> nat \<Rightarrow> rw_lock \<Rightarrow> bool" where
  "held g u Free = True"
| "held g u (Shared n) \<longleftrightarrow> n = 1 \<and> shared_by u (gl_pcs g u)"
| "held g u Exclusive \<longleftrightarrow> (\<exists>w. gl_mutex g = Some w \<and> excl_by u (gl_pcs g w))"

fun locks_once :: "gl_pc \<Rightarrow> bool" where
  "locks_once (Locking ch us) = distinct us"
| "locks_once _ = True"

definition gl_live :: "global_list \<Rightarrow> bool" where
  "gl_live g \<longleftrightarrow> gl_inv g \<and> (\<forall>w. gl_mutex g = Some w \<longrightarrow> holds_mutex (gl_pcs g w)) \<and>
     (\<forall>u\<in>set (synch_iter (gl_list g)). held g u (gl_locks g u)) \<and> (\<forall>t. locks_once (gl_pcs g t))"

lemma gl_liveD:
  assumes "gl_live g"
  shows "gl_inv g" "gl_mutex g = Some w \<Longrightarrow> holds_mutex (gl_pcs g w)"
    "u \<in> set (synch_iter (gl_list g)) \<Longrightarrow> held g u (gl_locks g u)" "locks_once (gl_pcs g t)"
  using assms by (simp_all add: gl_live_def)

lemma excl_by_holds: "excl_by u p \<Longrightarrow> holds_mutex p"
  by (cases p) auto

lemma gl_live_upd:
  assumes live: "gl_live g" and inv: "gl_inv g'"
    and g': "gl_pcs g' = (gl_pcs g)(t := p)" "set (synch_iter (gl_list g')) \<subseteq> insert t (set (synch_iter (gl_list g)))"
    and once: "locks_once p"
    and mutex: "\<And>w. gl_mutex g' = Some w \<Longrightarrow> holds_mutex (gl_pcs g' w)"
    and other: "\<And>u. u \<in> set (synch_iter (gl_list g')) \<Longrightarrow> gl_locks g' u \<noteq> gl_locks g u \<or> u \<notin> set (synch_iter (gl_list g)) \<Longrightarrow>
      held g' u (gl_locks g' u)"
    and excl: "\<And>u. u \<in> set (synch_iter (gl_list g')) \<Longrightarrow> gl_locks g u = Exclusive \<Longrightarrow> gl_locks g' u = Exclusive \<Longrightarrow>
      gl_mutex g' = gl_mutex g \<and> (gl_mutex g = Some t \<longrightarrow> excl_by u (gl_pcs g t) \<longrightarrow> excl_by u p)"
    and shared: "\<And>n. t \<in> set (synch_iter (gl_list g')) \<Longrightarrow> gl_locks g t = Shared n \<Longrightarrow> gl_locks g' t = Shared n \<Longrightarrow>
      shared_by t (gl_pcs g t) \<Longrightarrow> shared_by t p"
  shows "gl_live g'"
  unfolding gl_live_def
proof (intro conjI allI impI ballI)
  show "held g' u (gl_locks g' u)" if u: "u \<in> set (synch_iter (gl_list g'))" for u
  proof (cases "gl_locks g' u \<noteq> gl_locks g u \<or> u \<notin> set (synch_iter (gl_list g))")
    case True
    with other [OF u] show ?thesis by simp
  next
    case False
    then have h: "held g u (gl_locks g u)" and l: "gl_locks g' u = gl_locks g u"
      using gl_liveD(3) [OF live] by simp_all
    show ?thesis
    proof (cases "gl_locks g u")
      case (Shared n)
      with h l shared [of n] u show ?thesis by (cases "u = t") (simp_all add: g'(1))
    next
      case Exclusive
      with h l excl [OF u] show ?thesis by (auto simp: g'(1))
    qed (simp add: l)
  qed
qed (use inv mutex once gl_liveD(4) [OF live] in \<open>auto simp: g'(1)\<close>)

section \<open>The invariant is inductive\<close>

lemma gl_live_step:
  assumes ux: "ux (Shared 1) = Free" and live: "gl_live g" and step: "gl_step ux g g'"
  shows "gl_live g'"
proof -
  note L = gl_liveD [OF live] note I = gl_invD [OF L(1)]
  have inv: "gl_inv g'" by (rule gl_inv_step [OF L(1) step])
  have holder: "gl_mutex g = Some t" if "holds_mutex (gl_pcs g t)" for t by (rule I(3) [OF that])
  show ?thesis
    using step
  proof cases
    case (new_synch t l)
    then have "t \<notin> set (synch_iter (gl_list g))" "\<not> holds_mutex (gl_pcs g t)" using I(2) I(5) [of t] by auto
    then show ?thesis using L(2) inv unfolding new_synch(1)
      by (intro gl_live_upd [OF live, where t = t and p = "Wanting Register"]) (use new_synch in auto)
  next
    case (leave t)
    show ?thesis
      by (rule gl_live_upd [OF live inv, where t = t and p = "Wanting Unregister"])
        (use leave L(2) in auto)
  next
    case (mutex_lock t ch)
    have "gl_locks g u \<noteq> Exclusive" if "u \<in> set (synch_iter (gl_list g))" for u
      using L(3) [OF that] mutex_lock(3) by auto
    then have e: "set (synch_iter (gl_list g)) \<inter> {u. gl_locks g u = Exclusive} = {}" by auto
    show ?thesis
      by (rule gl_live_upd [OF live inv, where t = t and p = "Locking ch (synch_iter (gl_list g))"])
        (use mutex_lock e I(1) in auto)
  next
    case (lock_synch t ch u us l)
    have m: "gl_mutex g = Some t" using holder [of t] lock_synch(2) by simp
    have l: "l = Exclusive" using lock_synch(3) by (cases "gl_locks g u") simp_all
    have d: "u \<notin> set us" "distinct us" using L(4) [of t] lock_synch(2) by simp_all
    show ?thesis
      by (rule gl_live_upd [OF live inv, where t = t and p = "Locking ch us"])
        (use lock_synch L(2) m l d in \<open>auto split: if_splits\<close>)
  next
    case (all_locked t ch)
    then have m: "gl_mutex g = Some t" using holder [of t] by simp
    show ?thesis
      by (rule gl_live_upd [OF live inv, where t = t and p = "Changing ch"])
        (use all_locked L(2) m in auto)
  next
    case (change_list t ch l)
    have m: "gl_mutex g = Some t" using holder [of t] change_list(2) by simp
    have r: "ch = Register \<Longrightarrow> gl_locks g t = Shared 1" using I(6) [of t] change_list(2) by simp
    have u: "set (synch_iter (fst (unregister (gl_list g) t))) \<subseteq> set (synch_iter (gl_list g))"
      using set_unregister [OF I(1), of t] by auto
    show ?thesis
      by (rule gl_live_upd [OF live inv, where t = t and p = "Unlocking (synch_iter l)"])
        (use change_list L(2) m r u in \<open>cases ch; auto\<close>)+
  next
    case (unlock_synch t u us)
    have m: "gl_mutex g = Some t" using holder [of t] unlock_synch(2) by simp
    have l: "gl_locks g' u = Free" using unlock_synch I(4) [of t] ux by (auto simp: unlock_exclusive_def)
    show ?thesis
      by (rule gl_live_upd [OF live inv, where t = t and p = "Unlocking us"])
        (use unlock_synch L(2) m l in \<open>auto split: if_splits\<close>)
  next
    case (mutex_unlock t)
    have m: "gl_mutex g = Some t" using holder [of t] mutex_unlock(2) by simp
    have "gl_locks g u \<noteq> Exclusive" if "u \<in> set (synch_iter (gl_list g))" for u
      using L(3) [OF that] mutex_unlock(2) m by auto
    then have e: "set (synch_iter (gl_list g)) \<inter> {u. gl_locks g u = Exclusive} = {}" by auto
    show ?thesis
      by (rule gl_live_upd [OF live inv, where t = t and p = Outside]) (use mutex_unlock e in auto)
  next
    case (freeze t l)
    have l: "l = Shared 1" using L(3) [OF freeze(3)] freeze(2,4) by (cases "gl_locks g t") auto
    show ?thesis
      by (rule gl_live_upd [OF live inv, where t = t and p = "Walking (synch_iter (gl_list g))"])
        (use freeze(1,2,3) l L(2) in \<open>auto split: if_splits\<close>)
  next
    case (visit t u us)
    show ?thesis
      by (rule gl_live_upd [OF live inv, where t = t and p = "Walking us"]) (use visit L(2) in auto)
  next
    case (unfreeze t)
    have t: "t \<in> set (synch_iter (gl_list g))" "\<exists>n. gl_locks g t = Shared n" using I(4) [of t] unfreeze(2) by simp_all
    then have l: "gl_locks g t = Shared 1" using L(3) [OF t(1)] by auto
    show ?thesis
      by (rule gl_live_upd [OF live inv, where t = t and p = Outside])
        (use unfreeze l L(2) in \<open>auto split: if_splits\<close>)
  qed
qed

lemma gl_live_start: "gl_live gl_start"
  unfolding gl_live_def by (simp add: gl_inv_start) (simp add: gl_start_def)

lemma gl_live_reach:
  assumes "ux (Shared 1) = Free" and "reach (\<lambda>g. g = gl_start) (gl_step ux) g"
  shows "gl_live g"
  using assms(2)
proof induction
  case (extend g g')
  then show ?case using gl_live_step [of ux g g'] assms(1) by blast
qed (simp add: gl_live_start)

text \<open>A thread that is not waiting for a lock can always go on.\<close>

fun unblocked :: "gl_pc \<Rightarrow> bool" where
  "unblocked (Locking ch us) \<longleftrightarrow> us = []"
| "unblocked (Changing ch) = True"
| "unblocked (Unlocking us) = True"
| "unblocked (Walking us) = True"
| "unblocked _ = False"

definition moves :: "(rw_lock \<Rightarrow> rw_lock) \<Rightarrow> global_list \<Rightarrow> nat \<Rightarrow> bool" where
  "moves ux g t \<longleftrightarrow> gl_pcs g t \<noteq> Outside \<and> (\<exists>g'. gl_step ux g g' \<and> gl_pcs g' t \<noteq> gl_pcs g t)"

lemma movesI: "gl_step ux g g' \<Longrightarrow> gl_pcs g t \<noteq> Outside \<Longrightarrow> gl_pcs g' t \<noteq> gl_pcs g t \<Longrightarrow> moves ux g t"
  unfolding moves_def by blast

lemma unblocked_moves:
  assumes "unblocked (gl_pcs g t)"
  shows "moves ux g t"
proof (cases "gl_pcs g t")
  case (Locking ch us)
  with assms show ?thesis by (intro movesI [OF gl_step.all_locked [of g t ch]]) simp_all
next
  case (Changing ch)
  then show ?thesis by (intro movesI [OF gl_step.change_list [of g t ch]]) simp_all
next
  case (Unlocking us)
  then show ?thesis
    by (cases us) (auto intro: movesI [OF gl_step.unlock_synch [of g t]] movesI [OF gl_step.mutex_unlock [of g t]])
next
  case (Walking us)
  then show ?thesis
    by (cases us) (auto intro: movesI [OF gl_step.visit [of g t]] movesI [OF gl_step.unfreeze [of g t]])
qed (use assms in simp_all)

section \<open>If the lock stays taken\<close>

text \<open>
  Thread 0 is registered with its lock still taken for reading, and thread 1 waits for that lock. Thread 0 may walk the
  list, which takes the lock once more, and give up what it took.
\<close>

definition stranded :: "global_list \<Rightarrow> bool" where
  "stranded g \<longleftrightarrow> gl_inv g \<and> gl_mutex g = Some 1 \<and> gl_pcs g 1 = Locking Register [0] \<and>
     synch_iter (gl_list g) = [0] \<and>
     (gl_locks g 0 = Shared 1 \<and> (gl_pcs g 0 = Outside \<or> gl_pcs g 0 = Wanting Unregister) \<or>
      gl_locks g 0 = Shared 2 \<and> (\<exists>us. gl_pcs g 0 = Walking us))"

lemma stranded_step:
  assumes g: "stranded g" and step: "gl_step (\<lambda>l. l) g g'"
  shows "stranded g'"
proof -
  have inv: "gl_inv g'" by (rule gl_inv_step [OF _ step]) (use g in \<open>simp add: stranded_def\<close>)
  have I: "gl_inv g" using g by (simp add: stranded_def)
  have made: "0 \<in> created g" "1 \<in> created g"
    using gl_invD(2) [OF I] gl_invD(5) [OF I, of 1] g by (auto simp: stranded_def)
  have alone: "\<not> holds_mutex (gl_pcs g t)" if "t \<noteq> 1" for t
    using gl_invD(3) [OF I, of t] g that by (auto simp: stranded_def)
  have walking: "t = 0" if "gl_pcs g t = Walking us" for t us
    using gl_invD(4) [OF I, of t] that g by (simp add: stranded_def)
  show ?thesis
    using step
  proof cases
    case (change_list t ch l)
    with alone [of t] g show ?thesis by (cases "t = 1") (auto simp: stranded_def)
  next
    case (unlock_synch t u us)
    with alone [of t] g show ?thesis by (cases "t = 1") (auto simp: stranded_def)
  next
    case (mutex_unlock t)
    with alone [of t] g show ?thesis by (cases "t = 1") (auto simp: stranded_def)
  next
    case (all_locked t ch)
    with alone [of t] g show ?thesis by (cases "t = 1") (auto simp: stranded_def)
  next
    case (lock_synch t ch u us l)
    with alone [of t] g show ?thesis by (cases "t = 1") (auto simp: stranded_def)
  next
    case (new_synch t l)
    then have "t \<noteq> 0" "t \<noteq> 1" using made by metis+
    with new_synch g inv show ?thesis by (auto simp: stranded_def)
  next
    case (freeze t l)
    then have "t = 0" using g by (simp add: stranded_def)
    with freeze g inv show ?thesis by (auto simp: stranded_def numeral_2_eq_2)
  next
    case (leave t)
    then have "t = 0" using g by (simp add: stranded_def)
    with leave g inv show ?thesis by (auto simp: stranded_def)
  next
    case (visit t u us)
    with walking [of t] g inv show ?thesis by (auto simp: stranded_def)
  next
    case (unfreeze t)
    with walking [of t] g inv show ?thesis by (auto simp: stranded_def)
  qed (use g in \<open>auto simp: stranded_def\<close>)
qed

lemma stranded_reach:
  assumes "stranded g" and "reach (\<lambda>s. s = g) (gl_step (\<lambda>l. l)) g'"
  shows "gl_pcs g' 1 = Locking Register [0] \<and> gl_locks g' 0 \<noteq> Free"
proof -
  have "stranded g'"
    using assms(2)
  proof induction
    case (extend s s')
    show ?case by (rule stranded_step [OF extend.IH extend.hyps(2)])
  qed (use assms(1) in simp)
  then show ?thesis by (auto simp: stranded_def)
qed

section \<open>Properties\<close>


text \<open>Thread 0 has registered and thread 1 waits for the mutex.\<close>

lemma gl_run_two:
  fixes ux
  defines "l0 \<equiv> ux (Shared 1)"
  shows "reach (\<lambda>g. g = gl_start) (gl_step ux)
     (gl_at (register synch_list_new 0) None l0 (Shared 1) Outside (Wanting Register) {0, 1})"
proof -
  let ?R = "reach (\<lambda>g. g = gl_start) (gl_step ux)" let ?l = "register synch_list_new 0"
  have "?R (gl_at ?l (Some 0) l0 Free (Unlocking []) Outside {0})"
    by (rule reach.extend [OF gl_run]) (use gl_step.unlock_synch [of "gl_at ?l (Some 0) (Shared 1) Free (Unlocking [0]) Outside {0}" 0 0 "[]" ux] in
      \<open>simp add: gl_at_def fun_upd_twist unlock_exclusive_def l0_def\<close>)
  then have "?R (gl_at ?l None l0 Free Outside Outside {0})"
    by (rule reach.extend) (use gl_step.mutex_unlock [of "gl_at ?l (Some 0) l0 Free (Unlocking []) Outside {0}" 0 ux] in
      \<open>simp add: gl_at_def fun_upd_twist\<close>)
  then show ?thesis
    by (rule reach.extend) (use gl_step.new_synch [of 1 "gl_at ?l None l0 Free Outside Outside {0}" "Shared 1" ux] in
      \<open>simp add: gl_at_def insert_commute\<close>)
qed



end
