(* ===== verification/Quiesce.thy ===== *)
theory Quiesce
  imports Thread_Garbage
begin

text \<open>
  \<open>src/internal/gc/quiesce/synch.rs\<close>: how a collector waits for one thread, and the walk over all threads with that waiting. Theory
  \<open>Thread_Garbage\<close> has the result of the walk only. What the loads of a thread's epoch return is an argument, the list
  of those values in order; \<open>None\<close> means that the collector is still waiting when they are used up. The
  backoff is the library's: \<open>completed n\<close> says whether it advises to stop spinning after \<open>n\<close> turns.
\<close>

section \<open>Waiting for one thread\<close>

fun local_quiesce_loop :: "(nat \<Rightarrow> bool) \<Rightarrow> quiesce_epoch \<Rightarrow> nat \<Rightarrow> usize \<Rightarrow> thread_epoch list \<Rightarrow> (nat \<times> usize) option" where
  "local_quiesce_loop completed epoch turns should_park_count [] = None"
| "local_quiesce_loop completed epoch turns should_park_count (w # ws) =
     (if is_quiesced w epoch then Some (Suc turns, should_park_count)
      else local_quiesce_loop completed epoch (Suc turns)
        (if completed (Suc turns) then should_park_count + 1 else should_park_count) ws)"

text \<open>The result is what is recorded as \<open>should_park_gc\<close>, if anything.\<close>

definition local_quiesce :: "(nat \<Rightarrow> bool) \<Rightarrow> quiesce_epoch \<Rightarrow> thread_epoch list \<Rightarrow> usize list option" where
  "local_quiesce completed epoch ws =
     map_option (\<lambda>(turns, should_park_count). if completed turns then [should_park_count] else [])
       (local_quiesce_loop completed epoch 0 0 ws)"

lemma local_quiesce_loop_returns:
  "local_quiesce_loop completed epoch turns k ws \<noteq> None \<longleftrightarrow> (\<exists>w\<in>set ws. is_quiesced w epoch)"
  by (induction ws arbitrary: turns k) simp_all

lemma local_quiesce_returns: "local_quiesce completed epoch ws \<noteq> None \<longleftrightarrow> (\<exists>w\<in>set ws. is_quiesced w epoch)"
  using local_quiesce_loop_returns [of completed epoch 0 0 ws] by (simp add: local_quiesce_def)

section \<open>The walk\<close>

text \<open>
  \<open>FreezeList::quiesce\<close>, for each thread the loads of its epoch: the epochs that count for the minimum, and what
  is recorded on the way.
\<close>

fun quiesce_walk :: "(nat \<Rightarrow> bool) \<Rightarrow> quiesce_epoch \<Rightarrow> thread_epoch list list \<Rightarrow> (quiesce_epoch list \<times> usize list) option" where
  "quiesce_walk completed epoch [] = Some ([], [])"
| "quiesce_walk completed epoch ([] # wss) = None"
| "quiesce_walk completed epoch ((w # ws) # wss) =
     (if thread_epoch_get w > epoch
      then map_option (map_prod (Cons (thread_epoch_get w)) id) (quiesce_walk completed epoch wss)
      else case local_quiesce completed epoch ws of
          None \<Rightarrow> None
        | Some st \<Rightarrow> map_option (map_prod id (append st)) (quiesce_walk completed epoch wss))"

definition freeze_quiesce :: "(nat \<Rightarrow> bool) \<Rightarrow> quiesce_epoch \<Rightarrow> thread_epoch list list \<Rightarrow> (quiesce_epoch \<times> usize list) option" where
  "freeze_quiesce completed epoch wss =
     map_option (map_prod (\<lambda>es. case es of [] \<Rightarrow> max_value | e # es \<Rightarrow> fold min es e) id) (quiesce_walk completed epoch wss)"

text \<open>A thread has moved on: some load after the first, or the first, gives a later epoch.\<close>

definition moved_on :: "quiesce_epoch \<Rightarrow> thread_epoch list \<Rightarrow> bool" where
  "moved_on epoch ws \<longleftrightarrow> (\<exists>w\<in>set ws. is_quiesced w epoch)"

lemma quiesce_walk_eq:
  "(if \<forall>ws\<in>set wss. moved_on epoch ws
    then \<exists>st. quiesce_walk completed epoch wss =
      Some (List.map_filter (\<lambda>e. if e > epoch then Some e else None) (map (\<lambda>ws. thread_epoch_get (hd ws)) wss), st)
    else quiesce_walk completed epoch wss = None)"
proof (induction completed epoch wss rule: quiesce_walk.induct)
  case (3 completed epoch w ws wss)
  show ?case
  proof (cases "thread_epoch_get w > epoch")
    case True
    with 3(1) show ?thesis by (auto simp: moved_on_def is_quiesced_def map_filter_simps split: if_splits)
  next
    case False
    then have m: "moved_on epoch (w # ws) \<longleftrightarrow> local_quiesce completed epoch ws \<noteq> None"
      using local_quiesce_returns [of completed epoch ws] by (simp add: moved_on_def is_quiesced_def)
    show ?thesis
    proof (cases "local_quiesce completed epoch ws")
      case None
      with m False show ?thesis by simp
    next
      case (Some st)
      with m False 3(2) [OF False Some] show ?thesis
        by (auto simp: map_filter_simps split: if_splits)
    qed
  qed
qed (simp_all add: map_filter_simps moved_on_def)

text \<open>
  The walk returns exactly if every thread moves on, and then with the result of theory \<open>Thread_Garbage\<close> for the epochs that it saw
  first.
\<close>

lemma freeze_quiesce_eq:
  "map_option fst (freeze_quiesce completed epoch wss) =
     (if \<forall>ws\<in>set wss. moved_on epoch ws then Some (quiesce epoch (map (\<lambda>ws. thread_epoch_get (hd ws)) wss)) else None)"
  using quiesce_walk_eq [of wss epoch completed] by (auto simp: freeze_quiesce_def quiesce_def split: if_splits)

end
