(* ===== verification/Dyn_Iter.thy ===== *)
theory Dyn_Iter
  imports Alloc
begin

text \<open>
  The iterators of \<open>src/internal/alloc/dyn_vec.rs\<close>, one \<open>next\<close> at a time. Theory \<open>Alloc\<close> has what they yield when they run to
  their end. An iterator is the words that it has not passed; a draining iterator owns the elements it
  yields, and the vector is empty from the moment it is made.
\<close>

section \<open>Iterators\<close>

text \<open>\<open>TraitObject::from_flat\<close> at the first word, and as many more words as the value has.\<close>

definition iter_next :: "(usize \<Rightarrow> nat) \<Rightarrow> usize list \<Rightarrow> (dyn_elem option \<times> usize list) outcome" where
  "iter_next vts ws =
     (case ws of
        [] \<Rightarrow> Inr (None, [])
      | v # rest \<Rightarrow>
          if length rest < vts v then Inl Undefined
          else Inr (Some (v, take (vts v) rest), drop (vts v) rest))"

text \<open>\<open>IterMut\<close> yields a place to write to: the word index at which the element starts.\<close>

definition iter_mut_next :: "(usize \<Rightarrow> nat) \<Rightarrow> usize list \<Rightarrow> nat \<Rightarrow> ((nat \<times> dyn_elem) option \<times> nat) outcome" where
  "iter_mut_next vts data i =
     (if length data \<le> i then Inr (None, i)
      else if length data - Suc i < vts (data ! i) then Inl Undefined
      else Inr (Some (i, (data ! i, take (vts (data ! i)) (drop (Suc i) data))), Suc i + vts (data ! i)))"

section \<open>Vectors\<close>

definition dyn_vec_new :: "usize fvec" where
  "dyn_vec_new = fvec_new"

definition dyn_vec_with_capacity :: "nat \<Rightarrow> usize fvec" where
  "dyn_vec_with_capacity capacity = fvec_with_capacity capacity"

definition dyn_vec_is_empty :: "usize fvec \<Rightarrow> bool" where
  "dyn_vec_is_empty v \<longleftrightarrow> fdata v = []"

definition dyn_vec_word_capacity :: "usize fvec \<Rightarrow> nat" where
  "dyn_vec_word_capacity v = fcap v"

definition dyn_vec_word_len :: "usize fvec \<Rightarrow> nat" where
  "dyn_vec_word_len v = length (fdata v)"

definition iter_start :: "usize fvec \<Rightarrow> usize list" where
  "iter_start v = fdata v"

definition iter_mut_start :: "usize fvec \<Rightarrow> nat" where
  "iter_mut_start v = 0"

text \<open>\<open>drain\<close>: the emptied vector, and the iterator over what was in it; dropping an element that it yields drops the value.\<close>

definition drain_start :: "usize fvec \<Rightarrow> usize fvec \<times> usize list" where
  "drain_start v = (fvec_clear v, fdata v)"

definition drain_next :: "(usize \<Rightarrow> nat) \<Rightarrow> usize list \<Rightarrow> (dyn_elem option \<times> usize list) outcome" where
  "drain_next vts ws = iter_next vts ws"

definition owned_drop :: "dyn_elem \<Rightarrow> dyn_elem list \<Rightarrow> dyn_elem list" where
  "owned_drop value dropped = dropped @ [value]"

text \<open>The first elements of a drain are taken and dropped, and then the drain itself is dropped or forgotten.\<close>

fun drain_some :: "(usize \<Rightarrow> nat) \<Rightarrow> nat \<Rightarrow> usize list \<Rightarrow> dyn_elem list \<Rightarrow> dyn_elem list outcome" where
  "drain_some vts 0 ws dropped = Inr dropped"
| "drain_some vts (Suc n) ws dropped =
     (case drain_next vts ws of
        Inl e \<Rightarrow> Inl e
      | Inr (None, ws') \<Rightarrow> Inr dropped
      | Inr (Some value, ws') \<Rightarrow> drain_some vts n ws' (owned_drop value dropped))"

definition dyn_vec_drop :: "(usize \<Rightarrow> nat) \<Rightarrow> usize fvec \<Rightarrow> (usize fvec \<times> dyn_elem list) outcome" where
  "dyn_vec_drop vts v = dyn_clear vts v"

section \<open>Lemmas\<close>

lemma iter_next_words:
  "elem_ok vts e \<Longrightarrow> iter_next vts (as_slice e @ ws) = Inr (Some e, ws)"
  by (cases e) (simp add: iter_next_def as_slice_def elem_ok_def)

lemma iter_next_Nil: "iter_next vts [] = Inr (None, [])"
  by (simp add: iter_next_def)

text \<open>An iterator step by step is the list of theory \<open>Alloc\<close>, undefined behaviour included.\<close>

lemma dyn_iter_next:
  "dyn_iter vts ws =
     (case iter_next vts ws of
        Inl e \<Rightarrow> Inl e
      | Inr (None, ws') \<Rightarrow> Inr []
      | Inr (Some e, ws') \<Rightarrow> map_sum id (Cons e) (dyn_iter vts ws'))"
  by (cases ws) (auto simp: iter_next_def split: sum.split)

text \<open>The element that \<open>IterMut\<close> yields at a word index is the one that indexing finds there.\<close>

lemma iter_mut_next_index:
  assumes "iter_mut_next vts data i = Inr (Some (j, e), i')"
  shows "j = i" and "word_index_unchecked vts data i = Inr e" and "i' = i + length (as_slice e)"
  using assms by (auto simp: iter_mut_next_def word_index_unchecked_def as_slice_def split: if_splits)

lemma drain_some_words:
  assumes "list_all (elem_ok vts) es"
  shows "drain_some vts n (dyn_words es) dropped = Inr (dropped @ take n es)"
  using assms
proof (induction n arbitrary: es dropped)
  case (Suc n)
  then show ?case
    by (cases es) (simp_all add: drain_next_def iter_next_words iter_next_Nil owned_drop_def)
qed simp

section \<open>Draining\<close>

text \<open>
  A drain drops exactly the elements that were taken from it, in order; whatever was not taken is not dropped, and the
  vector is empty in any case, with its capacity. Taking all of them is \<open>clear\<close>, which is also what dropping the vector
  does.
\<close>

lemma drain_drops_what_is_taken:
  assumes "elems_of_words vts v es"
  shows "drain_start v = (fvec_clear v, dyn_words es) \<and>
    drain_some vts n (snd (drain_start v)) [] = Inr (take n es) \<and>
    dyn_vec_is_empty (fst (drain_start v)) \<and>
    dyn_vec_word_capacity (fst (drain_start v)) = dyn_vec_word_capacity v \<and>
    (length es \<le> n \<longrightarrow> dyn_vec_drop vts v = Inr (fst (drain_start v), take n es))"
proof -
  have es: "list_all (elem_ok vts) es" "fdata v = dyn_words es"
    using assms by (simp_all add: elems_of_words_def)
  then show ?thesis
    by (simp add: drain_start_def drain_some_words dyn_vec_is_empty_def dyn_vec_word_capacity_def fvec_clear_def
        dyn_vec_drop_def dyn_clear_def dyn_drain_def dyn_iter_words)
qed

end
