(* ===== verification/Spec2Isabelle.thy ===== *)
theory Spec2Isabelle
  imports Stm_Theorems Commit Htm Starvation_Proofs Parking Thread_Proofs Rb_Theorems
    Reclaim_Theorems Tcell Phoenix Wakeup Global_List Thread_Life Stats Rb_Atomic Rb_World Htm_Targets Global_Live Quiesce Dyn_Iter
begin

text \<open>
  A verification library of swym, a software transactional memory for Rust with hardware
  acceleration, and of the red-black tree map built on it.

  The program. Threads run transactions over transactional cells. Each cell has an epoch lock, a word
  that is both its lock and its version. A transaction pins the current time of a global
  clock, reads cells word by word and checks each cell's lock word against its pin, and keeps
  its writes in a log. To commit it locks the cells of the write log by compare-exchange,
  validates the read log, stores the pending words, ticks the clock and publishes the new time
  into the locks; or it does all of that in one hardware transaction. Values replaced by a commit are garbage
  that is dropped when every thread that could still see it has moved on. A thread whose transaction fails
  again and again takes the starvation lock, and one that waits for a change parks on the cells it has read.

  Theories, in the order of the program's layers. Paths are relative to \<open>src/internal/\<close> if not said otherwise.

  \<^item> \<open>Prelude\<close>: machine words, outcomes of partial operations (panics, undefined behaviour), lists,
    reachability of step relations and the locale \<open>protocol\<close>.
  \<^item> \<open>Epoch\<close> (\<open>epoch.rs\<close>): times, lock words, the clock. One unsigned comparison decides validity; the life
    cycle of a lock word; the clock's range.
  \<^item> \<open>Alloc\<close> (\<open>alloc/fvec.rs\<close>, \<open>alloc/dyn_vec.rs\<close>): flat vectors of words that hold values of different
    sizes, behind the locale \<open>typed_vec\<close>. \<open>Dyn_Iter\<close>: their iterators step by step, and draining.
  \<^item> \<open>Bloom\<close>, \<open>Read_Log\<close>, \<open>Write_Log\<close> (\<open>bloom.rs\<close>, \<open>read_log.rs\<close>, \<open>write_log.rs\<close>): a transaction's logs.
  \<^item> \<open>Thread_Garbage\<close> (\<open>gc/thread_garbage.rs\<close>, \<open>gc/quiesce/synch.rs\<close>): what a thread has replaced and
    when it is dropped.
  \<^item> \<open>Rw_Tx\<close> (\<open>src/rw.rs\<close>, \<open>src/read.rs\<close>): the reads and writes of one transaction, refined to a map of
    pending writes.
  \<^item> \<open>Tcell\<close> (\<open>src/tcell.rs\<close>, \<open>src/tptr.rs\<close>): the public cells on those transactions; who owns a published box.
  \<^item> \<open>Phoenix\<close> (\<open>phoenix_tls.rs\<close>): reference counted thread locals that outlive the end of their thread.
  \<^item> \<open>Htm\<close> (\<open>swym-htm\<close>): begin codes and the retry loop of hardware transactions. What the processor answers
    is a parameter, a stream of codes. \<open>Htm_Targets\<close>: the three back ends, and that hardware is asked only where it works.
  \<^item> \<open>Commit\<close> (\<open>commit.rs\<close>): one commit, in software or hardware, run without interruption.
  \<^item> \<open>Stm\<close>, \<open>Stm_Inv\<close>, \<open>Stm_Steps\<close>, \<open>Stm_Theorems\<close>: the same operations as atomic steps of any number of
    threads in every interleaving; the invariant; opacity and serializability.
  \<^item> \<open>Synch\<close> (\<open>gc/quiesce/synch_list.rs\<close>): the list of registered threads. \<open>Reclaim\<close>, \<open>Reclaim_Proofs\<close>,
    \<open>Reclaim_Theorems\<close> (\<open>gc/quiesce/synch.rs\<close>): the steps of theory \<open>Stm\<close> with those of pinning, registering, and
    collecting, which looks at the epoch of one thread at a time; no value that a running transaction has read is dropped. A flag
    of the step relation lets a pin become visible late, and then the promise breaks.
  \<^item> \<open>Global_List\<close> (\<open>gc/quiesce/global.rs\<close>): the locks that guard the list of threads. That nobody
    changes it while someone walks it, which theory \<open>Reclaim\<close> has as a condition of its steps, is proved there.
    \<open>Global_Live\<close>: that the locks do not deadlock, if unlocking the lock of a new thread frees it. \<open>Quiesce\<close> (\<open>gc/quiesce/synch.rs\<close>): how a collector waits for a thread.
  \<^item> \<open>Starvation\<close>, \<open>Starvation_Proofs\<close> (\<open>starvation.rs\<close>): when a thread goes for the starvation lock, and all
    threads on it, with the parking lot of theory \<open>Parking_Lot\<close> as queue of sleepers.
  \<^item> \<open>Parking\<close> (\<open>parking.rs\<close>): sleeping until a cell that was read has changed; what wakes whom. \<open>Wakeup\<close>: the same
    as atomic steps on those of theory \<open>Stm\<close>; no wake-up is lost.
  \<^item> \<open>Thread\<close>, \<open>Thread_Proofs\<close> (\<open>thread.rs\<close>, \<open>src/thread_key.rs\<close>): pinning, the run loops of read only and
    read-write transactions, the entry points. A run loop gets a list of attempts, what the
    shared state and the processor do in each; it refines its specification on that list and
    returns as soon as one attempt is not disturbed. \<open>Thread_Life\<close>: what a thread leaves behind when it ends.
  \<^item> \<open>Stats\<close> (\<open>src/stats.rs\<close>, \<open>src/stats_list.rs\<close>): the counters of threads and the global ones.
  \<^item> \<open>Rb_Store\<close> (\<open>swym-rbtree/src/base.rs\<close>): references, packed parent pointers and colours, the cells of all nodes, and
    the operations on cells as a monad that carries an oracle for conflicts and the list of accesses; \<open>wp\<close> and its rewrite
    rules. \<open>Rb_Base\<close>: all algorithms of \<open>base.rs\<close> and the map of \<open>swym-rbtree/src/lib.rs\<close>.
  \<^item> \<open>Rb_Tree\<close>: the tree that links form, contexts for a position in it, the red-black and search tree properties.
    \<open>Rb_Insert\<close>, \<open>Rb_Remove\<close>, \<open>Rb_Unlink\<close>: searching, insertion and removal, with their repairs along parent pointers.
    \<open>Rb_Map\<close>: the locale \<open>tx_map\<close> of what a client relies on, interpreted on the map. \<open>Rb_Verify\<close>: the checker and dropping.
    \<open>Rb_Races\<close>: two transactions by their accesses. \<open>Rb_Theorems\<close>: the properties.
    \<open>Rb_Atomic\<close>: the map whose operations are transactions of their own.
  \<^item> \<open>Rb_Replay\<close>, \<open>Rb_Tidy\<close>, \<open>Rb_Serial\<close>, \<open>Rb_World\<close>: transactions of several calls on a map and what their commits check. An operation of
    the tree is tidy: a run is determined by the cells it reads and the keys of the nodes it can reach, and whatever it reads with a relaxed
    ordering it writes later, or checked before. A calculus of rules over the accesses shows this of every operation that an entry of the map
    calls. So a transaction of entries and lookups takes effect at its commit, and every history of any number of threads is serial on a finite map; with \<open>insert\<close> of the map, which finds its place by relaxed reads, it need not.

  Fuel. A loop that follows tree links takes fuel; \<open>rb_fuel\<close>, which is 127, is enough for every tree, since addresses have 64
  bits and a red-black tree of fewer than \<open>2 ^ 63\<close> nodes is at most 126 high; that running out does not happen is
  part of every \<open>wp\<close>. Loops on lists of the model are structural. The retry loops of the starvation and parking
  parts are steps of a relation and need none.

  Not modelled: the printing of statistics; raw allocation and the layout of cells in memory; the instructions of hardware transactions; the inside of
  the library's locks, which are what their documentation says; weak memory orderings, as all steps are sequentially consistent, but for the pin that theory \<open>Reclaim\<close> lets
  become visible late.
\<close>

end
